(* ===== verification/Prelude.thy ===== *)
theory Prelude
  imports Main "HOL-Library.Word"
begin

text \<open>
  Shared vocabulary of the development: the C integer types as words, the faults a kernel
  path can end in, the sequencing operator of the fallible kernel functions together with
  its inversion rules, and generic facts about words and lists that the components use.

  A kernel function that can fail returns a \<open>'a result\<close>, that is \<open>fault + 'a\<close>:
  \<^item> \<open>Panic msg\<close> stands for a call of \<open>panic(msg)\<close> (kernel/printf.c), after which the
    machine prints the message and spins for ever;
  \<^item> \<open>WildAccess\<close> stands for an access through a pointer that the kernel page table does
    not map (a null pointer, an address outside RAM) or outside the bounds of a kernel
    array; on the machine a bad pointer ends in \<open>panic("kerneltrap")\<close>;
  \<^item> \<open>Spin\<close> stands for a busy-wait loop that this processor cannot leave by itself;
  \<^item> \<open>Sleep\<close> stands for a call of \<open>sleep()\<close> that only another process can end.
\<close>

unbundle bit_operations_syntax

section \<open>C integer types\<close>

type_synonym byte = "8 word"
type_synonym uint16 = "16 word"
type_synonym uint = "32 word"
type_synonym uint64 = "64 word"
type_synonym addr = "64 word"
type_synonym memory = "addr \<Rightarrow> byte"

section \<open>Faults and sequencing\<close>

datatype fault = Panic string | WildAccess | Spin | Sleep

type_synonym 'a result = "fault + 'a"

definition rbind :: "'a result \<Rightarrow> ('a \<Rightarrow> 'b result) \<Rightarrow> 'b result" where
  "rbind m f = (case m of Inl e \<Rightarrow> Inl e | Inr x \<Rightarrow> f x)"

named_theorems result_iff \<open>inversion of a fallible computation that returned\<close>

lemma rbind_simps [simp]:
  "rbind (Inl e) f = Inl e"
  "rbind (Inr x) f = f x"
  by (simp_all add: rbind_def)

lemma rbind_Inr_iff [result_iff]:
  "rbind m f = Inr y \<longleftrightarrow> (\<exists>x. m = Inr x \<and> f x = Inr y)"
  by (cases m) auto

lemma rbind_Inl_iff:
  "rbind m f = Inl e \<longleftrightarrow> m = Inl e \<or> (\<exists>x. m = Inr x \<and> f x = Inl e)"
  by (cases m) auto

lemma rbind_InrE [elim]:
  assumes "rbind m f = Inr y"
  obtains x where "m = Inr x" and "f x = Inr y"
  using assms by (auto simp: result_iff)

lemma rbind_assoc: "rbind (rbind m f) g = rbind m (\<lambda>x. rbind (f x) g)"
  by (cases m) auto

lemma rbind_cong [fundef_cong]:
  assumes "m = m'" and "\<And>x. m' = Inr x \<Longrightarrow> f x = f' x"
  shows "rbind m f = rbind m' f'"
  using assms by (cases m') auto

lemma if_Inr_iff [result_iff]:
  "(if b then Inl e else m) = Inr y \<longleftrightarrow> \<not> b \<and> m = Inr y"
  "(if b then m else Inl e) = Inr y \<longleftrightarrow> b \<and> m = Inr y"
  by auto

text \<open>A \<open>for\<close> loop over a known list of values that threads a state and may fault.\<close>

primrec rfold :: "('a \<Rightarrow> 's \<Rightarrow> 's result) \<Rightarrow> 'a list \<Rightarrow> 's \<Rightarrow> 's result" where
  "rfold f [] s = Inr s"
| "rfold f (x # xs) s = rbind (f x s) (rfold f xs)"

lemma rfold_append: "rfold f (xs @ ys) s = rbind (rfold f xs s) (rfold f ys)"
  by (induction xs arbitrary: s) (auto simp: rbind_assoc intro: rbind_cong)

lemma rfold_cong [fundef_cong]:
  assumes "xs = ys" "s = t" "\<And>x u. x \<in> set ys \<Longrightarrow> f x u = g x u"
  shows "rfold f xs s = rfold g ys t"
  unfolding assms(1,2) using assms(3)
proof (induction ys arbitrary: t)
  case (Cons y ys)
  then have "rfold f ys = rfold g ys" by auto
  then show ?case using Cons.prems by simp
qed simp

text \<open>An invariant carries over a loop whose every step succeeds and keeps it.\<close>

lemma rfold_inv:
  assumes "P s" "\<And>x t. x \<in> set xs \<Longrightarrow> P t \<Longrightarrow> \<exists>u. f x t = Inr u \<and> P u"
  shows "\<exists>u. rfold f xs s = Inr u \<and> P u"
  using assms
proof (induction xs arbitrary: s)
  case (Cons x xs)
  obtain u where "f x s = Inr u" "P u" using Cons.prems by (meson list.set_intros(1))
  then show ?case using Cons.IH [of u] Cons.prems(2) by (simp add: list.set_intros(2))
qed auto

section \<open>Words\<close>

lemma unat_add_lem64:
  fixes a b :: "64 word"
  shows "unat a + unat b < 2 ^ 64 \<Longrightarrow> unat (a + b) = unat a + unat b"
  by (simp add: unat_word_ariths)

lemma unat_sub64:
  fixes a b :: "64 word"
  shows "b \<le> a \<Longrightarrow> unat (a - b) = unat a - unat b"
  by (rule unat_sub)

lemma unat_numeral_lt8:
  "unat (2 :: addr) < 8" "unat (3 :: addr) < 8" "unat (4 :: addr) < 8" "unat (5 :: addr) < 8"
  "unat (6 :: addr) < 8" "unat (7 :: addr) < 8" "unat (0 :: addr) < 8" "unat (1 :: addr) < 8"
  by simp_all

lemma unat_lt64 [simp]: "unat (a :: 64 word) < 18446744073709551616"
  using unsigned_less [of a, where ?'a = nat] by simp

lemma unat_of_nat64: "n < 2 ^ 64 \<Longrightarrow> unat (of_nat n :: 64 word) = n"
  by (simp add: unat_of_nat)

lemma word64_eqI: "unat (a :: 64 word) = unat b \<Longrightarrow> a = b"
  by (simp add: word_unat_eq_iff)

lemma word_sub_less_iff:
  fixes x a :: "'a :: len word"
  shows "unat (x - a) < n \<longleftrightarrow> (\<exists>i < n. i < 2 ^ LENGTH('a) \<and> x = a + of_nat i)"
proof
  assume "unat (x - a) < n"
  moreover have "x = a + of_nat (unat (x - a))" by simp
  moreover have "unat (x - a) < 2 ^ LENGTH('a)" by (rule unsigned_less)
  ultimately show "\<exists>i < n. i < 2 ^ LENGTH('a) \<and> x = a + of_nat i" by blast
next
  assume "\<exists>i < n. i < 2 ^ LENGTH('a) \<and> x = a + of_nat i"
  then obtain i where "i < n" "i < 2 ^ LENGTH('a)" "x = a + of_nat i" by blast
  then show "unat (x - a) < n" by (simp add: unat_of_nat)
qed

section \<open>Lists\<close>

lemma nth_take_drop: "i < n \<Longrightarrow> k + i < length xs \<Longrightarrow> take n (drop k xs) ! i = xs ! (k + i)"
  by simp

lemma in_set_upt_lt [simp]: "i \<in> set [0..<n] \<longleftrightarrow> i < n"
  by auto

end
