(* ===== verification/Kstring.thy ===== *)
theory Kstring
  imports Prelude
begin

text \<open>
  The byte-string routines of kernel/string.c over a byte-addressed memory. Every loop of
  the source is a recursion on the number of iterations left; pointers are 64-bit words, so
  pointer arithmetic wraps as on the machine. The lemmas give each loop its closed form: the
  page-filling and page-copying steps of the allocator and of the virtual memory code are
  reasoned about through \<open>memset_eq\<close> and \<open>memmove_eq\<close>.
\<close>

section \<open>The routines\<close>

primrec memset_loop :: "nat \<Rightarrow> memory \<Rightarrow> addr \<Rightarrow> byte \<Rightarrow> memory" where
  "memset_loop 0 m cdst c = m"
| "memset_loop (Suc k) m cdst c = memset_loop k (m(cdst := c)) (cdst + 1) c"

definition memset :: "memory \<Rightarrow> addr \<Rightarrow> byte \<Rightarrow> uint \<Rightarrow> memory" where
  "memset m dst c n = memset_loop (unat n) m dst c"

primrec memcmp_loop :: "nat \<Rightarrow> memory \<Rightarrow> addr \<Rightarrow> addr \<Rightarrow> int" where
  "memcmp_loop 0 m s1 s2 = 0"
| "memcmp_loop (Suc k) m s1 s2 =
     (if m s1 \<noteq> m s2 then int (unat (m s1)) - int (unat (m s2))
      else memcmp_loop k m (s1 + 1) (s2 + 1))"

definition memcmp :: "memory \<Rightarrow> addr \<Rightarrow> addr \<Rightarrow> uint \<Rightarrow> int" where
  "memcmp m v1 v2 n = memcmp_loop (unat n) m v1 v2"

text \<open>The two copying loops of memmove: downwards with pre-decrement, upwards with
  post-increment.\<close>

primrec move_down :: "nat \<Rightarrow> memory \<Rightarrow> addr \<Rightarrow> addr \<Rightarrow> memory" where
  "move_down 0 m d s = m"
| "move_down (Suc k) m d s = move_down k (m(d - 1 := m (s - 1))) (d - 1) (s - 1)"

primrec move_up :: "nat \<Rightarrow> memory \<Rightarrow> addr \<Rightarrow> addr \<Rightarrow> memory" where
  "move_up 0 m d s = m"
| "move_up (Suc k) m d s = move_up k (m(d := m s)) (d + 1) (s + 1)"

definition memmove :: "memory \<Rightarrow> addr \<Rightarrow> addr \<Rightarrow> uint \<Rightarrow> memory" where
  "memmove m dst src n =
     (if n = 0 then m
      else if src < dst \<and> src + ucast n > dst
        then move_down (unat n) m (dst + ucast n) (src + ucast n)
      else move_up (unat n) m dst src)"

definition memcpy :: "memory \<Rightarrow> addr \<Rightarrow> addr \<Rightarrow> uint \<Rightarrow> memory" where
  "memcpy m dst src n = memmove m dst src n"

primrec strncmp_loop :: "nat \<Rightarrow> memory \<Rightarrow> addr \<Rightarrow> addr \<Rightarrow> int" where
  "strncmp_loop 0 m p q = 0"
| "strncmp_loop (Suc k) m p q =
     (if m p \<noteq> 0 \<and> m p = m q then strncmp_loop k m (p + 1) (q + 1)
      else int (unat (m p)) - int (unat (m q)))"

definition strncmp :: "memory \<Rightarrow> addr \<Rightarrow> addr \<Rightarrow> uint \<Rightarrow> int" where
  "strncmp m p q n = strncmp_loop (unat n) m p q"

text \<open>strncpy copies up to and including the terminating zero, then pads with zeros.\<close>

primrec strncpy_pad :: "nat \<Rightarrow> memory \<Rightarrow> addr \<Rightarrow> memory" where
  "strncpy_pad 0 m s = m"
| "strncpy_pad (Suc k) m s = strncpy_pad k (m(s := 0)) (s + 1)"

primrec strncpy_loop :: "nat \<Rightarrow> memory \<Rightarrow> addr \<Rightarrow> addr \<Rightarrow> memory" where
  "strncpy_loop 0 m s t = m"
| "strncpy_loop (Suc k) m s t =
     (if m t \<noteq> 0 then strncpy_loop k (m(s := m t)) (s + 1) (t + 1)
      else strncpy_pad k (m(s := m t)) (s + 1))"

definition strncpy :: "memory \<Rightarrow> addr \<Rightarrow> addr \<Rightarrow> int \<Rightarrow> memory" where
  "strncpy m s t n = strncpy_loop (nat n) m s t"

primrec safestrcpy_loop :: "nat \<Rightarrow> memory \<Rightarrow> addr \<Rightarrow> addr \<Rightarrow> memory" where
  "safestrcpy_loop 0 m s t = m(s := 0)"
| "safestrcpy_loop (Suc k) m s t =
     (if m t \<noteq> 0 then safestrcpy_loop k (m(s := m t)) (s + 1) (t + 1)
      else (m(s := m t))(s + 1 := 0))"

definition safestrcpy :: "memory \<Rightarrow> addr \<Rightarrow> addr \<Rightarrow> int \<Rightarrow> memory" where
  "safestrcpy m s t n = (if n \<le> 0 then m else safestrcpy_loop (nat n - 1) m s t)"

text \<open>strlen has no bound: without a zero byte it does not return.\<close>

partial_function (option) strlen_from :: "memory \<Rightarrow> addr \<Rightarrow> nat \<Rightarrow> nat option" where
  "strlen_from m s n = (if m (s + of_nat n) \<noteq> 0 then strlen_from m s (Suc n) else Some n)"

definition strlen :: "memory \<Rightarrow> addr \<Rightarrow> nat option" where
  "strlen m s = strlen_from m s 0"

section \<open>Closed forms\<close>

lemma unat_sub_one_less:
  fixes y :: addr
  assumes "k < 2 ^ 64"
  shows "y = 0 \<or> unat (y - 1) < k \<longleftrightarrow> unat y < Suc k"
proof (cases "y = 0")
  case False
  then have "1 \<le> y" by (simp add: word_le_nat_alt Suc_le_eq unat_gt_0)
  then have "unat (y - 1) = unat y - 1" by (simp add: unat_sub)
  moreover have "0 < unat y" using False by (simp add: unat_gt_0)
  ultimately show ?thesis using False by auto
qed simp

lemma memset_loop_eq:
  "k \<le> 2 ^ 64 \<Longrightarrow> memset_loop k m d c = (\<lambda>x. if unat (x - d) < k then c else m x)"
proof (induction k arbitrary: m d)
  case (Suc k)
  then have k: "k < 2 ^ 64" by simp
  show ?case
  proof
    fix x
    have "x - d = 0 \<or> unat (x - d - 1) < k \<longleftrightarrow> unat (x - d) < Suc k"
      using k by (rule unat_sub_one_less)
    then show "memset_loop (Suc k) m d c x = (if unat (x - d) < Suc k then c else m x)"
      using Suc by (auto simp: diff_diff_eq)
  qed
qed simp

lemma unat_uint_lt: "unat (n :: uint) < 4294967296"
  using unsigned_less [of n, where ?'a = nat] by simp

lemma memset_eq: "memset m d c n = (\<lambda>x. if unat (x - d) < unat n then c else m x)"
  unfolding memset_def using unat_uint_lt [of n] by (intro memset_loop_eq) simp

text \<open>Upward copying is right unless the destination starts inside the source.\<close>

lemma move_up_eq:
  assumes "k \<le> 2 ^ 64"
    and "\<forall>i < k. \<forall>j < k. j < i \<longrightarrow> s + of_nat i \<noteq> d + of_nat j"
  shows "move_up k m d s = (\<lambda>x. if unat (x - d) < k then m (s + (x - d)) else m x)"
  using assms
proof (induction k arbitrary: m d s)
  case (Suc k)
  then have k: "k < 2 ^ 64" by simp
  have "\<forall>i < k. \<forall>j < k. j < i \<longrightarrow> (s + 1) + of_nat i \<noteq> (d + 1) + of_nat j"
  proof (intro allI impI)
    fix i j assume "i < k" "j < k" "j < i"
    then have "s + of_nat (Suc i) \<noteq> d + of_nat (Suc j)" using Suc.prems(2) by blast
    then show "(s + 1) + of_nat i \<noteq> (d + 1) + of_nat j" by (simp add: add.assoc)
  qed
  then have IH: "move_up k (m(d := m s)) (d + 1) (s + 1) =
      (\<lambda>x. if unat (x - (d + 1)) < k then (m(d := m s)) (s + 1 + (x - (d + 1)))
           else (m(d := m s)) x)"
    using k by (intro Suc.IH) simp
  show ?case
  proof
    fix x
    have eq: "x - d = 0 \<or> unat (x - d - 1) < k \<longleftrightarrow> unat (x - d) < Suc k"
      using k by (rule unat_sub_one_less)
    have "s + (x - d) \<noteq> d" if in_k: "unat (x - d - 1) < k"
    proof -
      define i where "i = unat (x - d - 1)"
      have i: "i < k" "x - d - 1 = of_nat i" using in_k by (simp_all add: i_def)
      then have "x - d = of_nat (Suc i)" by (simp add: algebra_simps)
      moreover have "s + of_nat (Suc i) \<noteq> d + of_nat 0"
        using Suc.prems(2) i(1) by blast
      ultimately show ?thesis by simp
    qed
    then show "move_up (Suc k) m d s x = (if unat (x - d) < Suc k then m (s + (x - d)) else m x)"
      using eq by (auto simp: IH diff_diff_eq)
  qed
qed simp

lemma move_down_eq:
  assumes "k \<le> 2 ^ 64"
    and "\<forall>i < k. \<forall>j < k. i < j \<longrightarrow> s + of_nat i \<noteq> d + of_nat j"
  shows "move_down k m (d + of_nat k) (s + of_nat k)
         = (\<lambda>x. if unat (x - d) < k then m (s + (x - d)) else m x)"
  using assms
proof (induction k arbitrary: m)
  case (Suc k)
  then have k: "k < 2 ^ 64" by simp
  define m1 where "m1 = m(d + of_nat k := m (s + of_nat k))"
  have IH: "move_down k m1 (d + of_nat k) (s + of_nat k)
      = (\<lambda>x. if unat (x - d) < k then m1 (s + (x - d)) else m1 x)"
    using Suc.prems k by (intro Suc.IH) auto
  have pred: "a + of_nat (Suc k) - 1 = a + (of_nat k :: addr)" for a by simp
  have step: "move_down (Suc k) m (d + of_nat (Suc k)) (s + of_nat (Suc k))
      = move_down k m1 (d + of_nat k) (s + of_nat k)"
    by (simp only: move_down.simps pred m1_def)
  have "(if unat (x - d) < k then m1 (s + (x - d)) else m1 x)
      = (if unat (x - d) < Suc k then m (s + (x - d)) else m x)" for x
  proof -
    have xk: "unat (x - d) = k \<longleftrightarrow> x = d + of_nat k"
    proof
      assume "unat (x - d) = k"
      then have "x - d = of_nat k" by auto
      then show "x = d + of_nat k" by (simp add: algebra_simps)
    next
      assume "x = d + of_nat k"
      then show "unat (x - d) = k" using k by (simp add: unat_of_nat64)
    qed
    have ov: "s + (x - d) \<noteq> d + of_nat k" if "unat (x - d) < k"
    proof -
      have "s + of_nat (unat (x - d)) \<noteq> d + of_nat k"
        using Suc.prems(2) that less_Suc_eq by blast
      moreover have "of_nat (unat (x - d)) = x - d" by simp
      ultimately show ?thesis by metis
    qed
    consider "unat (x - d) < k" | "unat (x - d) = k" | "unat (x - d) > k" by linarith
    then show ?thesis
    proof cases
      case 1
      then show ?thesis using ov by (simp add: m1_def)
    next
      case 2
      then have "x = d + of_nat k" using xk by simp
      then show ?thesis using 2 by (simp add: m1_def)
    next
      case 3
      then have "x \<noteq> d + of_nat k" using xk by auto
      then show ?thesis using 3 by (simp add: m1_def)
    qed
  qed
  then show ?case unfolding step IH by (rule ext)
qed simp

text \<open>With both regions inside the address space the test of memmove picks the loop that
  never reads a byte it has already overwritten.\<close>

lemma memmove_eq:
  assumes src: "unat s + unat n < 2 ^ 64" and dst: "unat d + unat n \<le> 2 ^ 64"
  shows "memmove m d s n = (\<lambda>x. if unat (x - d) < unat n then m (s + (x - d)) else m x)"
proof -
  have n: "unat n \<le> 2 ^ 64" using unat_uint_lt [of n] by simp
  have unat_off: "unat (a + of_nat i) = unat a + i"
    if "i < unat n" "unat a + unat n \<le> 2 ^ 64" for a :: addr and i
  proof -
    have "unat (of_nat i :: addr) = i" using that n by (intro unat_of_nat64) linarith
    then show ?thesis using that by (subst unat_add_lem64) simp_all
  qed
  have nat_n: "ucast n = (of_nat (unat n) :: addr)" by simp
  have "unat (of_nat (unat n) :: addr) = unat n"
    using unat_uint_lt [of n] by (intro unat_of_nat64) simp
  then have "unat (ucast n :: addr) = unat n" by (simp only: nat_n)
  then have sn: "s + ucast n > d \<longleftrightarrow> unat d < unat s + unat n"
    using src by (simp add: word_less_nat_alt unat_add_lem64)
  show ?thesis
  proof (cases "n = 0")
    case True
    then show ?thesis by (simp add: memmove_def)
  next
    case nz: False
    show ?thesis
    proof (cases "s < d \<and> s + ucast n > d")
      case True
      then have "unat s < unat d" by (simp add: word_less_nat_alt)
      then have "\<forall>i < unat n. \<forall>j < unat n. i < j \<longrightarrow> s + of_nat i \<noteq> d + of_nat j"
        using src dst by (intro allI impI notI) (drule arg_cong [where f = unat], simp add: unat_off)
      then have "move_down (unat n) m (d + of_nat (unat n)) (s + of_nat (unat n))
          = (\<lambda>x. if unat (x - d) < unat n then m (s + (x - d)) else m x)"
        using n by (rule move_down_eq [rotated])
      then show ?thesis using True nz by (simp only: memmove_def nat_n if_True simp_thms if_False)
    next
      case False
      then have "\<not> (unat s < unat d \<and> unat d < unat s + unat n)"
        using sn by (simp add: word_less_nat_alt)
      then have "\<forall>i < unat n. \<forall>j < unat n. j < i \<longrightarrow> s + of_nat i \<noteq> d + of_nat j"
        using src dst by (intro allI impI notI) (drule arg_cong [where f = unat], simp add: unat_off)
      then have "move_up (unat n) m d s
          = (\<lambda>x. if unat (x - d) < unat n then m (s + (x - d)) else m x)"
        using n by (rule move_up_eq [rotated])
      then show ?thesis using False nz by (simp only: memmove_def simp_thms if_False)
    qed
  qed
qed

section \<open>C strings\<close>

text \<open>The bytes of the C string at \<open>p\<close>, cut off after \<open>k\<close> bytes: what namecmp and the
  process names compare.\<close>

primrec cbytes :: "nat \<Rightarrow> memory \<Rightarrow> addr \<Rightarrow> byte list" where
  "cbytes 0 m p = []"
| "cbytes (Suc k) m p = (if m p = 0 then [] else m p # cbytes k m (p + 1))"

lemma cbytes_upd_other:
  "\<forall>i < k. p + of_nat i \<noteq> a \<Longrightarrow> cbytes k (m(a := v)) p = cbytes k m p"
proof (induction k arbitrary: p)
  case (Suc k)
  have "\<forall>i < k. p + 1 + of_nat i \<noteq> a"
  proof (intro allI impI)
    fix i assume "i < k"
    then have "p + of_nat (Suc i) \<noteq> a" using Suc.prems by blast
    then show "p + 1 + of_nat i \<noteq> a" by (simp add: add.assoc)
  qed
  moreover have "p + of_nat 0 \<noteq> a" using Suc.prems by blast
  ultimately show ?case using Suc.IH by simp
qed simp

lemma strncmp_loop_0_iff: "strncmp_loop k m p q = 0 \<longleftrightarrow> cbytes k m p = cbytes k m q"
proof (induction k arbitrary: p q)
  case (Suc k)
  have "int (unat a) - int (unat b) = 0 \<longleftrightarrow> a = b" for a b :: byte
    by (simp only: right_minus_eq of_nat_eq_iff word_unat_eq_iff)
  then show ?case using Suc by (simp only: strncmp_loop.simps cbytes.simps split: if_splits) auto
qed simp

lemma safestrcpy_loop_cbytes:
  assumes "\<forall>i \<le> k. \<forall>j < k. s + of_nat i \<noteq> t + of_nat j" and "k < 2 ^ 64"
  shows "cbytes (Suc k) (safestrcpy_loop k m s t) s = cbytes k m t
       \<and> (\<forall>x. unat (x - s) > k \<longrightarrow> safestrcpy_loop k m s t x = m x)"
  using assms
proof (induction k arbitrary: m s t)
  case (Suc k)
  have shift: "a + 1 + of_nat i = a + (of_nat (Suc i) :: addr)" for a i by (simp add: add.assoc)
  have disj: "\<forall>i \<le> k. \<forall>j < k. s + 1 + of_nat i \<noteq> t + 1 + of_nat j"
    unfolding shift using Suc.prems(1) by (meson Suc_le_mono Suc_less_eq)
  have t_s: "\<forall>i < k. t + 1 + of_nat i \<noteq> s"
  proof (intro allI impI)
    fix i assume "i < k"
    then have "s + of_nat 0 \<noteq> t + of_nat (Suc i)" using Suc.prems(1) by blast
    then show "t + 1 + of_nat i \<noteq> s" unfolding shift by simp
  qed
  have far: "unat (x - (s + 1)) > k" "x \<noteq> s" if "unat (x - s) > Suc k" for x
  proof -
    have "\<not> (x - s = 0 \<or> unat (x - s - 1) < Suc k)"
      using that Suc.prems(2) unat_sub_one_less [of "Suc k" "x - s"] by simp
    then show "unat (x - (s + 1)) > k" "x \<noteq> s" by (auto simp: diff_diff_eq)
  qed
  show ?case
  proof (cases "m t = 0")
    case True
    have "x \<noteq> s + 1" if "unat (x - s) > Suc k" for x using that by auto
    then show ?thesis using True far by auto
  next
    case False
    let ?m = "m(s := m t)"
    let ?L = "safestrcpy_loop k ?m (s + 1) (t + 1)"
    have "k < 2 ^ 64" using Suc.prems(2) by simp
    note IH = Suc.IH [OF disj this, of ?m]
    have "s - (s + 1) = - 1" by simp
    moreover have "unat (- 1 :: addr) = 2 ^ 64 - 1" by (simp add: unsigned_minus_1_eq_mask mask_eq_exp_minus_1)
    then have "k < unat (- 1 :: addr)" using Suc.prems(2) by simp
    ultimately have "?L s = ?m s" using IH by metis
    then have at_s: "?L s = m t" by simp
    have "cbytes (Suc (Suc k)) ?L s = m t # cbytes (Suc k) ?L (s + 1)"
      unfolding cbytes.simps(2) [of "Suc k"] at_s using False by (simp only: if_False)
    also have "cbytes (Suc k) ?L (s + 1) = cbytes k ?m (t + 1)" using IH by (rule conjunct1)
    also have "\<dots> = cbytes k m (t + 1)" using t_s by (rule cbytes_upd_other)
    also have "m t # \<dots> = cbytes (Suc k) m t" using False by simp
    finally have "cbytes (Suc (Suc k)) ?L s = cbytes (Suc k) m t" .
    moreover have "\<forall>x. unat (x - s) > Suc k \<longrightarrow> ?L x = m x"
      using IH [THEN conjunct2] far by (metis fun_upd_other)
    ultimately show ?thesis using False by (simp del: cbytes.simps)
  qed
qed simp

lemma strlen_from_step: "m (s + of_nat n) \<noteq> 0 \<Longrightarrow> strlen_from m s n = strlen_from m s (Suc n)"
  by (simp add: strlen_from.simps)

lemma strlen_from_eq:
  assumes "m (s + of_nat (n + k)) = 0" and "\<forall>i < k. m (s + of_nat (n + i)) \<noteq> 0"
  shows "strlen_from m s n = Some (n + k)"
  using assms
proof (induction k arbitrary: n)
  case 0
  then show ?case by (simp add: strlen_from.simps)
next
  case (Suc k)
  have "m (s + of_nat (n + 0)) \<noteq> 0" using Suc.prems(2) by blast
  then have "strlen_from m s n = strlen_from m s (Suc n)" by (simp add: strlen_from_step)
  also have "\<dots> = Some (Suc n + k)"
  proof (rule Suc.IH)
    show "m (s + of_nat (Suc n + k)) = 0" using Suc.prems(1) by simp
    show "\<forall>i < k. m (s + of_nat (Suc n + i)) \<noteq> 0"
      using Suc.prems(2) by (metis Suc_mono add_Suc_shift)
  qed
  finally show ?case by simp
qed

end
