(* ===== verification/Riscv.thy ===== *)
theory Riscv
  imports Prelude
begin

text \<open>
  The Sv39 page-table vocabulary of kernel/riscv.h and the address-space layout of
  kernel/memlayout.h: page rounding, the fields of a page-table entry, the three nine-bit
  indices of a virtual address, and 64-bit loads and stores over the byte-addressed memory
  (RISC-V is little-endian). The lemmas are the algebra of these macros.
\<close>

section \<open>Constants and macros\<close>

definition PGSIZE :: uint64 where "PGSIZE = 4096"

definition PGROUNDUP :: "uint64 \<Rightarrow> uint64" where
  "PGROUNDUP sz = (sz + PGSIZE - 1) AND NOT (PGSIZE - 1)"

definition PGROUNDDOWN :: "uint64 \<Rightarrow> uint64" where
  "PGROUNDDOWN a = a AND NOT (PGSIZE - 1)"

definition PTE_V :: uint64 where "PTE_V = 1"
definition PTE_R :: uint64 where "PTE_R = 2"
definition PTE_W :: uint64 where "PTE_W = 4"
definition PTE_X :: uint64 where "PTE_X = 8"
definition PTE_U :: uint64 where "PTE_U = 16"
definition PTE_COW :: uint64 where "PTE_COW = 256"

definition PA2PTE :: "uint64 \<Rightarrow> uint64" where "PA2PTE pa = push_bit 10 (drop_bit 12 pa)"
definition PTE2PA :: "uint64 \<Rightarrow> uint64" where "PTE2PA pte = push_bit 12 (drop_bit 10 pte)"
definition PTE_FLAGS :: "uint64 \<Rightarrow> uint64" where "PTE_FLAGS pte = pte AND 0x3FF"

definition PX :: "nat \<Rightarrow> uint64 \<Rightarrow> uint64" where
  "PX level va = drop_bit (12 + 9 * level) va AND 0x1FF"

definition MAXVA :: uint64 where "MAXVA = 0x4000000000"

definition KERNBASE :: uint64 where "KERNBASE = 0x80000000"
definition PHYSTOP :: uint64 where "PHYSTOP = KERNBASE + 128 * 1024 * 1024"
definition UART0 :: uint64 where "UART0 = 0x10000000"
definition VIRTIO0 :: uint64 where "VIRTIO0 = 0x10001000"
definition PLIC :: uint64 where "PLIC = 0x0c000000"
definition TRAMPOLINE :: uint64 where "TRAMPOLINE = MAXVA - PGSIZE"
definition TRAPFRAME :: uint64 where "TRAPFRAME = TRAMPOLINE - PGSIZE"
definition KSTACK :: "nat \<Rightarrow> uint64" where
  "KSTACK p = TRAMPOLINE - of_nat (p + 1) * 2 * PGSIZE"

lemmas riscv_defs = PGSIZE_def PTE_V_def PTE_R_def PTE_W_def PTE_X_def PTE_U_def PTE_COW_def

lemmas layout_defs = MAXVA_def KERNBASE_def PHYSTOP_def TRAMPOLINE_def TRAPFRAME_def PGSIZE_def

section \<open>64-bit accesses\<close>

definition load64 :: "memory \<Rightarrow> addr \<Rightarrow> uint64" where
  "load64 m a =
     ucast (m a) OR push_bit 8 (ucast (m (a + 1))) OR push_bit 16 (ucast (m (a + 2)))
     OR push_bit 24 (ucast (m (a + 3))) OR push_bit 32 (ucast (m (a + 4)))
     OR push_bit 40 (ucast (m (a + 5))) OR push_bit 48 (ucast (m (a + 6)))
     OR push_bit 56 (ucast (m (a + 7)))"

definition store64 :: "memory \<Rightarrow> addr \<Rightarrow> uint64 \<Rightarrow> memory" where
  "store64 m a v =
     m(a := ucast v, a + 1 := ucast (drop_bit 8 v), a + 2 := ucast (drop_bit 16 v),
       a + 3 := ucast (drop_bit 24 v), a + 4 := ucast (drop_bit 32 v),
       a + 5 := ucast (drop_bit 40 v), a + 6 := ucast (drop_bit 48 v),
       a + 7 := ucast (drop_bit 56 v))"

section \<open>Page rounding\<close>

lemma PGSIZE_mask: "PGSIZE - 1 = mask 12"
  by (simp add: PGSIZE_def mask_eq_exp_minus_1)

lemma PGROUNDDOWN_eq: "PGROUNDDOWN a = push_bit 12 (drop_bit 12 a)"
  unfolding PGROUNDDOWN_def PGSIZE_mask
  by (rule bit_word_eqI) (auto simp: bit_simps)

lemma unat_PGROUNDDOWN: "unat (PGROUNDDOWN a) = unat a div 4096 * 4096"
proof -
  have "unat a div 4096 * 4096 \<le> unat a" by simp
  also have "\<dots> < 2 ^ 64" by simp
  finally have lt: "unat a div 4096 * 4096 < 2 ^ 64" .
  have "unat (push_bit 12 (drop_bit 12 a)) = take_bit 64 (unat a div 4096 * 4096)"
    by (simp add: push_bit_eq_mult drop_bit_eq_div take_bit_eq_mod unat_word_ariths unat_div
        mod_mult_left_eq)
  then show ?thesis using lt by (simp add: PGROUNDDOWN_eq take_bit_eq_mod)
qed

definition page_aligned :: "addr \<Rightarrow> bool" where
  "page_aligned a \<longleftrightarrow> a mod PGSIZE = 0"

lemma page_aligned_unat: "page_aligned a \<longleftrightarrow> unat a mod 4096 = 0"
  by (simp add: page_aligned_def PGSIZE_def word_unat_eq_iff unat_mod)

lemma page_aligned_0 [simp]: "page_aligned 0"
  by (simp add: page_aligned_def)

lemma PGROUNDDOWN_aligned [simp]: "page_aligned (PGROUNDDOWN a)"
  by (simp add: page_aligned_unat unat_PGROUNDDOWN)

lemma PGROUNDDOWN_id: "page_aligned a \<Longrightarrow> PGROUNDDOWN a = a"
proof (rule word64_eqI)
  assume "page_aligned a"
  then show "unat (PGROUNDDOWN a) = unat a"
    by (auto simp: page_aligned_unat unat_PGROUNDDOWN)
qed

lemma PGROUNDDOWN_idem [simp]: "PGROUNDDOWN (PGROUNDDOWN a) = PGROUNDDOWN a"
  by (simp add: PGROUNDDOWN_id)

lemma PGROUNDDOWN_le: "PGROUNDDOWN a \<le> a"
  by (simp add: word_le_nat_alt unat_PGROUNDDOWN)

lemma PGROUNDUP_alt: "PGROUNDUP a = PGROUNDDOWN (a + 4095)"
  by (simp add: PGROUNDUP_def PGROUNDDOWN_def PGSIZE_def add.commute)

lemma unat_PGROUNDUP:
  assumes "unat a + 4095 < 2 ^ 64"
  shows "unat (PGROUNDUP a) = (unat a + 4095) div 4096 * 4096"
proof -
  have "PGROUNDUP a = PGROUNDDOWN (a + 4095)" by (rule PGROUNDUP_alt)
  moreover have "unat (a + 4095) = unat a + 4095"
    using assms by (subst unat_add_lem64) simp_all
  ultimately show ?thesis by (simp add: unat_PGROUNDDOWN)
qed

lemma PGROUNDUP_aligned [simp]: "page_aligned (PGROUNDUP a)"
  by (simp add: PGROUNDUP_alt)

text \<open>An address lies in the page \<open>p\<close> exactly when rounding it down gives \<open>p\<close>.\<close>

lemma in_page_iff:
  assumes "page_aligned p"
  shows "unat (x - p) < 4096 \<longleftrightarrow> PGROUNDDOWN x = p"
proof -
  from assms obtain k where k: "unat p = 4096 * k"
    by (auto simp: page_aligned_unat)
  have pb: "unat p + 4096 \<le> 2 ^ 64" using unat_lt64 [of p] k by simp
  show ?thesis
  proof
    assume lt: "unat (x - p) < 4096"
    have "unat x = unat (p + (x - p))" by simp
    also have "\<dots> = unat p + unat (x - p)" using pb lt by (intro unat_add_lem64) linarith
    finally have "unat (PGROUNDDOWN x) = unat p" using lt k by (simp add: unat_PGROUNDDOWN)
    then show "PGROUNDDOWN x = p" by (rule word64_eqI)
  next
    assume "PGROUNDDOWN x = p"
    then have p: "unat p = unat x div 4096 * 4096" by (metis unat_PGROUNDDOWN)
    then have "p \<le> x" by (simp add: word_le_nat_alt)
    then have "unat (x - p) = unat x - unat p" by (rule unat_sub64)
    then show "unat (x - p) < 4096" using p by (simp add: minus_div_mult_eq_mod)
  qed
qed

lemma PGROUNDDOWN_add:
  assumes "page_aligned p" and "unat i < 4096"
  shows "PGROUNDDOWN (p + i) = p"
  using in_page_iff [OF assms(1), of "p + i"] assms(2) by simp

section \<open>Page-table entries\<close>

lemma PTE2PA_aligned [simp]: "page_aligned (PTE2PA v)"
proof -
  have "PTE2PA v = PGROUNDDOWN (PTE2PA v)"
    unfolding PGROUNDDOWN_eq PTE2PA_def
    by (rule bit_word_eqI) (auto simp: bit_simps)
  then show ?thesis by (metis PGROUNDDOWN_aligned)
qed

text \<open>Flag words fit into the low ten bits of an entry.\<close>

definition is_flags :: "uint64 \<Rightarrow> bool" where
  "is_flags f \<longleftrightarrow> f AND 0x3FF = f"

lemma mask10: "(0x3FF :: uint64) = mask 10"
  by (simp add: mask_eq_exp_minus_1)

lemma is_flags_bit: "is_flags f \<Longrightarrow> bit f n \<Longrightarrow> n < 10"
  unfolding is_flags_def mask10 by (metis bit_and_iff bit_mask_iff)

lemma is_flags_PTE_FLAGS [simp]: "is_flags (PTE_FLAGS v)"
  unfolding is_flags_def PTE_FLAGS_def by (simp add: and.assoc)

lemma is_flags_and: "is_flags f \<Longrightarrow> is_flags (f AND x)"
  unfolding is_flags_def by (metis and.assoc and.commute)

lemma is_flags_or: "is_flags f \<Longrightarrow> is_flags g \<Longrightarrow> is_flags (f OR g)"
  unfolding is_flags_def by (simp add: bit.conj_disj_distrib2)

lemma is_flags_consts [simp]:
  "is_flags PTE_V" "is_flags PTE_R" "is_flags PTE_W" "is_flags PTE_X" "is_flags PTE_U"
  "is_flags PTE_COW" "is_flags 0"
  by (simp_all add: is_flags_def riscv_defs)

lemma PTE2PA_PA2PTE:
  assumes "page_aligned p" and "is_flags f"
  shows "PTE2PA (PA2PTE p OR f) = p"
proof -
  have "PTE2PA (PA2PTE p OR f) = PGROUNDDOWN p"
    unfolding PTE2PA_def PA2PTE_def PGROUNDDOWN_eq
    by (rule bit_word_eqI) (use is_flags_bit [OF assms(2)] in \<open>fastforce simp: bit_simps\<close>)
  then show ?thesis using assms(1) by (simp add: PGROUNDDOWN_id)
qed

lemma PTE_FLAGS_PA2PTE:
  assumes "is_flags f"
  shows "PTE_FLAGS (PA2PTE p OR f) = f"
  unfolding PTE_FLAGS_def PA2PTE_def mask10
  by (rule bit_word_eqI) (use is_flags_bit [OF assms] in \<open>auto simp: bit_simps\<close>)

lemma pte_and_flag:
  assumes "is_flags b"
  shows "(PA2PTE p OR f) AND b = f AND b"
  unfolding PA2PTE_def
  by (rule bit_word_eqI) (use is_flags_bit [OF assms] in \<open>fastforce simp: bit_simps\<close>)

lemma and_PTE_FLAGS:
  assumes "is_flags b"
  shows "PTE_FLAGS v AND b = v AND b"
  using assms unfolding is_flags_def PTE_FLAGS_def by (metis and.assoc and.commute)

section \<open>Loads after stores\<close>

lemma ucast_byte: "(ucast (ucast x :: byte) :: uint64) = take_bit 8 x"
  by (rule bit_word_eqI) (auto simp: bit_simps)

lemma byte_chunk:
  "push_bit k (take_bit 8 (drop_bit k v)) OR push_bit (k + 8) (drop_bit (k + 8) v)
   = push_bit k (drop_bit k (v :: uint64))"
proof (rule bit_word_eqI)
  fix n
  show "bit (push_bit k (take_bit 8 (drop_bit k v)) OR push_bit (k + 8) (drop_bit (k + 8) v)) n
      = bit (push_bit k (drop_bit k v)) n"
  proof (cases "k + 8 \<le> n")
    case True
    then have "k + 8 + (n - (k + 8)) = n" "k + (n - k) = n" by simp_all
    then show ?thesis using True by (auto simp: bit_simps)
  qed (auto simp: bit_simps)
qed

lemma byte_chunk_last: "push_bit 56 (take_bit 8 (drop_bit 56 v)) = push_bit 56 (drop_bit 56 (v :: uint64))"
  by (rule bit_word_eqI) (auto simp: bit_simps dest: bit_imp_le_length)

lemma load64_store64_same [simp]: "load64 (store64 m a v) a = v"
proof -
  have "load64 (store64 m a v) a =
      take_bit 8 v OR push_bit 8 (take_bit 8 (drop_bit 8 v))
      OR push_bit 16 (take_bit 8 (drop_bit 16 v)) OR push_bit 24 (take_bit 8 (drop_bit 24 v))
      OR push_bit 32 (take_bit 8 (drop_bit 32 v)) OR push_bit 40 (take_bit 8 (drop_bit 40 v))
      OR push_bit 48 (take_bit 8 (drop_bit 48 v)) OR push_bit 56 (take_bit 8 (drop_bit 56 v))"
    by (simp add: load64_def store64_def ucast_byte)
  also have "\<dots> = v"
    using byte_chunk [of 0 v] byte_chunk [of 8 v] byte_chunk [of 16 v] byte_chunk [of 24 v]
      byte_chunk [of 32 v] byte_chunk [of 40 v] byte_chunk [of 48 v]
    by (simp add: byte_chunk_last or.assoc)
  finally show ?thesis .
qed

definition dword_aligned :: "addr \<Rightarrow> bool" where
  "dword_aligned a \<longleftrightarrow> a mod 8 = 0"

lemma dword_aligned_unat: "dword_aligned a \<longleftrightarrow> unat a mod 8 = 0"
  by (simp add: dword_aligned_def word_unat_eq_iff unat_mod)

lemma dword_add_unat:
  assumes "dword_aligned a" and "unat i < 8"
  shows "unat (a + i) = unat a + unat i"
proof -
  obtain k where "unat a = 8 * k" using assms(1) by (auto simp: dword_aligned_unat)
  then show ?thesis using unat_lt64 [of a] assms(2) by (intro unat_add_lem64) simp
qed

lemma dword_add_div:
  assumes "dword_aligned a" and "unat i < 8"
  shows "unat (a + i) div 8 = unat a div 8"
  using assms dword_add_unat [OF assms] by (auto simp: dword_aligned_unat)

lemma dword_disjoint:
  assumes "dword_aligned a" "dword_aligned b" "a \<noteq> b" "unat i < 8" "unat j < 8"
  shows "a + i \<noteq> b + j"
proof
  assume "a + i = b + j"
  then have "unat a div 8 = unat b div 8"
    using assms by (metis dword_add_div)
  moreover have "unat a = unat a div 8 * 8" "unat b = unat b div 8 * 8"
    using assms(1,2) by (auto simp: dword_aligned_unat)
  ultimately have "a = b" by (metis word64_eqI)
  then show False using assms(3) by simp
qed

lemma load64_cong:
  assumes "\<And>i. unat i < 8 \<Longrightarrow> m (b + i) = m' (b + i)"
  shows "load64 m b = load64 m' b"
proof -
  have "m b = m' b" using assms [of 0] by simp
  moreover have "m (b + 1) = m' (b + 1)" "m (b + 2) = m' (b + 2)" "m (b + 3) = m' (b + 3)"
    "m (b + 4) = m' (b + 4)" "m (b + 5) = m' (b + 5)" "m (b + 6) = m' (b + 6)"
    "m (b + 7) = m' (b + 7)"
    using assms unat_numeral_lt8 by blast+
  ultimately show ?thesis by (simp only: load64_def)
qed

lemma store64_other:
  assumes "\<And>i. unat i < 8 \<Longrightarrow> x \<noteq> a + i"
  shows "store64 m a v x = m x"
proof -
  have "x \<noteq> a" using assms [of 0] by simp
  moreover have "x \<noteq> a + 1" "x \<noteq> a + 2" "x \<noteq> a + 3" "x \<noteq> a + 4" "x \<noteq> a + 5" "x \<noteq> a + 6" "x \<noteq> a + 7"
    using assms unat_numeral_lt8 by blast+
  ultimately show ?thesis by (simp only: store64_def fun_upd_other not_False_eq_True)
qed

lemma load64_store64_other [simp]:
  assumes "dword_aligned a" "dword_aligned b" "a \<noteq> b"
  shows "load64 (store64 m a v) b = load64 m b"
  by (rule load64_cong) (use assms dword_disjoint in \<open>blast intro: store64_other\<close>)

section \<open>Slots of a page-table page\<close>

text \<open>The address of entry \<open>i\<close> of the page-table page \<open>pt\<close>: \<open>&pagetable[i]\<close>.\<close>

definition pte_slot :: "addr \<Rightarrow> uint64 \<Rightarrow> addr" where
  "pte_slot pt i = pt + 8 * i"

lemma unat_slot_off: "unat i < 512 \<Longrightarrow> unat (8 * i :: uint64) = 8 * unat i"
  by (simp add: unat_word_ariths)

lemma pte_slot_unat:
  assumes "page_aligned pt" and "unat i < 512"
  shows "unat (pte_slot pt i) = unat pt + 8 * unat i"
proof -
  obtain k where "unat pt = 4096 * k" using assms(1) by (auto simp: page_aligned_unat)
  then have "unat pt + 4096 \<le> 2 ^ 64" using unat_lt64 [of pt] by simp
  then have "unat pt + unat (8 * i) < 2 ^ 64" using assms(2) by (simp add: unat_slot_off)
  then have "unat (pt + 8 * i) = unat pt + unat (8 * i)" by (rule unat_add_lem64)
  then show ?thesis using assms(2) by (simp add: pte_slot_def unat_slot_off)
qed

lemma pte_slot_dword:
  assumes "page_aligned pt" and "unat i < 512"
  shows "dword_aligned (pte_slot pt i)"
proof -
  obtain k where "unat pt = 4096 * k" using assms(1) by (auto simp: page_aligned_unat)
  then have "unat (pte_slot pt i) = 8 * (512 * k + unat i)"
    using assms by (simp add: pte_slot_unat)
  then show ?thesis by (simp only: dword_aligned_unat mod_mult_self1_is_0)
qed

lemma pte_slot_page:
  assumes "page_aligned pt" and "unat i < 512" and "unat j < 8"
  shows "PGROUNDDOWN (pte_slot pt i + j) = pt"
proof -
  have "unat (8 * i + j) = 8 * unat i + unat j"
    using assms(2,3) by (subst unat_add_lem64) (simp_all add: unat_slot_off)
  then have "PGROUNDDOWN (pt + (8 * i + j)) = pt"
    using assms by (intro PGROUNDDOWN_add) simp_all
  then show ?thesis by (simp add: pte_slot_def add.assoc)
qed

lemma pte_slot_inj:
  assumes "page_aligned p" "page_aligned q" "unat i < 512" "unat j < 512"
  shows "pte_slot p i = pte_slot q j \<longleftrightarrow> p = q \<and> i = j"
proof
  assume eq: "pte_slot p i = pte_slot q j"
  have pq: "p = q"
    using pte_slot_page [OF assms(1,3), of 0] pte_slot_page [OF assms(2,4), of 0] eq by simp
  have "unat p + 8 * unat i = unat q + 8 * unat j"
    using eq assms by (metis pte_slot_unat)
  then have "i = j" using pq by (intro word64_eqI) simp
  then show "p = q \<and> i = j" using pq by simp
qed simp

lemma load64_store64_slot:
  assumes "page_aligned p" "page_aligned q" "unat i < 512" "unat j < 512"
  shows "load64 (store64 m (pte_slot p i) v) (pte_slot q j)
       = (if p = q \<and> i = j then v else load64 m (pte_slot q j))"
  using assms pte_slot_inj [OF assms] pte_slot_dword by auto

lemma load64_page_cong:
  assumes "page_aligned q" "unat j < 512"
    and "\<And>x. PGROUNDDOWN x = q \<Longrightarrow> m x = m' x"
  shows "load64 m (pte_slot q j) = load64 m' (pte_slot q j)"
  by (rule load64_cong) (use assms pte_slot_page in blast)

lemma store64_slot_other:
  assumes "page_aligned p" "unat i < 512" "PGROUNDDOWN x \<noteq> p"
  shows "store64 m (pte_slot p i) v x = m x"
  by (rule store64_other) (use assms pte_slot_page in blast)

section \<open>The indices of a virtual address\<close>

lemma unat_PX: "unat (PX l va) = unat va div 2 ^ (12 + 9 * l) mod 512"
proof -
  have "(0x1FF :: uint64) = mask 9" by (simp add: mask_eq_exp_minus_1)
  then have "PX l va = take_bit 9 (drop_bit (12 + 9 * l) va)"
    by (simp only: PX_def take_bit_eq_mask)
  then have "unat (PX l va) = take_bit 9 (drop_bit (12 + 9 * l) (unat va))"
    by (simp only: unsigned_take_bit_eq unat_drop_bit_eq)
  then show ?thesis by (simp add: drop_bit_eq_div take_bit_eq_mod)
qed

lemma PX_less [simp]: "unat (PX l va) < 512"
  by (simp add: unat_PX)

lemma vpn_PX:
  assumes "va < MAXVA"
  shows "unat va div 4096 = unat (PX 2 va) * 262144 + unat (PX 1 va) * 512 + unat (PX 0 va)"
proof -
  define v where "v = unat va div 4096"
  have "unat va < 274877906944" using assms by (simp add: word_less_nat_alt MAXVA_def)
  then have v: "v < 512 * 512 * 512" unfolding v_def by (simp add: less_mult_imp_div_less)
  have "unat va div 2 ^ (12 + 9 * l) = v div 512 ^ l" for l
  proof -
    have "(2 :: nat) ^ (12 + 9 * l) = 4096 * 512 ^ l" by (simp add: power_add power_mult)
    then show ?thesis by (simp add: v_def div_mult2_eq)
  qed
  then have px: "unat (PX l va) = v div 512 ^ l mod 512" for l by (simp add: unat_PX)
  have p0: "unat (PX 0 va) = v mod 512" and p1: "unat (PX 1 va) = v div 512 mod 512"
    and p2: "unat (PX 2 va) = v div 512 div 512 mod 512"
    by (simp_all add: px div_mult2_eq [of v 512 512, symmetric])
  have "v div 512 < 512 * 512" using v by (simp only: less_mult_imp_div_less mult.assoc)
  then have "v div 512 div 512 < 512" by (rule less_mult_imp_div_less)
  then have "unat (PX 2 va) = v div 512 div 512" using p2 by simp
  moreover have "v = v div 512 * 512 + v mod 512"
    and "v div 512 = v div 512 div 512 * 512 + v div 512 mod 512"
    by simp_all
  ultimately show ?thesis using p0 p1 unfolding v_def [symmetric] by linarith
qed

lemma PX_inj:
  assumes "va < MAXVA" "vb < MAXVA"
    and "PX 2 va = PX 2 vb" "PX 1 va = PX 1 vb" "PX 0 va = PX 0 vb"
  shows "PGROUNDDOWN va = PGROUNDDOWN vb"
proof (rule word64_eqI)
  show "unat (PGROUNDDOWN va) = unat (PGROUNDDOWN vb)"
    using vpn_PX [OF assms(1)] vpn_PX [OF assms(2)] assms(3-5) by (simp add: unat_PGROUNDDOWN)
qed

lemma PX_PGROUNDDOWN [simp]: "PX l (PGROUNDDOWN va) = PX l va"
proof (rule word64_eqI)
  have "unat va div 4096 * 4096 div (4096 * 512 ^ l) = unat va div (4096 * 512 ^ l)"
    by (simp add: div_mult2_eq)
  moreover have "(2 :: nat) ^ (12 + 9 * l) = 4096 * 512 ^ l"
    by (simp add: power_add power_mult)
  ultimately show "unat (PX l (PGROUNDDOWN va)) = unat (PX l va)"
    by (simp add: unat_PX unat_PGROUNDDOWN)
qed

end
