(* ===== verification/Spinlock.thy ===== *)
theory Spinlock
  imports Prelude
begin

text \<open>
  Spin locks (\<open>kernel/spinlock.c\<close>, \<open>kernel/spinlock.h\<close>) and the part of
  \<open>struct cpu\<close> they use.

  The operations are modelled twice.  As functions on the lock and on the state of the CPU
  that runs them, for the sequential model of the kernel: \<open>acquire\<close> panics when the CPU
  already holds the lock, and is a \<open>Spin\<close> when the lock is taken, because nothing this CPU
  does can then free it.  As an interleaving of the atomic instructions of all the CPUs
  (\<open>lock_step\<close>), for mutual exclusion.
\<close>

section \<open>Data\<close>

text \<open>\<open>struct cpu\<close> without the running process and its saved context; \<open>intr\<close> is the
  interrupt-enable bit of \<open>sstatus\<close>, which \<open>intr_get\<close>, \<open>intr_on\<close> and \<open>intr_off\<close> access.\<close>

record cpu =
  cpuid :: nat
  noff :: int
  intena :: bool
  intr :: bool

record spinlock =
  locked :: uint
  lk_name :: string
  lk_cpu :: "nat option"

section \<open>Operations\<close>

definition initlock :: "string \<Rightarrow> spinlock" where
  "initlock name = \<lparr>locked = 0, lk_name = name, lk_cpu = None\<rparr>"

definition holding :: "spinlock \<Rightarrow> cpu \<Rightarrow> bool" where
  "holding lk c \<longleftrightarrow> locked lk \<noteq> 0 \<and> lk_cpu lk = Some (cpuid c)"

definition push_off :: "cpu \<Rightarrow> cpu" where
  "push_off c =
    (let old = intr c;
         c1 = c\<lparr>intr := False\<rparr>;
         c2 = (if noff c1 = 0 then c1\<lparr>intena := old\<rparr> else c1)
     in c2\<lparr>noff := noff c2 + 1\<rparr>)"

definition pop_off :: "cpu \<Rightarrow> cpu result" where
  "pop_off c =
    (if intr c then Inl (Panic ''pop_off - interruptible'')
     else if noff c < 1 then Inl (Panic ''pop_off'')
     else let c1 = c\<lparr>noff := noff c - 1\<rparr>
          in Inr (if noff c1 = 0 \<and> intena c1 then c1\<lparr>intr := True\<rparr> else c1))"

definition acquire :: "spinlock \<Rightarrow> cpu \<Rightarrow> (spinlock \<times> cpu) result" where
  "acquire lk c =
    (let c1 = push_off c
     in if holding lk c1 then Inl (Panic ''acquire'')
        else if locked lk \<noteq> 0 then Inl Spin
        else Inr (lk\<lparr>locked := 1, lk_cpu := Some (cpuid c1)\<rparr>, c1))"

definition release :: "spinlock \<Rightarrow> cpu \<Rightarrow> (spinlock \<times> cpu) result" where
  "release lk c =
    (if \<not> holding lk c then Inl (Panic ''release'')
     else rbind (pop_off c) (\<lambda>c1. Inr (lk\<lparr>lk_cpu := None, locked := 0\<rparr>, c1)))"

lemmas spinlock_defs =
  initlock_def holding_def push_off_def pop_off_def acquire_def release_def

section \<open>The sequential contract\<close>

text \<open>A free lock, and a CPU whose interrupts are off whenever it is inside a \<open>push_off\<close>.\<close>

definition lock_free :: "spinlock \<Rightarrow> bool" where
  "lock_free lk \<longleftrightarrow> locked lk = 0 \<and> lk_cpu lk = None"

definition cpu_ok :: "cpu \<Rightarrow> bool" where
  "cpu_ok c \<longleftrightarrow> 0 \<le> noff c \<and> (intr c \<longrightarrow> noff c = 0)"

text \<open>What a balanced \<open>push_off\<close>/\<open>pop_off\<close> pair leaves behind: the depth and the interrupt
  bit are as they were, and at depth zero \<open>intena\<close> holds the interrupt bit.\<close>

definition settle :: "cpu \<Rightarrow> cpu" where
  "settle c = (if noff c = 0 then c\<lparr>intena := intr c\<rparr> else c)"

lemma settle_fields [simp]:
  "cpuid (settle c) = cpuid c" "noff (settle c) = noff c" "intr (settle c) = intr c"
  by (simp_all add: settle_def)

lemma settle_idem [simp]: "settle (settle c) = settle c"
  by (simp add: settle_def)

lemma cpu_ok_settle [simp]: "cpu_ok (settle c) = cpu_ok c"
  by (simp add: cpu_ok_def)

lemma cpu_ok_push_off [simp]: "cpu_ok c \<Longrightarrow> cpu_ok (push_off c)"
  by (simp add: cpu_ok_def push_off_def Let_def)

lemma pop_off_push_off: "cpu_ok c \<Longrightarrow> pop_off (push_off c) = Inr (settle c)"
  by (cases c) (auto simp: spinlock_defs cpu_ok_def settle_def Let_def)

lemma acquire_free:
  "lock_free lk \<Longrightarrow>
    acquire lk c = Inr (lk\<lparr>locked := 1, lk_cpu := Some (cpuid c)\<rparr>, push_off c)"
  by (simp add: spinlock_defs lock_free_def Let_def)

lemma release_taken:
  assumes "lock_free lk" and "cpu_ok c"
  shows "release (lk\<lparr>locked := 1, lk_cpu := Some (cpuid c)\<rparr>) (push_off c) = Inr (lk, settle c)"
proof -
  have "cpuid (push_off c) = cpuid c" by (simp add: push_off_def Let_def)
  then have "holding (lk\<lparr>locked := 1, lk_cpu := Some (cpuid c)\<rparr>) (push_off c)"
    by (simp add: holding_def)
  moreover have "lk\<lparr>lk_cpu := None, locked := 0\<rparr> = lk"
    using assms(1) by (cases lk) (simp add: lock_free_def)
  ultimately show ?thesis
    using pop_off_push_off [OF assms(2)] by (simp add: release_def)
qed

lemma acquire_held:
  assumes "acquire lk c = Inr (lk', c')"
  shows "acquire lk' c' = Inl (Panic ''acquire'')" and "\<not> intr c'" and "holding lk' c'"
  using assms by (auto simp: spinlock_defs Let_def split: if_splits)

section \<open>Interleavings of the CPUs\<close>

text \<open>Where a CPU is inside \<open>acquire\<close>, the critical section and \<open>release\<close>; a CPU that fails a
  check is \<open>Panicked\<close>.\<close>

datatype lock_pc =
    Idle        \<comment> \<open>outside the lock's operations\<close>
  | Spinning    \<comment> \<open>in the test-and-set loop\<close>
  | Got         \<comment> \<open>won the test-and-set, \<open>lk->cpu\<close> not yet written\<close>
  | Critical    \<comment> \<open>between \<open>acquire\<close> and \<open>release\<close>\<close>
  | Releasing   \<comment> \<open>cleared \<open>lk->cpu\<close>, \<open>lk->locked\<close> still set\<close>
  | Popping     \<comment> \<open>cleared \<open>lk->locked\<close>, before \<open>pop_off\<close>\<close>
  | Panicked

record lock_state =
  the_lock :: spinlock
  cpus :: "nat \<Rightarrow> cpu"
  pcs :: "nat \<Rightarrow> lock_pc"

definition at_pc :: "nat \<Rightarrow> lock_pc \<Rightarrow> lock_state \<Rightarrow> lock_state" where
  "at_pc i pc s = s\<lparr>pcs := (pcs s)(i := pc)\<rparr>"

definition upd_cpu :: "nat \<Rightarrow> cpu \<Rightarrow> lock_state \<Rightarrow> lock_state" where
  "upd_cpu i c s = s\<lparr>cpus := (cpus s)(i := c)\<rparr>"

definition upd_lock :: "(spinlock \<Rightarrow> spinlock) \<Rightarrow> lock_state \<Rightarrow> lock_state" where
  "upd_lock f s = s\<lparr>the_lock := f (the_lock s)\<rparr>"

text \<open>One atomic step of CPU \<open>i\<close>.  Each write of \<open>acquire\<close> and \<open>release\<close> to the lock is a step of
  its own; the check of \<open>holding\<close> is one step with the code that precedes it, which only touches
  the CPU's own state.\<close>

inductive lock_step :: "lock_state \<Rightarrow> lock_state \<Rightarrow> bool" where
  toggle_intr:
    "pcs s i = Idle \<Longrightarrow> noff (cpus s i) = 0 \<Longrightarrow>
     lock_step s (upd_cpu i ((cpus s i)\<lparr>intr := b\<rparr>) s)"
| acquire_enter:
    "pcs s i = Idle \<Longrightarrow> c = push_off (cpus s i) \<Longrightarrow>
     lock_step s (at_pc i (if holding (the_lock s) c then Panicked else Spinning) (upd_cpu i c s))"
| test_and_set:
    "pcs s i = Spinning \<Longrightarrow>
     lock_step s (at_pc i (if locked (the_lock s) = 0 then Got else Spinning)
       (upd_lock (locked_update (\<lambda>_. 1)) s))"
| set_owner:
    "pcs s i = Got \<Longrightarrow>
     lock_step s (at_pc i Critical (upd_lock (lk_cpu_update (\<lambda>_. Some (cpuid (cpus s i)))) s))"
| release_fail:
    "pcs s i = Critical \<Longrightarrow> \<not> holding (the_lock s) (cpus s i) \<Longrightarrow> lock_step s (at_pc i Panicked s)"
| release_enter:
    "pcs s i = Critical \<Longrightarrow> holding (the_lock s) (cpus s i) \<Longrightarrow>
     lock_step s (at_pc i Releasing (upd_lock (lk_cpu_update (\<lambda>_. None)) s))"
| release_locked:
    "pcs s i = Releasing \<Longrightarrow>
     lock_step s (at_pc i Popping (upd_lock (locked_update (\<lambda>_. 0)) s))"
| release_pop:
    "pcs s i = Popping \<Longrightarrow>
     lock_step s (case pop_off (cpus s i) of
         Inl _ \<Rightarrow> at_pc i Panicked s
       | Inr c \<Rightarrow> at_pc i Idle (upd_cpu i c s))"

inductive_cases lock_stepE: "lock_step s t"

definition lock_init :: "lock_state \<Rightarrow> bool" where
  "lock_init s \<longleftrightarrow> locked (the_lock s) = 0 \<and> lk_cpu (the_lock s) = None \<and>
    (\<forall>i. pcs s i = Idle \<and> cpuid (cpus s i) = i \<and> cpu_ok (cpus s i))"

inductive lock_reach :: "lock_state \<Rightarrow> bool" where
  start: "lock_init s \<Longrightarrow> lock_reach s"
| step: "lock_reach s \<Longrightarrow> lock_step s t \<Longrightarrow> lock_reach t"

definition owns :: "lock_pc \<Rightarrow> bool" where
  "owns pc \<longleftrightarrow> pc = Got \<or> pc = Critical \<or> pc = Releasing"

definition inside :: "lock_pc \<Rightarrow> bool" where
  "inside pc \<longleftrightarrow> pc \<noteq> Idle"

lemma owns_simps [simp]:
  "\<not> owns Idle" "\<not> owns Spinning" "owns Got" "owns Critical" "owns Releasing" "\<not> owns Popping"
  by (simp_all add: owns_def)

text \<open>With owner \<open>ow\<close>: the owner is unique, it is recorded in the lock between \<open>set_owner\<close> and
  \<open>release_enter\<close>, and every CPU inside the operations runs with interrupts off.\<close>

definition lock_inv :: "lock_state \<Rightarrow> nat option \<Rightarrow> bool" where
  "lock_inv s ow \<longleftrightarrow>
    (\<forall>i. cpuid (cpus s i) = i \<and> cpu_ok (cpus s i) \<and> pcs s i \<noteq> Panicked) \<and>
    (\<forall>i. inside (pcs s i) \<longrightarrow> 1 \<le> noff (cpus s i)) \<and>
    (\<forall>i. owns (pcs s i) \<longleftrightarrow> ow = Some i) \<and>
    (locked (the_lock s) \<noteq> 0 \<longleftrightarrow> ow \<noteq> None) \<and>
    (\<forall>i. lk_cpu (the_lock s) = Some i \<longleftrightarrow> pcs s i = Critical)"

lemma lock_invD:
  assumes "lock_inv s ow"
  shows "cpuid (cpus s i) = i" and "cpu_ok (cpus s i)" and "pcs s i \<noteq> Panicked"
    and "inside (pcs s i) \<Longrightarrow> 1 \<le> noff (cpus s i)"
    and "owns (pcs s i) \<longleftrightarrow> ow = Some i"
    and "lk_cpu (the_lock s) = Some i \<longleftrightarrow> pcs s i = Critical"
  using assms unfolding lock_inv_def by blast+

lemma lock_inv_locked: "lock_inv s ow \<Longrightarrow> locked (the_lock s) \<noteq> 0 \<longleftrightarrow> ow \<noteq> None"
  by (simp add: lock_inv_def)

lemma lock_inv_init: "lock_init s \<Longrightarrow> lock_inv s None"
  by (simp add: lock_init_def lock_inv_def inside_def)

lemma push_off_fields:
  "cpuid (push_off c) = cpuid c" "noff (push_off c) = noff c + 1" "intr (push_off c) = False"
  by (simp_all add: push_off_def Let_def)

lemma pop_off_cases:
  assumes "cpu_ok c" and "1 \<le> noff c"
  obtains c' where "pop_off c = Inr c'" and "cpuid c' = cpuid c" and "cpu_ok c'"
  using assms by (auto simp: pop_off_def cpu_ok_def Let_def)

lemmas lock_upd_defs = at_pc_def upd_cpu_def upd_lock_def

lemma lock_inv_step:
  assumes inv: "lock_inv s ow" and "lock_step s t"
  shows "\<exists>ow'. lock_inv t ow'"
  using assms(2)
proof cases
  case (toggle_intr i b)
  then have "lock_inv t ow"
    using inv by (auto simp: lock_inv_def lock_upd_defs cpu_ok_def inside_def)
  then show ?thesis ..
next
  case (acquire_enter i c)
  have "\<not> holding (the_lock s) c"
    using lock_invD [OF inv, of i] acquire_enter by (auto simp: holding_def push_off_fields)
  moreover have "ow \<noteq> Some i" using acquire_enter lock_invD(5) [OF inv, of i] by auto
  ultimately have "lock_inv t ow"
    using inv acquire_enter unfolding lock_inv_def
    by (auto simp: lock_upd_defs push_off_fields cpu_ok_def inside_def)
  then show ?thesis ..
next
  case (test_and_set i)
  then have "ow \<noteq> Some i" using lock_invD(5) [OF inv, of i] by auto
  then have "lock_inv t (if locked (the_lock s) = 0 then Some i else ow)"
    using inv test_and_set unfolding lock_inv_def by (auto simp: lock_upd_defs inside_def)
  then show ?thesis ..
next
  case (set_owner i)
  then have "ow = Some i" using lock_invD(5) [OF inv, of i] by simp
  then have "lock_inv t ow"
    using inv set_owner unfolding lock_inv_def by (auto simp: lock_upd_defs inside_def)
  then show ?thesis ..
next
  case (release_fail i)
  then have "ow = Some i" using lock_invD(5) [OF inv, of i] by simp
  then have False using release_fail lock_invD [OF inv, of i] lock_inv_locked [OF inv] by (auto simp: holding_def)
  then show ?thesis ..
next
  case (release_enter i)
  then have "ow = Some i" using lock_invD(5) [OF inv, of i] by simp
  then have "lock_inv t ow"
    using inv release_enter unfolding lock_inv_def by (auto simp: lock_upd_defs inside_def)
  then show ?thesis ..
next
  case (release_locked i)
  then have "ow = Some i" using lock_invD(5) [OF inv, of i] by simp
  then have "lock_inv t None"
    using inv release_locked unfolding lock_inv_def by (auto simp: lock_upd_defs inside_def)
  then show ?thesis ..
next
  case (release_pop i)
  have "cpu_ok (cpus s i)" "1 \<le> noff (cpus s i)"
    using lock_invD [OF inv, of i] release_pop by (auto simp: inside_def)
  then obtain c' where "pop_off (cpus s i) = Inr c'" "cpuid c' = cpuid (cpus s i)" "cpu_ok c'"
    by (rule pop_off_cases)
  moreover have "ow \<noteq> Some i" using release_pop lock_invD(5) [OF inv, of i] by auto
  ultimately have "lock_inv t ow"
    using inv release_pop unfolding lock_inv_def by (auto simp: lock_upd_defs inside_def)
  then show ?thesis ..
qed

lemma lock_inv_reach: "lock_reach s \<Longrightarrow> \<exists>ow. lock_inv s ow"
  by (induction rule: lock_reach.induct) (auto intro: lock_inv_init lock_inv_step)

section \<open>Properties\<close>

text \<open>C1: In every interleaving of the atomic steps of any number of CPUs, at most one CPU is
  between winning the test-and-set of \<open>acquire\<close> and clearing \<open>lk->locked\<close> in \<open>release\<close>; no CPU ever
  reaches a \<open>panic\<close> of \<open>acquire\<close>, \<open>release\<close> or \<open>pop_off\<close>; and a CPU inside the operations has
  its interrupts off.\<close>

theorem spinlock_mutual_exclusion:
  assumes "lock_reach s"
  shows "(owns (pcs s i) \<and> owns (pcs s j) \<longrightarrow> i = j) \<and> pcs s i \<noteq> Panicked \<and>
    (inside (pcs s i) \<longrightarrow> \<not> intr (cpus s i))"
proof (intro conjI)
  obtain ow where inv: "lock_inv s ow" using lock_inv_reach [OF assms] ..
  show "owns (pcs s i) \<and> owns (pcs s j) \<longrightarrow> i = j"
    using lock_invD(5) [OF inv, of i] lock_invD(5) [OF inv, of j] by auto
  show "pcs s i \<noteq> Panicked" by (rule lock_invD(3) [OF inv])
  show "inside (pcs s i) \<longrightarrow> \<not> intr (cpus s i)"
    using lock_invD(2,4) [OF inv, of i] by (auto simp: cpu_ok_def)
qed

text \<open>A run in which CPU 0 holds the lock while CPU 1 spins on it.\<close>

definition demo_start :: lock_state where
  "demo_start = \<lparr>the_lock = initlock ''kmem'',
     cpus = (\<lambda>i. \<lparr>cpuid = i, noff = 0, intena = False, intr = True\<rparr>), pcs = (\<lambda>_. Idle)\<rparr>"

definition demo_enter :: "nat \<Rightarrow> lock_state \<Rightarrow> lock_state" where
  "demo_enter i s = at_pc i Spinning (upd_cpu i (push_off (cpus s i)) s)"

definition demo_tas :: "nat \<Rightarrow> lock_state \<Rightarrow> lock_state" where
  "demo_tas i s = at_pc i (if locked (the_lock s) = 0 then Got else Spinning)
     (upd_lock (locked_update (\<lambda>_. 1)) s)"

definition demo_run :: lock_state where
  "demo_run = demo_tas 1 (demo_tas 0 (demo_enter 1 (demo_enter 0 demo_start)))"

lemma demo_enter_reach:
  assumes "lock_reach s" "pcs s i = Idle" "locked (the_lock s) = 0"
  shows "lock_reach (demo_enter i s)"
  using lock_reach.step [OF assms(1) lock_step.acquire_enter [OF assms(2) refl]] assms(3)
  by (simp add: demo_enter_def holding_def)

lemma demo_tas_reach:
  assumes "lock_reach s" "pcs s i = Spinning"
  shows "lock_reach (demo_tas i s)"
  using lock_reach.step [OF assms(1) lock_step.test_and_set [OF assms(2)]]
  by (simp add: demo_tas_def)

lemmas demo_defs = demo_start_def demo_enter_def demo_tas_def lock_upd_defs initlock_def

lemma demo_run_reach: "lock_reach demo_run"
proof -
  have "lock_reach demo_start"
    by (rule lock_reach.start) (simp add: lock_init_def demo_defs cpu_ok_def)
  then have "lock_reach (demo_enter 0 demo_start)"
    by (rule demo_enter_reach) (simp_all add: demo_defs)
  then have "lock_reach (demo_enter 1 (demo_enter 0 demo_start))"
    by (rule demo_enter_reach) (simp_all add: demo_defs)
  then have "lock_reach (demo_tas 0 (demo_enter 1 (demo_enter 0 demo_start)))"
    by (rule demo_tas_reach) (simp add: demo_defs)
  then show ?thesis
    unfolding demo_run_def by (rule demo_tas_reach) (simp add: demo_defs)
qed

theorem spinlock_mutual_exclusion_witness:
  "owns (pcs demo_run 0) \<and> pcs demo_run 1 = Spinning \<and> \<not> intr (cpus demo_run 1) \<and>
   pcs demo_run 0 \<noteq> Panicked"
proof -
  have "owns (pcs demo_run 0)" "pcs demo_run 1 = Spinning"
    by (simp_all add: demo_run_def demo_defs)
  moreover have "\<not> intr (cpus demo_run 1)"
    using spinlock_mutual_exclusion [OF demo_run_reach, of 1]
    by (simp add: inside_def demo_run_def demo_defs)
  ultimately show ?thesis
    using spinlock_mutual_exclusion [OF demo_run_reach, of 0] by simp
qed

text \<open>C2: Sequentially, \<open>acquire\<close> then \<open>release\<close> of a free lock gives back exactly the lock, the
  nesting depth and the interrupt state it started from; and a second \<open>acquire\<close> of a lock that was
  just acquired by the same CPU panics instead of spinning forever.\<close>

theorem acquire_release_roundtrip:
  assumes "lock_free lk" and "cpu_ok c"
  shows "rbind (acquire lk c) (\<lambda>(lk', c'). release lk' c') = Inr (lk, settle c) \<and>
    rbind (acquire lk c) (\<lambda>(lk', c'). acquire lk' c') = Inl (Panic ''acquire'')"
  using acquire_free [OF assms(1), of c] release_taken [OF assms]
    acquire_held(1) [OF acquire_free [OF assms(1), of c]]
  by simp

theorem acquire_release_roundtrip_witness:
  "rbind (acquire (initlock ''kmem'') \<lparr>cpuid = 1, noff = 0, intena = False, intr = True\<rparr>)
     (\<lambda>(lk', c'). release lk' c') =
   Inr (initlock ''kmem'', \<lparr>cpuid = 1, noff = 0, intena = True, intr = True\<rparr>)"
  using acquire_release_roundtrip
    [of "initlock ''kmem''" "\<lparr>cpuid = 1, noff = 0, intena = False, intr = True\<rparr>"]
  by (simp add: lock_free_def initlock_def cpu_ok_def settle_def)

end
