(* ===== verification/Kalloc.thy ===== *)
theory Kalloc
  imports Kstring Riscv Spinlock
begin

text \<open>
  The physical page allocator with per-page reference counts (\<open>kernel/kalloc.c\<close>).

  The free list is the one the code has: \<open>freelist\<close> is the address of the first free page and
  each free page holds the address of the next in its first eight bytes.  \<open>ref_count\<close> is the
  static array, indexed by page number from \<open>KERNBASE\<close>; an index outside the array is a
  \<open>WildAccess\<close>.  \<open>kend\<close> is the linker symbol \<open>end\<close>.  All operations run on the state of one CPU
  with \<open>kmem.lock\<close> taken and released as in the code.
\<close>

section \<open>State and checked accesses\<close>

record kstate =
  mem :: memory
  kend :: addr
  freelist :: addr
  ref_count :: "nat \<Rightarrow> int"
  kmem_lock :: spinlock
  kcpu :: cpu

text \<open>The kernel reaches RAM through its direct map; anything else it dereferences here is a
  wild access.\<close>

definition ram_range :: "addr \<Rightarrow> nat \<Rightarrow> bool" where
  "ram_range p n \<longleftrightarrow> KERNBASE \<le> p \<and> unat p + n \<le> unat PHYSTOP"

definition ld64 :: "addr \<Rightarrow> kstate \<Rightarrow> uint64 result" where
  "ld64 p s = (if ram_range p 8 then Inr (load64 (mem s) p) else Inl WildAccess)"

definition st64 :: "addr \<Rightarrow> uint64 \<Rightarrow> kstate \<Rightarrow> kstate result" where
  "st64 p v s = (if ram_range p 8 then Inr (s\<lparr>mem := store64 (mem s) p v\<rparr>) else Inl WildAccess)"

definition memset_ram :: "addr \<Rightarrow> byte \<Rightarrow> uint \<Rightarrow> kstate \<Rightarrow> kstate result" where
  "memset_ram p c n s =
    (if ram_range p (unat n) then Inr (s\<lparr>mem := memset (mem s) p c n\<rparr>) else Inl WildAccess)"

definition memmove_ram :: "addr \<Rightarrow> addr \<Rightarrow> uint \<Rightarrow> kstate \<Rightarrow> kstate result" where
  "memmove_ram d p n s =
    (if ram_range d (unat n) \<and> ram_range p (unat n)
     then Inr (s\<lparr>mem := memmove (mem s) d p n\<rparr>) else Inl WildAccess)"

definition NPAGES :: nat where "NPAGES = unat ((PHYSTOP - KERNBASE) div PGSIZE)"

definition rc_index :: "addr \<Rightarrow> nat" where
  "rc_index pa = unat ((pa - KERNBASE) div PGSIZE)"

definition rc_set :: "addr \<Rightarrow> int \<Rightarrow> kstate \<Rightarrow> kstate result" where
  "rc_set pa n s =
    (if rc_index pa < NPAGES then Inr (s\<lparr>ref_count := (ref_count s)(rc_index pa := n)\<rparr>)
     else Inl WildAccess)"

definition kmem_acquire :: "kstate \<Rightarrow> kstate result" where
  "kmem_acquire s =
    rbind (acquire (kmem_lock s) (kcpu s)) (\<lambda>(lk, c). Inr (s\<lparr>kmem_lock := lk, kcpu := c\<rparr>))"

definition kmem_release :: "kstate \<Rightarrow> kstate result" where
  "kmem_release s =
    rbind (release (kmem_lock s) (kcpu s)) (\<lambda>(lk, c). Inr (s\<lparr>kmem_lock := lk, kcpu := c\<rparr>))"

section \<open>Operations\<close>

definition get_ref_count :: "addr \<Rightarrow> kstate \<Rightarrow> int result" where
  "get_ref_count pa s =
    (if rc_index pa < NPAGES then Inr (ref_count s (rc_index pa)) else Inl WildAccess)"

definition update_ref_count :: "addr \<Rightarrow> int \<Rightarrow> kstate \<Rightarrow> kstate result" where
  "update_ref_count pa sign s =
    (if sign = 1 then rbind (get_ref_count pa s) (\<lambda>n. rc_set pa (n + 1) s)
     else if sign = 0 then rbind (get_ref_count pa s) (\<lambda>n. rc_set pa (n - 1) s)
     else Inr s)"

text \<open>The block that \<open>kfree\<close> and \<open>kfree_no_lock\<close> share: junk the page and push it.\<close>

definition push_free :: "addr \<Rightarrow> kstate \<Rightarrow> kstate result" where
  "push_free pa s =
    (if pa mod PGSIZE \<noteq> 0 \<or> pa < kend s \<or> pa \<ge> PHYSTOP then Inl (Panic ''kfree'')
     else rbind (memset_ram pa 1 (ucast PGSIZE) s) (\<lambda>s1.
          rbind (st64 pa (freelist s1) s1) (\<lambda>s2.
          Inr (s2\<lparr>freelist := pa\<rparr>))))"

definition kfree :: "addr \<Rightarrow> kstate \<Rightarrow> kstate result" where
  "kfree pa s =
    rbind (kmem_acquire s) (\<lambda>s1.
    rbind (get_ref_count pa s1) (\<lambda>n.
    rbind (if n \<ge> 1 then update_ref_count pa 0 s1 else Inr s1) (\<lambda>s2.
    rbind (get_ref_count pa s2) (\<lambda>n2.
    rbind (if n2 = 0 then push_free pa s2 else Inr s2) kmem_release))))"

definition kfree_no_lock :: "addr \<Rightarrow> kstate \<Rightarrow> kstate result" where
  "kfree_no_lock pa s =
    rbind (update_ref_count pa 0 s) (\<lambda>s1.
    rbind (get_ref_count pa s1) (\<lambda>n.
    if n = 0 then push_free pa s1 else Inr s1))"

definition kalloc_no_lock :: "kstate \<Rightarrow> (addr \<times> kstate) result" where
  "kalloc_no_lock s =
    (let r = freelist s
     in rbind (if r \<noteq> 0 then rbind (ld64 r s) (\<lambda>nxt. Inr (s\<lparr>freelist := nxt\<rparr>)) else Inr s) (\<lambda>s1.
        rbind (if r \<noteq> 0
               then rbind (memset_ram r 5 (ucast PGSIZE) s1) (\<lambda>s2. rc_set r 1 s2)
               else Inr s1) (\<lambda>s3.
        Inr (r, s3))))"

definition kalloc :: "kstate \<Rightarrow> (addr \<times> kstate) result" where
  "kalloc s =
    rbind (kmem_acquire s) (\<lambda>s0.
    (let r = freelist s0
     in rbind (if r \<noteq> 0 then rbind (ld64 r s0) (\<lambda>nxt. Inr (s0\<lparr>freelist := nxt\<rparr>)) else Inr s0) (\<lambda>s1.
        rbind (if r \<noteq> 0
               then rbind (memset_ram r 5 (ucast PGSIZE) s1) (\<lambda>s2. rc_set r 1 s2)
               else Inr s1) (\<lambda>s3.
        rbind (kmem_release s3) (\<lambda>s4. Inr (r, s4))))))"

definition lock_update_ref_count :: "addr \<Rightarrow> int \<Rightarrow> kstate \<Rightarrow> kstate result" where
  "lock_update_ref_count pa sign s =
    rbind (kmem_acquire s) (\<lambda>s1. rbind (update_ref_count pa sign s1) kmem_release)"

text \<open>\<open>ref_count\<close> is touched before any other check, so a \<open>kfree\<close> that returns was given an
  address in RAM.  This is what ends the loop of \<open>freerange\<close>.\<close>

lemma NPAGES_eq [simp]: "NPAGES = 32768"
  by (simp add: NPAGES_def layout_defs unat_div)

lemma unat_rc_index: "rc_index pa = unat (pa - KERNBASE) div 4096"
  by (simp add: rc_index_def PGSIZE_def unat_div)

lemma rc_index_range:
  "rc_index pa < 32768 \<longleftrightarrow> KERNBASE \<le> pa \<and> pa < PHYSTOP"
proof -
  have "rc_index pa < 32768 \<longleftrightarrow> unat (pa - KERNBASE) < 134217728"
    by (auto simp: unat_rc_index div_less_iff_less_mult)
  also have "\<dots> \<longleftrightarrow> KERNBASE \<le> pa \<and> pa < PHYSTOP"
  proof (cases "KERNBASE \<le> pa")
    case True
    then have "unat (pa - KERNBASE) = unat pa - unat KERNBASE" by (rule unat_sub64)
    then show ?thesis using True
      by (auto simp: layout_defs word_less_nat_alt word_le_nat_alt)
  next
    case False
    then have "unat pa < 2147483648" by (simp add: layout_defs word_le_nat_alt)
    moreover have "unat (pa - KERNBASE) = unat pa + 2 ^ 64 - 2147483648"
      using False by (simp add: unat_sub_if' layout_defs word_le_nat_alt)
    ultimately show ?thesis using False by simp
  qed
  finally show ?thesis .
qed

lemma kfree_returns_range:
  "kfree pa s = Inr s' \<Longrightarrow> KERNBASE \<le> pa \<and> pa < PHYSTOP"
  by (auto simp: kfree_def get_ref_count_def rc_index_range result_iff split: if_splits)

function freerange_loop :: "addr \<Rightarrow> addr \<Rightarrow> kstate \<Rightarrow> kstate result" where
  "freerange_loop p pa_end s =
    (if p + PGSIZE \<le> pa_end then rbind (kfree p s) (\<lambda>s1. freerange_loop (p + PGSIZE) pa_end s1)
     else Inr s)"
  by pat_completeness auto
termination
proof (relation "measure (\<lambda>(p, pa_end, s). unat PHYSTOP - unat p)", simp)
  fix p pa_end :: addr and s s1
  assume "kfree p s = Inr s1"
  then have "unat p < 2281701376"
    using kfree_returns_range by (force simp: layout_defs word_less_nat_alt)
  moreover from this have "unat (p + PGSIZE) = unat p + 4096"
    by (subst unat_add_lem64) (simp_all add: PGSIZE_def)
  ultimately show "((p + PGSIZE, pa_end, s1), p, pa_end, s) \<in> measure (\<lambda>(p, pa_end, s). unat PHYSTOP - unat p)"
    by (simp add: layout_defs)
qed

declare freerange_loop.simps [simp del]

definition freerange :: "addr \<Rightarrow> addr \<Rightarrow> kstate \<Rightarrow> kstate result" where
  "freerange pa_start pa_end s = freerange_loop (PGROUNDUP pa_start) pa_end s"

definition kinit :: "kstate \<Rightarrow> kstate result" where
  "kinit s = freerange (kend s) PHYSTOP (s\<lparr>kmem_lock := initlock ''kmem''\<rparr>)"

section \<open>The free list\<close>

definition page_ok :: "kstate \<Rightarrow> addr \<Rightarrow> bool" where
  "page_ok s pa \<longleftrightarrow> page_aligned pa \<and> KERNBASE \<le> kend s \<and> kend s \<le> pa \<and> pa < PHYSTOP"

text \<open>The list of pages threaded through memory from \<open>p\<close>.\<close>

primrec chain :: "memory \<Rightarrow> addr \<Rightarrow> addr list \<Rightarrow> bool" where
  "chain m p [] = (p = 0)"
| "chain m p (x # xs) = (p = x \<and> x \<noteq> 0 \<and> chain m (load64 m x) xs)"

definition alloc_inv :: "kstate \<Rightarrow> addr list \<Rightarrow> bool" where
  "alloc_inv s xs \<longleftrightarrow>
    chain (mem s) (freelist s) xs \<and> distinct xs \<and>
    (\<forall>x \<in> set xs. page_ok s x \<and> ref_count s (rc_index x) = 0)"

definition fill_page :: "addr \<Rightarrow> byte \<Rightarrow> memory \<Rightarrow> memory" where
  "fill_page p c m = (\<lambda>a. if PGROUNDDOWN a = p then c else m a)"

lemma fill_page_other [simp]: "PGROUNDDOWN a \<noteq> p \<Longrightarrow> fill_page p c m a = m a"
  by (simp add: fill_page_def)

lemma page_ok_ram:
  assumes "page_ok s pa"
  shows "KERNBASE \<le> pa" "pa < PHYSTOP" "page_aligned pa" "pa \<noteq> 0"
proof -
  show *: "KERNBASE \<le> pa" using assms order_trans unfolding page_ok_def by blast
  show "pa < PHYSTOP" "page_aligned pa" using assms by (simp_all add: page_ok_def)
  show "pa \<noteq> 0" using * by (auto simp: KERNBASE_def)
qed

lemma ram_page:
  assumes "KERNBASE \<le> pa" "pa < PHYSTOP" "page_aligned pa" "n \<le> 4096"
  shows "ram_range pa n"
proof -
  obtain k where k: "unat pa = 4096 * k" using assms(3) by (auto simp: page_aligned_unat)
  have "unat pa < 4096 * 557056" using assms(2) by (simp add: layout_defs word_less_nat_alt)
  then have "k < 557056" unfolding k by simp
  then have "unat pa + n \<le> 4096 * 557056" unfolding k using assms(4) by linarith
  then show ?thesis using assms(1) by (simp add: ram_range_def layout_defs)
qed

lemma unat_PGSIZE [simp]: "unat (ucast PGSIZE :: uint) = 4096" "unat PGSIZE = 4096"
  by (simp_all add: PGSIZE_def)

lemma memset_page: "page_aligned p \<Longrightarrow> memset m p c (ucast PGSIZE) = fill_page p c m"
  by (simp add: memset_eq fill_page_def in_page_iff)

lemma memset_ram_page:
  "page_ok s p \<Longrightarrow> memset_ram p c (ucast PGSIZE) s = Inr (s\<lparr>mem := fill_page p c (mem s)\<rparr>)"
  using page_ok_ram [of s p] by (simp add: memset_ram_def ram_page memset_page)

lemma rc_index_page_ok [simp]: "page_ok s p \<Longrightarrow> rc_index p < 32768"
  using page_ok_ram [of s p] by (simp add: rc_index_range)

lemma rc_index_inj:
  assumes "page_aligned p" "page_aligned q" "rc_index p = rc_index q"
    "KERNBASE \<le> p" "KERNBASE \<le> q"
  shows "p = q"
proof (rule word64_eqI)
  have *: "unat (x - KERNBASE) = unat x - 2147483648" "2147483648 \<le> unat x"
    if "KERNBASE \<le> x" for x
    using that unat_sub64 [OF that] by (simp_all add: KERNBASE_def word_le_nat_alt)
  obtain j k where jk: "unat p = 4096 * j" "unat q = 4096 * k"
    using assms(1,2) unfolding page_aligned_unat mod_eq_0_iff_dvd dvd_def by blast
  have "(unat p - 2147483648) div 4096 = (unat q - 2147483648) div 4096"
    using assms(3) * [OF assms(4)] * [OF assms(5)] by (simp add: unat_rc_index)
  then have "(4096 * (j - 524288)) div 4096 = (4096 * (k - 524288)) div 4096"
    by (simp add: jk right_diff_distrib')
  then have "j - 524288 = k - 524288" by simp
  moreover have "524288 \<le> j" "524288 \<le> k"
    using * [OF assms(4)] * [OF assms(5)] by (simp_all add: jk)
  ultimately show "unat p = unat q" using jk by simp
qed

lemma rc_index_eq_iff:
  assumes "page_ok s p" "page_ok t q"
  shows "rc_index p = rc_index q \<longleftrightarrow> p = q"
  using rc_index_inj page_ok_ram [OF assms(1)] page_ok_ram [OF assms(2)] by blast

lemma pte_slot_0: "pte_slot p 0 = p"
  by (simp add: pte_slot_def)

lemma load64_page_frame:
  assumes "page_aligned x" "\<And>a. PGROUNDDOWN a = x \<Longrightarrow> m a = m' a"
  shows "load64 m x = load64 m' x"
  using load64_page_cong [OF assms(1), of 0 m m'] assms(2) by (simp add: pte_slot_0)

lemma chain_cong:
  assumes "\<And>a. PGROUNDDOWN a \<in> set xs \<Longrightarrow> m a = m' a" "\<forall>x \<in> set xs. page_aligned x"
  shows "chain m p xs = chain m' p xs"
  using assms
proof (induction xs arbitrary: p)
  case (Cons x xs)
  then have "load64 m x = load64 m' x" by (intro load64_page_frame) simp_all
  then show ?case using Cons by simp
qed simp

lemma alloc_inv_page_ok: "alloc_inv s xs \<Longrightarrow> x \<in> set xs \<Longrightarrow> page_ok s x"
  by (simp add: alloc_inv_def)

text \<open>The invariant only depends on the free pages, their counts and the list head.\<close>

lemma alloc_inv_frame:
  assumes "alloc_inv s xs" "freelist t = freelist s" "kend t = kend s"
    and "\<And>a. PGROUNDDOWN a \<in> set xs \<Longrightarrow> mem t a = mem s a"
    and "\<And>x. x \<in> set xs \<Longrightarrow> ref_count t (rc_index x) = ref_count s (rc_index x)"
  shows "alloc_inv t xs"
proof -
  have "chain (mem t) (freelist s) xs = chain (mem s) (freelist s) xs"
    using assms(1,4) by (intro chain_cong) (auto simp: alloc_inv_def page_ok_def)
  then show ?thesis using assms by (simp add: alloc_inv_def page_ok_def)
qed

section \<open>What the operations do\<close>

text \<open>The effect of handing out page \<open>x\<close>, and of taking back the last reference to it.\<close>

definition allocated :: "kstate \<Rightarrow> addr \<Rightarrow> kstate \<Rightarrow> bool" where
  "allocated s x t \<longleftrightarrow>
    mem t = fill_page x 5 (mem s) \<and> ref_count t = (ref_count s)(rc_index x := 1) \<and> kend t = kend s"

definition freed :: "kstate \<Rightarrow> addr \<Rightarrow> kstate \<Rightarrow> bool" where
  "freed s x t \<longleftrightarrow>
    (\<forall>a. PGROUNDDOWN a \<noteq> x \<longrightarrow> mem t a = mem s a) \<and>
    ref_count t = (ref_count s)(rc_index x := 0) \<and> kend t = kend s"

definition dropped :: "kstate \<Rightarrow> addr \<Rightarrow> kstate \<Rightarrow> bool" where
  "dropped s x t \<longleftrightarrow>
    mem t = mem s \<and> freelist t = freelist s \<and> kend t = kend s \<and>
    ref_count t = (ref_count s)(rc_index x := ref_count s (rc_index x) - 1)"

lemma kalloc_no_lock_none: "alloc_inv s [] \<Longrightarrow> kalloc_no_lock s = Inr (0, s)"
  by (simp add: alloc_inv_def kalloc_no_lock_def)

lemma kalloc_no_lock_some:
  assumes "alloc_inv s (x # xs)"
  shows "kalloc_no_lock s = Inr (x, s\<lparr>freelist := load64 (mem s) x, mem := fill_page x 5 (mem s),
           ref_count := (ref_count s)(rc_index x := 1)\<rparr>)"
proof -
  have x: "page_ok s x" "freelist s = x" "x \<noteq> 0" using assms by (simp_all add: alloc_inv_def)
  then have "ram_range x 8" using page_ok_ram [of s x] by (simp add: ram_page)
  moreover have "page_ok (s\<lparr>freelist := f\<rparr>) x" for f using x(1) by (simp add: page_ok_def)
  ultimately show ?thesis
    using x by (simp add: kalloc_no_lock_def ld64_def memset_ram_page rc_set_def)
qed

lemma alloc_inv_tl:
  assumes "alloc_inv s (x # xs)" "freelist t = load64 (mem s) x" "allocated s x t"
  shows "alloc_inv t xs"
proof -
  have ok: "page_ok s y" if "y \<in> set (x # xs)" for y using assms(1) that alloc_inv_page_ok by blast
  have "alloc_inv (s\<lparr>freelist := load64 (mem s) x\<rparr>) xs"
    using assms(1) by (simp add: alloc_inv_def page_ok_def)
  then show ?thesis
  proof (rule alloc_inv_frame)
    fix a assume "PGROUNDDOWN a \<in> set xs"
    then have "PGROUNDDOWN a \<noteq> x" using assms(1) by (auto simp: alloc_inv_def)
    then show "mem t a = mem (s\<lparr>freelist := load64 (mem s) x\<rparr>) a"
      using assms(3) by (simp add: allocated_def)
  next
    fix y assume "y \<in> set xs"
    then have "rc_index y \<noteq> rc_index x"
      using ok rc_index_eq_iff [of s y s x] assms(1) by (auto simp: alloc_inv_def)
    then show "ref_count t (rc_index y) = ref_count (s\<lparr>freelist := load64 (mem s) x\<rparr>) (rc_index y)"
      using assms(3) by (simp add: allocated_def)
  qed (use assms(2,3) in \<open>simp_all add: allocated_def\<close>)
qed

lemma push_free_page:
  assumes "page_ok s x"
  shows "push_free x s =
    Inr (s\<lparr>mem := store64 (fill_page x 1 (mem s)) x (freelist s), freelist := x\<rparr>)"
proof -
  have "ram_range x 8" using page_ok_ram [OF assms] by (simp add: ram_page)
  moreover have "x mod PGSIZE = 0 \<and> \<not> x < kend s \<and> \<not> x \<ge> PHYSTOP"
    using assms by (auto simp: page_ok_def page_aligned_def not_less not_le)
  ultimately show ?thesis using assms by (simp add: push_free_def memset_ram_page st64_def)
qed

lemma store64_page_other:
  "page_aligned x \<Longrightarrow> PGROUNDDOWN a \<noteq> x \<Longrightarrow> store64 m x v a = m a"
  using store64_slot_other [of x 0] by (simp add: pte_slot_0)

lemma alloc_inv_push:
  assumes inv: "alloc_inv s xs" and x: "page_ok s x" "x \<notin> set xs"
    and t: "mem t = store64 (fill_page x 1 (mem s)) x (freelist s)" "freelist t = x"
      "ref_count t = (ref_count s)(rc_index x := 0)" "kend t = kend s"
  shows "alloc_inv t (x # xs) \<and> freed s x t"
proof -
  have frame: "mem t a = mem s a" if "PGROUNDDOWN a \<noteq> x" for a
    using that page_ok_ram(3) [OF x(1)] by (simp add: t(1) store64_page_other)
  have "alloc_inv (t\<lparr>freelist := freelist s\<rparr>) xs"
  proof (rule alloc_inv_frame [OF inv])
    fix a assume "PGROUNDDOWN a \<in> set xs"
    then have "PGROUNDDOWN a \<noteq> x" using x(2) by metis
    then show "mem (t\<lparr>freelist := freelist s\<rparr>) a = mem s a" by (simp add: frame)
  next
    fix y assume "y \<in> set xs"
    then have "rc_index y \<noteq> rc_index x"
      using rc_index_eq_iff [OF alloc_inv_page_ok [OF inv] x(1), of y] x(2) by auto
    then show "ref_count (t\<lparr>freelist := freelist s\<rparr>) (rc_index y) = ref_count s (rc_index y)"
      by (simp add: t(3))
  qed (simp_all add: t)
  moreover have "load64 (mem t) x = freelist s" by (simp add: t(1))
  ultimately show ?thesis
    using x t frame page_ok_ram(4) [OF x(1)] by (simp add: alloc_inv_def page_ok_def freed_def)
qed

lemma kfree_no_lock_last:
  assumes "alloc_inv s xs" "page_ok s x" "x \<notin> set xs" "ref_count s (rc_index x) = 1"
  shows "\<exists>t. kfree_no_lock x s = Inr t \<and> alloc_inv t (x # xs) \<and> freed s x t \<and>
    kmem_lock t = kmem_lock s \<and> kcpu t = kcpu s"
proof -
  let ?s1 = "s\<lparr>ref_count := (ref_count s)(rc_index x := 0)\<rparr>"
  let ?t = "?s1\<lparr>mem := store64 (fill_page x 1 (mem s)) x (freelist s), freelist := x\<rparr>"
  have "page_ok ?s1 x" using assms(2) by (simp add: page_ok_def)
  from push_free_page [OF this] have "kfree_no_lock x s = Inr ?t"
    using assms(2,4)
    by (simp add: kfree_no_lock_def update_ref_count_def get_ref_count_def rc_set_def)
  moreover have "alloc_inv ?t (x # xs) \<and> freed s x ?t"
    by (rule alloc_inv_push [OF assms(1-3)]) simp_all
  ultimately show ?thesis by simp
qed

lemma kfree_no_lock_shared:
  assumes "page_ok s x" "1 < ref_count s (rc_index x)"
  shows "\<exists>t. kfree_no_lock x s = Inr t \<and> dropped s x t \<and>
    kmem_lock t = kmem_lock s \<and> kcpu t = kcpu s"
  using assms
  by (simp add: kfree_no_lock_def update_ref_count_def get_ref_count_def rc_set_def dropped_def)

section \<open>Under the lock\<close>

definition lock_ready :: "kstate \<Rightarrow> bool" where
  "lock_ready s \<longleftrightarrow> lock_free (kmem_lock s) \<and> cpu_ok (kcpu s)"

definition held :: "kstate \<Rightarrow> kstate" where
  "held s = s\<lparr>kmem_lock := (kmem_lock s)\<lparr>locked := 1, lk_cpu := Some (cpuid (kcpu s))\<rparr>,
     kcpu := push_off (kcpu s)\<rparr>"

lemma held_fields [simp]:
  "mem (held s) = mem s" "kend (held s) = kend s" "freelist (held s) = freelist s"
  "ref_count (held s) = ref_count s"
  by (simp_all add: held_def)

lemma alloc_inv_held [simp]: "alloc_inv (held s) xs = alloc_inv s xs"
  by (simp add: alloc_inv_def page_ok_def)

lemma page_ok_held [simp]: "page_ok (held s) x = page_ok s x"
  by (simp add: page_ok_def)

lemma kmem_acquire_held: "lock_ready s \<Longrightarrow> kmem_acquire s = Inr (held s)"
  by (simp add: lock_ready_def kmem_acquire_def acquire_free held_def)

lemma kmem_release_held:
  assumes "lock_ready s" "kmem_lock t = kmem_lock (held s)" "kcpu t = kcpu (held s)"
  shows "kmem_release t = Inr (t\<lparr>kmem_lock := kmem_lock s, kcpu := settle (kcpu s)\<rparr>)"
  using assms by (simp add: lock_ready_def kmem_release_def held_def release_taken)

lemma kalloc_locked:
  "kalloc s = rbind (kmem_acquire s) (\<lambda>s0. rbind (kalloc_no_lock s0) (\<lambda>(r, t).
     rbind (kmem_release t) (\<lambda>u. Inr (r, u))))"
  by (simp add: kalloc_def kalloc_no_lock_def Let_def rbind_assoc)

lemma kfree_locked:
  assumes "1 \<le> ref_count s (rc_index pa)" "lock_ready s"
  shows "kfree pa s = rbind (kfree_no_lock pa (held s)) kmem_release"
  using assms by (simp add: kfree_def kfree_no_lock_def kmem_acquire_held get_ref_count_def
      update_ref_count_def rbind_assoc)

lemma lock_ready_after:
  assumes "lock_ready s"
  shows "lock_ready (t\<lparr>kmem_lock := kmem_lock s, kcpu := settle (kcpu s)\<rparr>)"
  using assms by (simp add: lock_ready_def)

lemma kalloc_none:
  assumes "lock_ready s" "alloc_inv s []"
  shows "kalloc s = Inr (0, s\<lparr>kcpu := settle (kcpu s)\<rparr>)"
proof -
  have "kmem_release (held s) = Inr (held s\<lparr>kmem_lock := kmem_lock s, kcpu := settle (kcpu s)\<rparr>)"
    by (rule kmem_release_held) (simp_all add: assms)
  moreover have "held s\<lparr>kmem_lock := kmem_lock s, kcpu := settle (kcpu s)\<rparr> = s\<lparr>kcpu := settle (kcpu s)\<rparr>"
    by (rule kstate.equality) (simp_all add: held_def)
  ultimately show ?thesis
    using assms by (simp add: kalloc_locked kmem_acquire_held kalloc_no_lock_none)
qed

lemma kalloc_some:
  assumes "lock_ready s" "alloc_inv s (x # xs)"
  shows "\<exists>t. kalloc s = Inr (x, t) \<and> alloc_inv t xs \<and> allocated s x t \<and>
    kmem_lock t = kmem_lock s \<and> kcpu t = settle (kcpu s)"
proof -
  let ?u = "held s\<lparr>freelist := load64 (mem s) x, mem := fill_page x 5 (mem s),
           ref_count := (ref_count s)(rc_index x := 1)\<rparr>"
  let ?t = "?u\<lparr>kmem_lock := kmem_lock s, kcpu := settle (kcpu s)\<rparr>"
  have "kalloc_no_lock (held s) = Inr (x, ?u)"
    using kalloc_no_lock_some [of "held s"] assms(2) by simp
  moreover have "kmem_release ?u = Inr ?t"
    by (rule kmem_release_held [OF assms(1)]) simp_all
  ultimately have "kalloc s = Inr (x, ?t)"
    using assms(1) by (simp add: kalloc_locked kmem_acquire_held)
  moreover have "allocated s x ?t" by (simp add: allocated_def)
  moreover from this have "alloc_inv ?t xs" by (intro alloc_inv_tl [OF assms(2)]) simp_all
  ultimately show ?thesis by (intro exI [of _ ?t]) simp
qed

lemma kfree_last:
  assumes "lock_ready s" "alloc_inv s xs" "page_ok s x" "x \<notin> set xs" "ref_count s (rc_index x) = 1"
  shows "\<exists>t. kfree x s = Inr t \<and> alloc_inv t (x # xs) \<and> freed s x t \<and>
    kmem_lock t = kmem_lock s \<and> kcpu t = settle (kcpu s)"
proof -
  obtain u where u: "kfree_no_lock x (held s) = Inr u" "alloc_inv u (x # xs)" "freed (held s) x u"
    "kmem_lock u = kmem_lock (held s)" "kcpu u = kcpu (held s)"
    using kfree_no_lock_last [of "held s" xs x] assms by auto
  let ?t = "u\<lparr>kmem_lock := kmem_lock s, kcpu := settle (kcpu s)\<rparr>"
  have "kfree x s = Inr ?t"
    using kfree_locked [OF _ assms(1), of x] assms(5) u(1) kmem_release_held [OF assms(1) u(4,5)]
    by simp
  moreover have "alloc_inv ?t (x # xs)" "freed s x ?t"
    using u(2,3) by (simp_all add: alloc_inv_def page_ok_def freed_def)
  ultimately show ?thesis by (intro exI [of _ ?t]) simp
qed

lemma kfree_shared:
  assumes "lock_ready s" "page_ok s x" "1 < ref_count s (rc_index x)"
  shows "\<exists>t. kfree x s = Inr t \<and> dropped s x t \<and> kmem_lock t = kmem_lock s \<and> kcpu t = settle (kcpu s)"
proof -
  obtain u where u: "kfree_no_lock x (held s) = Inr u" "dropped (held s) x u"
    "kmem_lock u = kmem_lock (held s)" "kcpu u = kcpu (held s)"
    using kfree_no_lock_shared [of "held s" x] assms by auto
  let ?t = "u\<lparr>kmem_lock := kmem_lock s, kcpu := settle (kcpu s)\<rparr>"
  have "kfree x s = Inr ?t"
    using kfree_locked [OF _ assms(1), of x] assms(3) u(1) kmem_release_held [OF assms(1) u(3,4)]
    by simp
  moreover have "dropped s x ?t" using u(2) by (simp add: dropped_def)
  ultimately show ?thesis by (intro exI [of _ ?t]) simp
qed

lemma lock_update_ref_count_eq:
  assumes "lock_ready s" "page_ok s x"
  shows "lock_update_ref_count x 1 s = Inr (s\<lparr>ref_count := (ref_count s)(rc_index x := ref_count s (rc_index x) + 1),
    kcpu := settle (kcpu s)\<rparr>)"
proof -
  let ?u = "held s\<lparr>ref_count := (ref_count s)(rc_index x := ref_count s (rc_index x) + 1)\<rparr>"
  have "kmem_release ?u = Inr (?u\<lparr>kmem_lock := kmem_lock s, kcpu := settle (kcpu s)\<rparr>)"
    by (rule kmem_release_held [OF assms(1)]) simp_all
  moreover have "?u\<lparr>kmem_lock := kmem_lock s, kcpu := settle (kcpu s)\<rparr> =
      s\<lparr>ref_count := (ref_count s)(rc_index x := ref_count s (rc_index x) + 1), kcpu := settle (kcpu s)\<rparr>"
    by (rule kstate.equality) (simp_all add: held_def)
  ultimately show ?thesis
    using assms by (simp add: lock_update_ref_count_def kmem_acquire_held update_ref_count_def
        get_ref_count_def rc_set_def)
qed

text \<open>During boot every count is zero and \<open>kfree\<close> just pushes the page.\<close>

lemma kfree_boot:
  assumes "lock_ready s" "alloc_inv s xs" "page_ok s x" "x \<notin> set xs" "ref_count s (rc_index x) = 0"
  shows "\<exists>t. kfree x s = Inr t \<and> alloc_inv t (x # xs) \<and> ref_count t = ref_count s \<and>
    kend t = kend s \<and> kmem_lock t = kmem_lock s \<and> kcpu t = settle (kcpu s)"
proof -
  let ?u = "held s\<lparr>mem := store64 (fill_page x 1 (mem s)) x (freelist s), freelist := x\<rparr>"
  let ?t = "?u\<lparr>kmem_lock := kmem_lock s, kcpu := settle (kcpu s)\<rparr>"
  have "push_free x (held s) = Inr ?u"
    using push_free_page [of "held s" x] assms(3) by simp
  moreover have "kmem_release ?u = Inr ?t"
    by (rule kmem_release_held [OF assms(1)]) simp_all
  ultimately have "kfree x s = Inr ?t"
    using assms by (simp add: kfree_def kmem_acquire_held get_ref_count_def)
  moreover have "alloc_inv ?t (x # xs) \<and> freed s x ?t"
    using assms(5) by (intro alloc_inv_push [OF assms(2-4)]) auto
  ultimately show ?thesis by (intro exI [of _ ?t]) simp
qed

section \<open>The allocator's interface\<close>

text \<open>What the rest of the kernel relies on.  \<open>ready\<close> is the state in which the operations may be
  called: the lock free for the locking pair, nothing for the pair that is called with the lock
  held.\<close>

locale page_allocator =
  fixes alloc :: "kstate \<Rightarrow> (addr \<times> kstate) result"
    and free :: "addr \<Rightarrow> kstate \<Rightarrow> kstate result"
    and ready :: "kstate \<Rightarrow> bool"
  assumes alloc_none: "ready s \<Longrightarrow> alloc_inv s [] \<Longrightarrow>
      \<exists>t. alloc s = Inr (0, t) \<and> ready t \<and> alloc_inv t []"
    and alloc_some: "ready s \<Longrightarrow> alloc_inv s (x # xs) \<Longrightarrow>
      \<exists>t. alloc s = Inr (x, t) \<and> ready t \<and> alloc_inv t xs \<and> allocated s x t"
    and free_last: "ready s \<Longrightarrow> alloc_inv s xs \<Longrightarrow> page_ok s x \<Longrightarrow> x \<notin> set xs \<Longrightarrow>
      ref_count s (rc_index x) = 1 \<Longrightarrow>
      \<exists>t. free x s = Inr t \<and> ready t \<and> alloc_inv t (x # xs) \<and> freed s x t"
    and free_shared: "ready s \<Longrightarrow> page_ok s x \<Longrightarrow> 1 < ref_count s (rc_index x) \<Longrightarrow>
      \<exists>t. free x s = Inr t \<and> ready t \<and> dropped s x t"

primrec alloc_times :: "(kstate \<Rightarrow> (addr \<times> kstate) result) \<Rightarrow> nat \<Rightarrow> kstate \<Rightarrow> (addr list \<times> kstate) result" where
  "alloc_times alloc 0 s = Inr ([], s)"
| "alloc_times alloc (Suc n) s =
    rbind (alloc s) (\<lambda>(r, t). rbind (alloc_times alloc n t) (\<lambda>(rs, u). Inr (r # rs, u)))"

context page_allocator
begin

text \<open>Allocation hands out the free list in order and then reports exhaustion.\<close>

lemma alloc_times_none:
  "ready s \<Longrightarrow> alloc_inv s [] \<Longrightarrow>
    \<exists>t. alloc_times alloc n s = Inr (replicate n 0, t) \<and> ready t \<and> alloc_inv t []"
proof (induction n arbitrary: s)
  case (Suc n)
  obtain t where t: "alloc s = Inr (0, t)" "ready t" "alloc_inv t []"
    using alloc_none [OF Suc.prems] by blast
  then show ?case using Suc.IH [of t] by auto
qed simp

lemma alloc_times_eq:
  "ready s \<Longrightarrow> alloc_inv s xs \<Longrightarrow>
    \<exists>t. alloc_times alloc n s = Inr (take n xs @ replicate (n - length xs) 0, t) \<and>
      ready t \<and> alloc_inv t (drop n xs)"
proof (induction xs arbitrary: n s)
  case Nil
  then show ?case using alloc_times_none by simp
next
  case (Cons x xs)
  show ?case
  proof (cases n)
    case (Suc m)
    obtain t where "alloc s = Inr (x, t)" "ready t" "alloc_inv t xs"
      using alloc_some [OF Cons.prems] by blast
    then show ?thesis using Cons.IH [of t m] Suc by auto
  qed (use Cons.prems in simp)
qed

text \<open>A page that is freed right after it was allocated is the next one to be allocated.\<close>

lemma alloc_free:
  assumes "ready s" "alloc_inv s (x # xs)"
  shows "\<exists>t u. alloc s = Inr (x, t) \<and> free x t = Inr u \<and> ready u \<and> alloc_inv u (x # xs) \<and>
    ref_count u = ref_count s \<and> (\<forall>a. PGROUNDDOWN a \<noteq> x \<longrightarrow> mem u a = mem s a)"
proof -
  obtain t where t: "alloc s = Inr (x, t)" "ready t" "alloc_inv t xs" "allocated s x t"
    using alloc_some [OF assms] by blast
  have x: "page_ok s x" "x \<notin> set xs" "ref_count s (rc_index x) = 0"
    using assms(2) by (simp_all add: alloc_inv_def)
  have "page_ok t x" "ref_count t (rc_index x) = 1"
    using x t(4) by (simp_all add: page_ok_def allocated_def)
  then obtain u where u: "free x t = Inr u" "ready u" "alloc_inv u (x # xs)" "freed t x u"
    using free_last [OF t(2,3) _ x(2)] by blast
  have "ref_count u = ref_count s"
    using t(4) u(4) x(3) by (auto simp: allocated_def freed_def fun_eq_iff)
  moreover have "\<forall>a. PGROUNDDOWN a \<noteq> x \<longrightarrow> mem u a = mem s a"
    using t(4) u(4) by (simp add: allocated_def freed_def)
  ultimately show ?thesis using t(1) u by blast
qed

end

interpretation locked: page_allocator kalloc kfree lock_ready
proof
  fix s x xs
  show "\<exists>t. kalloc s = Inr (0, t) \<and> lock_ready t \<and> alloc_inv t []"
    if "lock_ready s" "alloc_inv s []"
    using kalloc_none [OF that] that by (simp add: lock_ready_def alloc_inv_def)
  show "\<exists>t. kalloc s = Inr (x, t) \<and> lock_ready t \<and> alloc_inv t xs \<and> allocated s x t"
    if "lock_ready s" "alloc_inv s (x # xs)"
    using kalloc_some [OF that] that(1) by (auto simp: lock_ready_def)
  show "\<exists>t. kfree x s = Inr t \<and> lock_ready t \<and> alloc_inv t (x # xs) \<and> freed s x t"
    if "lock_ready s" "alloc_inv s xs" "page_ok s x" "x \<notin> set xs" "ref_count s (rc_index x) = 1"
    using kfree_last [OF that] that(1) by (auto simp: lock_ready_def)
  show "\<exists>t. kfree x s = Inr t \<and> lock_ready t \<and> dropped s x t"
    if "lock_ready s" "page_ok s x" "1 < ref_count s (rc_index x)"
    using kfree_shared [OF that] that(1) by (auto simp: lock_ready_def)
qed

interpretation unlocked: page_allocator kalloc_no_lock kfree_no_lock "\<lambda>_. True"
proof
  fix s x xs
  show "\<exists>t. kalloc_no_lock s = Inr (0, t) \<and> True \<and> alloc_inv t []" if "alloc_inv s []"
    using kalloc_no_lock_none [OF that] that by simp
  show "\<exists>t. kalloc_no_lock s = Inr (x, t) \<and> True \<and> alloc_inv t xs \<and> allocated s x t"
    if "alloc_inv s (x # xs)"
    using kalloc_no_lock_some [OF that] alloc_inv_tl [OF that] by (simp add: allocated_def)
  show "\<exists>t. kfree_no_lock x s = Inr t \<and> True \<and> alloc_inv t (x # xs) \<and> freed s x t"
    if "alloc_inv s xs" "page_ok s x" "x \<notin> set xs" "ref_count s (rc_index x) = 1"
    using kfree_no_lock_last [OF that] by blast
  show "\<exists>t. kfree_no_lock x s = Inr t \<and> True \<and> dropped s x t"
    if "page_ok s x" "1 < ref_count s (rc_index x)"
    using kfree_no_lock_shared [OF that] by blast
qed

text \<open>Both cases of \<open>kfree\<close> on a page in use.\<close>

lemma kfree_effect:
  assumes "lock_ready s" "alloc_inv s xs" "page_ok s x" "x \<notin> set xs" "1 \<le> ref_count s (rc_index x)"
  shows "\<exists>t. kfree x s = Inr t \<and> lock_ready t \<and> kend t = kend s \<and>
    ref_count t = (ref_count s)(rc_index x := ref_count s (rc_index x) - 1) \<and>
    (\<forall>a. PGROUNDDOWN a \<noteq> x \<longrightarrow> mem t a = mem s a) \<and>
    (if ref_count s (rc_index x) = 1 then alloc_inv t (x # xs) else alloc_inv t xs \<and> mem t = mem s)"
proof (cases "ref_count s (rc_index x) = 1")
  case True
  then show ?thesis using locked.free_last [OF assms(1-4)] by (auto simp: freed_def)
next
  case False
  then have "1 < ref_count s (rc_index x)" using assms(5) by simp
  then obtain t where t: "kfree x s = Inr t" "lock_ready t" "dropped s x t"
    using locked.free_shared [OF assms(1,3)] by blast
  have "alloc_inv t xs"
  proof (rule alloc_inv_frame [OF assms(2)])
    fix y assume "y \<in> set xs"
    then have "rc_index y \<noteq> rc_index x"
      using rc_index_eq_iff [OF alloc_inv_page_ok [OF assms(2)] assms(3), of y] assms(4) by auto
    then show "ref_count t (rc_index y) = ref_count s (rc_index y)"
      using t(3) by (simp add: dropped_def)
  qed (use t(3) in \<open>simp_all add: dropped_def\<close>)
  then show ?thesis using t False by (auto simp: dropped_def)
qed

section \<open>Initialisation\<close>

text \<open>The whole pages of \<open>[p, p + 4096 * n)\<close>, last first: the order \<open>freerange\<close> leaves them in.\<close>

definition pages_down :: "addr \<Rightarrow> nat \<Rightarrow> addr list" where
  "pages_down p n = map (\<lambda>i. p + of_nat i * PGSIZE) (rev [0..<n])"

lemma unat_page_nth:
  assumes "page_aligned p" "unat p + 4096 * i < 2 ^ 64"
  shows "unat (p + of_nat i * PGSIZE) = unat p + 4096 * i"
    and "page_aligned (p + of_nat i * PGSIZE)"
proof -
  have "(of_nat i :: uint64) * PGSIZE = of_nat (i * 4096)" by (simp add: PGSIZE_def)
  then have "unat ((of_nat i :: uint64) * PGSIZE) = i * 4096"
    using assms(2) by (simp only: unat_of_nat64)
  then show *: "unat (p + of_nat i * PGSIZE) = unat p + 4096 * i"
    using assms(2) by (subst unat_add_lem64) simp_all
  show "page_aligned (p + of_nat i * PGSIZE)"
    using assms(1) * by (simp add: page_aligned_unat)
qed

lemma freerange_loop_eq:
  assumes "lock_ready s" "alloc_inv s xs" "page_aligned p" "KERNBASE \<le> kend s" "kend s \<le> p"
    and "unat p + 4096 * n = unat PHYSTOP"
    and "\<forall>x \<in> set xs. x < p" "ref_count s = (\<lambda>_. 0)"
  shows "\<exists>t. freerange_loop p PHYSTOP s = Inr t \<and> lock_ready t \<and>
    alloc_inv t (pages_down p n @ xs) \<and> ref_count t = ref_count s \<and> kend t = kend s"
  using assms
proof (induction n arbitrary: s xs p)
  case 0
  then have "unat p = 2281701376" by (simp add: layout_defs)
  then have "unat (p + PGSIZE) = 2281701376 + 4096"
    by (subst unat_add_lem64) (simp_all add: PGSIZE_def)
  then have "\<not> p + PGSIZE \<le> PHYSTOP" by (simp add: word_le_nat_alt layout_defs)
  then have "freerange_loop p PHYSTOP s = Inr s" by (simp add: freerange_loop.simps)
  then show ?case using 0 by (simp add: pages_down_def)
next
  case (Suc n)
  let ?q = "p + PGSIZE"
  have P: "unat PHYSTOP = 2281701376" by (simp add: layout_defs)
  have q: "unat ?q = unat p + 4096" "page_aligned ?q"
    using unat_page_nth [OF Suc.prems(3), of 1] Suc.prems(6) P by simp_all
  have "p < PHYSTOP" using Suc.prems(6) by (simp add: word_less_nat_alt)
  then have x: "page_ok s p" "p \<notin> set xs" using Suc.prems by (auto simp: page_ok_def)
  obtain t where t: "kfree p s = Inr t" "alloc_inv t (p # xs)" "ref_count t = ref_count s"
    "kend t = kend s" "kmem_lock t = kmem_lock s" "kcpu t = settle (kcpu s)"
    using kfree_boot [OF Suc.prems(1,2) x] Suc.prems(8) by auto
  have "p < ?q" using q by (simp add: word_less_nat_alt)
  then have "\<exists>u. freerange_loop ?q PHYSTOP t = Inr u \<and> lock_ready u \<and>
      alloc_inv u (pages_down ?q n @ p # xs) \<and> ref_count u = ref_count t \<and> kend u = kend t"
  proof (intro Suc.IH)
    show "lock_ready t" using Suc.prems(1) t by (simp add: lock_ready_def)
    show "kend t \<le> ?q" using \<open>p < ?q\<close> Suc.prems(5) t(4) by simp
    show "unat ?q + 4096 * n = unat PHYSTOP" using q Suc.prems(6) by simp
    show "\<forall>x \<in> set (p # xs). x < ?q"
      using \<open>p < ?q\<close> Suc.prems(7) by (auto intro: less_trans)
  qed (use t q Suc.prems in auto)
  moreover have "?q \<le> PHYSTOP" using q Suc.prems(6) by (simp add: word_le_nat_alt)
  moreover have "pages_down p (Suc n) = pages_down ?q n @ [p]"
  proof -
    have "[0..<Suc n] = 0 # map Suc [0..<n]" by (simp add: map_Suc_upt upt_conv_Cons)
    then show ?thesis by (simp add: pages_down_def rev_map algebra_simps)
  qed
  ultimately show ?case using t by (simp add: freerange_loop.simps [of p])
qed

definition boot_state :: "kstate \<Rightarrow> bool" where
  "boot_state s \<longleftrightarrow> KERNBASE \<le> kend s \<and> kend s \<le> PHYSTOP \<and> freelist s = 0 \<and>
    ref_count s = (\<lambda>_. 0) \<and> cpu_ok (kcpu s)"

definition boot_pages :: "kstate \<Rightarrow> addr list" where
  "boot_pages s = pages_down (PGROUNDUP (kend s)) ((unat PHYSTOP - unat (PGROUNDUP (kend s))) div 4096)"

lemma kinit_inv:
  assumes "boot_state s"
  shows "\<exists>t. kinit s = Inr t \<and> lock_ready t \<and> alloc_inv t (boot_pages s) \<and>
    ref_count t = (\<lambda>_. 0) \<and> kend t = kend s"
proof -
  let ?p = "PGROUNDUP (kend s)" and ?s = "s\<lparr>kmem_lock := initlock ''kmem''\<rparr>"
  have P: "unat PHYSTOP = 2281701376" by (simp add: layout_defs)
  have e: "unat (kend s) \<le> 2281701376"
    using assms by (simp add: boot_state_def layout_defs word_le_nat_alt)
  then have p: "unat ?p = (unat (kend s) + 4095) div 4096 * 4096" by (intro unat_PGROUNDUP) simp
  have "(unat (kend s) + 4095) div 4096 \<le> (4096 * 557056 + 4095) div 4096"
    using e by (intro div_le_mono) simp
  then have le: "unat ?p \<le> 2281701376" by (simp add: p)
  have "4096 * ((2281701376 - unat ?p) div 4096) = 2281701376 - unat ?p"
    unfolding p by (intro dvd_mult_div_cancel dvd_diff_nat) simp_all
  then have n: "unat ?p + 4096 * ((unat PHYSTOP - unat ?p) div 4096) = unat PHYSTOP"
    using le P by simp
  have "unat (kend s) \<le> unat ?p"
    unfolding p using dividend_less_div_times [of 4096 "unat (kend s) + 4095"] by simp
  then have "kend s \<le> ?p" by (simp add: word_le_nat_alt)
  moreover have "lock_ready ?s" "alloc_inv ?s []"
    using assms by (simp_all add: boot_state_def lock_ready_def lock_free_def initlock_def alloc_inv_def)
  ultimately have "\<exists>t. freerange_loop ?p PHYSTOP ?s = Inr t \<and> lock_ready t \<and>
      alloc_inv t (boot_pages s @ []) \<and> ref_count t = ref_count ?s \<and> kend t = kend ?s"
    unfolding boot_pages_def using assms n
    by (intro freerange_loop_eq) (simp_all add: boot_state_def)
  then show ?thesis using assms by (simp add: kinit_def freerange_def boot_state_def)
qed

section \<open>Properties\<close>

text \<open>C3: From boot (all counts zero, \<open>end\<close> inside RAM), \<open>kinit\<close> returns and puts every whole page
  between \<open>end\<close> and \<open>PHYSTOP\<close> on the free list once; \<open>k\<close> calls of \<open>kalloc\<close> then return the first
  \<open>k\<close> of these pages, all distinct, page aligned and inside \<open>[end, PHYSTOP)\<close>, and after they are
  used up every further call returns 0.\<close>

theorem kinit_kalloc:
  assumes "boot_state s"
  shows "\<exists>t u. kinit s = Inr t \<and> distinct (boot_pages s) \<and> (\<forall>x \<in> set (boot_pages s). page_ok s x) \<and>
    alloc_times kalloc k t =
      Inr (take k (boot_pages s) @ replicate (k - length (boot_pages s)) 0, u)"
proof -
  obtain t where t: "kinit s = Inr t" "lock_ready t" "alloc_inv t (boot_pages s)" "kend t = kend s"
    using kinit_inv [OF assms] by blast
  obtain u where "alloc_times kalloc k t =
      Inr (take k (boot_pages s) @ replicate (k - length (boot_pages s)) 0, u)"
    using locked.alloc_times_eq [OF t(2,3), of k] by blast
  moreover have "distinct (boot_pages s)" "\<forall>x \<in> set (boot_pages s). page_ok s x"
    using t(3,4) by (simp_all add: alloc_inv_def page_ok_def)
  ultimately show ?thesis using t(1) by blast
qed

text \<open>A machine whose kernel ends one byte into the third page from the top.\<close>

definition demo_boot :: kstate where
  "demo_boot = \<lparr>mem = (\<lambda>_. 0), kend = 0x87FFD001, freelist = 0, ref_count = (\<lambda>_. 0),
     kmem_lock = initlock ''x'', kcpu = \<lparr>cpuid = 0, noff = 0, intena = False, intr = False\<rparr>\<rparr>"

lemma demo_boot_state: "boot_state demo_boot"
  by (simp add: boot_state_def demo_boot_def layout_defs cpu_ok_def)

lemma demo_boot_pages: "boot_pages demo_boot = [0x87FFF000, 0x87FFE000]"
proof -
  have p: "PGROUNDUP (kend demo_boot) = 0x87FFE000" by (simp add: demo_boot_def PGROUNDUP_def PGSIZE_def)
  have n: "(unat PHYSTOP - unat (PGROUNDUP (kend demo_boot))) div 4096 = 2"
    unfolding p by (simp add: layout_defs)
  show ?thesis unfolding boot_pages_def n unfolding p by (simp add: pages_down_def PGSIZE_def upt_rec)
qed

theorem kinit_kalloc_witness:
  "\<exists>t u. kinit demo_boot = Inr t \<and>
    alloc_times kalloc 3 t = Inr ([0x87FFF000, 0x87FFE000, 0], u)"
  using kinit_kalloc [OF demo_boot_state, of 3] by (auto simp: demo_boot_pages)

text \<open>C4: Allocation and freeing are inverse on the free list: \<open>kalloc\<close> takes the first free page
  \<open>x\<close>, \<open>kfree x\<close> right after it gives back the same free list with all reference counts as they
  were, and no byte outside the page \<open>x\<close> has changed.\<close>

theorem kalloc_kfree_roundtrip:
  assumes "lock_ready s" and "alloc_inv s (x # xs)"
  shows "\<exists>t u. kalloc s = Inr (x, t) \<and> kfree x t = Inr u \<and> alloc_inv u (x # xs) \<and>
    ref_count u = ref_count s \<and> (\<forall>a. PGROUNDDOWN a \<noteq> x \<longrightarrow> mem u a = mem s a)"
  using locked.alloc_free [OF assms] by blast

lemma demo_booted:
  obtains t where "kinit demo_boot = Inr t" "lock_ready t" "alloc_inv t [0x87FFF000, 0x87FFE000]"
    "kend t = kend demo_boot"
  using kinit_inv [OF demo_boot_state] demo_boot_pages by auto

theorem kalloc_kfree_roundtrip_witness:
  "\<exists>s t u. kinit demo_boot = Inr s \<and> kalloc s = Inr (0x87FFF000, t) \<and> kfree 0x87FFF000 t = Inr u \<and>
     ref_count u = ref_count s"
proof -
  obtain s where s: "kinit demo_boot = Inr s" "lock_ready s" "alloc_inv s [0x87FFF000, 0x87FFE000]"
    by (rule demo_booted)
  then show ?thesis using kalloc_kfree_roundtrip [OF s(2,3)] by blast
qed

text \<open>C5: The reference count decides what \<open>kfree\<close> does.  With one reference left the page is junked
  and becomes the head of the free list with count zero, and nothing outside it changes; with more
  than one, only the count goes down by one, and neither the memory nor the free list changes.\<close>

theorem kfree_by_count:
  assumes "lock_ready s" and "alloc_inv s xs" and "page_ok s x" and "x \<notin> set xs"
    and "1 \<le> ref_count s (rc_index x)"
  shows "\<exists>t. kfree x s = Inr t \<and> ref_count t = (ref_count s)(rc_index x := ref_count s (rc_index x) - 1) \<and>
    (if ref_count s (rc_index x) = 1
     then alloc_inv t (x # xs) \<and> (\<forall>a. PGROUNDDOWN a \<noteq> x \<longrightarrow> mem t a = mem s a)
     else alloc_inv t xs \<and> mem t = mem s)"
  using kfree_effect [OF assms] by (auto split: if_splits)

theorem kfree_by_count_witness:
  "\<exists>s t u v. kinit demo_boot = Inr s \<and> kalloc s = Inr (0x87FFF000, t) \<and>
     lock_update_ref_count 0x87FFF000 1 t = Inr u \<and> kfree 0x87FFF000 u = Inr v \<and>
     ref_count v (rc_index 0x87FFF000) = 1 \<and> mem v = mem u"
proof -
  let ?x = "0x87FFF000 :: addr"
  obtain s where s: "kinit demo_boot = Inr s" "lock_ready s" "alloc_inv s [?x, 0x87FFE000]"
    by (rule demo_booted)
  obtain t where t: "kalloc s = Inr (?x, t)" "lock_ready t" "alloc_inv t [0x87FFE000]" "allocated s ?x t"
    using locked.alloc_some [OF s(2,3)] by blast
  have x: "page_ok t ?x" using s(3) t(4) by (simp add: alloc_inv_def allocated_def page_ok_def)
  have y: "page_ok t 0x87FFE000" using t(3) by (simp add: alloc_inv_def)
  define u where "u = t\<lparr>ref_count := (ref_count t)(rc_index ?x := ref_count t (rc_index ?x) + 1),
    kcpu := settle (kcpu t)\<rparr>"
  have u: "lock_update_ref_count ?x 1 t = Inr u"
    using lock_update_ref_count_eq [OF t(2) x] by (simp add: u_def)
  have "ref_count u (rc_index ?x) = 2" using t(4) by (simp add: u_def allocated_def)
  moreover have "lock_ready u" "page_ok u ?x"
    using t(2) x by (simp_all add: u_def lock_ready_def page_ok_def)
  moreover have "alloc_inv u [0x87FFE000]"
    using t(3) rc_index_eq_iff [OF y x] by (simp add: u_def alloc_inv_def page_ok_def)
  ultimately show ?thesis
    using kfree_by_count [of u "[0x87FFE000]" ?x] s(1) t(1) u by auto
qed

end
