(* ===== verification/Vm.thy ===== *)
theory Vm
  imports Kalloc
begin

text \<open>
  Page tables and user memory (\<open>kernel/vm.c\<close>), with the copy-on-write routines of
  \<open>kernel/vm.c\<close> (\<open>cow_fault_handler\<close>, \<open>uvmcopy\<close>) and \<open>kernel/kalloc.c\<close> (\<open>update\<close>).

  A page table is what it is in the code: the address of a page of 512 entries in the memory of
  the kernel state, walked entry by entry.  Loops that step by a page end because \<open>walk\<close> panics
  at \<open>MAXVA\<close>.  Kernel-side buffers of \<open>copyin\<close> and \<open>copyout\<close> are byte lists, C \<open>int\<close> results are
  \<open>int\<close>, and \<open>r_scause()\<close> is the argument \<open>scause\<close>.  Permission bits are 64-bit words here; the
  code keeps them in \<open>int\<close> and \<open>uint\<close> variables, which hold the ten flag bits exactly.
\<close>

section \<open>Walking a page table\<close>

primrec walk_loop :: "nat \<Rightarrow> addr \<Rightarrow> uint64 \<Rightarrow> bool \<Rightarrow> kstate \<Rightarrow> (addr \<times> kstate) result" where
  "walk_loop 0 pagetable va alloc s = Inr (pte_slot pagetable (PX 0 va), s)"
| "walk_loop (Suc l) pagetable va alloc s =
    (let pte = pte_slot pagetable (PX (Suc l) va)
     in rbind (ld64 pte s) (\<lambda>e.
        if e AND PTE_V \<noteq> 0 then walk_loop l (PTE2PA e) va alloc s
        else if \<not> alloc then Inr (0, s)
        else rbind (kalloc s) (\<lambda>(pg, s1).
             if pg = 0 then Inr (0, s1)
             else rbind (memset_ram pg 0 (ucast PGSIZE) s1) (\<lambda>s2.
                  rbind (st64 pte (PA2PTE pg OR PTE_V) s2) (\<lambda>s3.
                  walk_loop l pg va alloc s3)))))"

definition walk :: "addr \<Rightarrow> uint64 \<Rightarrow> bool \<Rightarrow> kstate \<Rightarrow> (addr \<times> kstate) result" where
  "walk pagetable va alloc s =
    (if va \<ge> MAXVA then Inl (Panic ''walk'') else walk_loop 2 pagetable va alloc s)"

definition walkaddr :: "addr \<Rightarrow> uint64 \<Rightarrow> kstate \<Rightarrow> uint64 result" where
  "walkaddr pagetable va s =
    (if va \<ge> MAXVA then Inr 0
     else rbind (walk pagetable va False s) (\<lambda>(pte, s1).
          if pte = 0 then Inr 0
          else rbind (ld64 pte s1) (\<lambda>e.
               if e AND PTE_V = 0 then Inr 0
               else if e AND PTE_U = 0 then Inr 0
               else Inr (PTE2PA e))))"

lemma walk_range: "walk pt va al s = Inr r \<Longrightarrow> va < MAXVA"
  by (auto simp: walk_def not_le split: if_splits)

text \<open>The measure of every loop that steps by a page under \<open>walk\<close>.\<close>

definition va_left :: "uint64 \<Rightarrow> nat" where
  "va_left a = unat MAXVA - unat a"

lemma va_left_step: "a < MAXVA \<Longrightarrow> va_left (a + PGSIZE) < va_left a"
proof -
  assume "a < MAXVA"
  then have "unat a < 274877906944" by (simp add: MAXVA_def word_less_nat_alt)
  moreover from this have "unat (a + PGSIZE) = unat a + 4096"
    by (subst unat_add_lem64) (simp_all add: PGSIZE_def)
  ultimately show ?thesis by (simp add: va_left_def MAXVA_def)
qed

section \<open>Mappings\<close>

function mappages_loop :: "addr \<Rightarrow> uint64 \<Rightarrow> uint64 \<Rightarrow> uint64 \<Rightarrow> uint64 \<Rightarrow> kstate \<Rightarrow> (int \<times> kstate) result" where
  "mappages_loop pagetable a last_a pa perm s =
    rbind (walk pagetable a True s) (\<lambda>(pte, s1).
    if pte = 0 then Inr (-1, s1)
    else rbind (st64 pte (PA2PTE pa OR perm OR PTE_V) s1) (\<lambda>s2.
         if a = last_a then Inr (0, s2)
         else mappages_loop pagetable (a + PGSIZE) last_a (pa + PGSIZE) perm s2))"
  by pat_completeness auto
termination
  by (relation "measure (\<lambda>(_, a, _). va_left a)") (auto intro: va_left_step dest: walk_range)

declare mappages_loop.simps [simp del]

definition mappages :: "addr \<Rightarrow> uint64 \<Rightarrow> uint64 \<Rightarrow> uint64 \<Rightarrow> uint64 \<Rightarrow> kstate \<Rightarrow> (int \<times> kstate) result" where
  "mappages pagetable va sz pa perm s =
    (if va mod PGSIZE \<noteq> 0 then Inl (Panic ''mappages: va not aligned'')
     else if sz mod PGSIZE \<noteq> 0 then Inl (Panic ''mappages: size not aligned'')
     else if sz = 0 then Inl (Panic ''mappages: size'')
     else mappages_loop pagetable va (va + sz - PGSIZE) pa perm s)"

definition kvmmap :: "addr \<Rightarrow> uint64 \<Rightarrow> uint64 \<Rightarrow> uint64 \<Rightarrow> uint64 \<Rightarrow> kstate \<Rightarrow> kstate result" where
  "kvmmap kpgtbl va pa sz perm s =
    rbind (mappages kpgtbl va sz pa perm s) (\<lambda>(r, s1).
    if r \<noteq> 0 then Inl (Panic ''kvmmap'') else Inr s1)"

definition NPROC :: nat where "NPROC = 64"

text \<open>\<open>proc_mapstacks\<close> is in \<open>kernel/proc.c\<close>; \<open>kvmmake\<close> calls it.\<close>

definition proc_mapstacks :: "addr \<Rightarrow> kstate \<Rightarrow> kstate result" where
  "proc_mapstacks kpgtbl s =
    rfold (\<lambda>p s. rbind (kalloc s) (\<lambda>(pa, s1).
      if pa = 0 then Inl (Panic ''kalloc'')
      else kvmmap kpgtbl (KSTACK p) pa PGSIZE (PTE_R OR PTE_W) s1)) [0..<NPROC] s"

text \<open>\<open>etext\<close> and \<open>trampoline\<close> are linker symbols.\<close>

definition kvmmake :: "addr \<Rightarrow> addr \<Rightarrow> kstate \<Rightarrow> (addr \<times> kstate) result" where
  "kvmmake etext trampoline s =
    rbind (kalloc s) (\<lambda>(kpgtbl, s1).
    rbind (memset_ram kpgtbl 0 (ucast PGSIZE) s1) (\<lambda>s2.
    rbind (kvmmap kpgtbl UART0 UART0 PGSIZE (PTE_R OR PTE_W) s2) (\<lambda>s3.
    rbind (kvmmap kpgtbl VIRTIO0 VIRTIO0 PGSIZE (PTE_R OR PTE_W) s3) (\<lambda>s4.
    rbind (kvmmap kpgtbl PLIC PLIC 0x4000000 (PTE_R OR PTE_W) s4) (\<lambda>s5.
    rbind (kvmmap kpgtbl KERNBASE KERNBASE (etext - KERNBASE) (PTE_R OR PTE_X) s5) (\<lambda>s6.
    rbind (kvmmap kpgtbl etext etext (PHYSTOP - etext) (PTE_R OR PTE_W) s6) (\<lambda>s7.
    rbind (kvmmap kpgtbl TRAMPOLINE trampoline PGSIZE (PTE_R OR PTE_X) s7) (\<lambda>s8.
    rbind (proc_mapstacks kpgtbl s8) (\<lambda>s9.
    Inr (kpgtbl, s9))))))))))"

section \<open>User address spaces\<close>

function uvmunmap_loop :: "addr \<Rightarrow> uint64 \<Rightarrow> uint64 \<Rightarrow> bool \<Rightarrow> kstate \<Rightarrow> kstate result" where
  "uvmunmap_loop pagetable a stop do_free s =
    (if a < stop then
       rbind (walk pagetable a False s) (\<lambda>(pte, s1).
       if pte = 0 then Inl (Panic ''uvmunmap: walk'')
       else rbind (ld64 pte s1) (\<lambda>e.
            if e AND PTE_V = 0 then Inl (Panic ''uvmunmap: not mapped'')
            else if PTE_FLAGS e = PTE_V then Inl (Panic ''uvmunmap: not a leaf'')
            else rbind (if do_free then kfree (PTE2PA e) s1 else Inr s1) (\<lambda>s2.
                 rbind (st64 pte 0 s2) (\<lambda>s3.
                 uvmunmap_loop pagetable (a + PGSIZE) stop do_free s3))))
     else Inr s)"
  by pat_completeness auto
termination
  by (relation "measure (\<lambda>(_, a, _). va_left a)") (auto intro: va_left_step dest: walk_range)

declare uvmunmap_loop.simps [simp del]

definition uvmunmap :: "addr \<Rightarrow> uint64 \<Rightarrow> uint64 \<Rightarrow> bool \<Rightarrow> kstate \<Rightarrow> kstate result" where
  "uvmunmap pagetable va npages do_free s =
    (if va mod PGSIZE \<noteq> 0 then Inl (Panic ''uvmunmap: not aligned'')
     else uvmunmap_loop pagetable va (va + npages * PGSIZE) do_free s)"

definition uvmcreate :: "kstate \<Rightarrow> (addr \<times> kstate) result" where
  "uvmcreate s =
    rbind (kalloc s) (\<lambda>(pagetable, s1).
    if pagetable = 0 then Inr (0, s1)
    else rbind (memset_ram pagetable 0 (ucast PGSIZE) s1) (\<lambda>s2. Inr (pagetable, s2)))"

text \<open>A copy from a kernel buffer, whose bytes are given, into memory.\<close>

definition write_bytes :: "addr \<Rightarrow> byte list \<Rightarrow> memory \<Rightarrow> memory" where
  "write_bytes p bs m = (\<lambda>x. if unat (x - p) < length bs then bs ! unat (x - p) else m x)"

definition memmove_in :: "addr \<Rightarrow> byte list \<Rightarrow> kstate \<Rightarrow> kstate result" where
  "memmove_in p bs s =
    (if ram_range p (length bs) then Inr (s\<lparr>mem := write_bytes p bs (mem s)\<rparr>) else Inl WildAccess)"

definition read_bytes :: "addr \<Rightarrow> nat \<Rightarrow> memory \<Rightarrow> byte list" where
  "read_bytes p n m = map (\<lambda>i. m (p + of_nat i)) [0..<n]"

definition memmove_out :: "addr \<Rightarrow> nat \<Rightarrow> kstate \<Rightarrow> byte list result" where
  "memmove_out p n s = (if ram_range p n then Inr (read_bytes p n (mem s)) else Inl WildAccess)"

definition uvmfirst :: "addr \<Rightarrow> byte list \<Rightarrow> kstate \<Rightarrow> kstate result" where
  "uvmfirst pagetable src s =
    (if length src \<ge> 4096 then Inl (Panic ''uvmfirst: more than a page'')
     else rbind (kalloc s) (\<lambda>(pg, s1).
          rbind (memset_ram pg 0 (ucast PGSIZE) s1) (\<lambda>s2.
          rbind (mappages pagetable 0 PGSIZE pg (PTE_W OR PTE_R OR PTE_X OR PTE_U) s2) (\<lambda>(_, s3).
          memmove_in pg src s3))))"

text \<open>\<open>int npages\<close> is a 32-bit variable that is passed as \<open>uint64\<close>.\<close>

definition uvmdealloc :: "addr \<Rightarrow> uint64 \<Rightarrow> uint64 \<Rightarrow> kstate \<Rightarrow> (uint64 \<times> kstate) result" where
  "uvmdealloc pagetable oldsz newsz s =
    (if newsz \<ge> oldsz then Inr (oldsz, s)
     else rbind (if PGROUNDUP newsz < PGROUNDUP oldsz
                 then let npages = ucast ((PGROUNDUP oldsz - PGROUNDUP newsz) div PGSIZE) :: 32 word
                      in uvmunmap pagetable (PGROUNDUP newsz) (scast npages) True s
                 else Inr s) (\<lambda>s1.
          Inr (newsz, s1)))"

lemma mappages_range: "mappages pt a PGSIZE pa perm s = Inr r \<Longrightarrow> a < MAXVA"
  by (auto simp: mappages_def mappages_loop.simps [of pt a] result_iff
      dest: walk_range split: if_splits)

function uvmalloc_loop :: "addr \<Rightarrow> uint64 \<Rightarrow> uint64 \<Rightarrow> uint64 \<Rightarrow> uint64 \<Rightarrow> kstate \<Rightarrow> (uint64 \<times> kstate) result" where
  "uvmalloc_loop pagetable a oldsz newsz xperm s =
    (if a < newsz then
       rbind (kalloc s) (\<lambda>(pg, s1).
       if pg = 0 then rbind (uvmdealloc pagetable a oldsz s1) (\<lambda>(_, s2). Inr (0, s2))
       else rbind (memset_ram pg 0 (ucast PGSIZE) s1) (\<lambda>s2.
            rbind (mappages pagetable a PGSIZE pg (PTE_R OR PTE_U OR xperm) s2) (\<lambda>(r, s3).
            if r \<noteq> 0 then
              rbind (kfree pg s3) (\<lambda>s4.
              rbind (uvmdealloc pagetable a oldsz s4) (\<lambda>(_, s5). Inr (0, s5)))
            else uvmalloc_loop pagetable (a + PGSIZE) oldsz newsz xperm s3)))
     else Inr (newsz, s))"
  by pat_completeness auto
termination
  by (relation "measure (\<lambda>(_, a, _). va_left a)") (auto intro: va_left_step dest: mappages_range)

declare uvmalloc_loop.simps [simp del]

definition uvmalloc :: "addr \<Rightarrow> uint64 \<Rightarrow> uint64 \<Rightarrow> uint64 \<Rightarrow> kstate \<Rightarrow> (uint64 \<times> kstate) result" where
  "uvmalloc pagetable oldsz newsz xperm s =
    (if newsz < oldsz then Inr (oldsz, s)
     else let oldsz = PGROUNDUP oldsz in uvmalloc_loop pagetable oldsz oldsz newsz xperm s)"

text \<open>\<open>freewalk\<close> recurses into whatever the entries point to; \<open>depth\<close> bounds the recursion, and a table
  nested deeper than it is a \<open>Spin\<close>.  Sv39 tables have three levels.\<close>

primrec freewalk :: "nat \<Rightarrow> addr \<Rightarrow> kstate \<Rightarrow> kstate result" where
  "freewalk 0 pagetable s = Inl Spin"
| "freewalk (Suc depth) pagetable s =
    rbind (rfold (\<lambda>i s.
        rbind (ld64 (pte_slot pagetable (of_nat i)) s) (\<lambda>pte.
        if pte AND PTE_V \<noteq> 0 \<and> pte AND (PTE_R OR PTE_W OR PTE_X) = 0 then
          rbind (freewalk depth (PTE2PA pte) s) (\<lambda>s1. st64 (pte_slot pagetable (of_nat i)) 0 s1)
        else if pte AND PTE_V \<noteq> 0 then Inl (Panic ''freewalk: leaf'')
        else Inr s)) [0..<512] s) (\<lambda>s1.
    kfree pagetable s1)"

definition uvmfree :: "addr \<Rightarrow> uint64 \<Rightarrow> kstate \<Rightarrow> kstate result" where
  "uvmfree pagetable sz s =
    rbind (if sz > 0 then uvmunmap pagetable 0 (PGROUNDUP sz div PGSIZE) True s else Inr s) (\<lambda>s1.
    freewalk 3 pagetable s1)"

section \<open>Copy-on-write\<close>

text \<open>\<open>update\<close> of \<open>kernel/kalloc.c\<close>: resolve a fault on a page that \<open>pte\<close> maps copy-on-write, under
  \<open>kmem.lock\<close>.  The argument \<open>pte\<close> is not used by the code.\<close>

definition update :: "addr \<Rightarrow> uint64 \<Rightarrow> addr \<Rightarrow> uint64 \<Rightarrow> uint64 \<Rightarrow> kstate \<Rightarrow> (int \<times> kstate) result" where
  "update table va pte pa flags s =
    rbind (kmem_acquire s) (\<lambda>s1.
    rbind (get_ref_count pa s1) (\<lambda>n.
    rbind (if n > 1 then
             rbind (kalloc_no_lock s1) (\<lambda>(new_pa, s2).
             let updated_flags = (flags OR PTE_W) AND NOT PTE_COW
             in rbind (memmove_ram new_pa pa (ucast PGSIZE) s2) (\<lambda>s3.
                rbind (mappages table va PGSIZE new_pa updated_flags s3) (\<lambda>(_, s4).
                kfree_no_lock pa s4)))
           else if n = 1 then
             let updated_flags = (flags OR PTE_W) AND NOT PTE_COW
             in rbind (mappages table va PGSIZE pa updated_flags s1) (\<lambda>(_, s2). Inr s2)
           else Inr s1) (\<lambda>s5.
    rbind (kmem_release s5) (\<lambda>s6. Inr (0, s6)))))"

definition cow_fault_handler :: "uint64 \<Rightarrow> addr \<Rightarrow> uint64 \<Rightarrow> kstate \<Rightarrow> (int \<times> kstate) result" where
  "cow_fault_handler scause table va s =
    rbind (walk table (PGROUNDDOWN va) False s) (\<lambda>(pte, s1).
    rbind (ld64 pte s1) (\<lambda>e.
    if e = 0 then Inr (-1, s1)
    else if scause = 13 then Inr (-1, s1)
    else if va \<ge> MAXVA then Inr (-1, s1)
    else if e AND PTE_COW \<noteq> 0 \<and> e AND PTE_V \<noteq> 0 \<and> e AND PTE_U \<noteq> 0 then
      rbind (update table (PGROUNDDOWN va) pte (PTE2PA e) (PTE_FLAGS e) s1) (\<lambda>(_, s2). Inr (0, s2))
    else Inr (-1, s1)))"

definition cow_flags :: "uint64 \<Rightarrow> uint64" where
  "cow_flags flags = ((flags AND NOT PTE_W) OR PTE_R) OR PTE_COW"

function uvmcopy_loop :: "addr \<Rightarrow> addr \<Rightarrow> uint64 \<Rightarrow> uint64 \<Rightarrow> kstate \<Rightarrow> (int \<times> kstate) result" where
  "uvmcopy_loop old new i sz s =
    (if i < sz then
       rbind (walk old i False s) (\<lambda>(pte, s1).
       if pte = 0 then Inl (Panic ''uvmcopy: pte should exist'')
       else rbind (ld64 pte s1) (\<lambda>e.
            if e AND PTE_V = 0 then Inl (Panic ''uvmcopy: page not present'')
            else
              let pa = PTE2PA e; flags = PTE_FLAGS e
              in rbind (if e AND PTE_W \<noteq> 0
                        then rbind (st64 pte (PA2PTE pa OR cow_flags flags) s1) (\<lambda>s2.
                             mappages new i PGSIZE pa (cow_flags flags) s2)
                        else mappages new i PGSIZE pa flags s1) (\<lambda>(r, s3).
                 if r \<noteq> 0 then
                   rbind (uvmunmap new 0 (i div PGSIZE) True s3) (\<lambda>s4. Inr (-1, s4))
                 else
                   rbind (lock_update_ref_count pa 1 s3) (\<lambda>s4.
                   uvmcopy_loop old new (i + PGSIZE) sz s4))))
     else Inr (0, s))"
  by pat_completeness auto
termination
  by (relation "measure (\<lambda>(_, _, i, _). va_left i)") (auto intro: va_left_step dest: walk_range)

declare uvmcopy_loop.simps [simp del]

definition uvmcopy :: "addr \<Rightarrow> addr \<Rightarrow> uint64 \<Rightarrow> kstate \<Rightarrow> (int \<times> kstate) result" where
  "uvmcopy old new sz s = uvmcopy_loop old new 0 sz s"

definition uvmclear :: "addr \<Rightarrow> uint64 \<Rightarrow> kstate \<Rightarrow> kstate result" where
  "uvmclear pagetable va s =
    rbind (walk pagetable va False s) (\<lambda>(pte, s1).
    if pte = 0 then Inl (Panic ''uvmclear'')
    else rbind (ld64 pte s1) (\<lambda>e. st64 pte (e AND NOT PTE_U) s1))"

section \<open>Copies between kernel and user\<close>

text \<open>The number of bytes to copy in this round: up to the end of the page.\<close>

definition copy_len :: "uint64 \<Rightarrow> nat \<Rightarrow> nat" where
  "copy_len va len = (let n = unat (PGSIZE - (va - PGROUNDDOWN va)) in if n > len then len else n)"

lemma page_off_less: "unat (va - PGROUNDDOWN va) < 4096"
  using in_page_iff [of "PGROUNDDOWN va" va] by simp

lemma unat_page_rest: "unat (PGSIZE - (va - PGROUNDDOWN va)) = 4096 - unat (va - PGROUNDDOWN va)"
  using page_off_less [of va]
  by (subst unat_sub64) (simp_all add: PGSIZE_def word_le_nat_alt)

lemma copy_len_pos: "0 < len \<Longrightarrow> 0 < copy_len va len"
  using page_off_less [of va] by (simp add: copy_len_def unat_page_rest Let_def)

lemma copy_len_le: "copy_len va len \<le> len"
  by (simp add: copy_len_def Let_def)

function copyout :: "uint64 \<Rightarrow> addr \<Rightarrow> uint64 \<Rightarrow> byte list \<Rightarrow> kstate \<Rightarrow> (int \<times> kstate) result" where
  "copyout scause pagetable dstva src s =
    (if src \<noteq> [] then
       let va0 = PGROUNDDOWN dstva
       in if va0 \<ge> MAXVA then Inr (-1, s)
          else
            rbind (walk pagetable va0 False s) (\<lambda>(pte, s1).
            rbind (ld64 pte s1) (\<lambda>e0.
            rbind (if e0 AND PTE_COW \<noteq> 0 then cow_fault_handler scause pagetable va0 s1
                   else Inr (0, s1)) (\<lambda>(r, s2).
            if r = -1 then Inr (-1, s2)
            else if pte = 0 then Inr (-1, s2)
            else rbind (ld64 pte s2) (\<lambda>e.
                 if e AND PTE_V = 0 \<or> e AND PTE_U = 0 \<or> e AND PTE_W = 0 then Inr (-1, s2)
                 else
                   let pa0 = PTE2PA e; n = copy_len dstva (length src)
                   in rbind (memmove_in (pa0 + (dstva - va0)) (take n src) s2) (\<lambda>s3.
                      copyout scause pagetable (va0 + PGSIZE) (drop n src) s3)))))
     else Inr (0, s))"
  by pat_completeness auto
termination
  by (relation "measure (\<lambda>(_, _, _, src, _). length src)") (auto simp: copy_len_pos)

declare copyout.simps [simp del]

text \<open>\<open>copyin\<close> gives the result code and the bytes it wrote to \<open>dst\<close>.\<close>

function copyin :: "addr \<Rightarrow> uint64 \<Rightarrow> nat \<Rightarrow> kstate \<Rightarrow> (int \<times> byte list) result" where
  "copyin pagetable srcva len s =
    (if len > 0 then
       let va0 = PGROUNDDOWN srcva
       in rbind (walkaddr pagetable va0 s) (\<lambda>pa0.
          if pa0 = 0 then Inr (-1, [])
          else
            let n = copy_len srcva len
            in rbind (memmove_out (pa0 + (srcva - va0)) n s) (\<lambda>bs.
               rbind (copyin pagetable (va0 + PGSIZE) (len - n) s) (\<lambda>(r, cs).
               Inr (r, bs @ cs))))
     else Inr (0, []))"
  by pat_completeness auto
termination
  by (relation "measure (\<lambda>(_, _, len, _). len)") (auto simp: copy_len_pos)

declare copyin.simps [simp del]

text \<open>The inner loop of \<open>copyinstr\<close>: the bytes copied, and whether the last of them is the
  terminating null.\<close>

primrec copy_str :: "nat \<Rightarrow> addr \<Rightarrow> kstate \<Rightarrow> (byte list \<times> bool) result" where
  "copy_str 0 p s = Inr ([], False)"
| "copy_str (Suc n) p s =
    (if \<not> ram_range p 1 then Inl WildAccess
     else if mem s p = 0 then Inr ([0], True)
     else rbind (copy_str n (p + 1) s) (\<lambda>(bs, got_null). Inr (mem s p # bs, got_null)))"

function copyinstr :: "addr \<Rightarrow> uint64 \<Rightarrow> nat \<Rightarrow> kstate \<Rightarrow> (int \<times> byte list) result" where
  "copyinstr pagetable srcva max_n s =
    (if max_n > 0 then
       let va0 = PGROUNDDOWN srcva
       in rbind (walkaddr pagetable va0 s) (\<lambda>pa0.
          if pa0 = 0 then Inr (-1, [])
          else
            let n = copy_len srcva max_n
            in rbind (copy_str n (pa0 + (srcva - va0)) s) (\<lambda>(bs, got_null).
               if got_null then Inr (0, bs)
               else rbind (copyinstr pagetable (va0 + PGSIZE) (max_n - n) s) (\<lambda>(r, cs).
                    Inr (r, bs @ cs))))
     else Inr (-1, []))"
  by pat_completeness auto
termination
  by (relation "measure (\<lambda>(_, _, max_n, _). max_n)") (auto simp: copy_len_pos)

declare copyinstr.simps [simp del]

end
