(* ===== verification/Tables.thy ===== *)
theory Tables
  imports Vm
begin

text \<open>
  The page tables as trees.  A set \<open>R\<close> of roots is in use; \<open>node\<close> follows a list of indices from
  a root, \<open>tables\<close> collects the pages reached, and \<open>entry\<close> is the leaf entry of a virtual
  address (zero where a level is missing).  \<open>tab_inv\<close> says that every table page is an allocated
  page with one reference and is reached by exactly one path from one root.  Under it, \<open>walk\<close>
  without allocation only reads, \<open>walk\<close> with allocation adds pages from the free list and changes
  no leaf entry, and a store to a leaf slot changes that entry only.
\<close>

section \<open>Trees in memory\<close>

primrec node :: "memory \<Rightarrow> addr \<Rightarrow> uint64 list \<Rightarrow> addr option" where
  "node m p [] = Some p"
| "node m p (i # is) =
    (if load64 m (pte_slot p i) AND PTE_V \<noteq> 0
     then node m (PTE2PA (load64 m (pte_slot p i))) is else None)"

definition entry :: "memory \<Rightarrow> addr \<Rightarrow> uint64 \<Rightarrow> uint64" where
  "entry m r va =
    (case node m r [PX 2 va, PX 1 va] of None \<Rightarrow> 0 | Some p \<Rightarrow> load64 m (pte_slot p (PX 0 va)))"

definition table_path :: "uint64 list \<Rightarrow> bool" where
  "table_path is \<longleftrightarrow> length is \<le> 2 \<and> (\<forall>i \<in> set is. unat i < 512)"

definition tables :: "memory \<Rightarrow> addr set \<Rightarrow> addr set" where
  "tables m R = {p. \<exists>r \<in> R. \<exists>is. table_path is \<and> node m r is = Some p}"

definition tab_inv :: "kstate \<Rightarrow> addr set \<Rightarrow> bool" where
  "tab_inv s R \<longleftrightarrow>
    (\<forall>p \<in> tables (mem s) R. page_ok s p \<and> ref_count s (rc_index p) = 1) \<and>
    (\<forall>r \<in> R. \<forall>r' \<in> R. \<forall>is is' p. table_path is \<longrightarrow> table_path is' \<longrightarrow>
       node (mem s) r is = Some p \<longrightarrow> node (mem s) r' is' = Some p \<longrightarrow> r = r' \<and> is = is')"

lemma node_append: "node m p (is @ js) = Option.bind (node m p is) (\<lambda>q. node m q js)"
  by (induction "is" arbitrary: p) simp_all

lemma table_path_simps [simp]:
  "table_path []" "table_path [i] = (unat i < 512)"
  "table_path [i, j] = (unat i < 512 \<and> unat j < 512)"
  by (auto simp: table_path_def)

lemma table_path_cases:
  assumes "table_path is"
  obtains "is = []" | i where "is = [i]" "unat i < 512"
    | i j where "is = [i, j]" "unat i < 512" "unat j < 512"
proof -
  have *: "length is \<le> 2" "\<forall>i \<in> set is. unat i < 512" using assms by (simp_all add: table_path_def)
  show thesis
  proof (cases "is")
    case (Cons i js)
    then show thesis using * that by (cases js) auto
  qed (use that in simp)
qed

lemma tablesI: "r \<in> R \<Longrightarrow> table_path is \<Longrightarrow> node m r is = Some p \<Longrightarrow> p \<in> tables m R"
  by (auto simp: tables_def)

lemma root_tables: "r \<in> R \<Longrightarrow> r \<in> tables m R"
  by (rule tablesI [of _ _ "[]"]) simp_all

lemma tab_invD:
  assumes "tab_inv s R" "r \<in> R" "table_path is" "node (mem s) r is = Some p"
  shows "page_ok s p" "ref_count s (rc_index p) = 1" "page_aligned p"
  using assms tablesI [OF assms(2-4)] page_ok_ram by (auto simp: tab_inv_def)

lemma tab_inv_inj:
  assumes "tab_inv s R" "r \<in> R" "r' \<in> R" "table_path is" "table_path is'"
    "node (mem s) r is = Some p" "node (mem s) r' is' = Some p"
  shows "r = r' \<and> is = is'"
  using assms unfolding tab_inv_def by blast

lemma tab_inv_root: "tab_inv s R \<Longrightarrow> r \<in> R \<Longrightarrow> page_ok s r"
  using tab_invD(1) [of s R r "[]"] by simp

text \<open>Table pages are never on the free list.\<close>

lemma tables_not_free:
  assumes "tab_inv s R" "alloc_inv s xs" "x \<in> set xs"
  shows "x \<notin> tables (mem s) R"
  using assms by (auto simp: tab_inv_def alloc_inv_def)

section \<open>Framing\<close>

text \<open>Reading below a table page only touches table pages.\<close>

lemma node_frame:
  assumes "tab_inv s R" "r \<in> R" "table_path is"
    and "\<And>a. PGROUNDDOWN a \<in> tables (mem s) R \<Longrightarrow> m a = mem s a"
  shows "node m r is = node (mem s) r is"
proof -
  have slot: "load64 m (pte_slot p i) = load64 (mem s) (pte_slot p i)"
    if "r \<in> R" "table_path js" "node (mem s) r js = Some p" "unat i < 512" for p i js
    using tab_invD(3) [OF assms(1) that(1-3)] tablesI [OF that(1-3)] that(4) assms(4)
    by (intro load64_page_cong) auto
  show ?thesis
    using assms(3)
  proof (cases rule: table_path_cases)
    case (2 i)
    then show ?thesis using slot [of "[]" r i] assms(2) by simp
  next
    case (3 i j)
    have root: "load64 m (pte_slot r i) = load64 (mem s) (pte_slot r i)"
      using slot [of "[]" r i] assms(2) 3 by simp
    show ?thesis
    proof (cases "load64 (mem s) (pte_slot r i) AND PTE_V \<noteq> 0")
      case True
      then have "node (mem s) r [i] = Some (PTE2PA (load64 (mem s) (pte_slot r i)))" by simp
      then show ?thesis using slot [of "[i]" _ j] assms(2) 3 root True by simp
    qed (use 3 root in simp)
  qed simp
qed

lemma entry_frame:
  assumes "tab_inv s R" "r \<in> R"
    and "\<And>a. PGROUNDDOWN a \<in> tables (mem s) R \<Longrightarrow> m a = mem s a"
  shows "entry m r va = entry (mem s) r va"
proof -
  have n: "node m r [PX 2 va, PX 1 va] = node (mem s) r [PX 2 va, PX 1 va]"
    by (rule node_frame [OF assms(1,2) _ assms(3)]) simp_all
  show ?thesis
  proof (cases "node (mem s) r [PX 2 va, PX 1 va]")
    case (Some p)
    then have "page_aligned p" "p \<in> tables (mem s) R"
      using tab_invD(3) [OF assms(1,2) _ Some] tablesI [OF assms(2) _ Some] by simp_all
    then have "load64 m (pte_slot p (PX 0 va)) = load64 (mem s) (pte_slot p (PX 0 va))"
      using assms(3) by (intro load64_page_cong) simp_all
    then show ?thesis using n Some by (simp add: entry_def del: node.simps)
  qed (use n in \<open>simp add: entry_def del: node.simps\<close>)
qed

lemma tables_frame:
  assumes "tab_inv s R" "\<And>a. PGROUNDDOWN a \<in> tables (mem s) R \<Longrightarrow> m a = mem s a"
  shows "tables m R = tables (mem s) R"
proof -
  have "(\<exists>is. table_path is \<and> node m r is = Some p) \<longleftrightarrow> (\<exists>is. table_path is \<and> node (mem s) r is = Some p)"
    if "r \<in> R" for r p
    using node_frame [OF assms(1) that _ assms(2)] by metis
  then show ?thesis by (simp add: tables_def)
qed

lemma tab_inv_frame:
  assumes "tab_inv s R" "\<And>a. PGROUNDDOWN a \<in> tables (mem s) R \<Longrightarrow> mem t a = mem s a"
    "kend t = kend s" "\<And>p. p \<in> tables (mem s) R \<Longrightarrow> ref_count t (rc_index p) = ref_count s (rc_index p)"
  shows "tab_inv t R"
proof -
  have n: "node (mem t) r is = node (mem s) r is" if "r \<in> R" "table_path is" for r "is"
    by (rule node_frame [OF assms(1) that assms(2)])
  have "tables (mem t) R = tables (mem s) R" by (rule tables_frame [OF assms(1,2)])
  then show ?thesis
    using assms n unfolding tab_inv_def by (simp add: page_ok_def)
qed

section \<open>Walking without allocation\<close>

lemma slot_ram:
  assumes "page_ok s p" "unat i < 512"
  shows "ram_range (pte_slot p i) 8"
proof -
  have p: "KERNBASE \<le> p" "page_aligned p" "ram_range p 4096"
    using page_ok_ram [OF assms(1)] ram_page by simp_all
  then show ?thesis
    using assms(2) by (simp add: ram_range_def pte_slot_unat word_le_nat_alt)
qed

lemma ld64_slot: "page_ok s p \<Longrightarrow> unat i < 512 \<Longrightarrow> ld64 (pte_slot p i) s = Inr (load64 (mem s) (pte_slot p i))"
  by (simp add: ld64_def slot_ram)

lemma st64_slot:
  "page_ok s p \<Longrightarrow> unat i < 512 \<Longrightarrow>
    st64 (pte_slot p i) v s = Inr (s\<lparr>mem := store64 (mem s) (pte_slot p i) v\<rparr>)"
  by (simp add: st64_def slot_ram)

lemma slot_nonzero: "page_ok s p \<Longrightarrow> unat i < 512 \<Longrightarrow> pte_slot p i \<noteq> 0"
  using slot_ram [of s p i] by (auto simp: ram_range_def KERNBASE_def)

text \<open>What \<open>walk\<close> returns when it finds, or does not find, the leaf table.\<close>

definition leaf_slot :: "memory \<Rightarrow> addr \<Rightarrow> uint64 \<Rightarrow> addr" where
  "leaf_slot m r va =
    (case node m r [PX 2 va, PX 1 va] of None \<Rightarrow> 0 | Some p \<Rightarrow> pte_slot p (PX 0 va))"

lemma walk_loop_1:
  assumes "page_ok s p"
  shows "walk_loop 1 p va False s =
    Inr (case node (mem s) p [PX 1 va] of None \<Rightarrow> 0 | Some q \<Rightarrow> pte_slot q (PX 0 va), s)"
  using assms by (simp add: ld64_slot Let_def)

lemma walk_unfold: "va < MAXVA \<Longrightarrow> walk r va al s = walk_loop (Suc 1) r va al s"
  using leD [of MAXVA va] by (auto simp: walk_def numeral_2_eq_2 simp del: walk_loop.simps)

lemma walk_noalloc:
  assumes "tab_inv s R" "r \<in> R" "va < MAXVA"
  shows "walk r va False s = Inr (leaf_slot (mem s) r va, s)"
proof -
  let ?e = "load64 (mem s) (pte_slot r (PX 2 va))"
  have r: "page_ok s r" by (rule tab_inv_root [OF assms(1,2)])
  have w: "walk r va False s = walk_loop (Suc 1) r va False s"
    by (rule walk_unfold [OF assms(3)])
  show ?thesis
  proof (cases "?e AND PTE_V \<noteq> 0")
    case True
    then have "node (mem s) r [PX 2 va] = Some (PTE2PA ?e)" by simp
    then have "page_ok s (PTE2PA ?e)" by (rule tab_invD(1) [OF assms(1,2), rotated]) simp
    from walk_loop_1 [OF this] show ?thesis
      using True r unfolding w
      by (simp add: ld64_slot leaf_slot_def Let_def numeral_2_eq_2 del: walk_loop.simps
          add: walk_loop.simps(2))
  next
    case False
    then show ?thesis
      using r unfolding w by (simp add: ld64_slot leaf_slot_def Let_def numeral_2_eq_2)
  qed
qed

lemma leaf_slot_cases:
  assumes "tab_inv s R" "r \<in> R"
  obtains "leaf_slot (mem s) r va = 0" "entry (mem s) r va = 0" "node (mem s) r [PX 2 va, PX 1 va] = None"
    | p where "leaf_slot (mem s) r va = pte_slot p (PX 0 va)" "leaf_slot (mem s) r va \<noteq> 0"
        "node (mem s) r [PX 2 va, PX 1 va] = Some p" "page_ok s p"
        "entry (mem s) r va = load64 (mem s) (pte_slot p (PX 0 va))"
proof (cases "node (mem s) r [PX 2 va, PX 1 va]")
  case None
  then show ?thesis using that(1) by (simp add: leaf_slot_def entry_def del: node.simps)
next
  case (Some p)
  then have "page_ok s p" using tab_invD(1) [OF assms _ Some] by simp
  then show ?thesis
    using that(2) [of p] Some slot_nonzero [of s p]
    by (simp add: leaf_slot_def entry_def del: node.simps)
qed

section \<open>Storing a leaf entry\<close>

lemma node_leaf_store:
  assumes inv: "tab_inv s R" and r: "r \<in> R" and p: "node (mem s) r [i, j] = Some p"
    and b: "unat i < 512" "unat j < 512" "unat k < 512"
    and r': "r' \<in> R" and "is": "table_path is"
  shows "node (store64 (mem s) (pte_slot p k) e) r' is = node (mem s) r' is"
proof -
  let ?m = "store64 (mem s) (pte_slot p k) e"
  have pa: "page_aligned p" using tab_invD(3) [OF inv r _ p] b by simp
  have slot: "load64 ?m (pte_slot q l) = load64 (mem s) (pte_slot q l)"
    if "table_path js" "length js \<le> 1" "node (mem s) r' js = Some q" "unat l < 512" for q l js
  proof -
    have "q \<noteq> p"
      using tab_inv_inj [OF inv r r' _ that(1) p] that b by auto
    moreover have "page_aligned q" by (rule tab_invD(3) [OF inv r' that(1,3)])
    ultimately show ?thesis using pa b that(4) by (simp add: load64_store64_slot)
  qed
  show ?thesis
    using "is"
  proof (cases rule: table_path_cases)
    case (2 a)
    then show ?thesis using slot [of "[]" r' a] by simp
  next
    case (3 a c)
    have root: "load64 ?m (pte_slot r' a) = load64 (mem s) (pte_slot r' a)"
      using slot [of "[]" r' a] 3 by simp
    show ?thesis
    proof (cases "load64 (mem s) (pte_slot r' a) AND PTE_V \<noteq> 0")
      case True
      then have "load64 ?m (pte_slot (PTE2PA (load64 (mem s) (pte_slot r' a))) c) =
          load64 (mem s) (pte_slot (PTE2PA (load64 (mem s) (pte_slot r' a))) c)"
        using slot [of "[a]" _ c] 3 by simp
      then show ?thesis using 3 root by simp
    qed (use 3 root in simp)
  qed simp
qed

lemma entry_leaf_store:
  assumes inv: "tab_inv s R" and r: "r \<in> R" and p: "node (mem s) r [PX 2 va, PX 1 va] = Some p"
    and r': "r' \<in> R" and va: "va < MAXVA" "va' < MAXVA"
  shows "entry (store64 (mem s) (pte_slot p (PX 0 va)) e) r' va' =
    (if r' = r \<and> PGROUNDDOWN va' = PGROUNDDOWN va then e else entry (mem s) r' va')"
proof -
  let ?m = "store64 (mem s) (pte_slot p (PX 0 va)) e" and ?path = "[PX 2 va', PX 1 va']"
  have n: "node ?m r' ?path = node (mem s) r' ?path"
    by (rule node_leaf_store [OF inv r p _ _ _ r']) simp_all
  have pa: "page_aligned p" using tab_invD(3) [OF inv r _ p] by simp
  show ?thesis
  proof (cases "node (mem s) r' ?path")
    case None
    have "\<not> (r' = r \<and> PGROUNDDOWN va' = PGROUNDDOWN va)"
    proof
      assume *: "r' = r \<and> PGROUNDDOWN va' = PGROUNDDOWN va"
      then have "PX l va' = PX l va" for l by (metis PX_PGROUNDDOWN)
      then show False using * p None by simp
    qed
    then show ?thesis using n None by (auto simp: entry_def simp del: node.simps)
  next
    case (Some q)
    have qa: "page_aligned q" using tab_invD(3) [OF inv r' _ Some] by simp
    have "q = p \<and> PX 0 va' = PX 0 va \<longleftrightarrow> r' = r \<and> PGROUNDDOWN va' = PGROUNDDOWN va"
    proof
      assume *: "q = p \<and> PX 0 va' = PX 0 va"
      then have "node (mem s) r' ?path = Some p" using Some by (simp del: node.simps)
      then have "r' = r \<and> ?path = [PX 2 va, PX 1 va]"
        by (intro tab_inv_inj [OF inv r' r _ _ _ p]) simp_all
      then show "r' = r \<and> PGROUNDDOWN va' = PGROUNDDOWN va"
        using * PX_inj [OF va(2,1)] by simp
    next
      assume *: "r' = r \<and> PGROUNDDOWN va' = PGROUNDDOWN va"
      then have "PX l va' = PX l va" for l by (metis PX_PGROUNDDOWN)
      then show "q = p \<and> PX 0 va' = PX 0 va" using * p Some by simp
    qed
    then show ?thesis
      using n Some load64_store64_slot [OF pa qa, of "PX 0 va" "PX 0 va'" "mem s" e]
      by (auto simp: entry_def simp del: node.simps)
  qed
qed

lemma tables_leaf_store:
  assumes "tab_inv s R" "r \<in> R" "node (mem s) r [PX 2 va, PX 1 va] = Some p"
  shows "tables (store64 (mem s) (pte_slot p (PX 0 va)) e) R = tables (mem s) R"
  using node_leaf_store [OF assms, of "PX 0 va" _ _ e] by (simp add: tables_def cong: conj_cong)

lemma tab_inv_leaf_store:
  assumes "tab_inv s R" "r \<in> R" "node (mem s) r [PX 2 va, PX 1 va] = Some p"
    and "mem t = store64 (mem s) (pte_slot p (PX 0 va)) e" "kend t = kend s"
    and "\<And>q. q \<in> tables (mem s) R \<Longrightarrow> ref_count t (rc_index q) = ref_count s (rc_index q)"
  shows "tab_inv t R"
  using assms(1) node_leaf_store [OF assms(1-3), of "PX 0 va" _ _ e] tables_leaf_store [OF assms(1-3), of e]
    assms(6)
  unfolding tab_inv_def assms(4) by (simp add: page_ok_def assms(5))

section \<open>Adding a table page\<close>

text \<open>The page \<open>g\<close>, zeroed and not yet a table, is hung into the empty slot \<open>i\<close> of the table at path
  \<open>pre\<close>, which is not a leaf table.\<close>

lemma zero_slot: "page_aligned g \<Longrightarrow> unat i < 512 \<Longrightarrow> load64 (fill_page g 0 m) (pte_slot g i) = 0"
proof -
  assume "page_aligned g" "unat i < 512"
  then have "load64 (fill_page g 0 m) (pte_slot g i) = load64 (\<lambda>_. 0) (pte_slot g i)"
    by (intro load64_page_cong) (simp_all add: fill_page_def)
  then show ?thesis by (simp add: load64_def)
qed

definition new_pde :: "addr \<Rightarrow> uint64" where "new_pde g = PA2PTE g OR PTE_V"

lemma new_pde_simps:
  assumes "page_aligned g"
  shows "PTE2PA (new_pde g) = g" "new_pde g AND PTE_V \<noteq> 0"
  using assms
  unfolding new_pde_def
  by (simp_all add: PTE2PA_PA2PTE pte_and_flag) (simp add: PTE_V_def)

lemma node_add_table:
  assumes inv: "tab_inv s R" and r: "r \<in> R" and q: "node (mem s) r pre = Some q"
    and pre: "table_path pre" "length pre \<le> 1" and i: "unat i < 512"
    and empty: "load64 (mem s) (pte_slot q i) AND PTE_V = 0"
    and g: "page_aligned g" "g \<notin> tables (mem s) R"
    and r': "r' \<in> R" and "is": "table_path is"
  shows "node (store64 (fill_page g 0 (mem s)) (pte_slot q i) (new_pde g)) r' is =
    (if r' = r \<and> is = pre @ [i] then Some g else node (mem s) r' is)"
proof -
  let ?m = "store64 (fill_page g 0 (mem s)) (pte_slot q i) (new_pde g)"
  have qa: "page_aligned q" and qg: "q \<noteq> g"
    using tab_invD(3) [OF inv r pre(1) q] tablesI [OF r pre(1) q] g(2) by auto
  have slot: "load64 ?m (pte_slot p k) =
      (if r' = r \<and> js = pre \<and> k = i then new_pde g else load64 (mem s) (pte_slot p k))"
    if "table_path js" "node (mem s) r' js = Some p" "unat k < 512" for js p k
  proof -
    have pa: "page_aligned p" and pg: "p \<noteq> g"
      using tab_invD(3) [OF inv r' that(1,2)] tablesI [OF r' that(1,2)] g(2) by auto
    have "p = q \<longleftrightarrow> r' = r \<and> js = pre"
      using tab_inv_inj [OF inv r' r that(1) pre(1) that(2)] q that(2) by auto
    moreover have "load64 (fill_page g 0 (mem s)) (pte_slot p k) = load64 (mem s) (pte_slot p k)"
      using pg by (intro load64_page_cong [OF pa that(3)]) (simp add: fill_page_def)
    ultimately show ?thesis
      using load64_store64_slot [OF qa pa i that(3)] by auto
  qed
  have zero: "load64 ?m (pte_slot g k) = 0" if "unat k < 512" for k
    using load64_store64_slot [OF qa g(1) i that] qg zero_slot [OF g(1) that] by simp
  show ?thesis
    using "is"
  proof (cases rule: table_path_cases)
    case (2 a)
    then show ?thesis
      using slot [of "[]" r' a] new_pde_simps [OF g(1)] by auto
  next
    case (3 a c)
    have root: "load64 ?m (pte_slot r' a) =
        (if r' = r \<and> pre = [] \<and> a = i then new_pde g else load64 (mem s) (pte_slot r' a))"
      using slot [of "[]" r' a] 3 by auto
    show ?thesis
    proof (cases "r' = r \<and> pre = [] \<and> a = i")
      case True
      then show ?thesis using 3 root new_pde_simps [OF g(1)] zero [of c] q empty by auto
    next
      case False
      then have root': "load64 ?m (pte_slot r' a) = load64 (mem s) (pte_slot r' a)" using root by argo
      show ?thesis
      proof (cases "load64 (mem s) (pte_slot r' a) AND PTE_V \<noteq> 0")
        case True
        then show ?thesis
          using slot [of "[a]" "PTE2PA (load64 (mem s) (pte_slot r' a))" c] 3 root' False
            new_pde_simps [OF g(1)] by auto
      next
        case F: False
        then have "\<not> (r' = r \<and> pre = [a])" using q by auto
        then show ?thesis using 3 root' F False by auto
      qed
    qed
  qed simp
qed

lemma add_table:
  assumes inv: "tab_inv s R" and r: "r \<in> R" and q: "node (mem s) r pre = Some q"
    and pre: "table_path pre" "length pre \<le> 1" and i: "unat i < 512"
    and empty: "load64 (mem s) (pte_slot q i) AND PTE_V = 0"
    and g: "page_ok s g" "g \<notin> tables (mem s) R"
    and t: "mem t = store64 (fill_page g 0 (mem s)) (pte_slot q i) (new_pde g)" "kend t = kend s"
      "ref_count t = (ref_count s)(rc_index g := 1)"
  shows "tables (mem t) R = insert g (tables (mem s) R)"
    and "tab_inv t R"
    and "r' \<in> R \<Longrightarrow> entry (mem t) r' va = entry (mem s) r' va"
    and "node (mem t) r (pre @ [i]) = Some g"
    and "r' \<in> R \<Longrightarrow> table_path is \<Longrightarrow> node (mem s) r' is = Some p \<Longrightarrow> node (mem t) r' is = Some p"
    and "PGROUNDDOWN a \<notin> insert g (tables (mem s) R) \<Longrightarrow> mem t a = mem s a"
proof -
  have ga: "page_aligned g" by (rule page_ok_ram(3) [OF g(1)])
  have qT: "q \<in> tables (mem s) R" and qa: "page_aligned q"
    by (rule tablesI [OF r pre(1) q], rule tab_invD(3) [OF inv r pre(1) q])
  have n: "node (mem t) r' is = (if r' = r \<and> is = pre @ [i] then Some g else node (mem s) r' is)"
    if "r' \<in> R" "table_path is" for r' "is"
    unfolding t(1) by (rule node_add_table [OF inv r q pre i empty ga g(2) that])
  have dead: "node (mem s) r (pre @ [i]) = None"
    using q empty by (simp add: node_append)
  have path: "table_path (pre @ [i])" using pre i by (auto simp: table_path_def)
  show new: "node (mem t) r (pre @ [i]) = Some g" using n [OF r path] by simp
  show keep: "node (mem t) r' is = Some p" if "r' \<in> R" "table_path is" "node (mem s) r' is = Some p"
    for r' "is" p
    using n [OF that(1,2)] that(3) dead by auto
  have old: "r' = r \<and> is = pre @ [i] \<and> p = g \<or> node (mem s) r' is = Some p \<and> p \<noteq> g"
    if "r' \<in> R" "table_path is" "node (mem t) r' is = Some p" for r' "is" p
    using n [OF that(1,2)] that tablesI [OF that(1,2)] g(2) by (auto split: if_splits)
  show T: "tables (mem t) R = insert g (tables (mem s) R)"
  proof (intro set_eqI iffI)
    fix p assume "p \<in> tables (mem t) R"
    then show "p \<in> insert g (tables (mem s) R)" using old unfolding tables_def by blast
  next
    fix p assume "p \<in> insert g (tables (mem s) R)"
    then show "p \<in> tables (mem t) R"
      using tablesI [OF r path new] keep unfolding tables_def by blast
  qed
  have rc: "ref_count t (rc_index p) = 1 \<and> page_ok t p" if "p \<in> insert g (tables (mem s) R)" for p
    using that inv g(1) by (auto simp: t tab_inv_def page_ok_def)
  have inj: "r1 = r2 \<and> is1 = is2"
    if a: "r1 \<in> R" "r2 \<in> R" "table_path is1" "table_path is2"
      "node (mem t) r1 is1 = Some p" "node (mem t) r2 is2 = Some p" for r1 r2 is1 is2 p
    using old [OF a(1,3,5)] old [OF a(2,4,6)] tab_inv_inj [OF inv a(1-4)] by blast
  show "tab_inv t R" unfolding tab_inv_def T using rc inj by blast
  show "mem t a = mem s a" if "PGROUNDDOWN a \<notin> insert g (tables (mem s) R)" for a
  proof -
    have "PGROUNDDOWN a \<noteq> q" using that qT by auto
    then show ?thesis using that by (simp add: t(1) store64_slot_other [OF qa i])
  qed
  show "entry (mem t) r' va = entry (mem s) r' va" if "r' \<in> R" for r' va
  proof -
    let ?path = "[PX 2 va, PX 1 va]"
    have p: "table_path ?path" by simp
    have zero: "load64 (mem t) (pte_slot g (PX 0 va)) = 0"
      using load64_store64_slot [OF qa ga i, of "PX 0 va"] qT g(2) zero_slot [OF ga, of "PX 0 va"]
      by (auto simp: t(1))
    show ?thesis
    proof (cases "node (mem s) r' ?path")
      case None
      then have "node (mem t) r' ?path = None \<or> node (mem t) r' ?path = Some g"
        using n [OF that p] by auto
      then show ?thesis using None zero by (auto simp: entry_def simp del: node.simps)
    next
      case (Some l)
      have "l \<noteq> q" using tab_inv_inj [OF inv that r p pre(1) Some] q pre(2) by auto
      moreover have "l \<noteq> g" using tablesI [OF that p Some] g(2) by auto
      ultimately have "load64 (mem t) (pte_slot l (PX 0 va)) = load64 (mem s) (pte_slot l (PX 0 va))"
        using load64_store64_slot [OF qa tab_invD(3) [OF inv that p Some] i, of "PX 0 va"]
        by (auto simp: t(1) fill_page_def
            intro!: load64_page_cong [OF tab_invD(3) [OF inv that p Some]])
      then show ?thesis using keep [OF that p Some] Some by (simp add: entry_def del: node.simps)
    qed
  qed
qed

section \<open>Walking with allocation\<close>

text \<open>\<open>t\<close> extends \<open>s\<close>: some pages \<open>zs\<close> from the head of the free list became tables; no leaf entry, no
  other page and no other count changed.\<close>

definition pt_ext :: "addr set \<Rightarrow> kstate \<Rightarrow> addr list \<Rightarrow> kstate \<Rightarrow> addr list \<Rightarrow> bool" where
  "pt_ext R s xs t ys \<longleftrightarrow>
    lock_ready t \<and> alloc_inv t ys \<and> tab_inv t R \<and> kend t = kend s \<and>
    (\<exists>zs. xs = zs @ ys \<and> tables (mem t) R = tables (mem s) R \<union> set zs \<and>
      (\<forall>a. PGROUNDDOWN a \<notin> tables (mem s) R \<union> set zs \<longrightarrow> mem t a = mem s a) \<and>
      (\<forall>p. page_ok s p \<longrightarrow> p \<notin> set zs \<longrightarrow> ref_count t (rc_index p) = ref_count s (rc_index p))) \<and>
    (\<forall>r \<in> R. \<forall>va. entry (mem t) r va = entry (mem s) r va) \<and>
    (\<forall>r \<in> R. \<forall>is p. table_path is \<longrightarrow> node (mem s) r is = Some p \<longrightarrow> node (mem t) r is = Some p)"

lemma pt_extD:
  assumes "pt_ext R s xs t ys"
  shows "lock_ready t" "alloc_inv t ys" "tab_inv t R" "kend t = kend s"
    "r \<in> R \<Longrightarrow> entry (mem t) r va = entry (mem s) r va"
    "r \<in> R \<Longrightarrow> table_path is \<Longrightarrow> node (mem s) r is = Some p \<Longrightarrow> node (mem t) r is = Some p"
  using assms unfolding pt_ext_def by blast+

lemma pt_ext_tables:
  assumes "pt_ext R s xs t ys"
  obtains zs where "xs = zs @ ys" "tables (mem t) R = tables (mem s) R \<union> set zs"
    "\<And>a. PGROUNDDOWN a \<notin> tables (mem s) R \<union> set zs \<Longrightarrow> mem t a = mem s a"
    "\<And>p. page_ok s p \<Longrightarrow> p \<notin> set zs \<Longrightarrow> ref_count t (rc_index p) = ref_count s (rc_index p)"
  using assms unfolding pt_ext_def by blast

lemma pt_ext_refl:
  assumes "lock_ready t" "alloc_inv s xs" "tab_inv s R"
    "mem t = mem s" "kend t = kend s" "freelist t = freelist s" "ref_count t = ref_count s"
  shows "pt_ext R s xs t xs"
proof -
  have "alloc_inv t xs" using assms by (simp add: alloc_inv_def page_ok_def)
  moreover have "tab_inv t R" using assms by (simp add: tab_inv_def page_ok_def)
  ultimately show ?thesis using assms by (simp add: pt_ext_def)
qed

lemma pt_ext_trans:
  assumes st: "pt_ext R s xs t ys" and tu: "pt_ext R t ys u zs"
  shows "pt_ext R s xs u zs"
proof -
  obtain as where a: "xs = as @ ys" "tables (mem t) R = tables (mem s) R \<union> set as"
    "\<And>a. PGROUNDDOWN a \<notin> tables (mem s) R \<union> set as \<Longrightarrow> mem t a = mem s a"
    "\<And>p. page_ok s p \<Longrightarrow> p \<notin> set as \<Longrightarrow> ref_count t (rc_index p) = ref_count s (rc_index p)"
    using pt_ext_tables [OF st] by blast
  obtain bs where b: "ys = bs @ zs" "tables (mem u) R = tables (mem t) R \<union> set bs"
    "\<And>a. PGROUNDDOWN a \<notin> tables (mem t) R \<union> set bs \<Longrightarrow> mem u a = mem t a"
    "\<And>p. page_ok t p \<Longrightarrow> p \<notin> set bs \<Longrightarrow> ref_count u (rc_index p) = ref_count t (rc_index p)"
    using pt_ext_tables [OF tu] by blast
  have k: "kend t = kend s" by (rule pt_extD(4) [OF st])
  have "xs = (as @ bs) @ zs" "tables (mem u) R = tables (mem s) R \<union> set (as @ bs)"
    using a(1,2) b(1,2) by auto
  moreover have "\<forall>a. PGROUNDDOWN a \<notin> tables (mem s) R \<union> set (as @ bs) \<longrightarrow> mem u a = mem s a"
    using a(2,3) b(3) by simp
  moreover have "\<forall>p. page_ok s p \<longrightarrow> p \<notin> set (as @ bs) \<longrightarrow> ref_count u (rc_index p) = ref_count s (rc_index p)"
    using a(4) b(4) k by (simp add: page_ok_def)
  ultimately have "\<exists>cs. xs = cs @ zs \<and> tables (mem u) R = tables (mem s) R \<union> set cs \<and>
      (\<forall>a. PGROUNDDOWN a \<notin> tables (mem s) R \<union> set cs \<longrightarrow> mem u a = mem s a) \<and>
      (\<forall>p. page_ok s p \<longrightarrow> p \<notin> set cs \<longrightarrow> ref_count u (rc_index p) = ref_count s (rc_index p))"
    by blast
  then show ?thesis
    using pt_extD [OF st] pt_extD [OF tu] unfolding pt_ext_def by simp
qed

lemma fill_page_twice: "fill_page p c (fill_page p d m) = fill_page p c m"
  by (auto simp: fill_page_def)

lemma walk_level:
  assumes ready: "lock_ready s" and alloc: "alloc_inv s xs" and inv: "tab_inv s R" and r: "r \<in> R"
    and q: "node (mem s) r pre = Some q" and pre: "table_path pre" "length pre \<le> 1"
  shows "\<exists>t ys. pt_ext R s xs t ys \<and> length xs \<le> Suc (length ys) \<and>
    (walk_loop (Suc l) q va True s = Inr (0, t) \<and> xs = [] \<and> ys = [] \<or>
     (\<exists>g. walk_loop (Suc l) q va True s = walk_loop l g va True t \<and>
        node (mem t) r (pre @ [PX (Suc l) va]) = Some g))"
proof -
  let ?i = "PX (Suc l) va"
  let ?e = "load64 (mem s) (pte_slot q ?i)"
  have qok: "page_ok s q" by (rule tab_invD(1) [OF inv r pre(1) q])
  show ?thesis
  proof (cases "?e AND PTE_V \<noteq> 0")
    case True
    then have "node (mem s) r (pre @ [?i]) = Some (PTE2PA ?e)" using q by (simp add: node_append)
    moreover have "walk_loop (Suc l) q va True s = walk_loop l (PTE2PA ?e) va True s"
      using True qok by (simp add: ld64_slot Let_def)
    moreover have "length xs \<le> Suc (length xs)" by simp
    ultimately show ?thesis using pt_ext_refl [OF ready alloc inv] by blast
  next
    case False
    show ?thesis
    proof (cases xs)
      case Nil
      then have "walk_loop (Suc l) q va True s = Inr (0, s\<lparr>kcpu := settle (kcpu s)\<rparr>)"
        using False qok kalloc_none [OF ready] alloc by (simp add: ld64_slot Let_def)
      moreover have "pt_ext R s xs (s\<lparr>kcpu := settle (kcpu s)\<rparr>) xs"
        using ready by (intro pt_ext_refl [OF _ alloc inv]) (simp_all add: lock_ready_def)
      ultimately show ?thesis using Nil by (intro exI [of _ "s\<lparr>kcpu := settle (kcpu s)\<rparr>"] exI [of _ "[]"]) simp
    next
      case (Cons g ys)
      obtain t1 where t1: "kalloc s = Inr (g, t1)" "lock_ready t1" "alloc_inv t1 ys" "allocated s g t1"
        using locked.alloc_some [OF ready] alloc Cons by blast
      have g: "page_ok s g" "g \<notin> tables (mem s) R" "g \<notin> set ys" "g \<noteq> 0"
        using alloc Cons tables_not_free [OF inv alloc, of g] by (simp_all add: alloc_inv_def)
      have ok1: "page_ok t1 g" "page_ok t1 q"
        using g(1) qok t1(4) by (simp_all add: allocated_def page_ok_def)
      define t where "t = t1\<lparr>mem := store64 (fill_page g 0 (mem s)) (pte_slot q ?i) (new_pde g)\<rparr>"
      have t: "mem t = store64 (fill_page g 0 (mem s)) (pte_slot q ?i) (new_pde g)" "kend t = kend s"
        "ref_count t = (ref_count s)(rc_index g := 1)"
        using t1(4) by (simp_all add: t_def allocated_def)
      have "memset_ram g 0 (ucast PGSIZE) t1 = Inr (t1\<lparr>mem := fill_page g 0 (mem s)\<rparr>)"
        using memset_ram_page [OF ok1(1), of 0] t1(4) by (simp add: allocated_def fill_page_twice)
      moreover have "st64 (pte_slot q ?i) (new_pde g) (t1\<lparr>mem := fill_page g 0 (mem s)\<rparr>) = Inr t"
        using ok1(2) by (simp add: st64_def slot_ram t_def)
      ultimately have w: "walk_loop (Suc l) q va True s = walk_loop l g va True t"
        using False qok t1(1) g(4) by (simp add: ld64_slot Let_def new_pde_def)
      note add = add_table [OF inv r q pre PX_less _ g(1,2) t]
      have e: "load64 (mem s) (pte_slot q ?i) AND PTE_V = 0" using False by simp
      have rc: "ref_count t (rc_index p) = ref_count s (rc_index p)" if "page_ok s p" "p \<noteq> g" for p
        using that rc_index_eq_iff [OF that(1) g(1)] by (simp add: t)
      have "PGROUNDDOWN a \<in> set ys \<Longrightarrow> mem t a = mem t1 a" for a
      proof -
        assume a: "PGROUNDDOWN a \<in> set ys"
        then have "PGROUNDDOWN a \<noteq> g" using g(3) by metis
        moreover have "PGROUNDDOWN a \<notin> tables (mem s) R"
          using a Cons by (intro tables_not_free [OF inv alloc]) simp
        ultimately show ?thesis using add(6) [OF e, of a] t1(4) by (simp add: allocated_def)
      qed
      then have "alloc_inv t ys"
        by (intro alloc_inv_frame [OF t1(3)]) (simp_all add: t_def)
      moreover have "lock_ready t" using t1(2) by (simp add: t_def lock_ready_def)
      ultimately have "pt_ext R s xs t ys"
        unfolding pt_ext_def
        using add(1,2) [OF e] add(3,5,6) [OF e] rc t(2) Cons
        by (intro conjI exI [of _ "[g]"]) auto
      moreover have "length xs \<le> Suc (length ys)" using Cons by simp
      ultimately show ?thesis using w add(4) [OF e] by blast
    qed
  qed
qed

lemma walk_alloc:
  assumes "lock_ready s" "alloc_inv s xs" "tab_inv s R" "r \<in> R" "va < MAXVA"
  shows "\<exists>t ys. pt_ext R s xs t ys \<and>
    (walk r va True s = Inr (0, t) \<and> ys = [] \<and> length xs \<le> 1 \<or>
     (\<exists>p. walk r va True s = Inr (pte_slot p (PX 0 va), t) \<and> node (mem t) r [PX 2 va, PX 1 va] = Some p) \<and>
     length xs \<le> length ys + 2)"
proof -
  have w: "walk r va True s = walk_loop (Suc 1) r va True s" by (rule walk_unfold [OF assms(5)])
  obtain t ys where t: "pt_ext R s xs t ys" and len: "length xs \<le> Suc (length ys)" and c:
    "walk_loop (Suc 1) r va True s = Inr (0, t) \<and> xs = [] \<and> ys = [] \<or>
     (\<exists>g. walk_loop (Suc 1) r va True s = walk_loop 1 g va True t \<and> node (mem t) r [PX 2 va] = Some g)"
    using walk_level [OF assms(1-4), of "[]" r 1 va] by (auto simp: numeral_2_eq_2 simp del: walk_loop.simps)
  from c consider "walk r va True s = Inr (0, t)" "xs = []" "ys = []"
    | g where "walk r va True s = walk_loop (Suc 0) g va True t" "node (mem t) r [PX 2 va] = Some g"
    unfolding w by auto
  then show ?thesis
  proof cases
    case 1
    then show ?thesis using t by (intro exI [of _ t] exI [of _ "[]"]) simp
  next
    case (2 g)
    obtain u zs where u: "pt_ext R t ys u zs" and len2: "length ys \<le> Suc (length zs)" and cu:
      "walk_loop (Suc 0) g va True t = Inr (0, u) \<and> ys = [] \<and> zs = [] \<or>
       (\<exists>p. walk_loop (Suc 0) g va True t = walk_loop 0 p va True u \<and>
          node (mem u) r ([PX 2 va] @ [PX (Suc 0) va]) = Some p)"
      using walk_level [OF pt_extD(1-3) [OF t] assms(4) 2(2), where l = 0 and va = va]
      by (auto simp del: walk_loop.simps node.simps)
    from cu show ?thesis
    proof (elim disjE)
      assume "walk_loop (Suc 0) g va True t = Inr (0, u) \<and> ys = [] \<and> zs = []"
      then show ?thesis using pt_ext_trans [OF t u] 2(1) len by (intro exI [of _ u] exI [of _ zs]) simp
    next
      assume "\<exists>p. walk_loop (Suc 0) g va True t = walk_loop 0 p va True u \<and>
          node (mem u) r ([PX 2 va] @ [PX (Suc 0) va]) = Some p"
      moreover have "length xs \<le> length zs + 2" using len len2 by simp
      ultimately show ?thesis using pt_ext_trans [OF t u] 2(1)
        by (intro exI [of _ u] exI [of _ zs]) (auto simp del: node.simps)
    qed
  qed
qed

text \<open>Where the tables exist already, \<open>walk\<close> with allocation is the plain walk.\<close>

lemma walk_alloc_existing:
  assumes "tab_inv s R" "r \<in> R" "va < MAXVA" "node (mem s) r [PX 2 va, PX 1 va] = Some p"
  shows "walk r va True s = Inr (pte_slot p (PX 0 va), s)"
proof -
  let ?e = "load64 (mem s) (pte_slot r (PX 2 va))"
  let ?f = "load64 (mem s) (pte_slot (PTE2PA ?e) (PX 1 va))"
  have e: "?e AND PTE_V \<noteq> 0" "?f AND PTE_V \<noteq> 0" "p = PTE2PA ?f"
    using assms(4) by (auto split: if_splits)
  then have "node (mem s) r [PX 2 va] = Some (PTE2PA ?e)" by simp
  then have "page_ok s (PTE2PA ?e)" by (rule tab_invD(1) [OF assms(1,2), rotated]) simp
  moreover have "page_ok s r" by (rule tab_inv_root [OF assms(1,2)])
  ultimately show ?thesis
    using e unfolding walk_unfold [OF assms(3)] by (simp add: ld64_slot Let_def numeral_2_eq_2)
qed

end
