(* ===== verification/Cow.thy ===== *)
theory Cow
  imports Tables
begin

text \<open>
  The address spaces of all processes together, and copy-on-write.

  \<open>vm_inv\<close> ties the reference counts of \<open>kernel/kalloc.c\<close> to the page tables: a user page's count
  is the number of leaf entries, over all page tables in use, that map it; a writable entry is
  the only one that maps its page; user pages, table pages and free pages are disjoint.  The
  lemmas show that every operation of \<open>kernel/vm.c\<close> used by \<open>fork\<close>, page faults and system calls
  keeps it, and what it does to each process's view of its memory.
\<close>

section \<open>Counting references\<close>

definition uva :: "uint64 \<Rightarrow> bool" where
  "uva va \<longleftrightarrow> page_aligned va \<and> va < TRAPFRAME"

definition maps :: "uint64 \<Rightarrow> addr \<Rightarrow> bool" where
  "maps e p \<longleftrightarrow> e AND PTE_V \<noteq> 0 \<and> PTE2PA e = p"

definition refs :: "(addr \<Rightarrow> uint64 \<Rightarrow> uint64) \<Rightarrow> addr set \<Rightarrow> addr \<Rightarrow> (addr \<times> uint64) set" where
  "refs E R p = {(r, va). r \<in> R \<and> uva va \<and> maps (E r va) p}"

definition ucount :: "(addr \<Rightarrow> uint64 \<Rightarrow> uint64) \<Rightarrow> addr set \<Rightarrow> addr \<Rightarrow> int" where
  "ucount E R p = int (card (refs E R p))"

lemma uva_MAXVA: "uva va \<Longrightarrow> va < MAXVA"
proof -
  assume "uva va"
  then have "va < TRAPFRAME" by (simp add: uva_def)
  also have "TRAPFRAME < MAXVA" by (simp add: layout_defs)
  finally show ?thesis .
qed

lemma uva_round: "uva va \<Longrightarrow> PGROUNDDOWN va = va"
  by (simp add: uva_def PGROUNDDOWN_id)

lemma refs_upd:
  assumes "r0 \<in> R" "uva va0"
    and "\<And>r va. r \<in> R \<Longrightarrow> uva va \<Longrightarrow> E' r va = (if r = r0 \<and> va = va0 then e' else E r va)"
  shows "refs E' R p = (if maps e' p then insert (r0, va0) (refs E R p) else refs E R p - {(r0, va0)})"
  using assms by (auto simp: refs_def split: if_splits)

lemma ucount_upd:
  assumes "r0 \<in> R" "uva va0"
    and "\<And>r va. r \<in> R \<Longrightarrow> uva va \<Longrightarrow> E' r va = (if r = r0 \<and> va = va0 then e' else E r va)"
  shows "ucount E' R p = ucount E R p + of_bool (maps e' p) - of_bool (maps (E r0 va0) p)"
proof -
  have "(r0, va0) \<in> refs E R p \<longleftrightarrow> maps (E r0 va0) p"
    using assms(1,2) by (simp add: refs_def)
  moreover have "refs E' R p =
      (if maps e' p then insert (r0, va0) (refs E R p) else refs E R p - {(r0, va0)})"
    by (rule refs_upd [OF assms(1,2)]) (rule assms(3))
  moreover have "0 < card (refs E R p)" if "(r0, va0) \<in> refs E R p"
    using that by (auto simp: card_gt_0_iff)
  ultimately show ?thesis
    by (auto simp: ucount_def card_insert_if card_Diff_singleton_if of_nat_diff Suc_leI)
qed

lemma ucount_pos:
  assumes "r \<in> R" "uva va" "maps (E r va) p"
  shows "1 \<le> ucount E R p"
proof -
  have "(r, va) \<in> refs E R p" using assms by (simp add: refs_def)
  then have "0 < card (refs E R p)" by (auto simp: card_gt_0_iff)
  then show ?thesis by (simp add: ucount_def)
qed

lemma ucount_one:
  assumes "ucount E R p = 1" "r \<in> R" "uva va" "maps (E r va) p" "r' \<in> R" "uva va'" "maps (E r' va') p"
  shows "r' = r \<and> va' = va"
proof -
  obtain x where "refs E R p = {x}"
    using assms(1) by (auto simp: ucount_def card_1_singleton_iff numeral_1_eq_Suc_0)
  moreover have "(r, va) \<in> refs E R p" "(r', va') \<in> refs E R p" using assms by (simp_all add: refs_def)
  ultimately show ?thesis by auto
qed

lemma ucount_cong:
  assumes "\<And>r va. r \<in> R \<Longrightarrow> uva va \<Longrightarrow> maps (E' r va) p = maps (E r va) p"
  shows "ucount E' R p = ucount E R p"
  using assms by (simp add: ucount_def refs_def cong: conj_cong)

section \<open>The invariant\<close>

definition leaf_ok :: "kstate \<Rightarrow> addr set \<Rightarrow> uint64 \<Rightarrow> bool" where
  "leaf_ok s R e \<longleftrightarrow>
    page_ok s (PTE2PA e) \<and> PTE2PA e \<notin> tables (mem s) R \<and>
    ref_count s (rc_index (PTE2PA e)) = ucount (entry (mem s)) R (PTE2PA e) \<and>
    PTE_FLAGS e \<noteq> PTE_V \<and>
    (e AND PTE_W \<noteq> 0 \<longrightarrow> ref_count s (rc_index (PTE2PA e)) = 1)"

definition user_ok :: "kstate \<Rightarrow> addr set \<Rightarrow> bool" where
  "user_ok s R \<longleftrightarrow>
    (\<forall>r \<in> R. \<forall>va. uva va \<longrightarrow> entry (mem s) r va AND PTE_V \<noteq> 0 \<longrightarrow> leaf_ok s R (entry (mem s) r va))"

definition mm_inv :: "kstate \<Rightarrow> addr set \<Rightarrow> addr list \<Rightarrow> bool" where
  "mm_inv s R xs \<longleftrightarrow> alloc_inv s xs \<and> tab_inv s R \<and> user_ok s R"

definition vm_inv :: "kstate \<Rightarrow> addr set \<Rightarrow> addr list \<Rightarrow> bool" where
  "vm_inv s R xs \<longleftrightarrow> lock_ready s \<and> mm_inv s R xs"

lemma user_okD:
  assumes "user_ok s R" "r \<in> R" "uva va" "entry (mem s) r va AND PTE_V \<noteq> 0"
  shows "leaf_ok s R (entry (mem s) r va)"
  using assms by (simp add: user_ok_def)

lemma user_page:
  assumes "user_ok s R" "r \<in> R" "uva va" "maps (entry (mem s) r va) p"
  shows "page_ok s p" "p \<notin> tables (mem s) R" "ref_count s (rc_index p) = ucount (entry (mem s)) R p"
    "1 \<le> ref_count s (rc_index p)"
  using user_okD [OF assms(1-3)] assms(4) ucount_pos [of r R va "entry (mem s)" p] assms(2,3)
  by (auto simp: maps_def leaf_ok_def)

text \<open>A user page is never on the free list.\<close>

lemma user_page_not_free:
  assumes "user_ok s R" "alloc_inv s xs" "r \<in> R" "uva va" "maps (entry (mem s) r va) p"
  shows "p \<notin> set xs"
  using user_page(4) [OF assms(1,3-5)] assms(2) by (auto simp: alloc_inv_def)

lemma user_ok_upd:
  assumes ok: "user_ok s R" and r0: "r0 \<in> R" "uva va0" and k: "kend t = kend s"
    and E: "\<And>r va. r \<in> R \<Longrightarrow> uva va \<Longrightarrow>
      entry (mem t) r va = (if r = r0 \<and> va = va0 then e' else entry (mem s) r va)"
    and rc: "\<And>r va p. r \<in> R \<Longrightarrow> uva va \<Longrightarrow> maps (entry (mem t) r va) p \<Longrightarrow>
      ref_count t (rc_index p) = ucount (entry (mem s)) R p + of_bool (maps e' p)
        - of_bool (maps (entry (mem s) r0 va0) p)"
    and T: "\<And>r va p. r \<in> R \<Longrightarrow> uva va \<Longrightarrow> maps (entry (mem t) r va) p \<Longrightarrow> p \<notin> tables (mem t) R"
    and new: "e' AND PTE_V \<noteq> 0 \<Longrightarrow> page_ok s (PTE2PA e') \<and> PTE_FLAGS e' \<noteq> PTE_V \<and>
      (e' AND PTE_W \<noteq> 0 \<longrightarrow> ref_count t (rc_index (PTE2PA e')) = 1)"
    and excl: "\<And>r va. r \<in> R \<Longrightarrow> uva va \<Longrightarrow> (r, va) \<noteq> (r0, va0) \<Longrightarrow> e' AND PTE_V \<noteq> 0 \<Longrightarrow>
      maps (entry (mem s) r va) (PTE2PA e') \<Longrightarrow> entry (mem s) r va AND PTE_W = 0"
  shows "user_ok t R"
  unfolding user_ok_def
proof (intro ballI allI impI)
  fix r va
  assume r: "r \<in> R" "uva va" and v: "entry (mem t) r va AND PTE_V \<noteq> 0"
  let ?e = "entry (mem t) r va"
  have m: "maps ?e (PTE2PA ?e)" using v by (simp add: maps_def)
  have cnt: "ref_count t (rc_index (PTE2PA ?e)) = ucount (entry (mem t)) R (PTE2PA ?e)"
    using rc [OF r m] ucount_upd [where E = "entry (mem s)" and E' = "entry (mem t)", OF r0 E] by simp
  show "leaf_ok t R ?e"
  proof (cases "r = r0 \<and> va = va0")
    case True
    then have "?e = e'" using E [OF r] by simp
    then show ?thesis using new v cnt T [OF r m] k by (simp add: leaf_ok_def page_ok_def)
  next
    case False
    then have e: "?e = entry (mem s) r va" using E [OF r] by auto
    have old: "leaf_ok s R ?e" using user_okD [OF ok r] v e by simp
    have "ref_count t (rc_index (PTE2PA ?e)) = 1" if w: "?e AND PTE_W \<noteq> 0"
    proof -
      have one: "ucount (entry (mem s)) R (PTE2PA ?e) = 1" using old w by (simp add: leaf_ok_def)
      have "\<not> maps (entry (mem s) r0 va0) (PTE2PA ?e)"
        using ucount_one [OF one r _ r0] m e False by auto
      moreover have "\<not> maps e' (PTE2PA ?e)"
        using excl [OF r] False w e m by (auto simp: maps_def)
      ultimately show ?thesis using rc [OF r m] one by simp
    qed
    then show ?thesis using old cnt T [OF r m] k by (simp add: leaf_ok_def page_ok_def)
  qed
qed

section \<open>Updating one entry\<close>

text \<open>\<open>t\<close> is \<open>s\<close> with the leaf entry of \<open>va0\<close> under \<open>r0\<close> set to \<open>e\<close>, after the missing tables were added
  from the head of the free list.\<close>

definition pt_upd :: "addr set \<Rightarrow> kstate \<Rightarrow> addr list \<Rightarrow> kstate \<Rightarrow> addr list \<Rightarrow> addr \<Rightarrow> uint64 \<Rightarrow> uint64 \<Rightarrow> bool" where
  "pt_upd R s xs t ys r0 va0 e \<longleftrightarrow>
    alloc_inv t ys \<and> tab_inv t R \<and> kend t = kend s \<and>
    (\<exists>zs. xs = zs @ ys \<and> tables (mem t) R = tables (mem s) R \<union> set zs \<and>
      (\<forall>a. PGROUNDDOWN a \<notin> tables (mem s) R \<union> set zs \<longrightarrow> mem t a = mem s a) \<and>
      (\<forall>p. page_ok s p \<longrightarrow> p \<notin> set zs \<longrightarrow> ref_count t (rc_index p) = ref_count s (rc_index p))) \<and>
    (\<forall>r \<in> R. \<forall>va. va < MAXVA \<longrightarrow> entry (mem t) r va =
      (if r = r0 \<and> PGROUNDDOWN va = PGROUNDDOWN va0 then e else entry (mem s) r va))"

lemma pt_updD:
  assumes "pt_upd R s xs t ys r0 va0 e"
  shows "alloc_inv t ys" "tab_inv t R" "kend t = kend s"
    "r \<in> R \<Longrightarrow> va < MAXVA \<Longrightarrow> entry (mem t) r va =
      (if r = r0 \<and> PGROUNDDOWN va = PGROUNDDOWN va0 then e else entry (mem s) r va)"
  using assms unfolding pt_upd_def by blast+

lemma pt_upd_tables:
  assumes "pt_upd R s xs t ys r0 va0 e"
  obtains zs where "xs = zs @ ys" "tables (mem t) R = tables (mem s) R \<union> set zs"
    "\<And>a. PGROUNDDOWN a \<notin> tables (mem s) R \<union> set zs \<Longrightarrow> mem t a = mem s a"
    "\<And>p. page_ok s p \<Longrightarrow> p \<notin> set zs \<Longrightarrow> ref_count t (rc_index p) = ref_count s (rc_index p)"
  using assms unfolding pt_upd_def by blast

lemma store_upd:
  assumes "alloc_inv s xs" "tab_inv s R" "r \<in> R" "node (mem s) r [PX 2 va, PX 1 va] = Some p" "va < MAXVA"
  shows "pt_upd R s xs (s\<lparr>mem := store64 (mem s) (pte_slot p (PX 0 va)) e\<rparr>) xs r va e"
proof -
  let ?t = "s\<lparr>mem := store64 (mem s) (pte_slot p (PX 0 va)) e\<rparr>"
  have p: "p \<in> tables (mem s) R" "page_aligned p"
    using tablesI [OF assms(3) _ assms(4)] tab_invD(3) [OF assms(2,3) _ assms(4)] by simp_all
  have frame: "mem ?t a = mem s a" if "PGROUNDDOWN a \<notin> tables (mem s) R" for a
    using that p by (auto intro: store64_slot_other)
  have "alloc_inv ?t xs"
    by (rule alloc_inv_frame [OF assms(1)]) (use frame tables_not_free [OF assms(2,1)] in auto)
  moreover have "tab_inv ?t R" by (rule tab_inv_leaf_store [OF assms(2-4), of _ e]) simp_all
  moreover have "tables (mem ?t) R = tables (mem s) R"
    using tables_leaf_store [OF assms(2-4)] by simp
  ultimately show ?thesis
    using entry_leaf_store [OF assms(2-4) _ assms(5), of _ _ e] frame by (simp add: pt_upd_def)
qed

lemma pt_ext_upd:
  assumes st: "pt_ext R s xs t ys" and tu: "pt_upd R t ys u zs r0 va0 e"
  shows "pt_upd R s xs u zs r0 va0 e"
proof -
  obtain as where a: "xs = as @ ys" "tables (mem t) R = tables (mem s) R \<union> set as"
    "\<And>a. PGROUNDDOWN a \<notin> tables (mem s) R \<union> set as \<Longrightarrow> mem t a = mem s a"
    "\<And>p. page_ok s p \<Longrightarrow> p \<notin> set as \<Longrightarrow> ref_count t (rc_index p) = ref_count s (rc_index p)"
    using pt_ext_tables [OF st] by blast
  obtain bs where b: "ys = bs @ zs" "tables (mem u) R = tables (mem t) R \<union> set bs"
    "\<And>a. PGROUNDDOWN a \<notin> tables (mem t) R \<union> set bs \<Longrightarrow> mem u a = mem t a"
    "\<And>p. page_ok t p \<Longrightarrow> p \<notin> set bs \<Longrightarrow> ref_count u (rc_index p) = ref_count t (rc_index p)"
    using pt_upd_tables [OF tu] by blast
  have k: "kend t = kend s" by (rule pt_extD(4) [OF st])
  have "xs = (as @ bs) @ zs \<and> tables (mem u) R = tables (mem s) R \<union> set (as @ bs) \<and>
      (\<forall>a. PGROUNDDOWN a \<notin> tables (mem s) R \<union> set (as @ bs) \<longrightarrow> mem u a = mem s a) \<and>
      (\<forall>p. page_ok s p \<longrightarrow> p \<notin> set (as @ bs) \<longrightarrow> ref_count u (rc_index p) = ref_count s (rc_index p))"
    using a b k by (simp add: page_ok_def Un_assoc)
  then show ?thesis
    using pt_extD(3,4,5) [OF st] pt_updD [OF tu] unfolding pt_upd_def by (metis (no_types, lifting))
qed

section \<open>Mapping one page\<close>

lemma mappages_single:
  assumes "page_aligned va" "walk r va True s = Inr (w, t)"
  shows "mappages r va PGSIZE pa perm s =
    (if w = 0 then Inr (-1, t) else rbind (st64 w (PA2PTE pa OR perm OR PTE_V) t) (\<lambda>u. Inr (0, u)))"
proof -
  have "PGSIZE mod PGSIZE = 0" "PGSIZE \<noteq> 0" by (simp_all add: PGSIZE_def)
  then show ?thesis
    using assms by (simp add: mappages_def page_aligned_def mappages_loop.simps [of r va])
qed

lemma mappages_existing:
  assumes "tab_inv s R" "r \<in> R" "page_aligned va" "va < MAXVA"
    "node (mem s) r [PX 2 va, PX 1 va] = Some p"
  shows "mappages r va PGSIZE pa perm s =
    Inr (0, s\<lparr>mem := store64 (mem s) (pte_slot p (PX 0 va)) (PA2PTE pa OR perm OR PTE_V)\<rparr>)"
proof -
  have "page_ok s p" using tab_invD(1) [OF assms(1,2) _ assms(5)] by simp
  then show ?thesis
    using mappages_single [OF assms(3) walk_alloc_existing [OF assms(1,2,4,5)]]
    by (simp add: st64_slot slot_nonzero)
qed

lemma mappages_one:
  assumes "lock_ready s" "alloc_inv s xs" "tab_inv s R" "r \<in> R" "page_aligned va" "va < MAXVA"
  shows "(\<exists>t. mappages r va PGSIZE pa perm s = Inr (-1, t) \<and> pt_ext R s xs t [] \<and> length xs \<le> 1) \<or>
    (\<exists>t ys. mappages r va PGSIZE pa perm s = Inr (0, t) \<and> lock_ready t \<and>
      pt_upd R s xs t ys r va (PA2PTE pa OR perm OR PTE_V) \<and> length xs \<le> length ys + 2)"
proof -
  obtain t ys where t: "pt_ext R s xs t ys"
    "walk r va True s = Inr (0, t) \<and> ys = [] \<and> length xs \<le> 1 \<or>
     (\<exists>p. walk r va True s = Inr (pte_slot p (PX 0 va), t) \<and> node (mem t) r [PX 2 va, PX 1 va] = Some p) \<and>
     length xs \<le> length ys + 2"
    using walk_alloc [OF assms(1-4,6)] by blast
  from t(2) consider "walk r va True s = Inr (0, t)" "ys = []" "length xs \<le> 1"
    | p where "walk r va True s = Inr (pte_slot p (PX 0 va), t)" "node (mem t) r [PX 2 va, PX 1 va] = Some p"
        "length xs \<le> length ys + 2"
    by blast
  then show ?thesis
  proof cases
    case 1
    then show ?thesis using mappages_single [OF assms(5) 1(1)] t(1) by simp
  next
    case (2 p)
    let ?e = "PA2PTE pa OR perm OR PTE_V"
    let ?u = "t\<lparr>mem := store64 (mem t) (pte_slot p (PX 0 va)) ?e\<rparr>"
    have "page_ok t p" using tab_invD(1) [OF pt_extD(3) [OF t(1)] assms(4) _ 2(2)] by simp
    then have "mappages r va PGSIZE pa perm s = Inr (0, ?u)"
      using mappages_single [OF assms(5) 2(1)] by (simp add: st64_slot slot_nonzero)
    moreover have "lock_ready ?u" using pt_extD(1) [OF t(1)] by (simp add: lock_ready_def)
    moreover have "pt_upd R s xs ?u ys r va ?e"
      by (rule pt_ext_upd [OF t(1) store_upd [OF pt_extD(2,3) [OF t(1)] assms(4) 2(2) assms(6)]])
    ultimately show ?thesis using 2(3) by blast
  qed
qed

section \<open>Steps that keep the invariant\<close>

definition same_page :: "kstate \<Rightarrow> kstate \<Rightarrow> addr \<Rightarrow> bool" where
  "same_page s t p \<longleftrightarrow> (\<forall>a. PGROUNDDOWN a = p \<longrightarrow> mem t a = mem s a)"

text \<open>Updating an entry leaves the contents, the count and the kind of every user page alone.\<close>

lemma pt_upd_user:
  assumes upd: "pt_upd R s xs t ys r0 va0 e" and inv: "user_ok s R" "alloc_inv s xs"
    and m: "r \<in> R" "uva va" "maps (entry (mem s) r va) p"
  shows "same_page s t p" "ref_count t (rc_index p) = ref_count s (rc_index p)" "p \<notin> tables (mem t) R"
proof -
  obtain zs where z: "xs = zs @ ys" "tables (mem t) R = tables (mem s) R \<union> set zs"
    "\<And>a. PGROUNDDOWN a \<notin> tables (mem s) R \<union> set zs \<Longrightarrow> mem t a = mem s a"
    "\<And>p. page_ok s p \<Longrightarrow> p \<notin> set zs \<Longrightarrow> ref_count t (rc_index p) = ref_count s (rc_index p)"
    using pt_upd_tables [OF upd] by blast
  have p: "p \<notin> tables (mem s) R \<union> set zs"
    using user_page(2) [OF inv(1) m] user_page_not_free [OF inv m] z(1) by auto
  show "same_page s t p" using p z(3) by (auto simp: same_page_def)
  show "ref_count t (rc_index p) = ref_count s (rc_index p)"
    using z(4) [OF user_page(1) [OF inv(1) m]] p by auto
  show "p \<notin> tables (mem t) R" using p z(2) by simp
qed

lemma pt_upd_uva:
  assumes "pt_upd R s xs t ys r0 va0 e" "uva va0" "r \<in> R" "uva va"
  shows "entry (mem t) r va = (if r = r0 \<and> va = va0 then e else entry (mem s) r va)"
  using pt_updD(4) [OF assms(1,3) uva_MAXVA [OF assms(4)]] assms by (simp add: uva_round)

text \<open>Changing the flags of a mapping.\<close>

lemma reflag_inv:
  assumes inv: "mm_inv s R xs" and upd: "pt_upd R s xs t ys r0 va0 e'" and r0: "r0 \<in> R" "uva va0"
    and m: "maps (entry (mem s) r0 va0) pa" "maps e' pa"
    and f: "PTE_FLAGS e' \<noteq> PTE_V" "e' AND PTE_W \<noteq> 0 \<Longrightarrow> ref_count s (rc_index pa) = 1"
  shows "mm_inv t R ys"
proof -
  have ok: "user_ok s R" "alloc_inv s xs" using inv by (simp_all add: mm_inv_def)
  have E: "entry (mem t) r va = (if r = r0 \<and> va = va0 then e' else entry (mem s) r va)"
    if "r \<in> R" "uva va" for r va by (rule pt_upd_uva [OF upd r0(2) that])
  have old: "maps (entry (mem s) r va) p" if "r \<in> R" "uva va" "maps (entry (mem t) r va) p" for r va p
    using that E [OF that(1,2)] m by (auto simp: maps_def split: if_splits)
  have "user_ok t R"
  proof (rule user_ok_upd [OF ok(1) r0 pt_updD(3) [OF upd] E])
    fix r va p assume r: "r \<in> R" "uva va" "maps (entry (mem t) r va) p"
    note p = pt_upd_user [OF upd ok r(1,2) old [OF r]]
    show "p \<notin> tables (mem t) R" by (rule p(3))
    show "ref_count t (rc_index p) = ucount (entry (mem s)) R p + of_bool (maps e' p)
        - of_bool (maps (entry (mem s) r0 va0) p)"
      using p(2) user_page(3) [OF ok(1) r(1,2) old [OF r]] m by (auto simp: maps_def)
  next
    assume "e' AND PTE_V \<noteq> 0"
    then show "page_ok s (PTE2PA e') \<and> PTE_FLAGS e' \<noteq> PTE_V \<and>
        (e' AND PTE_W \<noteq> 0 \<longrightarrow> ref_count t (rc_index (PTE2PA e')) = 1)"
      using user_page(1) [OF ok(1) r0 m(1)] pt_upd_user(2) [OF upd ok r0 m(1)] m(2) f
      by (auto simp: maps_def)
  next
    fix r va
    assume r: "r \<in> R" "uva va" "(r, va) \<noteq> (r0, va0)" "maps (entry (mem s) r va) (PTE2PA e')"
    show "entry (mem s) r va AND PTE_W = 0"
    proof (rule ccontr)
      assume "entry (mem s) r va AND PTE_W \<noteq> 0"
      then have "ucount (entry (mem s)) R pa = 1"
        using user_okD [OF ok(1) r(1,2)] r(4) m(2) by (auto simp: maps_def leaf_ok_def)
      then show False using ucount_one [of _ R pa r va r0 va0] r m r0 by (auto simp: maps_def)
    qed
  qed simp_all
  then show ?thesis using pt_updD(1,2) [OF upd] by (simp add: mm_inv_def)
qed

text \<open>Mapping a page that is in use already, and counting the new reference.\<close>

lemma share_inv:
  assumes inv: "mm_inv s R xs" and upd: "pt_upd R s xs t ys r0 va0 e'" and r0: "r0 \<in> R" "uva va0"
    and m: "r1 \<in> R" "uva va1" "maps (entry (mem s) r1 va1) pa" "entry (mem s) r1 va1 AND PTE_W = 0"
    and new: "entry (mem s) r0 va0 AND PTE_V = 0" "maps e' pa" "PTE_FLAGS e' \<noteq> PTE_V" "e' AND PTE_W = 0"
    and u: "mem u = mem t" "freelist u = freelist t" "kend u = kend t"
      "ref_count u = (ref_count t)(rc_index pa := ref_count t (rc_index pa) + 1)"
  shows "mm_inv u R ys"
proof -
  have ok: "user_ok s R" "alloc_inv s xs" using inv by (simp_all add: mm_inv_def)
  note pa = user_page [OF ok(1) m(1-3)] and pt = pt_upd_user [OF upd ok m(1-3)]
  have kt: "page_ok t p = page_ok s p" "page_ok u p = page_ok s p" for p
    using pt_updD(3) [OF upd] u(3) by (simp_all add: page_ok_def)
  have other: "ref_count u (rc_index p) = ref_count t (rc_index p)" if "page_ok s p" "p \<noteq> pa" for p
    using rc_index_eq_iff [OF that(1) pa(1)] that(2) by (simp add: u)
  have pay: "pa \<notin> set ys"
    using pt(2) pa(4) pt_updD(1) [OF upd] by (auto simp: alloc_inv_def)
  have "alloc_inv u ys"
  proof (rule alloc_inv_frame [OF pt_updD(1) [OF upd]])
    fix x assume x: "x \<in> set ys"
    then have "x \<noteq> pa" "page_ok s x"
      using pay alloc_inv_page_ok [OF pt_updD(1) [OF upd] x] kt by auto
    then show "ref_count u (rc_index x) = ref_count t (rc_index x)" by (intro other)
  qed (simp_all add: u)
  moreover have "tab_inv u R"
  proof (rule tab_inv_frame [OF pt_updD(2) [OF upd]])
    fix p assume p: "p \<in> tables (mem t) R"
    then have "p \<noteq> pa" "page_ok s p" using pt(3) pt_updD(2) [OF upd] kt by (auto simp: tab_inv_def)
    then show "ref_count u (rc_index p) = ref_count t (rc_index p)" by (intro other)
  qed (simp_all add: u)
  moreover have "user_ok u R"
  proof (rule user_ok_upd [OF ok(1) r0])
    show "kend u = kend s" using u(3) pt_updD(3) [OF upd] by simp
    show E: "entry (mem u) r va = (if r = r0 \<and> va = va0 then e' else entry (mem s) r va)"
      if "r \<in> R" "uva va" for r va using pt_upd_uva [OF upd r0(2) that] u(1) by simp
    fix r va p assume r: "r \<in> R" "uva va" "maps (entry (mem u) r va) p"
    have "p = pa \<or> maps (entry (mem s) r va) p"
      using r(3) E [OF r(1,2)] new(2) by (auto simp: maps_def split: if_splits)
    then obtain r' va' where r': "r' \<in> R" "uva va'" "maps (entry (mem s) r' va') p"
      using r m by blast
    note p = pt_upd_user [OF upd ok r']
    show "p \<notin> tables (mem u) R" using p(3) u(1) by simp
    have "\<not> maps (entry (mem s) r0 va0) p" using new(1) by (simp add: maps_def)
    moreover have "maps e' p \<longleftrightarrow> p = pa" using new(2) by (auto simp: maps_def)
    moreover have "ref_count u (rc_index p) = ref_count t (rc_index p) + of_bool (p = pa)"
      using other [OF user_page(1) [OF ok(1) r']] by (cases "p = pa") (simp_all add: u(4))
    ultimately show "ref_count u (rc_index p) = ucount (entry (mem s)) R p + of_bool (maps e' p)
        - of_bool (maps (entry (mem s) r0 va0) p)"
      using p(2) user_page(3) [OF ok(1) r'] by simp
  next
    show "page_ok s (PTE2PA e') \<and> PTE_FLAGS e' \<noteq> PTE_V \<and>
        (e' AND PTE_W \<noteq> 0 \<longrightarrow> ref_count u (rc_index (PTE2PA e')) = 1)"
      using pa(1) new by (simp add: maps_def)
  next
    fix r va
    assume r: "r \<in> R" "uva va" "maps (entry (mem s) r va) (PTE2PA e')"
    show "entry (mem s) r va AND PTE_W = 0"
    proof (rule ccontr)
      assume w: "entry (mem s) r va AND PTE_W \<noteq> 0"
      then have "ucount (entry (mem s)) R pa = 1"
        using user_okD [OF ok(1) r(1,2)] r(3) new(2) by (auto simp: maps_def leaf_ok_def)
      then show False using ucount_one [of _ R pa r va r1 va1] r m new(2) w by (auto simp: maps_def)
    qed
  qed
  ultimately show ?thesis by (simp add: mm_inv_def)
qed

text \<open>Clearing a mapping after its reference was dropped by \<open>kfree\<close>.\<close>

lemma drop_inv:
  assumes inv: "mm_inv s R xs" and r0: "r0 \<in> R" "uva va0" "maps (entry (mem s) r0 va0) pa"
    and free: "kend s1 = kend s" "alloc_inv s1 ys"
      "ref_count s1 = (ref_count s)(rc_index pa := ref_count s (rc_index pa) - 1)"
      "\<And>a. PGROUNDDOWN a \<noteq> pa \<Longrightarrow> mem s1 a = mem s a"
    and upd: "tab_inv s1 R \<Longrightarrow> pt_upd R s1 ys t ys r0 va0 0"
  shows "mm_inv t R ys" "pt_upd R s1 ys t ys r0 va0 0"
    and "r \<in> R \<Longrightarrow> entry (mem s1) r va = entry (mem s) r va"
proof -
  have ok: "user_ok s R" "tab_inv s R" using inv by (simp_all add: mm_inv_def)
  note pa = user_page [OF ok(1) r0]
  have rc: "ref_count s1 (rc_index p) = ref_count s (rc_index p) - of_bool (p = pa)" if "page_ok s p" for p
    using rc_index_eq_iff [OF that pa(1)] by (auto simp: free(3))
  have tm: "mem s1 a = mem s a" if "PGROUNDDOWN a \<in> tables (mem s) R" for a
    using that pa(2) free(4) by metis
  have T: "tables (mem s1) R = tables (mem s) R" by (rule tables_frame [OF ok(2) tm])
  have tab: "tab_inv s1 R"
  proof (rule tab_inv_frame [OF ok(2) tm free(1)])
    fix p assume "p \<in> tables (mem s) R"
    then show "ref_count s1 (rc_index p) = ref_count s (rc_index p)"
      using rc [of p] pa(2) ok(2) by (auto simp: tab_inv_def)
  qed
  show ent: "entry (mem s1) r va = entry (mem s) r va" if "r \<in> R" for r va
    by (rule entry_frame [OF ok(2) that tm])
  show u: "pt_upd R s1 ys t ys r0 va0 0" by (rule upd [OF tab])
  have z: "tables (mem t) R = tables (mem s1) R"
    "\<And>p. page_ok s1 p \<Longrightarrow> ref_count t (rc_index p) = ref_count s1 (rc_index p)"
    using pt_upd_tables [OF u] by (metis append_self_conv2 empty_set sup_bot_right empty_iff)+
  have E: "entry (mem t) r va = (if r = r0 \<and> va = va0 then 0 else entry (mem s) r va)"
    if "r \<in> R" "uva va" for r va using pt_upd_uva [OF u r0(2) that] ent [OF that(1)] by simp
  have "user_ok t R"
  proof (rule user_ok_upd [OF ok(1) r0(1,2)])
    show "kend t = kend s" using pt_updD(3) [OF u] free(1) by simp
    fix r va p assume r: "r \<in> R" "uva va" "maps (entry (mem t) r va) p"
    then have old: "maps (entry (mem s) r va) p" using E [OF r(1,2)] by (auto simp: maps_def split: if_splits)
    note p = user_page [OF ok(1) r(1,2) old]
    show "p \<notin> tables (mem t) R" using p(2) T z(1) by simp
    have "ref_count t (rc_index p) = ref_count s1 (rc_index p)"
      using z p(1) by (simp add: page_ok_def free(1))
    then show "ref_count t (rc_index p) = ucount (entry (mem s)) R p + of_bool (maps 0 p)
        - of_bool (maps (entry (mem s) r0 va0) p)"
      using rc [OF p(1)] p(3) r0(3) by (auto simp: maps_def)
  qed (use E in simp_all)
  then show "mm_inv t R ys" using pt_updD(1,2) [OF u] by (simp add: mm_inv_def)
qed

text \<open>A page in the kernel's hands: allocated, one reference, mapped nowhere.\<close>

definition owned :: "kstate \<Rightarrow> addr set \<Rightarrow> addr \<Rightarrow> bool" where
  "owned s R g \<longleftrightarrow> page_ok s g \<and> ref_count s (rc_index g) = 1 \<and> g \<notin> tables (mem s) R \<and>
    ucount (entry (mem s)) R g = 0"

lemma ucount_0: "ucount E R p = 0 \<longleftrightarrow> (\<forall>r \<in> R. \<forall>va. uva va \<longrightarrow> \<not> maps (E r va) p)"
proof -
  have "refs E R p = {} \<longleftrightarrow> (\<forall>r \<in> R. \<forall>va. uva va \<longrightarrow> \<not> maps (E r va) p)"
    unfolding refs_def by auto
  then show ?thesis by (simp add: ucount_def)
qed

text \<open>Taking a page off the free list and filling it in any way.\<close>

lemma alloc_owned:
  assumes inv: "mm_inv s R (g # ys)" and free: "alloc_inv t ys" "kend t = kend s"
    and rc: "ref_count t = (ref_count s)(rc_index g := 1)"
    and m: "\<And>a. PGROUNDDOWN a \<noteq> g \<Longrightarrow> mem t a = mem s a"
  shows "mm_inv t R ys" "owned t R g" "g \<notin> set ys"
    and "r \<in> R \<Longrightarrow> entry (mem t) r va = entry (mem s) r va"
proof -
  have ok: "alloc_inv s (g # ys)" "tab_inv s R" "user_ok s R" using inv by (simp_all add: mm_inv_def)
  have g: "page_ok s g" "g \<notin> set ys" "g \<notin> tables (mem s) R"
    using ok(1) tables_not_free [OF ok(2,1), of g] by (simp_all add: alloc_inv_def)
  show "g \<notin> set ys" by (rule g(2))
  have tm: "mem t a = mem s a" if "PGROUNDDOWN a \<in> tables (mem s) R" for a
    using that g(3) m by metis
  have T: "tables (mem t) R = tables (mem s) R" by (rule tables_frame [OF ok(2) tm])
  show ent: "entry (mem t) r va = entry (mem s) r va" if "r \<in> R" for r va
    by (rule entry_frame [OF ok(2) that tm])
  have rc': "ref_count t (rc_index p) = ref_count s (rc_index p)" if "page_ok s p" "p \<noteq> g" for p
    using rc_index_eq_iff [OF that(1) g(1)] that(2) by (simp add: rc)
  have cnt: "ucount (entry (mem t)) R p = ucount (entry (mem s)) R p" for p
    by (rule ucount_cong) (simp add: ent)
  have un: "\<not> maps (entry (mem s) r va) g" if "r \<in> R" "uva va" for r va
    using user_page_not_free [OF ok(3,1) that, of g] by auto
  have "tab_inv t R"
  proof (rule tab_inv_frame [OF ok(2) tm free(2)])
    fix p assume "p \<in> tables (mem s) R"
    then show "ref_count t (rc_index p) = ref_count s (rc_index p)"
      using g(3) ok(2) by (intro rc') (auto simp: tab_inv_def)
  qed
  moreover have "user_ok t R"
    unfolding user_ok_def
  proof (intro ballI allI impI)
    fix r va assume r: "r \<in> R" "uva va" "entry (mem t) r va AND PTE_V \<noteq> 0"
    let ?p = "PTE2PA (entry (mem s) r va)"
    have "leaf_ok s R (entry (mem s) r va)" using user_okD [OF ok(3) r(1,2)] r(3) ent [OF r(1)] by simp
    moreover have "?p \<noteq> g" using un [OF r(1,2)] r(3) ent [OF r(1)] by (auto simp: maps_def)
    ultimately show "leaf_ok t R (entry (mem t) r va)"
      using rc' [of ?p] by (auto simp: leaf_ok_def ent [OF r(1)] T cnt page_ok_def free(2))
  qed
  ultimately show "mm_inv t R ys" using free(1) by (simp add: mm_inv_def)
  show "owned t R g"
    using g un ent by (simp add: owned_def T ucount_0 rc page_ok_def free(2))
qed

text \<open>Mapping such a page, over a mapping whose reference is dropped if there was one.\<close>

lemma owned_map_inv:
  assumes inv: "mm_inv s R xs" and own: "owned s R g" and r0: "r0 \<in> R" "uva va0"
    and upd: "pt_upd R s xs t ys r0 va0 e'" and e': "maps e' g" "PTE_FLAGS e' \<noteq> PTE_V"
    and u: "mem u = mem t" "kend u = kend t" "alloc_inv u ys" "tab_inv u R"
    and rc: "\<And>p. page_ok s p \<Longrightarrow> ref_count u (rc_index p) =
      ref_count t (rc_index p) - of_bool (maps (entry (mem s) r0 va0) p)"
  shows "mm_inv u R ys"
proof -
  have ok: "user_ok s R" "alloc_inv s xs" using inv by (simp_all add: mm_inv_def)
  have g: "page_ok s g" "ref_count s (rc_index g) = 1" "g \<notin> tables (mem s) R"
    "\<And>r va. r \<in> R \<Longrightarrow> uva va \<Longrightarrow> \<not> maps (entry (mem s) r va) g"
    using own unfolding owned_def ucount_0 by blast+
  obtain zs where z: "xs = zs @ ys" "tables (mem t) R = tables (mem s) R \<union> set zs"
    "\<And>p. page_ok s p \<Longrightarrow> p \<notin> set zs \<Longrightarrow> ref_count t (rc_index p) = ref_count s (rc_index p)"
    using pt_upd_tables [OF upd] by blast
  have gz: "g \<notin> set zs" using g(2) ok(2) z(1) by (auto simp: alloc_inv_def)
  have grc: "ref_count u (rc_index g) = 1" using rc [OF g(1)] z(3) [OF g(1) gz] g(2) g(4) [OF r0] by simp
  have E: "entry (mem u) r va = (if r = r0 \<and> va = va0 then e' else entry (mem s) r va)"
    if "r \<in> R" "uva va" for r va using pt_upd_uva [OF upd r0(2) that] u(1) by simp
  have "user_ok u R"
  proof (rule user_ok_upd [OF ok(1) r0])
    show "kend u = kend s" using pt_updD(3) [OF upd] u(2) by simp
    fix r va p assume r: "r \<in> R" "uva va" "maps (entry (mem u) r va) p"
    have "p \<notin> tables (mem u) R \<and> ref_count u (rc_index p) = ucount (entry (mem s)) R p + of_bool (maps e' p)
        - of_bool (maps (entry (mem s) r0 va0) p)"
    proof (cases "p = g")
      case True
      then show ?thesis
        using grc gz g(3) z(2) own g(4) [OF r0] e'(1) by (simp add: owned_def u(1))
    next
      case False
      then have old: "maps (entry (mem s) r va) p"
        using r(3) E [OF r(1,2)] e'(1) by (auto simp: maps_def split: if_splits)
      have "\<not> maps e' p" using False e'(1) by (simp add: maps_def)
      then show ?thesis
        using pt_upd_user [OF upd ok r(1,2) old] user_page [OF ok(1) r(1,2) old] rc [of p] u(1) by simp
    qed
    then show "p \<notin> tables (mem u) R" "ref_count u (rc_index p) = ucount (entry (mem s)) R p
        + of_bool (maps e' p) - of_bool (maps (entry (mem s) r0 va0) p)" by simp_all
  next
    show "page_ok s (PTE2PA e') \<and> PTE_FLAGS e' \<noteq> PTE_V \<and>
        (e' AND PTE_W \<noteq> 0 \<longrightarrow> ref_count u (rc_index (PTE2PA e')) = 1)"
      using e' g(1) grc by (simp add: maps_def)
  next
    fix r va
    assume "r \<in> R" "uva va" "maps (entry (mem s) r va) (PTE2PA e')"
    then show "entry (mem s) r va AND PTE_W = 0" using g(4) e'(1) by (fastforce simp: maps_def)
  qed (rule E)
  then show ?thesis using u(3,4) by (simp add: mm_inv_def)
qed

end
