(* ===== verification/Uvm.thy ===== *)
theory Uvm
  imports Cow
begin

text \<open>
  The operations of \<open>kernel/vm.c\<close> on user memory, over all address spaces in use: \<open>uvmunmap\<close>,
  \<open>uvmcopy\<close>, \<open>cow_fault_handler\<close>, \<open>copyout\<close> and \<open>copyin\<close>.  Each is shown to return, to keep \<open>vm_inv\<close>,
  and to have the effect it should on what every process sees of its memory (\<open>uview\<close>).
\<close>

section \<open>What a process sees\<close>

definition uview :: "kstate \<Rightarrow> addr \<Rightarrow> uint64 \<Rightarrow> byte option" where
  "uview s r va =
    (let e = entry (mem s) r va
     in if e AND PTE_V \<noteq> 0 \<and> e AND PTE_U \<noteq> 0
        then Some (mem s (PTE2PA e + (va - PGROUNDDOWN va))) else None)"

lemma entry_round: "entry m r (PGROUNDDOWN va) = entry m r va"
  by (simp add: entry_def)

lemma uva_PGROUNDDOWN: "va < TRAPFRAME \<Longrightarrow> uva (PGROUNDDOWN va)"
  using PGROUNDDOWN_le [of va] by (simp add: uva_def)

lemma page_byte: "page_aligned p \<Longrightarrow> PGROUNDDOWN (p + (va - PGROUNDDOWN va)) = p"
  by (rule PGROUNDDOWN_add) (simp_all add: page_off_less)

text \<open>Two states with the same pages behind an address show the same byte there.\<close>

lemma uview_cong:
  assumes "entry (mem t) r va AND PTE_V = entry (mem s) r va AND PTE_V"
    "entry (mem t) r va AND PTE_U = entry (mem s) r va AND PTE_U"
    and "entry (mem s) r va AND PTE_V \<noteq> 0 \<Longrightarrow> PTE2PA (entry (mem t) r va) = PTE2PA (entry (mem s) r va)"
    and "entry (mem s) r va AND PTE_V \<noteq> 0 \<Longrightarrow> same_page s t (PTE2PA (entry (mem s) r va))"
  shows "uview t r va = uview s r va"
  using assms by (auto simp: uview_def Let_def same_page_def page_byte)

text \<open>The pages mapped in \<open>t\<close> still have the contents they had in \<open>s\<close>.\<close>

definition keeps :: "addr set \<Rightarrow> kstate \<Rightarrow> kstate \<Rightarrow> bool" where
  "keeps R s t \<longleftrightarrow> (\<forall>r \<in> R. \<forall>va p. uva va \<longrightarrow> maps (entry (mem t) r va) p \<longrightarrow> same_page s t p)"

lemma keepsI:
  "(\<And>r va p. r \<in> R \<Longrightarrow> uva va \<Longrightarrow> maps (entry (mem t) r va) p \<Longrightarrow> same_page s t p) \<Longrightarrow> keeps R s t"
  by (simp add: keeps_def)

lemma keepsD: "keeps R s t \<Longrightarrow> r \<in> R \<Longrightarrow> uva va \<Longrightarrow> maps (entry (mem t) r va) p \<Longrightarrow> same_page s t p"
  by (simp add: keeps_def)

lemma same_page_trans: "same_page s t p \<Longrightarrow> same_page t u p \<Longrightarrow> same_page s u p"
  by (simp add: same_page_def)

lemma keeps_trans:
  assumes "keeps R s t" "keeps R t u"
    and "\<And>r va p. r \<in> R \<Longrightarrow> uva va \<Longrightarrow> maps (entry (mem u) r va) p \<Longrightarrow>
      \<exists>r' \<in> R. \<exists>va'. uva va' \<and> maps (entry (mem t) r' va') p"
  shows "keeps R s u"
  using assms by (meson keepsD keepsI same_page_trans)

section \<open>Adding tables\<close>

lemma ext_inv:
  assumes inv: "mm_inv s R xs" and ext: "pt_ext R s xs t ys"
  shows "mm_inv t R ys" "keeps R s t"
proof -
  have ok: "alloc_inv s xs" "user_ok s R" using inv by (simp_all add: mm_inv_def)
  have ent: "entry (mem t) r va = entry (mem s) r va" if "r \<in> R" for r va
    by (rule pt_extD(5) [OF ext that])
  obtain zs where z: "xs = zs @ ys" "tables (mem t) R = tables (mem s) R \<union> set zs"
    "\<And>a. PGROUNDDOWN a \<notin> tables (mem s) R \<union> set zs \<Longrightarrow> mem t a = mem s a"
    "\<And>p. page_ok s p \<Longrightarrow> p \<notin> set zs \<Longrightarrow> ref_count t (rc_index p) = ref_count s (rc_index p)"
    using pt_ext_tables [OF ext] by blast
  have p: "p \<notin> tables (mem s) R \<union> set zs" if "r \<in> R" "uva va" "maps (entry (mem s) r va) p" for r va p
    using user_page(2) [OF ok(2) that] user_page_not_free [OF ok(2,1) that] z(1) by auto
  have cnt: "ucount (entry (mem t)) R p = ucount (entry (mem s)) R p" for p
    by (rule ucount_cong) (simp add: ent)
  have "leaf_ok t R (entry (mem t) r va)" if "r \<in> R" "uva va" "entry (mem t) r va AND PTE_V \<noteq> 0" for r va
    using user_okD [OF ok(2) that(1,2)] that(3) p [OF that(1,2)] z(2,4) pt_extD(4) [OF ext]
    by (auto simp: leaf_ok_def ent [OF that(1)] cnt page_ok_def maps_def)
  then have "user_ok t R" by (simp add: user_ok_def)
  then show "mm_inv t R ys" using pt_extD(2,3) [OF ext] by (simp add: mm_inv_def)
  show "keeps R s t"
    using p z(3) ent by (intro keepsI) (auto simp: same_page_def)
qed

lemma upd_keeps:
  assumes "mm_inv s R xs" "pt_upd R s xs t ys r0 va0 e" "uva va0"
    and "\<And>p. maps e p \<Longrightarrow> \<exists>r \<in> R. \<exists>va. uva va \<and> maps (entry (mem s) r va) p"
  shows "keeps R s t"
proof (rule keepsI)
  fix r va p assume r: "r \<in> R" "uva va" "maps (entry (mem t) r va) p"
  have ok: "user_ok s R" "alloc_inv s xs" using assms(1) by (simp_all add: mm_inv_def)
  have "\<exists>r \<in> R. \<exists>va. uva va \<and> maps (entry (mem s) r va) p"
    using r pt_upd_uva [OF assms(2,3) r(1,2)] assms(4) by (auto split: if_splits)
  then show "same_page s t p" using pt_upd_user(1) [OF assms(2) ok] by blast
qed

section \<open>Unmapping\<close>

lemma vm_invD:
  "vm_inv s R xs \<Longrightarrow> lock_ready s" "vm_inv s R xs \<Longrightarrow> mm_inv s R xs" "vm_inv s R xs \<Longrightarrow> alloc_inv s xs"
  "vm_inv s R xs \<Longrightarrow> tab_inv s R" "vm_inv s R xs \<Longrightarrow> user_ok s R"
  by (simp_all add: vm_inv_def mm_inv_def)

text \<open>The pages the allocator and the address spaces account for: free, holding a page table, or mapped.  No operation on
  user memory may lose one.\<close>

definition mapped_pages :: "addr set \<Rightarrow> kstate \<Rightarrow> addr set" where
  "mapped_pages R s = {p. \<exists>r \<in> R. \<exists>va. uva va \<and> maps (entry (mem s) r va) p}"

definition pages :: "addr set \<Rightarrow> kstate \<Rightarrow> addr list \<Rightarrow> addr set" where
  "pages R s xs = set xs \<union> tables (mem s) R \<union> mapped_pages R s"

lemma mapped_pages_cong:
  "(\<And>r va. r \<in> R \<Longrightarrow> uva va \<Longrightarrow> entry (mem t) r va = entry (mem s) r va) \<Longrightarrow> mapped_pages R t = mapped_pages R s"
  by (simp add: mapped_pages_def cong: bex_cong conj_cong)

lemma other_ref:
  assumes "ucount E R p \<noteq> 1" "r \<in> R" "uva va" "maps (E r va) p"
  shows "\<exists>r' \<in> R. \<exists>va'. uva va' \<and> maps (E r' va') p \<and> \<not> (r' = r \<and> va' = va)"
proof (rule ccontr)
  assume "\<not> ?thesis"
  then have "refs E R p = {(r, va)}" using assms(2-4) unfolding refs_def by blast
  then show False using assms(1) by (simp add: ucount_def)
qed

text \<open>The leaf table of a valid entry, and the walk to it.\<close>

lemma valid_walk:
  assumes "tab_inv s R" "r \<in> R" "va < MAXVA" "entry (mem s) r va \<noteq> 0"
  obtains p where "walk r va False s = Inr (pte_slot p (PX 0 va), s)" "pte_slot p (PX 0 va) \<noteq> 0"
    "node (mem s) r [PX 2 va, PX 1 va] = Some p" "page_ok s p"
    "ld64 (pte_slot p (PX 0 va)) s = Inr (entry (mem s) r va)"
proof (rule leaf_slot_cases [OF assms(1,2), of va])
  fix p assume p: "leaf_slot (mem s) r va = pte_slot p (PX 0 va)" "leaf_slot (mem s) r va \<noteq> 0"
    "node (mem s) r [PX 2 va, PX 1 va] = Some p" "page_ok s p"
    "entry (mem s) r va = load64 (mem s) (pte_slot p (PX 0 va))"
  show thesis
    using that [of p] walk_noalloc [OF assms(1-3)] p by (simp add: ld64_slot)
qed (use assms(4) in simp)

lemma unmap_one:
  assumes inv: "vm_inv s R xs" and r: "r \<in> R" "uva a" "entry (mem s) r a AND PTE_V \<noteq> 0" and a: "a < stop"
  shows "\<exists>t ys. uvmunmap_loop r a stop True s = uvmunmap_loop r (a + PGSIZE) stop True t \<and>
    vm_inv t R ys \<and> set xs \<subseteq> set ys \<and> pages R t ys = pages R s xs \<and> keeps R s t \<and>
    (\<forall>r' \<in> R. \<forall>va < MAXVA. entry (mem t) r' va =
      (if r' = r \<and> PGROUNDDOWN va = a then 0 else entry (mem s) r' va))"
proof -
  let ?e = "entry (mem s) r a" and ?pa = "PTE2PA (entry (mem s) r a)"
  have ok: "user_ok s R" "tab_inv s R" "alloc_inv s xs" "lock_ready s" using vm_invD inv by blast+
  have m: "maps ?e ?pa" using r(3) by (simp add: maps_def)
  have nz: "?e \<noteq> 0" using r(3) by auto
  obtain p where p: "walk r a False s = Inr (pte_slot p (PX 0 a), s)" "pte_slot p (PX 0 a) \<noteq> 0"
    "node (mem s) r [PX 2 a, PX 1 a] = Some p" "page_ok s p" "ld64 (pte_slot p (PX 0 a)) s = Inr ?e"
    using valid_walk [OF ok(2) r(1) uva_MAXVA [OF r(2)] nz] by blast
  have leaf: "PTE_FLAGS ?e \<noteq> PTE_V" using user_okD [OF ok(1) r] by (simp add: leaf_ok_def)
  note pa = user_page [OF ok(1) r(1,2) m] and pf = user_page_not_free [OF ok(1,3) r(1,2) m]
  obtain s1 where s1: "kfree ?pa s = Inr s1" "lock_ready s1" "kend s1 = kend s"
    "ref_count s1 = (ref_count s)(rc_index ?pa := ref_count s (rc_index ?pa) - 1)"
    "\<And>b. PGROUNDDOWN b \<noteq> ?pa \<Longrightarrow> mem s1 b = mem s b"
    "if ref_count s (rc_index ?pa) = 1 then alloc_inv s1 (?pa # xs) else alloc_inv s1 xs \<and> mem s1 = mem s"
    using kfree_effect [OF ok(4,3) pa(1) pf pa(4)] by blast
  define ys where "ys = (if ref_count s (rc_index ?pa) = 1 then ?pa # xs else xs)"
  define t where "t = s1\<lparr>mem := store64 (mem s1) (pte_slot p (PX 0 a)) 0\<rparr>"
  have ys: "alloc_inv s1 ys" using s1(6) by (simp add: ys_def split: if_splits)
  have "mem s1 b = mem s b" if "PGROUNDDOWN b \<in> tables (mem s) R" for b
    using that pa(2) s1(5) by metis
  then have "node (mem s1) r [PX 2 a, PX 1 a] = Some p"
    using node_frame [OF ok(2) r(1), of "[PX 2 a, PX 1 a]" "mem s1"] p(3) by (simp del: node.simps)
  then have "tab_inv s1 R \<Longrightarrow> pt_upd R s1 ys t ys r a 0"
    unfolding t_def using store_upd [OF ys _ r(1) _ uva_MAXVA [OF r(2)]] by blast
  note drop = drop_inv [OF vm_invD(2) [OF inv] r(1,2) m s1(3) ys s1(4,5) this]
  have "page_ok s1 p" using p(4) s1(3) by (simp add: page_ok_def)
  then have "st64 (pte_slot p (PX 0 a)) 0 s1 = Inr t" by (simp add: st64_slot t_def)
  then have "uvmunmap_loop r a stop True s = uvmunmap_loop r (a + PGSIZE) stop True t"
    using a p r(3) leaf s1(1) by (simp add: uvmunmap_loop.simps [of r a])
  moreover have "vm_inv t R ys"
    using drop(1) s1(2) by (simp add: vm_inv_def t_def lock_ready_def)
  moreover have ent: "\<forall>r' \<in> R. \<forall>va < MAXVA. entry (mem t) r' va =
      (if r' = r \<and> PGROUNDDOWN va = a then 0 else entry (mem s) r' va)"
    using pt_updD(4) [OF drop(2)] drop(3) r(2) by (simp add: uva_round)
  moreover have "keeps R s t"
  proof (rule keepsI)
    fix r' va q assume q: "r' \<in> R" "uva va" "maps (entry (mem t) r' va) q"
    have t2: "maps (entry (mem s1) r' va) q" "\<not> (r' = r \<and> va = a)"
      using q ent drop(3) uva_MAXVA [OF q(2)] uva_round [OF q(2)]
      by (auto simp: maps_def split: if_splits)
    then have old: "maps (entry (mem s) r' va) q" using drop(3) q(1) by simp
    have "same_page s s1 q"
    proof (cases "q = ?pa \<and> ref_count s (rc_index ?pa) = 1")
      case True
      then have "ucount (entry (mem s)) R ?pa = 1" using pa(3) by simp
      then show ?thesis using ucount_one [where E = "entry (mem s)", OF _ r(1,2) m q(1,2)] old True t2(2) by simp
    next
      case False
      then show ?thesis using s1(5,6) by (auto simp: same_page_def split: if_splits)
    qed
    moreover have "q \<noteq> p"
      using user_page(2) [OF ok(1) q(1,2) old] tablesI [OF r(1) _ p(3)] by auto
    then have "same_page s1 t q"
      using page_ok_ram(3) [OF p(4)] by (auto simp: same_page_def t_def intro: store64_slot_other)
    ultimately show "same_page s t q" by (rule same_page_trans)
  qed
  moreover have "set xs \<subseteq> set ys" by (auto simp: ys_def)
  moreover have "pages R t ys = pages R s xs"
  proof -
    have T1: "tables (mem s1) R = tables (mem s) R"
      by (rule tables_frame [OF ok(2)]) (use pa(2) s1(5) in metis)
    have T: "tables (mem t) R = tables (mem s) R" using pt_upd_tables [OF drop(2)] T1 by auto
    have e1: "maps (entry (mem t) r' va) q \<longleftrightarrow> \<not> (r' = r \<and> va = a) \<and> maps (entry (mem s) r' va) q" if "r' \<in> R" "uva va" for r' va q
      using ent that uva_MAXVA uva_round by (auto simp: maps_def)
    have "q \<in> mapped_pages R s \<longleftrightarrow> q = ?pa \<or> q \<in> mapped_pages R t" for q
      unfolding mapped_pages_def mem_Collect_eq using e1 r(1,2) m by (metis (no_types) maps_def)
    moreover have "?pa \<in> mapped_pages R t" if "ref_count s (rc_index ?pa) \<noteq> 1"
      using other_ref [of "entry (mem s)" R ?pa r a] that pa(3) r(1,2) m e1
      unfolding mapped_pages_def mem_Collect_eq by metis
    ultimately show ?thesis unfolding pages_def T ys_def by auto
  qed
  ultimately show ?thesis by blast
qed

lemma page_next:
  assumes "page_aligned a" "a < MAXVA"
  shows "unat (a + PGSIZE) = unat a + 4096" "page_aligned (a + PGSIZE)" "a < a + PGSIZE"
proof -
  have "unat a < 274877906944" using assms(2) by (simp add: MAXVA_def word_less_nat_alt)
  then show *: "unat (a + PGSIZE) = unat a + 4096" "page_aligned (a + PGSIZE)"
    using unat_page_nth [OF assms(1), of 1] by simp_all
  show "a < a + PGSIZE" using * by (simp add: word_less_nat_alt)
qed

lemma page_range:
  assumes "page_aligned a" "a < MAXVA"
  shows "PGROUNDDOWN va = a \<longleftrightarrow> a \<le> va \<and> va < a + PGSIZE"
proof -
  obtain k where k: "unat a = 4096 * k" using assms(1) by (auto simp: page_aligned_unat)
  have "PGROUNDDOWN va = a \<longleftrightarrow> unat va div 4096 * 4096 = unat a"
    by (metis unat_PGROUNDDOWN word64_eqI)
  also have "\<dots> \<longleftrightarrow> unat va div 4096 = k" unfolding k by simp
  also have "\<dots> \<longleftrightarrow> 4096 * k \<le> unat va \<and> unat va < 4096 * k + 4096"
    by (auto simp: div_nat_eqI)
  finally show ?thesis
    using page_next(1) [OF assms] k by (simp add: word_le_nat_alt word_less_nat_alt)
qed

lemma page_le_less:
  assumes "page_aligned a" "page_aligned b" "a < b" "a < MAXVA"
  shows "a + PGSIZE \<le> b"
proof -
  obtain j k where "unat a = 4096 * j" "unat b = 4096 * k"
    using assms(1,2) unfolding page_aligned_unat mod_eq_0_iff_dvd dvd_def by blast
  then show ?thesis
    using assms(3) page_next(1) [OF assms(1,4)] by (simp add: word_le_nat_alt word_less_nat_alt)
qed

lemma unmap_range:
  assumes "vm_inv s R xs" "r \<in> R" "page_aligned a" "unat stop = unat a + 4096 * n" "stop \<le> TRAPFRAME"
    and "\<And>va. uva va \<Longrightarrow> a \<le> va \<Longrightarrow> va < stop \<Longrightarrow> entry (mem s) r va AND PTE_V \<noteq> 0"
  shows "\<exists>t ys. uvmunmap_loop r a stop True s = Inr t \<and>
    vm_inv t R ys \<and> set xs \<subseteq> set ys \<and> pages R t ys = pages R s xs \<and> keeps R s t \<and>
    (\<forall>r' \<in> R. \<forall>va < MAXVA. entry (mem t) r' va =
      (if r' = r \<and> a \<le> va \<and> va < stop then 0 else entry (mem s) r' va))"
  using assms
proof (induction n arbitrary: a s xs)
  case 0
  then have "stop = a" by (intro word64_eqI) simp
  moreover have "keeps R s s" by (simp add: keeps_def same_page_def)
  moreover have "uvmunmap_loop r a stop True s = Inr s" using \<open>stop = a\<close> by (simp add: uvmunmap_loop.simps)
  ultimately show ?case using 0(1) by auto
next
  case (Suc n)
  have lt: "a < stop" using Suc.prems(4) by (simp add: word_less_nat_alt)
  have ua: "uva a" using lt Suc.prems(3,5) by (simp add: uva_def)
  have aM: "a < MAXVA" by (rule uva_MAXVA [OF ua])
  note nxt = page_next [OF Suc.prems(3) aM] and rng = page_range [OF Suc.prems(3) aM]
  have "entry (mem s) r a AND PTE_V \<noteq> 0" using Suc.prems(6) [OF ua] lt by simp
  then obtain t ys where t: "uvmunmap_loop r a stop True s = uvmunmap_loop r (a + PGSIZE) stop True t"
    "vm_inv t R ys" "set xs \<subseteq> set ys" "keeps R s t"
    "\<forall>r' \<in> R. \<forall>va < MAXVA. entry (mem t) r' va =
      (if r' = r \<and> PGROUNDDOWN va = a then 0 else entry (mem s) r' va)" "pages R t ys = pages R s xs"
    using unmap_one [OF Suc.prems(1,2) ua _ lt] by blast
  have "\<exists>u zs. uvmunmap_loop r (a + PGSIZE) stop True t = Inr u \<and>
    vm_inv u R zs \<and> set ys \<subseteq> set zs \<and> pages R u zs = pages R t ys \<and> keeps R t u \<and>
    (\<forall>r' \<in> R. \<forall>va < MAXVA. entry (mem u) r' va =
      (if r' = r \<and> a + PGSIZE \<le> va \<and> va < stop then 0 else entry (mem t) r' va))"
  proof (rule Suc.IH [OF t(2) Suc.prems(2) nxt(2) _ Suc.prems(5)])
    show "unat stop = unat (a + PGSIZE) + 4096 * n" using Suc.prems(4) nxt(1) by simp
    fix va assume va: "uva va" "a + PGSIZE \<le> va" "va < stop"
    have "a \<le> va" by (rule order_trans [OF less_imp_le [OF nxt(3)] va(2)])
    moreover have "PGROUNDDOWN va \<noteq> a" unfolding rng using va(2) by (simp add: not_less)
    ultimately show "entry (mem t) r va AND PTE_V \<noteq> 0"
      using t(5) Suc.prems(2,6) va uva_MAXVA [OF va(1)] by simp
  qed
  then obtain u zs where u: "uvmunmap_loop r (a + PGSIZE) stop True t = Inr u"
    "vm_inv u R zs" "set ys \<subseteq> set zs" "keeps R t u"
    "\<forall>r' \<in> R. \<forall>va < MAXVA. entry (mem u) r' va =
      (if r' = r \<and> a + PGSIZE \<le> va \<and> va < stop then 0 else entry (mem t) r' va)" "pages R u zs = pages R t ys"
    by blast
  have "a + PGSIZE \<le> stop"
    using Suc.prems(4) nxt(1) by (simp add: word_le_nat_alt)
  then have "\<forall>r' \<in> R. \<forall>va < MAXVA. entry (mem u) r' va =
      (if r' = r \<and> a \<le> va \<and> va < stop then 0 else entry (mem s) r' va)"
    using t(5) u(5) rng less_imp_le [OF nxt(3)] by (auto simp: not_le not_less)
  moreover have "keeps R s u"
  proof (rule keeps_trans [OF t(4) u(4)])
    fix r' va p assume "r' \<in> R" "uva va" "maps (entry (mem u) r' va) p"
    then show "\<exists>r'' \<in> R. \<exists>va'. uva va' \<and> maps (entry (mem t) r'' va') p"
      using u(5) uva_MAXVA [of va] by (auto simp: maps_def split: if_splits)
  qed
  moreover have "set xs \<subseteq> set zs" using t(3) u(3) by blast
  moreover have "pages R u zs = pages R s xs" using t(6) u(6) by simp
  ultimately show ?case unfolding t(1) u(1) using u(2) by blast
qed

lemma uvmunmap_ok:
  assumes "vm_inv s R xs" "r \<in> R" "page_aligned a" "unat a + 4096 * unat npages \<le> unat TRAPFRAME"
    and "\<And>va. uva va \<Longrightarrow> a \<le> va \<Longrightarrow> va < a + npages * PGSIZE \<Longrightarrow> entry (mem s) r va AND PTE_V \<noteq> 0"
  shows "\<exists>t ys. uvmunmap r a npages True s = Inr t \<and>
    vm_inv t R ys \<and> set xs \<subseteq> set ys \<and> pages R t ys = pages R s xs \<and> keeps R s t \<and>
    (\<forall>r' \<in> R. \<forall>va < MAXVA. entry (mem t) r' va =
      (if r' = r \<and> a \<le> va \<and> va < a + npages * PGSIZE then 0 else entry (mem s) r' va))"
proof -
  have T: "unat TRAPFRAME = 274877898752" by (simp add: layout_defs)
  have "npages = of_nat (unat npages)" by simp
  then have u: "unat (a + npages * PGSIZE) = unat a + 4096 * unat npages"
    using unat_page_nth(1) [OF assms(3), of "unat npages"] assms(4) T by simp
  then have "a + npages * PGSIZE \<le> TRAPFRAME" using assms(4) by (simp add: word_le_nat_alt)
  moreover have "a mod PGSIZE = 0" using assms(3) by (simp add: page_aligned_def)
  ultimately show ?thesis
    using unmap_range [OF assms(1-3) u _ assms(5)] by (simp add: uvmunmap_def)
qed

section \<open>Sharing pages: uvmcopy\<close>

text \<open>The entry \<open>e'\<close> maps the page of \<open>e\<close> read-only, marked copy-on-write if \<open>e\<close> was writable.\<close>

definition cowed :: "uint64 \<Rightarrow> uint64 \<Rightarrow> bool" where
  "cowed e e' \<longleftrightarrow> PTE2PA e' = PTE2PA e \<and>
    PTE_FLAGS e' = (if e AND PTE_W \<noteq> 0 then cow_flags (PTE_FLAGS e) else PTE_FLAGS e)"

lemma is_flags_cow_flags: "is_flags f \<Longrightarrow> is_flags (cow_flags f)"
  unfolding cow_flags_def by (intro is_flags_or is_flags_and) simp_all

lemma bit_PTE:
  "bit PTE_V n \<longleftrightarrow> n = 0" "bit PTE_R n \<longleftrightarrow> n = 1" "bit PTE_W n \<longleftrightarrow> n = 2"
  "bit PTE_X n \<longleftrightarrow> n = 3" "bit PTE_U n \<longleftrightarrow> n = 4" "bit PTE_COW n \<longleftrightarrow> n = 8"
proof -
  have pow: "bit (2 ^ k :: uint64) n \<longleftrightarrow> n = k" if "k < 64" for k
    using that by (auto simp: bit_exp_iff)
  show "bit PTE_V n \<longleftrightarrow> n = 0" "bit PTE_R n \<longleftrightarrow> n = 1" "bit PTE_W n \<longleftrightarrow> n = 2"
    "bit PTE_X n \<longleftrightarrow> n = 3" "bit PTE_U n \<longleftrightarrow> n = 4" "bit PTE_COW n \<longleftrightarrow> n = 8"
    using pow [of 0] pow [of 1] pow [of 2] pow [of 3] pow [of 4] pow [of 8]
    by (simp_all add: riscv_defs)
qed

lemma cow_flags_bits:
  "cow_flags f AND PTE_W = 0" "cow_flags f AND PTE_COW = PTE_COW"
  "cow_flags f AND PTE_V = f AND PTE_V" "cow_flags f AND PTE_U = f AND PTE_U"
  unfolding cow_flags_def by (rule bit_word_eqI; auto simp: bit_simps bit_PTE)+

lemma or_PTE_V: "f AND PTE_V \<noteq> 0 \<Longrightarrow> f OR PTE_V = f"
proof -
  assume "f AND PTE_V \<noteq> 0"
  then have "bit f 0" by (auto simp: PTE_V_def and_one_eq bit_0 odd_iff_mod_2_eq_one)
  then show ?thesis by (intro bit_word_eqI) (auto simp: PTE_V_def bit_simps)
qed

lemma flag_of_FLAGS: "is_flags b \<Longrightarrow> PTE_FLAGS e AND b = e AND b"
  by (rule and_PTE_FLAGS)

lemma flags_cong:
  assumes "PTE_FLAGS e' = PTE_FLAGS e" "is_flags b"
  shows "e' AND b = e AND b"
  using assms by (metis and_PTE_FLAGS)

lemma cowed_bits:
  assumes "cowed e e'"
  shows "e' AND PTE_W = 0" "e' AND PTE_V = e AND PTE_V" "e' AND PTE_U = e AND PTE_U"
proof -
  have e': "PTE_FLAGS e' AND b = e' AND b" "PTE_FLAGS e AND b = e AND b" if "is_flags b" for b
    using that by (simp_all add: and_PTE_FLAGS)
  show "e' AND PTE_W = 0" "e' AND PTE_V = e AND PTE_V" "e' AND PTE_U = e AND PTE_U"
    using assms cow_flags_bits [of "PTE_FLAGS e"] e' [of PTE_W] e' [of PTE_V] e' [of PTE_U]
    by (auto simp: cowed_def split: if_splits)
qed

lemma pte_parts:
  assumes "page_aligned pa" "is_flags f"
  shows "PTE2PA (PA2PTE pa OR f) = pa" "PTE_FLAGS (PA2PTE pa OR f) = f"
  using assms by (simp_all add: PTE2PA_PA2PTE PTE_FLAGS_PA2PTE)

lemma entries_round:
  assumes "uva i" "va < MAXVA" "PGROUNDDOWN va = i"
  shows "entry m r va = entry m r i"
  using assms entry_round by metis

text \<open>First half of a round: the parent's entry is marked.\<close>

lemma cow_mark:
  assumes inv: "vm_inv s R xs" and r: "r \<in> R" "uva i" and v: "entry (mem s) r i AND PTE_V \<noteq> 0"
    and p: "node (mem s) r [PX 2 i, PX 1 i] = Some p"
  defines "e \<equiv> entry (mem s) r i"
  shows "\<exists>t. (if e AND PTE_W \<noteq> 0
      then st64 (pte_slot p (PX 0 i)) (PA2PTE (PTE2PA e) OR cow_flags (PTE_FLAGS e)) s else Inr s) = Inr t \<and>
    vm_inv t R xs \<and> keeps R s t \<and> cowed e (entry (mem t) r i) \<and>
    (\<forall>r' \<in> R. \<forall>va < MAXVA. \<not> (r' = r \<and> PGROUNDDOWN va = i) \<longrightarrow> entry (mem t) r' va = entry (mem s) r' va)"
proof (cases "e AND PTE_W \<noteq> 0")
  case False
  moreover have "keeps R s s" by (simp add: keeps_def same_page_def)
  ultimately show ?thesis using inv by (simp add: cowed_def e_def)
next
  case True
  let ?e' = "PA2PTE (PTE2PA e) OR cow_flags (PTE_FLAGS e)"
  let ?t = "s\<lparr>mem := store64 (mem s) (pte_slot p (PX 0 i)) ?e'\<rparr>"
  have ok: "alloc_inv s xs" "tab_inv s R" "user_ok s R" using vm_invD inv by blast+
  have upd: "pt_upd R s xs ?t xs r i ?e'"
    by (rule store_upd [OF ok(1,2) r(1) p uva_MAXVA [OF r(2)]])
  have fl: "is_flags (cow_flags (PTE_FLAGS e))" by (simp add: is_flags_cow_flags)
  have parts: "PTE2PA ?e' = PTE2PA e" "PTE_FLAGS ?e' = cow_flags (PTE_FLAGS e)"
    by (simp_all add: pte_parts fl)
  have c: "cowed e ?e'" using True parts by (simp add: cowed_def)
  have m: "maps e (PTE2PA e)" "maps ?e' (PTE2PA e)"
    using v cowed_bits(2) [OF c] parts by (simp_all add: maps_def e_def)
  have "cow_flags (PTE_FLAGS e) \<noteq> PTE_V"
    using cow_flags_bits(2) [of "PTE_FLAGS e"] by (auto simp: riscv_defs)
  then have "mm_inv ?t R xs"
    using parts cowed_bits(1) [OF c] m
    by (intro reflag_inv [OF vm_invD(2) [OF inv] upd r]) (auto simp: e_def)
  moreover have "lock_ready ?t" using vm_invD(1) [OF inv] by (simp add: lock_ready_def)
  moreover have "keeps R s ?t"
  proof (rule upd_keeps [OF vm_invD(2) [OF inv] upd r(2)])
    fix q assume "maps ?e' q"
    then have "maps (entry (mem s) r i) q" using m by (simp add: maps_def e_def)
    then show "\<exists>r \<in> R. \<exists>va. uva va \<and> maps (entry (mem s) r va) q" using r by blast
  qed
  moreover have "entry (mem ?t) r i = ?e'"
    using pt_updD(4) [OF upd r(1) uva_MAXVA [OF r(2)]] by simp
  moreover have "page_ok s p" using tab_invD(1) [OF ok(2) r(1) _ p] by simp
  then have "st64 (pte_slot p (PX 0 i)) ?e' s = Inr ?t" by (simp add: st64_slot)
  ultimately show ?thesis
    using True c pt_updD(4) [OF upd] uva_round [OF r(2)] by (auto simp: vm_inv_def)
qed

text \<open>Second half: the child maps the page and the count goes up.\<close>

lemma share_page:
  assumes inv: "vm_inv s R xs" and r: "old \<in> R" "new \<in> R" "uva i"
    and e: "entry (mem s) old i AND PTE_V \<noteq> 0" "entry (mem s) old i AND PTE_W = 0"
    and n: "entry (mem s) new i AND PTE_V = 0"
  defines "pa \<equiv> PTE2PA (entry (mem s) old i)" and "f \<equiv> PTE_FLAGS (entry (mem s) old i)"
  shows "(\<exists>t. mappages new i PGSIZE pa f s = Inr (-1, t) \<and> length xs \<le> 1 \<and> vm_inv t R [] \<and> keeps R s t \<and>
      (\<forall>r \<in> R. \<forall>va. entry (mem t) r va = entry (mem s) r va)) \<or>
    (\<exists>t u ys. mappages new i PGSIZE pa f s = Inr (0, t) \<and> lock_update_ref_count pa 1 t = Inr u \<and>
      length xs \<le> length ys + 2 \<and> vm_inv u R ys \<and> keeps R s u \<and> PTE2PA (entry (mem u) new i) = pa \<and> PTE_FLAGS (entry (mem u) new i) = f \<and>
      (\<forall>r \<in> R. \<forall>va < MAXVA. \<not> (r = new \<and> PGROUNDDOWN va = i) \<longrightarrow> entry (mem u) r va = entry (mem s) r va))"
proof -
  have ok: "lock_ready s" "alloc_inv s xs" "tab_inv s R" "user_ok s R" using vm_invD inv by blast+
  have iM: "i < MAXVA" and ia: "page_aligned i" using uva_MAXVA r(3) by (simp_all add: uva_def)
  have m: "maps (entry (mem s) old i) pa" using e(1) by (simp add: maps_def pa_def)
  note pa = user_page [OF ok(4) r(1,3) m]
  let ?e' = "PA2PTE pa OR f OR PTE_V"
  have fV: "f AND PTE_V \<noteq> 0" using e(1) by (simp add: f_def flag_of_FLAGS)
  have parts: "PTE2PA ?e' = pa" "PTE_FLAGS ?e' = f"
    using pte_parts [of pa f] page_ok_ram(3) [OF pa(1)] or_PTE_V [OF fV] by (simp_all add: f_def or.assoc)
  have bits: "?e' AND PTE_V \<noteq> 0" "?e' AND PTE_W = 0"
    using flags_cong [of ?e' "entry (mem s) old i"] parts(2) e by (simp_all add: f_def)
  have leaf: "f \<noteq> PTE_V" using user_okD [OF ok(4) r(1,3) e(1)] by (simp add: leaf_ok_def f_def)
  consider t where "mappages new i PGSIZE pa f s = Inr (-1, t)" "pt_ext R s xs t []" "length xs \<le> 1"
    | t ys where "mappages new i PGSIZE pa f s = Inr (0, t)" "lock_ready t" "pt_upd R s xs t ys new i ?e'"
        "length xs \<le> length ys + 2"
    using mappages_one [OF ok(1-3) r(2) ia iM] by blast
  then show ?thesis
  proof cases
    case (1 t)
    then show ?thesis
      using ext_inv [OF vm_invD(2) [OF inv] 1(2)] pt_extD [OF 1(2)] 1(3) by (auto simp: vm_inv_def)
  next
    case (2 t ys)
    have "page_ok t pa" using pa(1) pt_updD(3) [OF 2(3)] by (simp add: page_ok_def)
    note inc = lock_update_ref_count_eq [OF 2(2) this]
    let ?u = "t\<lparr>ref_count := (ref_count t)(rc_index pa := ref_count t (rc_index pa) + 1), kcpu := settle (kcpu t)\<rparr>"
    have "mm_inv ?u R ys"
      by (rule share_inv [OF vm_invD(2) [OF inv] 2(3) r(2,3) r(1,3) m e(2) n])
        (simp_all add: maps_def parts bits leaf)
    moreover have "lock_ready ?u" using 2(2) by (simp add: lock_ready_def)
    moreover have "keeps R s ?u"
      using upd_keeps [OF vm_invD(2) [OF inv] 2(3) r(3)] r m parts(1)
      by (auto simp: keeps_def same_page_def maps_def)
    moreover have "entry (mem ?u) new i = ?e'" using pt_updD(4) [OF 2(3) r(2) iM] by simp
    ultimately show ?thesis
      using 2(1,4) inc parts pt_updD(4) [OF 2(3)] uva_round [OF r(3)] by (auto simp: vm_inv_def)
  qed
qed

lemma cowed_trans: "cowed e e1 \<Longrightarrow> cowed e1 e2 \<Longrightarrow> cowed e e2"
  using cowed_bits(1) [of e e1] by (simp add: cowed_def)

lemma cowed_same: "e AND PTE_W = 0 \<Longrightarrow> cowed e e"
  by (simp add: cowed_def)

lemma keeps_step:
  assumes "keeps R s t" "keeps R t u"
    and "\<And>r va. r \<in> R \<Longrightarrow> uva va \<Longrightarrow> entry (mem u) r va AND PTE_V \<noteq> 0 \<Longrightarrow>
      \<exists>r' \<in> R. \<exists>va'. uva va' \<and> entry (mem t) r' va' AND PTE_V \<noteq> 0 \<and>
        PTE2PA (entry (mem t) r' va') = PTE2PA (entry (mem u) r va)"
  shows "keeps R s u"
proof (rule keeps_trans [OF assms(1,2)])
  fix r va p assume a: "r \<in> R" "uva va" "maps (entry (mem u) r va) p"
  then have "entry (mem u) r va AND PTE_V \<noteq> 0" "PTE2PA (entry (mem u) r va) = p"
    by (simp_all add: maps_def)
  then show "\<exists>r' \<in> R. \<exists>va'. uva va' \<and> maps (entry (mem t) r' va') p"
    using assms(3) [OF a(1,2)] by (auto simp: maps_def)
qed

text \<open>One round of the loop.\<close>

lemma copy_one:
  assumes inv: "vm_inv s R xs" and r: "old \<in> R" "new \<in> R" "old \<noteq> new" "uva i" "i < sz"
    and v: "entry (mem s) old i AND PTE_V \<noteq> 0" and n: "entry (mem s) new i AND PTE_V = 0"
  shows "\<exists>t ys. vm_inv t R ys \<and> keeps R s t \<and> cowed (entry (mem s) old i) (entry (mem t) old i) \<and>
    (\<forall>r \<in> R. \<forall>va < MAXVA. \<not> ((r = old \<or> r = new) \<and> PGROUNDDOWN va = i) \<longrightarrow> entry (mem t) r va = entry (mem s) r va) \<and>
    (uvmcopy_loop old new i sz s =
       rbind (uvmunmap new 0 (i div PGSIZE) True t) (\<lambda>u. Inr (-1, u)) \<and> length xs \<le> 1 \<and>
     entry (mem t) new i = entry (mem s) new i \<or>
     uvmcopy_loop old new i sz s = uvmcopy_loop old new (i + PGSIZE) sz t \<and> length xs \<le> length ys + 2 \<and>
     cowed (entry (mem s) old i) (entry (mem t) new i))"
proof -
  let ?e = "entry (mem s) old i"
  have nz: "?e \<noteq> 0" using v by auto
  obtain p where p: "walk old i False s = Inr (pte_slot p (PX 0 i), s)" "pte_slot p (PX 0 i) \<noteq> 0"
    "node (mem s) old [PX 2 i, PX 1 i] = Some p" "ld64 (pte_slot p (PX 0 i)) s = Inr ?e"
    using valid_walk [OF vm_invD(4) [OF inv] r(1) uva_MAXVA [OF r(4)] nz] by blast
  obtain s2 where s2: "(if ?e AND PTE_W \<noteq> 0
      then st64 (pte_slot p (PX 0 i)) (PA2PTE (PTE2PA ?e) OR cow_flags (PTE_FLAGS ?e)) s else Inr s) = Inr s2"
    "vm_inv s2 R xs" "keeps R s s2" "cowed ?e (entry (mem s2) old i)"
    "\<forall>r' \<in> R. \<forall>va < MAXVA. \<not> (r' = old \<and> PGROUNDDOWN va = i) \<longrightarrow> entry (mem s2) r' va = entry (mem s) r' va"
    using cow_mark [OF inv r(1,4) v p(3)] by blast
  let ?e2 = "entry (mem s2) old i"
  let ?k = "\<lambda>(rt, s3). if rt \<noteq> 0 then rbind (uvmunmap new 0 (i div PGSIZE) True s3) (\<lambda>s4. Inr (-1 :: int, s4))
    else rbind (lock_update_ref_count (PTE2PA ?e2) 1 s3) (uvmcopy_loop old new (i + PGSIZE) sz)"
  have pa: "PTE2PA ?e = PTE2PA ?e2"
    and fl: "PTE_FLAGS ?e2 = (if ?e AND PTE_W \<noteq> 0 then cow_flags (PTE_FLAGS ?e) else PTE_FLAGS ?e)"
    using s2(4) by (simp_all add: cowed_def)
  have loop: "uvmcopy_loop old new i sz s = rbind (mappages new i PGSIZE (PTE2PA ?e2) (PTE_FLAGS ?e2) s2) ?k"
    using r(5) v p(1,2,4) s2(1) unfolding fl
    by (simp add: uvmcopy_loop.simps [of old new i] pa Let_def split: if_splits)
  have bits: "?e2 AND PTE_V \<noteq> 0" "?e2 AND PTE_W = 0" using cowed_bits [OF s2(4)] v by simp_all
  have n2: "entry (mem s2) new i = entry (mem s) new i"
    using s2(5) r(2,3) uva_MAXVA [OF r(4)] by auto
  have ex: "r' \<in> R \<Longrightarrow> uva va \<Longrightarrow> entry (mem u) r' va AND PTE_V \<noteq> 0 \<Longrightarrow>
      \<exists>r'' \<in> R. \<exists>va'. uva va' \<and> entry (mem s2) r'' va' AND PTE_V \<noteq> 0 \<and>
        PTE2PA (entry (mem s2) r'' va') = PTE2PA (entry (mem u) r' va)"
    if "\<forall>r \<in> R. \<forall>va < MAXVA. \<not> (r = new \<and> PGROUNDDOWN va = i) \<longrightarrow> entry (mem u) r va = entry (mem s2) r va"
      "entry (mem u) new i = entry (mem s2) new i \<or> PTE2PA (entry (mem u) new i) = PTE2PA ?e2" for u r' va
    using that r bits uva_MAXVA uva_round by metis
  have "(\<exists>t. mappages new i PGSIZE (PTE2PA ?e2) (PTE_FLAGS ?e2) s2 = Inr (-1, t) \<and> length xs \<le> 1 \<and> vm_inv t R [] \<and> keeps R s2 t \<and>
      (\<forall>r \<in> R. \<forall>va. entry (mem t) r va = entry (mem s2) r va)) \<or>
    (\<exists>t u ys. mappages new i PGSIZE (PTE2PA ?e2) (PTE_FLAGS ?e2) s2 = Inr (0, t) \<and>
      lock_update_ref_count (PTE2PA ?e2) 1 t = Inr u \<and>
      length xs \<le> length ys + 2 \<and> vm_inv u R ys \<and> keeps R s2 u \<and> PTE2PA (entry (mem u) new i) = PTE2PA ?e2 \<and>
      PTE_FLAGS (entry (mem u) new i) = PTE_FLAGS ?e2 \<and>
      (\<forall>r \<in> R. \<forall>va < MAXVA. \<not> (r = new \<and> PGROUNDDOWN va = i) \<longrightarrow> entry (mem u) r va = entry (mem s2) r va))"
    by (rule share_page [OF s2(2) r(1,2,4) bits]) (simp add: n2 n)
  then consider t where "mappages new i PGSIZE (PTE2PA ?e2) (PTE_FLAGS ?e2) s2 = Inr (-1, t)"
      "vm_inv t R []" "keeps R s2 t" "\<forall>r \<in> R. \<forall>va. entry (mem t) r va = entry (mem s2) r va" "length xs \<le> 1"
    | t u ys where "mappages new i PGSIZE (PTE2PA ?e2) (PTE_FLAGS ?e2) s2 = Inr (0, t)"
      "lock_update_ref_count (PTE2PA ?e2) 1 t = Inr u" "vm_inv u R ys" "keeps R s2 u"
      "PTE2PA (entry (mem u) new i) = PTE2PA ?e2" "PTE_FLAGS (entry (mem u) new i) = PTE_FLAGS ?e2"
      "\<forall>r \<in> R. \<forall>va < MAXVA. \<not> (r = new \<and> PGROUNDDOWN va = i) \<longrightarrow> entry (mem u) r va = entry (mem s2) r va" "length xs \<le> length ys + 2"
    by blast
  then show ?thesis
  proof cases
    case (1 t)
    have "keeps R s t" using keeps_step [OF s2(3) 1(3) ex] 1(4) r(2) by simp
    moreover have "uvmcopy_loop old new i sz s = rbind (uvmunmap new 0 (i div PGSIZE) True t) (\<lambda>u. Inr (-1, u))"
      by (simp add: loop 1(1))
    ultimately show ?thesis using 1(2,4,5) s2(4,5) r n2 by (intro exI [of _ t] exI [of _ "[]"]) auto
  next
    case (2 t u ys)
    have "keeps R s u" using keeps_step [OF s2(3) 2(4) ex] 2(5,7) by blast
    moreover have "uvmcopy_loop old new i sz s = uvmcopy_loop old new (i + PGSIZE) sz u"
      by (simp add: loop 2(1,2))
    moreover have "entry (mem u) old i = ?e2" using 2(7) r uva_MAXVA [OF r(4)] by auto
    moreover have "cowed ?e (entry (mem u) new i)" using s2(4) 2(5,6) by (simp add: cowed_def)
    ultimately show ?thesis using 2(3,7,8) s2(4,5) by (intro exI [of _ u] exI [of _ ys]) auto
  qed
qed

text \<open>What \<open>uvmcopy\<close> has done to the entries when it returns \<open>ret\<close>, starting at page \<open>i\<close>.\<close>

definition copied :: "addr set \<Rightarrow> addr \<Rightarrow> addr \<Rightarrow> uint64 \<Rightarrow> uint64 \<Rightarrow> kstate \<Rightarrow> int \<Rightarrow> kstate \<Rightarrow> bool" where
  "copied R old new i sz s ret t \<longleftrightarrow>
    (\<forall>r \<in> R. \<forall>va. r \<noteq> old \<longrightarrow> r \<noteq> new \<longrightarrow> uva va \<longrightarrow> entry (mem t) r va = entry (mem s) r va) \<and>
    (\<forall>va. uva va \<longrightarrow> entry (mem t) old va = entry (mem s) old va \<or>
      cowed (entry (mem s) old va) (entry (mem t) old va)) \<and>
    (ret = 0 \<and>
       (\<forall>va. uva va \<longrightarrow> i \<le> va \<longrightarrow> va < sz \<longrightarrow> cowed (entry (mem s) old va) (entry (mem t) old va) \<and>
          cowed (entry (mem s) old va) (entry (mem t) new va)) \<and>
       (\<forall>va. uva va \<longrightarrow> \<not> (i \<le> va \<and> va < sz) \<longrightarrow> entry (mem t) new va = entry (mem s) new va) \<or>
     ret = -1 \<and> (\<forall>va. uva va \<longrightarrow> entry (mem t) new va AND PTE_V = 0))"

text \<open>A failed round undoes the child's mappings.\<close>

lemma copy_fail:
  assumes inv: "vm_inv t R ys" and r: "new \<in> R" "uva i"
    and lo: "\<And>va. uva va \<Longrightarrow> va < i \<Longrightarrow> entry (mem t) new va AND PTE_V \<noteq> 0"
    and hi: "\<And>va. uva va \<Longrightarrow> i \<le> va \<Longrightarrow> entry (mem t) new va AND PTE_V = 0"
  shows "\<exists>u zs. uvmunmap new 0 (i div PGSIZE) True t = Inr u \<and> vm_inv u R zs \<and> keeps R t u \<and>
    (\<forall>va. uva va \<longrightarrow> entry (mem u) new va AND PTE_V = 0) \<and>
    (\<forall>r \<in> R. \<forall>va. r \<noteq> new \<longrightarrow> uva va \<longrightarrow> entry (mem u) r va = entry (mem t) r va)"
proof -
  have i: "page_aligned i" "i < TRAPFRAME" using r(2) by (simp_all add: uva_def)
  obtain k where k: "unat i = 4096 * k" using i(1) by (auto simp: page_aligned_unat)
  have d: "unat (i div PGSIZE) = k" using k by (simp add: unat_div PGSIZE_def)
  have "of_nat (unat (i div PGSIZE)) = i div PGSIZE" by simp
  then have "of_nat k = i div PGSIZE" unfolding d .
  then have stop: "0 + i div PGSIZE * PGSIZE = i"
    using unat_page_nth(1) [of 0 k] k unat_lt64 [of i] by (intro word64_eqI) simp
  have "unat (0 :: uint64) + 4096 * unat (i div PGSIZE) \<le> unat TRAPFRAME"
    using i(2) k d by (simp add: word_less_nat_alt)
  then have "\<exists>u zs. uvmunmap new 0 (i div PGSIZE) True t = Inr u \<and>
    vm_inv u R zs \<and> set ys \<subseteq> set zs \<and> pages R u zs = pages R t ys \<and> keeps R t u \<and>
    (\<forall>r' \<in> R. \<forall>va < MAXVA. entry (mem u) r' va =
      (if r' = new \<and> 0 \<le> va \<and> va < 0 + i div PGSIZE * PGSIZE then 0 else entry (mem t) r' va))"
    by (intro uvmunmap_ok [OF inv r(1)]) (use lo stop in auto)
  then show ?thesis unfolding stop using r(1) uva_MAXVA hi by (auto simp: not_less)
qed

lemma copied_maps:
  assumes "copied R old new i sz s ret t" "old \<in> R" "new \<in> R" "r \<in> R" "uva va" "entry (mem t) r va AND PTE_V \<noteq> 0"
  shows "\<exists>r' \<in> R. \<exists>va'. uva va' \<and> entry (mem s) r' va' AND PTE_V \<noteq> 0 \<and>
    PTE2PA (entry (mem s) r' va') = PTE2PA (entry (mem t) r va)"
proof -
  consider "entry (mem t) r va = entry (mem s) r va" | "cowed (entry (mem s) old va) (entry (mem t) r va)"
  proof (cases "r = new")
    case True
    then show ?thesis
      using assms(1,5,6) that unfolding copied_def by (cases "i \<le> va \<and> va < sz") auto
  next
    case False
    then show ?thesis using assms(1,4,5) that unfolding copied_def by (cases "r = old") auto
  qed
  then show ?thesis
  proof cases
    case 1
    then show ?thesis using assms(4-6) by auto
  next
    case 2
    then have "entry (mem s) old va AND PTE_V \<noteq> 0" "PTE2PA (entry (mem s) old va) = PTE2PA (entry (mem t) r va)"
      using cowed_bits(2) [OF 2] assms(6) by (simp_all add: cowed_def)
    then show ?thesis using assms(2,5) by blast
  qed
qed

lemma copied_step:
  assumes r: "old \<in> R" "new \<in> R" "old \<noteq> new" "uva i" "i < sz"
    and ent: "\<And>r va. r \<in> R \<Longrightarrow> uva va \<Longrightarrow> va \<noteq> i \<or> r \<noteq> old \<and> r \<noteq> new \<Longrightarrow> entry (mem t) r va = entry (mem s) r va"
    and i: "cowed (entry (mem s) old i) (entry (mem t) old i)" "cowed (entry (mem s) old i) (entry (mem t) new i)"
    and ge: "\<And>va. uva va \<Longrightarrow> i + PGSIZE \<le> va \<longleftrightarrow> i \<le> va \<and> va \<noteq> i"
    and c: "copied R old new (i + PGSIZE) sz t ret u"
  shows "copied R old new i sz s ret u"
proof -
  have a: "entry (mem u) r va = entry (mem s) r va" if "r \<in> R" "r \<noteq> old" "r \<noteq> new" "uva va" for r va
    using c that ent by (simp add: copied_def)
  have c2: "entry (mem u) old va = entry (mem t) old va \<or> cowed (entry (mem t) old va) (entry (mem u) old va)"
    if "uva va" for va using c that by (simp add: copied_def)
  have oi: "cowed (entry (mem s) old i) (entry (mem u) old i)"
    using c2 [OF r(4)] i(1) cowed_trans by auto
  have b: "entry (mem u) old va = entry (mem s) old va \<or> cowed (entry (mem s) old va) (entry (mem u) old va)"
    if "uva va" for va
    using c2 [OF that] oi ent [OF r(1) that] by (cases "va = i") auto
  consider
    "ret = 0" "\<And>va. uva va \<Longrightarrow> i + PGSIZE \<le> va \<Longrightarrow> va < sz \<Longrightarrow>
        cowed (entry (mem t) old va) (entry (mem u) old va) \<and> cowed (entry (mem t) old va) (entry (mem u) new va)"
      "\<And>va. uva va \<Longrightarrow> \<not> (i + PGSIZE \<le> va \<and> va < sz) \<Longrightarrow> entry (mem u) new va = entry (mem t) new va"
    | "ret = -1" "\<forall>va. uva va \<longrightarrow> entry (mem u) new va AND PTE_V = 0"
    using c unfolding copied_def by blast
  then show ?thesis
  proof cases
    case 1
    have "cowed (entry (mem s) old va) (entry (mem u) old va) \<and> cowed (entry (mem s) old va) (entry (mem u) new va)"
      if "uva va" "i \<le> va" "va < sz" for va
    proof (cases "va = i")
      case True
      have "\<not> i + PGSIZE \<le> va" using ge [OF that(1)] True by simp
      then show ?thesis using oi i(2) 1(3) [OF that(1)] True by simp
    next
      case False
      then show ?thesis using 1(2) [OF that(1)] ge [OF that(1)] that ent [OF r(1) that(1)] by simp
    qed
    moreover have "entry (mem u) new va = entry (mem s) new va" if "uva va" "\<not> (i \<le> va \<and> va < sz)" for va
    proof -
      have "va \<noteq> i" using that(2) r(5) by auto
      then show ?thesis using 1(3) [OF that(1)] ge [OF that(1)] that(2) ent [OF r(2) that(1)] by simp
    qed
    ultimately show ?thesis using a b 1(1) unfolding copied_def by blast
  next
    case 2
    then show ?thesis using a b unfolding copied_def by blast
  qed
qed

lemma uvmcopy_loop_ok:
  assumes "vm_inv s R xs" "old \<in> R" "new \<in> R" "old \<noteq> new" "page_aligned i"
    "unat sz \<le> unat i + 4096 * n" "sz \<le> TRAPFRAME"
    and "\<And>va. uva va \<Longrightarrow> i \<le> va \<Longrightarrow> va < sz \<Longrightarrow> entry (mem s) old va AND PTE_V \<noteq> 0"
    and "\<And>va. uva va \<Longrightarrow> va < i \<Longrightarrow> entry (mem s) new va AND PTE_V \<noteq> 0"
    and "\<And>va. uva va \<Longrightarrow> i \<le> va \<Longrightarrow> entry (mem s) new va AND PTE_V = 0"
  shows "\<exists>ret t ys. uvmcopy_loop old new i sz s = Inr (ret, t) \<and> vm_inv t R ys \<and> keeps R s t \<and>
    copied R old new i sz s ret t \<and> (2 * n \<le> length xs \<longrightarrow> ret = 0) \<and> (ret = 0 \<longrightarrow> length xs \<le> length ys + 2 * n)"
  using assms
proof (induction n arbitrary: i s xs)
  case 0
  then have "\<not> i < sz" by (simp add: word_less_nat_alt)
  then show ?case
    using 0(1) by (auto simp: uvmcopy_loop.simps copied_def keeps_def same_page_def not_less)
next
  case (Suc n)
  show ?case
  proof (cases "i < sz")
    case False
    then show ?thesis
      using Suc.prems(1) by (auto simp: uvmcopy_loop.simps copied_def keeps_def same_page_def not_less)
  next
    case True
    then have ui: "uva i" using Suc.prems(5,7) by (simp add: uva_def)
    have iM: "i < MAXVA" by (rule uva_MAXVA [OF ui])
    note nxt = page_next [OF Suc.prems(5) iM]
    obtain t ys where t: "vm_inv t R ys" "keeps R s t" "cowed (entry (mem s) old i) (entry (mem t) old i)"
      "\<forall>r \<in> R. \<forall>va < MAXVA. \<not> ((r = old \<or> r = new) \<and> PGROUNDDOWN va = i) \<longrightarrow> entry (mem t) r va = entry (mem s) r va"
      and c: "uvmcopy_loop old new i sz s = rbind (uvmunmap new 0 (i div PGSIZE) True t) (\<lambda>u. Inr (-1, u)) \<and> length xs \<le> 1 \<and>
         entry (mem t) new i = entry (mem s) new i \<or>
       uvmcopy_loop old new i sz s = uvmcopy_loop old new (i + PGSIZE) sz t \<and> length xs \<le> length ys + 2 \<and>
         cowed (entry (mem s) old i) (entry (mem t) new i)"
      using copy_one [OF Suc.prems(1-4) ui True Suc.prems(8) [OF ui _ True] Suc.prems(10) [OF ui]] by blast
    have ent: "entry (mem t) r va = entry (mem s) r va" if "r \<in> R" "uva va" "va \<noteq> i \<or> r \<noteq> old \<and> r \<noteq> new" for r va
      using t(4) that uva_MAXVA [OF that(2)] uva_round [OF that(2)] by auto
    from c show ?thesis
    proof (elim disjE conjE)
      assume l: "uvmcopy_loop old new i sz s = rbind (uvmunmap new 0 (i div PGSIZE) True t) (\<lambda>u. Inr (-1, u))" and lx: "length xs \<le> 1"
        and ni: "entry (mem t) new i = entry (mem s) new i"
      have same: "entry (mem t) new va = entry (mem s) new va" if "uva va" for va
        using ent [OF Suc.prems(3) that] ni by blast
      obtain u zs where u: "uvmunmap new 0 (i div PGSIZE) True t = Inr u" "vm_inv u R zs" "keeps R t u"
        "\<forall>va. uva va \<longrightarrow> entry (mem u) new va AND PTE_V = 0"
        "\<forall>r \<in> R. \<forall>va. r \<noteq> new \<longrightarrow> uva va \<longrightarrow> entry (mem u) r va = entry (mem t) r va"
        using copy_fail [OF t(1) Suc.prems(3) ui] Suc.prems(9,10) same by metis
      have "keeps R s u"
        by (rule keeps_step [OF t(2) u(3)]) (use u(4,5) in metis)
      moreover have "entry (mem u) r va = entry (mem s) r va"
        if "r \<in> R" "r \<noteq> old" "r \<noteq> new" "uva va" for r va
        using u(5) ent that by simp
      moreover have "entry (mem u) old va = entry (mem s) old va \<or> cowed (entry (mem s) old va) (entry (mem u) old va)"
        if "uva va" for va
        using u(5) ent [OF Suc.prems(2) that] t(3) that Suc.prems(2,4) by metis
      ultimately have "keeps R s u \<and> copied R old new i sz s (-1) u"
        unfolding copied_def using u(4) by blast
      then show ?thesis using l u(1,2) lx by auto
    next
      assume l: "uvmcopy_loop old new i sz s = uvmcopy_loop old new (i + PGSIZE) sz t" and lx: "length xs \<le> length ys + 2"
        and cn: "cowed (entry (mem s) old i) (entry (mem t) new i)"
      have nv: "entry (mem t) new i AND PTE_V \<noteq> 0"
        using cowed_bits(2) [OF cn] Suc.prems(8) [OF ui _ True] by simp
      have ge: "i + PGSIZE \<le> va \<longleftrightarrow> i \<le> va \<and> va \<noteq> i" if "uva va" for va
      proof -
        have "page_aligned va" using that by (simp add: uva_def)
        then show ?thesis
          using page_le_less [OF Suc.prems(5) _ _ iM, of va] nxt(3) by auto
      qed
      have "\<exists>ret u zs. uvmcopy_loop old new (i + PGSIZE) sz t = Inr (ret, u) \<and> vm_inv u R zs \<and> keeps R t u \<and>
        copied R old new (i + PGSIZE) sz t ret u \<and> (2 * n \<le> length ys \<longrightarrow> ret = 0) \<and>
        (ret = 0 \<longrightarrow> length ys \<le> length zs + 2 * n)"
      proof (rule Suc.IH [OF t(1) Suc.prems(2-4) nxt(2) _ Suc.prems(7)])
        show "unat sz \<le> unat (i + PGSIZE) + 4096 * n" using Suc.prems(6) nxt(1) by simp
      next
        fix va assume "uva va" "i + PGSIZE \<le> va" "va < sz"
        then show "entry (mem t) old va AND PTE_V \<noteq> 0"
          using ent [OF Suc.prems(2)] Suc.prems(8) ge by simp
      next
        fix va assume "uva va" "va < i + PGSIZE"
        then show "entry (mem t) new va AND PTE_V \<noteq> 0"
          using ent [OF Suc.prems(3)] Suc.prems(9) ge nv by (metis linorder_not_less)
      next
        fix va assume "uva va" "i + PGSIZE \<le> va"
        then show "entry (mem t) new va AND PTE_V = 0"
          using ent [OF Suc.prems(3)] Suc.prems(10) ge by simp
      qed
      then obtain ret u zs where u: "uvmcopy_loop old new (i + PGSIZE) sz t = Inr (ret, u)" "vm_inv u R zs"
        "keeps R t u" "copied R old new (i + PGSIZE) sz t ret u"
        "2 * n \<le> length ys \<longrightarrow> ret = 0" "ret = 0 \<longrightarrow> length ys \<le> length zs + 2 * n" by blast
      have "keeps R s u"
      proof (rule keeps_step [OF t(2) u(3)])
        fix r va assume a: "r \<in> R" "uva va" "entry (mem u) r va AND PTE_V \<noteq> 0"
        show "\<exists>r' \<in> R. \<exists>va'. uva va' \<and> entry (mem t) r' va' AND PTE_V \<noteq> 0 \<and>
            PTE2PA (entry (mem t) r' va') = PTE2PA (entry (mem u) r va)"
          using copied_maps [OF u(4) Suc.prems(2,3) a] .
      qed
      moreover have "copied R old new i sz s ret u"
        by (rule copied_step [OF Suc.prems(2-4) ui True ent t(3) cn ge u(4)])
      ultimately show ?thesis using l u(1,2,5,6) lx by auto
    qed
  qed
qed

end
