(* ===== verification/Fault.thy ===== *)
theory Fault
  imports Uvm
begin

text \<open>
  Resolving a copy-on-write fault: \<open>update\<close> of \<open>kernel/kalloc.c\<close> and \<open>cow_fault_handler\<close> of
  \<open>kernel/vm.c\<close>.  With the page tables consistent, a fault on a copy-on-write page gives the
  faulting process a private writable page with the same contents, and no process, the faulting
  one included, sees any byte of its memory change.
\<close>

section \<open>The new flags\<close>

definition private_flags :: "uint64 \<Rightarrow> uint64" where
  "private_flags f = (f OR PTE_W) AND NOT PTE_COW"

lemma is_flags_private: "is_flags f \<Longrightarrow> is_flags (private_flags f)"
  unfolding private_flags_def by (intro is_flags_and is_flags_or) simp_all

lemma private_bits:
  "private_flags f AND PTE_W = PTE_W" "private_flags f AND PTE_COW = 0"
  "private_flags f AND PTE_V = f AND PTE_V" "private_flags f AND PTE_U = f AND PTE_U"
  unfolding private_flags_def by (rule bit_word_eqI; auto simp: bit_simps bit_PTE)+

lemma flag_consts_nz [simp]: "PTE_V \<noteq> 0" "PTE_W \<noteq> 0" "PTE_U \<noteq> 0" "PTE_COW \<noteq> 0" "PTE_R \<noteq> 0" "PTE_X \<noteq> 0"
  by (simp_all add: riscv_defs)

definition private_pte :: "addr \<Rightarrow> uint64 \<Rightarrow> uint64" where
  "private_pte pa e = PA2PTE pa OR private_flags (PTE_FLAGS e) OR PTE_V"

lemma private_pte:
  assumes "page_aligned pa" "e AND PTE_V \<noteq> 0"
  shows "PTE2PA (private_pte pa e) = pa" "PTE_FLAGS (private_pte pa e) = private_flags (PTE_FLAGS e)"
    "private_pte pa e AND PTE_V \<noteq> 0" "private_pte pa e AND PTE_W \<noteq> 0" "private_pte pa e AND PTE_COW = 0"
    "private_pte pa e AND PTE_U = e AND PTE_U" "PTE_FLAGS (private_pte pa e) \<noteq> PTE_V"
    "private_pte pa e AND PTE_V = e AND PTE_V"
proof -
  let ?f = "private_flags (PTE_FLAGS e)"
  have V: "?f AND PTE_V = e AND PTE_V" by (simp add: private_bits flag_of_FLAGS)
  then have "?f OR PTE_V = ?f" using assms(2) by (intro or_PTE_V) simp
  then have p: "private_pte pa e = PA2PTE pa OR ?f" by (simp add: private_pte_def or.assoc)
  have f: "is_flags ?f" by (simp add: is_flags_private)
  show "PTE2PA (private_pte pa e) = pa" and F: "PTE_FLAGS (private_pte pa e) = ?f"
    using assms(1) f by (simp_all add: p pte_parts)
  have b: "private_pte pa e AND x = ?f AND x" if "is_flags x" for x
    using flag_of_FLAGS [OF that, of "private_pte pa e"] F by simp
  show "private_pte pa e AND PTE_V \<noteq> 0" "private_pte pa e AND PTE_W \<noteq> 0" "private_pte pa e AND PTE_COW = 0"
    "private_pte pa e AND PTE_U = e AND PTE_U" "private_pte pa e AND PTE_V = e AND PTE_V"
    using assms(2) V by (simp_all add: b private_bits flag_of_FLAGS)
  show "PTE_FLAGS (private_pte pa e) \<noteq> PTE_V"
  proof
    assume "PTE_FLAGS (private_pte pa e) = PTE_V"
    then have "?f AND PTE_W = PTE_V AND PTE_W" using F by simp
    moreover have "PTE_V AND PTE_W = 0" by (simp add: riscv_defs)
    ultimately show False by (simp add: private_bits)
  qed
qed

section \<open>Both cases of update\<close>

lemma mm_inv_cong:
  assumes "mem t = mem s" "kend t = kend s" "freelist t = freelist s" "ref_count t = ref_count s"
  shows "mm_inv t R xs = mm_inv s R xs"
  using assms by (simp add: mm_inv_def alloc_inv_def tab_inv_def user_ok_def leaf_ok_def page_ok_def)

lemma uview_cong_mem: "mem t = mem s \<Longrightarrow> uview t r va = uview s r va"
  by (simp add: uview_def Let_def)

text \<open>What resolving the fault on page \<open>i\<close> of \<open>r\<close> leaves behind.\<close>

definition resolved :: "addr set \<Rightarrow> addr \<Rightarrow> uint64 \<Rightarrow> kstate \<Rightarrow> kstate \<Rightarrow> bool" where
  "resolved R r i s t \<longleftrightarrow>
    PTE_FLAGS (entry (mem t) r i) = private_flags (PTE_FLAGS (entry (mem s) r i)) \<and>
    node (mem t) r [PX 2 i, PX 1 i] = node (mem s) r [PX 2 i, PX 1 i] \<and>
    (\<forall>r' \<in> R. \<forall>va < MAXVA. \<not> (r' = r \<and> PGROUNDDOWN va = i) \<longrightarrow> entry (mem t) r' va = entry (mem s) r' va) \<and>
    (\<forall>r' \<in> R. \<forall>va < TRAPFRAME. uview t r' va = uview s r' va)"

lemma leaf_store_node:
  assumes "tab_inv s R" "r \<in> R" "node (mem s) r [PX 2 i, PX 1 i] = Some p"
  shows "node (store64 (mem s) (pte_slot p (PX 0 i)) e) r [PX 2 i, PX 1 i] = Some p"
  using node_leaf_store [OF assms, of "PX 0 i" r "[PX 2 i, PX 1 i]" e] assms by (simp del: node.simps)

lemma update_alone:
  assumes inv: "mm_inv s R xs" and r: "r \<in> R" "uva i" and p: "node (mem s) r [PX 2 i, PX 1 i] = Some p"
    and e: "entry (mem s) r i AND PTE_V \<noteq> 0"
    and one: "ref_count s (rc_index (PTE2PA (entry (mem s) r i))) = 1"
  defines "pa \<equiv> PTE2PA (entry (mem s) r i)"
  shows "\<exists>t. mappages r i PGSIZE pa (private_flags (PTE_FLAGS (entry (mem s) r i))) s = Inr (0, t) \<and>
    mm_inv t R xs \<and> resolved R r i s t \<and> kmem_lock t = kmem_lock s \<and> kcpu t = kcpu s"
proof -
  let ?e = "entry (mem s) r i" and ?e' = "private_pte pa (entry (mem s) r i)"
  let ?t = "s\<lparr>mem := store64 (mem s) (pte_slot p (PX 0 i)) ?e'\<rparr>"
  have ok: "alloc_inv s xs" "tab_inv s R" "user_ok s R" using inv by (simp_all add: mm_inv_def)
  have m: "maps ?e pa" using e by (simp add: maps_def pa_def)
  have iM: "i < MAXVA" "page_aligned i" using uva_MAXVA r(2) by (simp_all add: uva_def)
  note P = private_pte [OF page_ok_ram(3) [OF user_page(1) [OF ok(3) r m]] e]
  have mp: "mappages r i PGSIZE pa (private_flags (PTE_FLAGS ?e)) s = Inr (0, ?t)"
    using mappages_existing [OF ok(2) r(1) iM(2,1) p] by (simp add: private_pte_def)
  have upd: "pt_upd R s xs ?t xs r i ?e'" by (rule store_upd [OF ok(1,2) r(1) p iM(1)])
  have inv': "mm_inv ?t R xs"
    by (rule reflag_inv [OF inv upd r m]) (use P one in \<open>simp_all add: maps_def pa_def\<close>)
  have keep: "keeps R s ?t"
  proof (rule upd_keeps [OF inv upd r(2)])
    fix q assume "maps ?e' q"
    then have "maps ?e q" using P(1) m by (simp add: maps_def)
    then show "\<exists>r \<in> R. \<exists>va. uva va \<and> maps (entry (mem s) r va) q" using r by blast
  qed
  have ei: "entry (mem ?t) r i = ?e'" using pt_updD(4) [OF upd r(1) iM(1)] by simp
  have oth: "entry (mem ?t) r' va = entry (mem s) r' va"
    if "r' \<in> R" "va < MAXVA" "\<not> (r' = r \<and> PGROUNDDOWN va = i)" for r' va
    using pt_updD(4) [OF upd that(1,2)] that(3) uva_round [OF r(2)] by auto
  have "uview ?t r' va = uview s r' va" if "r' \<in> R" "va < TRAPFRAME" for r' va
  proof -
    have u: "uva (PGROUNDDOWN va)" "va < MAXVA"
      using uva_PGROUNDDOWN [OF that(2)] that(2) less_trans [OF that(2), of MAXVA] by (simp_all add: layout_defs)
    have same: "entry (mem ?t) r' va = entry (mem s) r' va \<or> entry (mem ?t) r' va = ?e' \<and> entry (mem s) r' va = ?e"
      using oth [OF that(1) u(2)] ei entry_round by metis
    show ?thesis
    proof (rule uview_cong)
      show "same_page s ?t (PTE2PA (entry (mem s) r' va))" if "entry (mem s) r' va AND PTE_V \<noteq> 0"
        using keepsD [OF keep \<open>r' \<in> R\<close> u(1)] same P that by (auto simp: maps_def entry_round pa_def)
    qed (use same P in \<open>auto simp: pa_def\<close>)
  qed
  moreover have "node (mem ?t) r [PX 2 i, PX 1 i] = node (mem s) r [PX 2 i, PX 1 i]"
    using leaf_store_node [OF ok(2) r(1) p] p by simp
  ultimately have "resolved R r i s ?t" using ei P(2) oth by (simp add: resolved_def del: node.simps)
  then show ?thesis using mp inv' by auto
qed

definition copy_page :: "addr \<Rightarrow> addr \<Rightarrow> memory \<Rightarrow> memory" where
  "copy_page d p m = (\<lambda>x. if PGROUNDDOWN x = d then m (p + (x - d)) else m x)"

lemma memmove_page:
  assumes "page_ok s d" "page_ok s p"
  shows "memmove_ram d p (ucast PGSIZE) s = Inr (s\<lparr>mem := copy_page d p (mem s)\<rparr>)"
proof -
  have r: "ram_range d 4096" "ram_range p 4096" "page_aligned d"
    using page_ok_ram [OF assms(1)] page_ok_ram [OF assms(2)] by (simp_all add: ram_page)
  then have "unat d + 4096 \<le> 2281701376" "unat p + 4096 \<le> 2281701376"
    by (simp_all add: ram_range_def layout_defs)
  then have "memmove (mem s) d p (ucast PGSIZE) = copy_page d p (mem s)"
    by (subst memmove_eq) (simp_all add: copy_page_def in_page_iff r(3))
  then show ?thesis using r by (simp add: memmove_ram_def)
qed

text \<open>A new page \<open>g\<close> is taken off the free list and filled with the contents of \<open>pa\<close>.\<close>

lemma fresh_copy:
  assumes inv: "mm_inv s R (g # ys)" and pa: "page_ok s pa" "pa \<noteq> g"
  shows "\<exists>s2 t. kalloc_no_lock s = Inr (g, s2) \<and> memmove_ram g pa (ucast PGSIZE) s2 = Inr t \<and>
    mm_inv t R ys \<and> owned t R g \<and> mem t = copy_page g pa (mem s) \<and>
    ref_count t = (ref_count s)(rc_index g := 1) \<and> kend t = kend s \<and>
    kmem_lock t = kmem_lock s \<and> kcpu t = kcpu s \<and>
    (\<forall>r \<in> R. \<forall>va. entry (mem t) r va = entry (mem s) r va)"
proof -
  have ok: "alloc_inv s (g # ys)" using inv by (simp add: mm_inv_def)
  have g: "page_ok s g" "g \<notin> set ys" using ok by (simp_all add: alloc_inv_def)
  define s2 where "s2 = s\<lparr>freelist := load64 (mem s) g, mem := fill_page g 5 (mem s),
      ref_count := (ref_count s)(rc_index g := 1)\<rparr>"
  define t where "t = s2\<lparr>mem := copy_page g pa (mem s2)\<rparr>"
  have a2: "alloc_inv s2 ys"
    by (rule alloc_inv_tl [OF ok]) (simp_all add: s2_def allocated_def)
  have m: "mem t = copy_page g pa (mem s)"
  proof (rule ext)
    fix a
    have "PGROUNDDOWN (pa + (a - g)) = pa" if "PGROUNDDOWN a = g"
      using page_byte [of pa a] page_ok_ram(3) [OF pa(1)] that by simp
    then show "mem t a = copy_page g pa (mem s) a" using pa(2) by (simp add: t_def s2_def copy_page_def)
  qed
  have a3: "alloc_inv t ys"
  proof (rule alloc_inv_frame [OF a2])
    fix a assume "PGROUNDDOWN a \<in> set ys"
    then have "PGROUNDDOWN a \<noteq> g" using g(2) by metis
    then show "mem t a = mem s2 a" by (simp add: t_def copy_page_def)
  qed (simp_all add: t_def)
  have f: "kend t = kend s" "ref_count t = (ref_count s)(rc_index g := 1)" by (simp_all add: t_def s2_def)
  have mo: "mem t a = mem s a" if "PGROUNDDOWN a \<noteq> g" for a using that by (simp add: m copy_page_def)
  note own = alloc_owned [OF inv a3 f mo]
  have "memmove_ram g pa (ucast PGSIZE) s2 = Inr t"
    unfolding t_def by (rule memmove_page) (use g(1) pa(1) in \<open>simp_all add: s2_def page_ok_def\<close>)
  moreover have "kalloc_no_lock s = Inr (g, s2)" using kalloc_no_lock_some [OF ok] by (simp add: s2_def)
  moreover have "kmem_lock t = kmem_lock s" "kcpu t = kcpu s" by (simp_all add: t_def s2_def)
  ultimately show ?thesis using own m f by blast
qed

text \<open>The page in hand replaces a shared page, whose count goes down.\<close>

lemma replace_page:
  assumes inv: "mm_inv s R xs" and own: "owned s R g" and r: "r \<in> R" "uva i"
    and p: "node (mem s) r [PX 2 i, PX 1 i] = Some p" and e: "entry (mem s) r i AND PTE_V \<noteq> 0"
    and many: "1 < ref_count s (rc_index (PTE2PA (entry (mem s) r i)))"
  defines "pa \<equiv> PTE2PA (entry (mem s) r i)" and "e' \<equiv> private_pte g (entry (mem s) r i)"
  shows "\<exists>u t. mappages r i PGSIZE g (private_flags (PTE_FLAGS (entry (mem s) r i))) s = Inr (0, u) \<and>
    kfree_no_lock pa u = Inr t \<and> mm_inv t R xs \<and> kmem_lock t = kmem_lock s \<and> kcpu t = kcpu s \<and>
    mem t = store64 (mem s) (pte_slot p (PX 0 i)) e' \<and>
    (\<forall>r' \<in> R. \<forall>va < MAXVA. entry (mem t) r' va =
      (if r' = r \<and> PGROUNDDOWN va = i then e' else entry (mem s) r' va))"
proof -
  have ok: "alloc_inv s xs" "tab_inv s R" "user_ok s R" using inv by (simp_all add: mm_inv_def)
  have m: "maps (entry (mem s) r i) pa" using e by (simp add: maps_def pa_def)
  have iM: "i < MAXVA" "page_aligned i" using uva_MAXVA r(2) by (simp_all add: uva_def)
  note pa = user_page [OF ok(3) r m] and pf = user_page_not_free [OF ok(3,1) r m]
  define u where "u = s\<lparr>mem := store64 (mem s) (pte_slot p (PX 0 i)) e'\<rparr>"
  have mp: "mappages r i PGSIZE g (private_flags (PTE_FLAGS (entry (mem s) r i))) s = Inr (0, u)"
    using mappages_existing [OF ok(2) r(1) iM(2,1) p] by (simp add: private_pte_def u_def e'_def)
  have upd: "pt_upd R s xs u xs r i e'" unfolding u_def by (rule store_upd [OF ok(1,2) r(1) p iM(1)])
  have T: "tables (mem u) R = tables (mem s) R" using tables_leaf_store [OF ok(2) r(1) p] by (simp add: u_def)
  have "page_ok u pa" "1 < ref_count u (rc_index pa)" using pa(1) many by (simp_all add: u_def page_ok_def pa_def)
  then obtain t where t: "kfree_no_lock pa u = Inr t" "dropped u pa t" "kmem_lock t = kmem_lock u" "kcpu t = kcpu u"
    using kfree_no_lock_shared by blast
  have rct: "ref_count t (rc_index q) = ref_count u (rc_index q) - of_bool (q = pa)" if "page_ok s q" for q
    using t(2) rc_index_eq_iff [OF that pa(1)] by (auto simp: dropped_def)
  have tm: "mem t = mem u" "kend t = kend u" "freelist t = freelist u" using t(2) by (simp_all add: dropped_def)
  have at: "alloc_inv t xs"
  proof (rule alloc_inv_frame [OF pt_updD(1) [OF upd]])
    fix x assume x: "x \<in> set xs"
    then have "x \<noteq> pa" using pf by auto
    then show "ref_count t (rc_index x) = ref_count u (rc_index x)"
      using rct [OF alloc_inv_page_ok [OF ok(1) x]] by simp
  qed (simp_all add: tm)
  have tt: "tab_inv t R"
  proof (rule tab_inv_frame [OF pt_updD(2) [OF upd]])
    fix q assume q: "q \<in> tables (mem u) R"
    then have "q \<noteq> pa" "page_ok s q" using pa(2) T ok(2) by (auto simp: tab_inv_def)
    then show "ref_count t (rc_index q) = ref_count u (rc_index q)" using rct by simp
  qed (simp_all add: tm)
  note P = private_pte [OF page_ok_ram(3) e, of s g]
  have gok: "page_ok s g" using own by (simp add: owned_def)
  have "mm_inv t R xs"
  proof (rule owned_map_inv [OF inv own r upd _ _ tm(1,2) at tt])
    show "maps e' g" "PTE_FLAGS e' \<noteq> PTE_V" using P [OF gok] by (simp_all add: maps_def e'_def)
    fix q assume "page_ok s q"
    then show "ref_count t (rc_index q) = ref_count u (rc_index q) - of_bool (maps (entry (mem s) r i) q)"
      using rct [of q] m by (auto simp: maps_def)
  qed
  then show ?thesis
    using mp t pt_updD(4) [OF upd] tm(1) uva_round [OF r(2)] by (auto simp: u_def)
qed

lemma below_TRAPFRAME:
  assumes "va < TRAPFRAME"
  shows "uva (PGROUNDDOWN va)" "va < MAXVA"
  using uva_PGROUNDDOWN [OF assms] less_trans [OF assms, of MAXVA] by (simp_all add: layout_defs)

lemma shared_view:
  assumes inv: "mm_inv s R (g # ys)" and r: "r \<in> R" "uva i"
    and p: "node (mem s) r [PX 2 i, PX 1 i] = Some p" and e: "entry (mem s) r i AND PTE_V \<noteq> 0"
    and m: "mem t = store64 (copy_page g (PTE2PA (entry (mem s) r i)) (mem s)) (pte_slot p (PX 0 i)) v"
    and ent: "\<forall>r' \<in> R. \<forall>va < MAXVA. entry (mem t) r' va =
      (if r' = r \<and> PGROUNDDOWN va = i then private_pte g (entry (mem s) r i) else entry (mem s) r' va)"
    and r': "r' \<in> R" and va: "va < TRAPFRAME"
  shows "uview t r' va = uview s r' va"
proof -
  let ?pa = "PTE2PA (entry (mem s) r i)"
  have ok: "alloc_inv s (g # ys)" "tab_inv s R" "user_ok s R" using inv by (simp_all add: mm_inv_def)
  have g: "page_aligned g" "g \<notin> tables (mem s) R"
    using page_ok_ram(3) alloc_inv_page_ok [OF ok(1), of g] tables_not_free [OF ok(2,1), of g] by auto
  have pT: "p \<in> tables (mem s) R" "page_aligned p"
    using tablesI [OF r(1) _ p] tab_invD(3) [OF ok(2) r(1) _ p] by simp_all
  have mt: "mem t a = copy_page g ?pa (mem s) a" if "PGROUNDDOWN a \<noteq> p" for a
    using store64_slot_other [OF pT(2) _ that] by (simp add: m)
  note u = below_TRAPFRAME [OF va]
  show ?thesis
  proof (cases "r' = r \<and> PGROUNDDOWN va = i")
    case False
    then have same: "entry (mem t) r' va = entry (mem s) r' va" using ent r' u(2) by auto
    have "same_page s t q" if "maps (entry (mem s) r' va) q" for q
    proof -
      have q: "maps (entry (mem s) r' (PGROUNDDOWN va)) q" using that by (simp add: entry_round)
      have "q \<noteq> g" "q \<noteq> p"
        using user_page_not_free [OF ok(3,1) r' u(1) q] user_page(2) [OF ok(3) r' u(1) q] pT by auto
      then show ?thesis using mt by (auto simp: same_page_def copy_page_def)
    qed
    then show ?thesis by (intro uview_cong) (simp_all add: same maps_def)
  next
    case True
    then have es: "entry (mem s) r' va = entry (mem s) r i" using entry_round by metis
    have et: "entry (mem t) r' va = private_pte g (entry (mem s) r i)" using ent r' u(2) True by simp
    note P = private_pte [OF g(1) e]
    have a: "PGROUNDDOWN (g + (va - i)) = g" using page_byte [OF g(1), of va] True by simp
    have "g \<noteq> p" using g(2) pT(1) by auto
    then have "mem t (g + (va - i)) = mem s (?pa + (va - i))"
      using mt [of "g + (va - i)"] a by (simp add: copy_page_def)
    moreover have "PGROUNDDOWN va = i" using True ..
    ultimately show ?thesis using P by (simp add: uview_def et es Let_def)
  qed
qed

lemma update_shared:
  assumes inv: "mm_inv s R (g # ys)" and r: "r \<in> R" "uva i"
    and p: "node (mem s) r [PX 2 i, PX 1 i] = Some p" and e: "entry (mem s) r i AND PTE_V \<noteq> 0"
    and many: "1 < ref_count s (rc_index (PTE2PA (entry (mem s) r i)))"
  defines "pa \<equiv> PTE2PA (entry (mem s) r i)"
  shows "\<exists>s2 s3 u t. kalloc_no_lock s = Inr (g, s2) \<and> memmove_ram g pa (ucast PGSIZE) s2 = Inr s3 \<and>
    mappages r i PGSIZE g (private_flags (PTE_FLAGS (entry (mem s) r i))) s3 = Inr (0, u) \<and>
    kfree_no_lock pa u = Inr t \<and> mm_inv t R ys \<and> resolved R r i s t \<and>
    kmem_lock t = kmem_lock s \<and> kcpu t = kcpu s"
proof -
  let ?path = "[PX 2 i, PX 1 i]"
  have ok: "alloc_inv s (g # ys)" "tab_inv s R" "user_ok s R" using inv by (simp_all add: mm_inv_def)
  have m: "maps (entry (mem s) r i) pa" using e by (simp add: maps_def pa_def)
  have g: "page_ok s g" "g \<notin> tables (mem s) R"
    using alloc_inv_page_ok [OF ok(1), of g] tables_not_free [OF ok(2,1), of g] by auto
  have pa: "page_ok s pa" "pa \<noteq> g"
    using user_page(1) [OF ok(3) r m] user_page_not_free [OF ok(3,1) r m] by auto
  obtain s2 s3 where s3: "kalloc_no_lock s = Inr (g, s2)" "memmove_ram g pa (ucast PGSIZE) s2 = Inr s3"
    "mm_inv s3 R ys" "owned s3 R g" "mem s3 = copy_page g pa (mem s)"
    "ref_count s3 = (ref_count s)(rc_index g := 1)"
    "kmem_lock s3 = kmem_lock s" "kcpu s3 = kcpu s" "\<forall>r \<in> R. \<forall>va. entry (mem s3) r va = entry (mem s) r va"
    using fresh_copy [OF inv pa] by blast
  have e3: "entry (mem s3) r i = entry (mem s) r i" using s3(9) r(1) by blast
  have "mem s3 a = mem s a" if "PGROUNDDOWN a \<in> tables (mem s) R" for a
  proof -
    have "PGROUNDDOWN a \<noteq> g" using that g(2) by metis
    then show ?thesis by (simp add: s3(5) copy_page_def)
  qed
  then have p3: "node (mem s3) r ?path = Some p"
    using node_frame [OF ok(2) r(1), of ?path "mem s3"] p by (simp del: node.simps)
  have many3: "1 < ref_count s3 (rc_index pa)"
    using many rc_index_eq_iff [OF pa(1) g(1)] pa(2) by (simp add: s3(6) pa_def)
  obtain u t where t: "mappages r i PGSIZE g (private_flags (PTE_FLAGS (entry (mem s) r i))) s3 = Inr (0, u)"
    "kfree_no_lock pa u = Inr t" "mm_inv t R ys" "kmem_lock t = kmem_lock s3" "kcpu t = kcpu s3"
    "mem t = store64 (mem s3) (pte_slot p (PX 0 i)) (private_pte g (entry (mem s) r i))"
    and t3: "\<forall>r' \<in> R. \<forall>va < MAXVA. entry (mem t) r' va =
      (if r' = r \<and> PGROUNDDOWN va = i then private_pte g (entry (mem s) r i) else entry (mem s3) r' va)"
    unfolding pa_def
    using replace_page [OF s3(3,4) r p3, unfolded e3, OF e many3 [unfolded pa_def]] by blast
  have t7: "\<forall>r' \<in> R. \<forall>va < MAXVA. entry (mem t) r' va =
      (if r' = r \<and> PGROUNDDOWN va = i then private_pte g (entry (mem s) r i) else entry (mem s) r' va)"
    using t3 s3(9) by simp
  have "node (mem t) r ?path = node (mem s) r ?path"
    using leaf_store_node [of s3 R, OF _ r(1) p3] s3(3) p by (simp add: t(6) mm_inv_def del: node.simps)
  moreover have "entry (mem t) r i = private_pte g (entry (mem s) r i)"
    using t7 r uva_MAXVA uva_round by simp
  then have "PTE_FLAGS (entry (mem t) r i) = private_flags (PTE_FLAGS (entry (mem s) r i))"
    using private_pte(2) [OF page_ok_ram(3) [OF g(1)] e] by simp
  moreover have "\<forall>r' \<in> R. \<forall>va < MAXVA. \<not> (r' = r \<and> PGROUNDDOWN va = i) \<longrightarrow>
      entry (mem t) r' va = entry (mem s) r' va"
    using t7 by simp
  moreover have "uview t r' va = uview s r' va" if "r' \<in> R" "va < TRAPFRAME" for r' va
    by (rule shared_view [OF inv r p e t(6) [unfolded s3(5) pa_def] t7 that])
  ultimately have "resolved R r i s t" unfolding resolved_def by blast
  moreover have "kmem_lock t = kmem_lock s" "kcpu t = kcpu s" using s3(7,8) t(4,5) by simp_all
  ultimately show ?thesis using s3(1,2) t(1-3) by blast
qed

section \<open>The fault handler\<close>

lemma release_after:
  assumes "lock_ready s" "kmem_lock t = kmem_lock (held s)" "kcpu t = kcpu (held s)" "mm_inv t R ys"
    "resolved R r i (held s) t"
  shows "\<exists>u. kmem_release t = Inr u \<and> vm_inv u R ys \<and> resolved R r i s u"
proof -
  let ?u = "t\<lparr>kmem_lock := kmem_lock s, kcpu := settle (kcpu s)\<rparr>"
  have "mm_inv ?u R ys" using mm_inv_cong [of ?u t] assms(4) by simp
  moreover have "lock_ready ?u" by (rule lock_ready_after [OF assms(1)])
  moreover have "uview ?u r' va = uview t r' va" "uview (held s) r' va = uview s r' va" for r' va
    by (rule uview_cong_mem, simp)+
  then have "resolved R r i s ?u" using assms(5) by (simp add: resolved_def)
  ultimately show ?thesis using kmem_release_held [OF assms(1-3)] by (simp add: vm_inv_def)
qed

lemma update_ok:
  assumes inv: "vm_inv s R xs" and r: "r \<in> R" "uva i"
    and p: "node (mem s) r [PX 2 i, PX 1 i] = Some p" and e: "entry (mem s) r i AND PTE_V \<noteq> 0"
    and room: "ref_count s (rc_index (PTE2PA (entry (mem s) r i))) = 1 \<or> xs \<noteq> []"
  shows "\<exists>t ys. update r i q (PTE2PA (entry (mem s) r i)) (PTE_FLAGS (entry (mem s) r i)) s = Inr (0, t) \<and>
    vm_inv t R ys \<and> length xs \<le> Suc (length ys) \<and> resolved R r i s t"
proof -
  let ?e = "entry (mem s) r i" and ?h = "held s"
  let ?pa = "PTE2PA (entry (mem s) r i)"
  have ready: "lock_ready s" and mm: "mm_inv ?h R xs"
    using inv mm_inv_cong [of ?h s] by (simp_all add: vm_inv_def)
  have m: "maps ?e ?pa" using e by (simp add: maps_def)
  note pa = user_page [OF vm_invD(5) [OF inv] r m]
  have rc: "get_ref_count ?pa ?h = Inr (ref_count s (rc_index ?pa))"
    using rc_index_page_ok [OF pa(1)] by (simp add: get_ref_count_def)
  have flags: "(PTE_FLAGS ?e OR PTE_W) AND NOT PTE_COW = private_flags (PTE_FLAGS ?e)"
    by (simp add: private_flags_def)
  show ?thesis
  proof (cases "ref_count s (rc_index ?pa) = 1")
    case True
    obtain t where t: "mappages r i PGSIZE ?pa (private_flags (PTE_FLAGS ?e)) ?h = Inr (0, t)"
      "mm_inv t R xs" "resolved R r i ?h t" "kmem_lock t = kmem_lock ?h" "kcpu t = kcpu ?h"
      using update_alone [OF mm r] p e True by auto
    obtain u where u: "kmem_release t = Inr u" "vm_inv u R xs" "resolved R r i s u"
      using release_after [OF ready t(4,5,2,3)] by blast
    have "update r i q ?pa (PTE_FLAGS ?e) s = Inr (0, u)"
      using True t(1) u(1) by (simp add: update_def kmem_acquire_held [OF ready] rc flags Let_def)
    then show ?thesis using u(2,3) by auto
  next
    case False
    then have many: "1 < ref_count s (rc_index ?pa)" using pa(4) by simp
    obtain g ys where xs: "xs = g # ys" using room False by (cases xs) auto
    obtain s2 s3 w t where t: "kalloc_no_lock ?h = Inr (g, s2)" "memmove_ram g ?pa (ucast PGSIZE) s2 = Inr s3"
      "mappages r i PGSIZE g (private_flags (PTE_FLAGS ?e)) s3 = Inr (0, w)" "kfree_no_lock ?pa w = Inr t"
      "mm_inv t R ys" "resolved R r i ?h t" "kmem_lock t = kmem_lock ?h" "kcpu t = kcpu ?h"
      using update_shared [of ?h R g ys r i p] mm xs r p e many by (auto simp del: node.simps)
    obtain u where u: "kmem_release t = Inr u" "vm_inv u R ys" "resolved R r i s u"
      using release_after [OF ready t(7,8,5,6)] by blast
    have "update r i q ?pa (PTE_FLAGS ?e) s = Inr (0, u)"
      using many t(1-4) u(1) by (simp add: update_def kmem_acquire_held [OF ready] rc flags Let_def)
    then show ?thesis using u(2,3) xs by auto
  qed
qed

lemma cow_fault_ok:
  assumes inv: "vm_inv s R xs" and r: "r \<in> R" "va < TRAPFRAME" and sc: "scause \<noteq> 13"
    and e: "entry (mem s) r va AND PTE_V \<noteq> 0" "entry (mem s) r va AND PTE_U \<noteq> 0"
      "entry (mem s) r va AND PTE_COW \<noteq> 0"
    and room: "ref_count s (rc_index (PTE2PA (entry (mem s) r va))) = 1 \<or> xs \<noteq> []"
  shows "\<exists>t ys. cow_fault_handler scause r va s = Inr (0, t) \<and> vm_inv t R ys \<and>
    length xs \<le> Suc (length ys) \<and> resolved R r (PGROUNDDOWN va) s t"
proof -
  let ?i = "PGROUNDDOWN va"
  note u = below_TRAPFRAME [OF r(2)]
  have ei: "entry (mem s) r ?i = entry (mem s) r va" by (rule entry_round)
  have nz: "entry (mem s) r ?i \<noteq> 0" using e(1) by (auto simp: ei)
  obtain p where p: "walk r ?i False s = Inr (pte_slot p (PX 0 ?i), s)"
    "node (mem s) r [PX 2 ?i, PX 1 ?i] = Some p" "ld64 (pte_slot p (PX 0 ?i)) s = Inr (entry (mem s) r ?i)"
    using valid_walk [OF vm_invD(4) [OF inv] r(1) uva_MAXVA [OF u(1)] nz] by blast
  obtain t ys where t: "update r ?i (pte_slot p (PX 0 ?i)) (PTE2PA (entry (mem s) r ?i))
      (PTE_FLAGS (entry (mem s) r ?i)) s = Inr (0, t)" "vm_inv t R ys" "length xs \<le> Suc (length ys)"
      "resolved R r ?i s t"
    using update_ok [OF inv r(1) u(1) p(2), unfolded ei, OF e(1) room, of "pte_slot p (PX 0 ?i)"]
    unfolding ei by blast
  have "\<not> va \<ge> MAXVA" using u(2) by (simp add: not_le)
  then have "cow_fault_handler scause r va s = Inr (0, t)"
    using p(1,3) t(1) e sc nz by (simp add: cow_fault_handler_def ei)
  then show ?thesis using t(2-4) by blast
qed

end
