(* ===== verification/Copy.thy ===== *)
theory Copy
  imports Fault
begin

text \<open>
  \<open>copyout\<close>, \<open>copyin\<close> and \<open>copyinstr\<close> against the processes' views of memory, and the properties of the
  whole memory system: sharing by \<open>uvmcopy\<close>, copy-on-write faults and kernel copies together
  behave as if every process had its memory for itself.
\<close>

section \<open>Writing to a writable page\<close>

lemma write_user:
  assumes inv: "mm_inv s R xs" and r: "r \<in> R" "uva i"
    and e: "entry (mem s) r i AND PTE_V \<noteq> 0" "entry (mem s) r i AND PTE_W \<noteq> 0"
    and m: "\<And>a. PGROUNDDOWN a \<noteq> PTE2PA (entry (mem s) r i) \<Longrightarrow> m' a = mem s a"
  defines "t \<equiv> s\<lparr>mem := m'\<rparr>"
  shows "mm_inv t R xs" "\<And>r' va. r' \<in> R \<Longrightarrow> entry m' r' va = entry (mem s) r' va"
    "\<And>r' va q. r' \<in> R \<Longrightarrow> uva va \<Longrightarrow> maps (entry (mem s) r' va) q \<Longrightarrow> \<not> (r' = r \<and> va = i) \<Longrightarrow> same_page s t q"
proof -
  let ?pa = "PTE2PA (entry (mem s) r i)"
  have ok: "alloc_inv s xs" "tab_inv s R" "user_ok s R" using inv by (simp_all add: mm_inv_def)
  have mp: "maps (entry (mem s) r i) ?pa" using e(1) by (simp add: maps_def)
  note pa = user_page [OF ok(3) r mp] and pf = user_page_not_free [OF ok(3,1) r mp]
  have tm: "m' a = mem s a" if "PGROUNDDOWN a \<in> tables (mem s) R" for a
    using that pa(2) m by metis
  have T: "tables m' R = tables (mem s) R" by (rule tables_frame [OF ok(2) tm])
  show ent: "\<And>r' va. r' \<in> R \<Longrightarrow> entry m' r' va = entry (mem s) r' va"
    by (rule entry_frame [OF ok(2) _ tm])
  have "alloc_inv t xs"
  proof (rule alloc_inv_frame [OF ok(1)])
    fix a assume "PGROUNDDOWN a \<in> set xs"
    then have "PGROUNDDOWN a \<noteq> ?pa" using pf by metis
    then show "mem t a = mem s a" by (simp add: t_def m)
  qed (simp_all add: t_def)
  moreover have "tab_inv t R"
    by (rule tab_inv_frame [OF ok(2)]) (simp_all add: t_def tm)
  moreover have cnt: "ucount (entry m') R p = ucount (entry (mem s)) R p" for p
    by (rule ucount_cong) (simp add: ent)
  then have "leaf_ok t R x = leaf_ok s R x" for x
    by (simp add: leaf_ok_def t_def T page_ok_def)
  then have "user_ok t R"
    using ok(3) ent by (simp add: user_ok_def t_def)
  ultimately show "mm_inv t R xs" by (simp add: mm_inv_def)
  show "same_page s t q" if q: "r' \<in> R" "uva va" "maps (entry (mem s) r' va) q" "\<not> (r' = r \<and> va = i)" for r' va q
  proof -
    have "ucount (entry (mem s)) R ?pa = 1"
      using user_okD [OF ok(3) r e(1)] e(2) by (simp add: leaf_ok_def)
    then have "q \<noteq> ?pa" using ucount_one [where E = "entry (mem s)", OF _ r mp q(1,2)] q(3,4) by auto
    then show ?thesis by (auto simp: same_page_def t_def m)
  qed
qed

lemma write_bytes_page:
  assumes "page_aligned p" "unat off + length bs \<le> 4096" "PGROUNDDOWN a \<noteq> p"
  shows "write_bytes (p + off) bs m a = m a"
proof -
  have "\<not> unat (a - (p + off)) < length bs"
  proof
    assume l: "unat (a - (p + off)) < length bs"
    have "unat (a - p) < 4096"
    proof -
      have "unat (a - (p + off)) + unat off < 2 ^ 64" using l assms(2) by simp
      from unat_add_lem64 [OF this] have "unat (a - p) = unat (a - (p + off)) + unat off" by simp
      then show ?thesis using l assms(2) by simp
    qed
    then show False using in_page_iff [OF assms(1)] assms(3) by simp
  qed
  then show ?thesis by (simp add: write_bytes_def)
qed

section \<open>One page of copyout\<close>

definition writable :: "uint64 \<Rightarrow> bool" where
  "writable e \<longleftrightarrow> e AND PTE_V \<noteq> 0 \<and> e AND PTE_U \<noteq> 0 \<and> (e AND PTE_W \<noteq> 0 \<or> e AND PTE_COW \<noteq> 0)"

lemma slot_entry:
  assumes "tab_inv s R" "r \<in> R" "node (mem s) r [PX 2 i, PX 1 i] = Some p"
  shows "ld64 (pte_slot p (PX 0 i)) s = Inr (entry (mem s) r i)"
  using tab_invD(1) [OF assms(1,2) _ assms(3)] assms(3) by (simp add: ld64_slot entry_def del: node.simps)

text \<open>Finding the page to write to, after a copy-on-write fault if need be.\<close>

lemma copyout_ready:
  assumes inv: "vm_inv s R xs" and r: "r \<in> R" "uva i" and sc: "scause \<noteq> 13" 
    and room: "xs \<noteq> [] \<or> entry (mem s) r i AND PTE_COW = 0"
    and e: "writable (entry (mem s) r i)"
  shows "\<exists>p t ys. walk r i False s = Inr (pte_slot p (PX 0 i), s) \<and> pte_slot p (PX 0 i) \<noteq> 0 \<and>
    ld64 (pte_slot p (PX 0 i)) s = Inr (entry (mem s) r i) \<and>
    (if entry (mem s) r i AND PTE_COW \<noteq> 0 then cow_fault_handler scause r i s else Inr (0, s)) = Inr (0, t) \<and>
    ld64 (pte_slot p (PX 0 i)) t = Inr (entry (mem t) r i) \<and>
    vm_inv t R ys \<and> length xs \<le> Suc (length ys) \<and> (entry (mem s) r i AND PTE_COW = 0 \<longrightarrow> t = s \<and> ys = xs) \<and>
    entry (mem t) r i AND PTE_V \<noteq> 0 \<and> entry (mem t) r i AND PTE_U \<noteq> 0 \<and> entry (mem t) r i AND PTE_W \<noteq> 0 \<and>
    (\<forall>r' \<in> R. \<forall>va < MAXVA. \<not> (r' = r \<and> PGROUNDDOWN va = i) \<longrightarrow> entry (mem t) r' va = entry (mem s) r' va) \<and>
    (\<forall>r' \<in> R. \<forall>va < TRAPFRAME. uview t r' va = uview s r' va)"
proof -
  let ?e = "entry (mem s) r i"
  have V: "?e AND PTE_V \<noteq> 0" "?e AND PTE_U \<noteq> 0" using e by (simp_all add: writable_def)
  have nz: "?e \<noteq> 0" using V by auto
  obtain p where p: "walk r i False s = Inr (pte_slot p (PX 0 i), s)" "pte_slot p (PX 0 i) \<noteq> 0"
    "node (mem s) r [PX 2 i, PX 1 i] = Some p" "ld64 (pte_slot p (PX 0 i)) s = Inr ?e"
    using valid_walk [OF vm_invD(4) [OF inv] r(1) uva_MAXVA [OF r(2)] nz] by blast
  show ?thesis
  proof (cases "?e AND PTE_COW \<noteq> 0")
    case False
    then have "?e AND PTE_W \<noteq> 0" using e by (simp add: writable_def)
    then show ?thesis
      using False p V inv by (intro exI [of _ p] exI [of _ s] exI [of _ xs]) simp
  next
    case True
    have iT: "i < TRAPFRAME" using r(2) by (simp add: uva_def)
    obtain t ys where t: "cow_fault_handler scause r i s = Inr (0, t)" "vm_inv t R ys"
      "length xs \<le> Suc (length ys)" "resolved R r i s t"
      using cow_fault_ok [OF inv r(1) iT sc V True] room True uva_round [OF r(2)] by auto
    have fl: "PTE_FLAGS (entry (mem t) r i) = private_flags (PTE_FLAGS ?e)"
      and n: "node (mem t) r [PX 2 i, PX 1 i] = Some p"
      using t(4) p(3) unfolding resolved_def by (blast, metis)
    have b: "entry (mem t) r i AND x = private_flags (PTE_FLAGS ?e) AND x" if "is_flags x" for x
      using flag_of_FLAGS [OF that, of "entry (mem t) r i"] fl by simp
    have "entry (mem t) r i AND PTE_V \<noteq> 0" "entry (mem t) r i AND PTE_U \<noteq> 0" "entry (mem t) r i AND PTE_W \<noteq> 0"
      using V by (simp_all add: b private_bits flag_of_FLAGS)
    then show ?thesis
      using p(1,2,4) True t slot_entry [OF vm_invD(4) [OF t(2)] r(1) n]
      by (intro exI [of _ p] exI [of _ t] exI [of _ ys]) (simp add: resolved_def)
  qed
qed

lemma copy_len_bounds:
  assumes "0 < len"
  shows "unat (va - PGROUNDDOWN va) + copy_len va len \<le> 4096"
    "copy_len va len < len \<Longrightarrow> unat (va - PGROUNDDOWN va) + copy_len va len = 4096"
  using page_off_less [of va] by (auto simp: copy_len_def unat_page_rest Let_def)

text \<open>The view of the writer after one round, and that of everybody else.\<close>

lemma write_view:
  assumes inv: "mm_inv s R xs" and r: "r \<in> R" "r' \<in> R" and va: "d < TRAPFRAME" "va < TRAPFRAME"
    and e: "entry (mem s) r d AND PTE_V \<noteq> 0" "entry (mem s) r d AND PTE_U \<noteq> 0" "entry (mem s) r d AND PTE_W \<noteq> 0"
    and len: "unat (d - PGROUNDDOWN d) + length bs \<le> 4096"
  defines "t \<equiv> s\<lparr>mem := write_bytes (PTE2PA (entry (mem s) r d) + (d - PGROUNDDOWN d)) bs (mem s)\<rparr>"
  shows "uview t r' va = (if r' = r \<and> PGROUNDDOWN va = PGROUNDDOWN d \<and> unat (va - d) < length bs
    then Some (bs ! unat (va - d)) else uview s r' va)"
proof -
  let ?i = "PGROUNDDOWN d" and ?pa = "PTE2PA (entry (mem s) r d)"
  note u = below_TRAPFRAME [OF va(1)] and u' = below_TRAPFRAME [OF va(2)]
  have e': "entry (mem s) r ?i AND PTE_V \<noteq> 0" "entry (mem s) r ?i AND PTE_W \<noteq> 0" using e by (simp_all add: entry_round)
  have pal: "page_aligned ?pa" by simp
  note w = write_user [OF inv r(1) u(1) e', of "mem t"]
  have fr: "PGROUNDDOWN a \<noteq> ?pa \<Longrightarrow> mem t a = mem s a" for a
    unfolding t_def using write_bytes_page [OF pal len] by simp
  have ent: "entry (mem t) r' va = entry (mem s) r' va" using w(2) fr r(2) by (simp add: entry_round)
  show ?thesis
  proof (cases "r' = r \<and> PGROUNDDOWN va = ?i")
    case True
    then have es: "entry (mem s) r' va = entry (mem s) r d" using entry_round by metis
    have "?pa + (va - PGROUNDDOWN va) - (?pa + (d - ?i)) = va - d" using True by simp
    then have "mem t (?pa + (va - PGROUNDDOWN va)) =
        (if unat (va - d) < length bs then bs ! unat (va - d) else mem s (?pa + (va - PGROUNDDOWN va)))"
      by (simp add: t_def write_bytes_def)
    then show ?thesis using True ent es e(1,2) by (simp add: uview_def Let_def)
  next
    case False
    have "uview t r' va = uview s r' va"
    proof (rule uview_cong)
      assume v: "entry (mem s) r' va AND PTE_V \<noteq> 0"
      have "maps (entry (mem s) r' (PGROUNDDOWN va)) (PTE2PA (entry (mem s) r' va))"
        using v by (simp add: maps_def entry_round)
      then have "same_page s (s\<lparr>mem := mem t\<rparr>) (PTE2PA (entry (mem s) r' va))"
        using w(3) [OF _ r(2) u'(1)] fr False by (auto simp: entry_round)
      then show "same_page s t (PTE2PA (entry (mem s) r' va))" by (simp add: same_page_def)
    qed (simp_all add: ent)
    then show ?thesis using False by auto
  qed
qed

lemma same_page_range:
  assumes "unat (d - PGROUNDDOWN d) + n \<le> 4096" "unat (va - d) < n"
  shows "PGROUNDDOWN va = PGROUNDDOWN d"
proof -
  have "unat (d - PGROUNDDOWN d) + unat (va - d) < 2 ^ 64" using assms by simp
  then have "unat ((d - PGROUNDDOWN d) + (va - d)) < 4096" using assms by (simp only: unat_add_lem64)
  then have "PGROUNDDOWN (PGROUNDDOWN d + ((d - PGROUNDDOWN d) + (va - d))) = PGROUNDDOWN d"
    by (intro PGROUNDDOWN_add) simp_all
  then show ?thesis by simp
qed

section \<open>copyout\<close>

lemma copyout_step:
  assumes inv: "vm_inv s R xs" and r: "r \<in> R" and sc: "scause \<noteq> 13" 
    and room: "xs \<noteq> [] \<or> entry (mem s) r d AND PTE_COW = 0"
    and d: "d < TRAPFRAME" "writable (entry (mem s) r d)" and src: "src \<noteq> []"
  defines "n \<equiv> copy_len d (length src)"
  shows "\<exists>t ys. copyout scause r d src s = copyout scause r (PGROUNDDOWN d + PGSIZE) (drop n src) t \<and>
    vm_inv t R ys \<and> length xs \<le> Suc (length ys) \<and>
    (entry (mem s) r d AND PTE_COW = 0 \<longrightarrow> ys = xs \<and> (\<forall>r' \<in> R. \<forall>va. entry (mem t) r' va = entry (mem s) r' va)) \<and>
    (\<forall>va < MAXVA. PGROUNDDOWN va \<noteq> PGROUNDDOWN d \<longrightarrow> entry (mem t) r va = entry (mem s) r va) \<and>
    (\<forall>r' \<in> R. \<forall>va < TRAPFRAME. uview t r' va =
      (if r' = r \<and> unat (va - d) < n then Some (src ! unat (va - d)) else uview s r' va))"
proof -
  let ?i = "PGROUNDDOWN d"
  note u = below_TRAPFRAME [OF d(1)]
  have iM: "\<not> ?i \<ge> MAXVA" using uva_MAXVA [OF u(1)] by (simp add: not_le)
  have wr: "writable (entry (mem s) r ?i)" using d(2) by (simp add: entry_round)
  obtain p s2 ys where p: "walk r ?i False s = Inr (pte_slot p (PX 0 ?i), s)" "pte_slot p (PX 0 ?i) \<noteq> 0"
    "ld64 (pte_slot p (PX 0 ?i)) s = Inr (entry (mem s) r ?i)"
    "(if entry (mem s) r ?i AND PTE_COW \<noteq> 0 then cow_fault_handler scause r ?i s else Inr (0, s)) = Inr (0, s2)"
    "ld64 (pte_slot p (PX 0 ?i)) s2 = Inr (entry (mem s2) r ?i)"
    "vm_inv s2 R ys" "length xs \<le> Suc (length ys)" "entry (mem s) r ?i AND PTE_COW = 0 \<longrightarrow> s2 = s \<and> ys = xs"
    and e: "entry (mem s2) r ?i AND PTE_V \<noteq> 0" "entry (mem s2) r ?i AND PTE_U \<noteq> 0" "entry (mem s2) r ?i AND PTE_W \<noteq> 0"
    and oth: "\<forall>r' \<in> R. \<forall>va < MAXVA. \<not> (r' = r \<and> PGROUNDDOWN va = ?i) \<longrightarrow> entry (mem s2) r' va = entry (mem s) r' va"
    and vw: "\<forall>r' \<in> R. \<forall>va < TRAPFRAME. uview s2 r' va = uview s r' va"
    using copyout_ready [OF inv r u(1) sc _ wr] room by (auto simp: entry_round)
  let ?pa = "PTE2PA (entry (mem s2) r ?i)" and ?bs = "take n src"
  have ln: "length ?bs = n" using copy_len_le [of d "length src"] by (simp add: n_def)
  have bd: "unat (d - ?i) + n \<le> 4096" using copy_len_bounds(1) [of "length src" d] src by (simp add: n_def)
  define t where "t = s2\<lparr>mem := write_bytes (?pa + (d - ?i)) ?bs (mem s2)\<rparr>"
  have mm: "mm_inv s2 R ys" using p(6) by (rule vm_invD(2))
  have mp: "maps (entry (mem s2) r ?i) ?pa" using e(1) by (simp add: maps_def)
  have pok: "page_ok s2 ?pa" by (rule user_page(1) [OF vm_invD(5) [OF p(6)] r u(1) mp])
  have ram: "ram_range (?pa + (d - ?i)) n"
  proof -
    have "ram_range ?pa 4096" "page_aligned ?pa" using page_ok_ram [OF pok] by (simp_all add: ram_page)
    moreover from this have "unat (?pa + (d - ?i)) = unat ?pa + unat (d - ?i)"
      using page_off_less [of d] by (subst unat_add_lem64) (simp_all add: ram_range_def layout_defs)
    ultimately show ?thesis
      using bd page_ok_ram(1) [OF pok] by (simp add: ram_range_def word_le_nat_alt)
  qed
  then have mv: "memmove_in (?pa + (d - ?i)) ?bs s2 = Inr t" using ln by (simp add: memmove_in_def t_def)
  have lp: "copyout scause r d src s = copyout scause r (?i + PGSIZE) (drop n src) t"
    using src iM p(1-5) e mv by (simp add: copyout.simps [of scause r d] Let_def n_def)
  have fr: "write_bytes (?pa + (d - ?i)) ?bs (mem s2) a = mem s2 a" if "PGROUNDDOWN a \<noteq> ?pa" for a
    using write_bytes_page [of ?pa "d - ?i" ?bs a] bd ln that by simp
  have w1: "mm_inv t R ys"
    unfolding t_def by (rule write_user(1) [OF mm r u(1) e(1,3)]) (rule fr)
  have w2: "entry (mem t) r' va = entry (mem s2) r' va" if "r' \<in> R" for r' va
    using write_user(2) [OF mm r u(1) e(1,3) _ that, of "mem t"] fr by (simp add: t_def)
  have "vm_inv t R ys" using w1 p(6) by (simp add: vm_inv_def t_def lock_ready_def)
  moreover have "entry (mem t) r va = entry (mem s) r va" if "va < MAXVA" "PGROUNDDOWN va \<noteq> ?i" for va
    using w2 [OF r] oth r that by simp
  moreover have "ys = xs \<and> (\<forall>r' \<in> R. \<forall>va. entry (mem t) r' va = entry (mem s) r' va)"
    if "entry (mem s) r d AND PTE_COW = 0" using p(8) that w2 by (simp add: entry_round)
  moreover have "uview t r' va = (if r' = r \<and> unat (va - d) < n then Some (src ! unat (va - d)) else uview s r' va)"
    if "r' \<in> R" "va < TRAPFRAME" for r' va
  proof -
    have "uview t r' va = (if r' = r \<and> PGROUNDDOWN va = ?i \<and> unat (va - d) < length ?bs
        then Some (?bs ! unat (va - d)) else uview s2 r' va)" (is "_ = ?rhs")
      using write_view [OF mm r that(1) d(1) that(2), of ?bs] e bd
      by (simp add: entry_round t_def ln del: length_take)
    also have "?rhs = (if r' = r \<and> unat (va - d) < n then Some (src ! unat (va - d)) else uview s r' va)"
    proof (cases "unat (va - d) < n")
      case True
      then show ?thesis using same_page_range [OF bd True] vw that unfolding ln by simp
    next
      case False
      then show ?thesis using vw that unfolding ln by simp
    qed
    finally show ?thesis .
  qed
  ultimately show ?thesis using lp p(7) by blast
qed

lemma range_split:
  fixes va d d' :: uint64
  assumes "d' = d + of_nat n" "n \<le> len" "len < 2 ^ 64"
  shows "unat (va - d) < len \<longleftrightarrow> unat (va - d) < n \<or> unat (va - d') < len - n"
    and "unat (va - d') < len - n \<Longrightarrow> unat (va - d) = n + unat (va - d')"
proof -
  have un: "unat (of_nat n :: uint64) = n" using assms(2,3) by (intro unat_of_nat64) simp
  have sum: "va - d = (va - d') + of_nat n" using assms(1) by simp
  show l: "unat (va - d) = n + unat (va - d')" if "unat (va - d') < len - n"
  proof -
    have "unat (va - d') + unat (of_nat n :: uint64) < 2 ^ 64" using that un assms(2,3) by simp
    from unat_add_lem64 [OF this] show ?thesis unfolding un sum [symmetric] by simp
  qed
  have "unat (va - d') < len - n" if "unat (va - d) < len" "\<not> unat (va - d) < n"
  proof -
    have "(of_nat n :: uint64) \<le> va - d" using that(2) un by (simp add: word_le_nat_alt)
    then have "unat ((va - d) - of_nat n) = unat (va - d) - n" using unat_sub64 un by metis
    moreover have "(va - d) - of_nat n = va - d'" unfolding sum by simp
    ultimately show ?thesis using that by simp
  qed
  moreover have "unat (va - d) < len" if "unat (va - d) < n" using that assms(2) by simp
  moreover have "unat (va - d) < len" if "unat (va - d') < len - n"
    using l [OF that] that by simp
  ultimately show "unat (va - d) < len \<longleftrightarrow> unat (va - d) < n \<or> unat (va - d') < len - n" by blast
qed

lemma next_page:
  assumes "unat (d - PGROUNDDOWN d) + n = 4096"
  shows "PGROUNDDOWN d + PGSIZE = d + of_nat n"
proof -
  have "PGSIZE = of_nat (unat (d - PGROUNDDOWN d) + n)" by (simp add: assms PGSIZE_def)
  also have "\<dots> = (d - PGROUNDDOWN d) + of_nat n" by simp
  finally have "PGSIZE = (d - PGROUNDDOWN d) + of_nat n" .
  then have "PGROUNDDOWN d + PGSIZE = PGROUNDDOWN d + ((d - PGROUNDDOWN d) + of_nat n)"
    by (rule arg_cong)
  then show ?thesis by simp
qed

lemma copyout_ok:
  assumes "vm_inv s R xs" "r \<in> R" "scause \<noteq> 13" "unat d + length src \<le> unat TRAPFRAME"
    "unat (d - PGROUNDDOWN d) + length src \<le> 4096 * length xs"
    and "\<And>va. va < TRAPFRAME \<Longrightarrow> unat (va - d) < length src \<Longrightarrow> writable (entry (mem s) r va)"
  shows "\<exists>t ys. copyout scause r d src s = Inr (0, t) \<and> vm_inv t R ys \<and>
    (\<forall>r' \<in> R. \<forall>va < TRAPFRAME. uview t r' va =
      (if r' = r \<and> unat (va - d) < length src then Some (src ! unat (va - d)) else uview s r' va))"
  using assms
proof (induction "length src" arbitrary: d src s xs rule: less_induct)
  case less
  show ?case
  proof (cases "src = []")
    case True
    then show ?thesis using less.prems(1) by (auto simp: copyout.simps)
  next
    case False
    let ?n = "copy_len d (length src)" and ?d = "PGROUNDDOWN d + PGSIZE"
    have T: "unat TRAPFRAME = 274877898752" by (simp add: layout_defs)
    have pos: "0 < length src" using False by simp
    have np: "0 < ?n" "?n \<le> length src" using copy_len_pos [OF pos] copy_len_le by auto
    have d: "d < TRAPFRAME" using less.prems(4) pos unfolding word_less_nat_alt by linarith
    have w: "writable (entry (mem s) r d)" using less.prems(6) [OF d] pos by simp
    have xs: "xs \<noteq> []" using less.prems(5) False by (cases xs) simp_all
    obtain t ys where t: "copyout scause r d src s = copyout scause r ?d (drop ?n src) t"
      "vm_inv t R ys" "length xs \<le> Suc (length ys)"
      and ent: "\<forall>va < MAXVA. PGROUNDDOWN va \<noteq> PGROUNDDOWN d \<longrightarrow> entry (mem t) r va = entry (mem s) r va"
      and vw: "\<forall>r' \<in> R. \<forall>va < TRAPFRAME. uview t r' va =
      (if r' = r \<and> unat (va - d) < ?n then Some (src ! unat (va - d)) else uview s r' va)"
      using copyout_step [OF less.prems(1-3) disjI1 [OF xs] d w False] by blast
    show ?thesis
    proof (cases "?n = length src")
      case True
      then show ?thesis using t vw by (auto simp: copyout.simps [of _ _ ?d])
    next
      case lt: False
      then have off: "unat (d - PGROUNDDOWN d) + ?n = 4096"
        using copy_len_bounds(2) [OF pos, of d] np(2) by simp
      have dd: "?d = d + of_nat ?n" by (rule next_page [OF off])
      have "unat (of_nat ?n :: uint64) = ?n" using off by (intro unat_of_nat64) simp
      then have ud: "unat ?d = unat d + ?n"
        unfolding dd using less.prems(4) np(2) T by (subst unat_add_lem64) simp_all
      have da: "page_aligned ?d"
        using page_next(2) [of "PGROUNDDOWN d"] below_TRAPFRAME [OF d] uva_MAXVA by simp
      have len: "length src < 2 ^ 64" using less.prems(4) T by simp
      note rs = range_split [OF dd np(2) len]
      have "\<exists>u zs. copyout scause r ?d (drop ?n src) t = Inr (0, u) \<and> vm_inv u R zs \<and>
        (\<forall>r' \<in> R. \<forall>va < TRAPFRAME. uview u r' va =
          (if r' = r \<and> unat (va - ?d) < length (drop ?n src) then Some (drop ?n src ! unat (va - ?d)) else uview t r' va))"
      proof (rule less.hyps [OF _ t(2) less.prems(2,3)])
        show "length (drop ?n src) < length src" using np by simp
        show "unat ?d + length (drop ?n src) \<le> unat TRAPFRAME" using ud less.prems(4) np(2) by simp
        show "unat (?d - PGROUNDDOWN ?d) + length (drop ?n src) \<le> 4096 * length ys"
          using less.prems(5) off t(3) np(2) by (simp add: PGROUNDDOWN_id [OF da])
        fix va assume va: "va < TRAPFRAME" "unat (va - ?d) < length (drop ?n src)"
        then have in_range: "unat (va - d) < length src" using rs(1) [of va] by simp
        have "PGROUNDDOWN va \<noteq> PGROUNDDOWN d"
        proof
          assume eq: "PGROUNDDOWN va = PGROUNDDOWN d"
          have "unat va = unat (va - ?d) + unat ?d"
            using unat_add_lem64 [of "va - ?d" ?d] va(2) ud less.prems(4) T np(2) by simp
          then have "?d \<le> va" by (simp add: word_le_nat_alt)
          then show False
            using page_range [of "PGROUNDDOWN d" va] eq below_TRAPFRAME [OF d] uva_MAXVA by auto
        qed
        then show "writable (entry (mem t) r va)"
          using less.prems(6) [OF va(1) in_range] ent below_TRAPFRAME(2) [OF va(1)] by simp
      qed
      then obtain u zs where u: "copyout scause r ?d (drop ?n src) t = Inr (0, u)" "vm_inv u R zs"
        "\<forall>r' \<in> R. \<forall>va < TRAPFRAME. uview u r' va =
          (if r' = r \<and> unat (va - ?d) < length (drop ?n src) then Some (drop ?n src ! unat (va - ?d)) else uview t r' va)"
        by blast
      have "uview u r' va = (if r' = r \<and> unat (va - d) < length src then Some (src ! unat (va - d)) else uview s r' va)"
        if a: "r' \<in> R" "va < TRAPFRAME" for r' va
      proof (cases "unat (va - d) < ?n")
        case True
        then have "\<not> unat (va - ?d) < length src - ?n" using rs(2) [of va] by auto
        then show ?thesis using u(3) vw a True np(2) by auto
      next
        case False
        then show ?thesis using u(3) vw a rs [of va] by (auto simp: np(2))
      qed
      then show ?thesis using t(1) u(1,2) by auto
    qed
  qed
qed

section \<open>copyin\<close>

lemma walkaddr_eq:
  assumes "tab_inv s R" "r \<in> R" "va < MAXVA"
  shows "walkaddr r va s = Inr (let e = entry (mem s) r va in
    if e AND PTE_V = 0 then 0 else if e AND PTE_U = 0 then 0 else PTE2PA e)"
proof -
  have nM: "\<not> va \<ge> MAXVA" using assms(3) by (simp add: not_le)
  show ?thesis
  proof (rule leaf_slot_cases [OF assms(1,2), of va])
    assume "leaf_slot (mem s) r va = 0" "entry (mem s) r va = 0"
    then show ?thesis using walk_noalloc [OF assms] nM by (simp add: walkaddr_def)
  next
    fix p assume "leaf_slot (mem s) r va = pte_slot p (PX 0 va)" "leaf_slot (mem s) r va \<noteq> 0"
      "page_ok s p" "entry (mem s) r va = load64 (mem s) (pte_slot p (PX 0 va))"
    then show ?thesis using walk_noalloc [OF assms] nM by (simp add: walkaddr_def ld64_slot Let_def)
  qed
qed

definition view_bytes :: "kstate \<Rightarrow> addr \<Rightarrow> uint64 \<Rightarrow> nat \<Rightarrow> byte list" where
  "view_bytes s r va n = map (\<lambda>k. the (uview s r (va + of_nat k))) [0..<n]"

definition mapped :: "kstate \<Rightarrow> addr \<Rightarrow> uint64 \<Rightarrow> nat \<Rightarrow> bool" where
  "mapped s r va n \<longleftrightarrow> (\<forall>k < n. uview s r (va + of_nat k) \<noteq> None)"

lemma view_bytes_add: "view_bytes s r va (m + n) = view_bytes s r va m @ view_bytes s r (va + of_nat m) n"
  by (induction n) (simp_all add: view_bytes_def add.assoc)

lemma mapped_add: "mapped s r va (m + n) \<longleftrightarrow> mapped s r va m \<and> mapped s r (va + of_nat m) n"
proof -
  have "(\<forall>k < m + n. P k) \<longleftrightarrow> (\<forall>k < m. P k) \<and> (\<forall>k < n. P (m + k))" for P :: "nat \<Rightarrow> bool"
    by (metis add_diff_inverse_nat nat_add_left_cancel_less trans_less_add1)
  then show ?thesis by (simp add: mapped_def add.assoc)
qed

text \<open>Within a page the view is the page.\<close>

lemma view_in_page:
  assumes "unat (d - PGROUNDDOWN d) + n \<le> 4096" "k < n"
  shows "uview s r (d + of_nat k) =
    (let e = entry (mem s) r d in if e AND PTE_V \<noteq> 0 \<and> e AND PTE_U \<noteq> 0
     then Some (mem s (PTE2PA e + (d - PGROUNDDOWN d) + of_nat k)) else None)"
proof -
  have "unat (of_nat k :: uint64) = k" using assms by (intro unat_of_nat64) simp
  then have p: "PGROUNDDOWN (d + of_nat k) = PGROUNDDOWN d"
    using same_page_range [OF assms(1), of "d + of_nat k"] assms(2) by simp
  then have "entry (mem s) r (d + of_nat k) = entry (mem s) r d" using entry_round by metis
  moreover have "x + (d + of_nat k - PGROUNDDOWN d) = x + (d - PGROUNDDOWN d) + of_nat k" for x
    by (simp add: algebra_simps)
  ultimately show ?thesis by (simp only: uview_def Let_def p)
qed

lemma copyin_ok:
  assumes "vm_inv s R xs" "r \<in> R" "unat d + len \<le> unat TRAPFRAME"
  shows "\<exists>bs. copyin r d len s = Inr (if mapped s r d len then 0 else -1, bs) \<and>
    (mapped s r d len \<longrightarrow> bs = view_bytes s r d len)"
  using assms(3)
proof (induction len arbitrary: d rule: less_induct)
  case (less len)
  show ?case
  proof (cases "len = 0")
    case True
    then show ?thesis by (simp add: copyin.simps mapped_def view_bytes_def)
  next
    case False
    let ?i = "PGROUNDDOWN d" and ?n = "copy_len d len"
    let ?e = "entry (mem s) r d"
    have pos: "0 < len" using False by simp
    have d: "d < TRAPFRAME" using less.prems pos unfolding word_less_nat_alt by linarith
    note u = below_TRAPFRAME [OF d]
    have np: "0 < ?n" "?n \<le> len" using copy_len_pos [OF pos] copy_len_le by auto
    have bd: "unat (d - ?i) + ?n \<le> 4096" by (rule copy_len_bounds(1) [OF pos])
    note vp = view_in_page [OF bd, of _ s r]
    have wa: "walkaddr r ?i s = Inr (if ?e AND PTE_V \<noteq> 0 \<and> ?e AND PTE_U \<noteq> 0 then PTE2PA ?e else 0)"
      using walkaddr_eq [OF vm_invD(4) [OF assms(1)] assms(2) uva_MAXVA [OF u(1)]] by (simp add: entry_round Let_def)
    show ?thesis
    proof (cases "?e AND PTE_V \<noteq> 0 \<and> ?e AND PTE_U \<noteq> 0")
      case F: False
      then have "\<not> mapped s r d len" using vp [of 0] np pos by (auto simp: mapped_def Let_def intro!: exI [of _ 0])
      moreover have "copyin r d len s = Inr (-1, [])" using wa F pos by (simp add: copyin.simps [of r d] Let_def)
      ultimately show ?thesis by simp
    next
      case V: True
      let ?pa = "PTE2PA ?e" and ?rest = "copyin r (?i + PGSIZE) (len - ?n) s"
      have mp: "maps (entry (mem s) r ?i) ?pa" using V by (simp add: maps_def entry_round)
      have pok: "page_ok s ?pa" by (rule user_page(1) [OF vm_invD(5) [OF assms(1)] assms(2) u(1) mp])
      have "ram_range (?pa + (d - ?i)) ?n"
      proof -
        have "ram_range ?pa 4096" "page_aligned ?pa" using page_ok_ram [OF pok] by (simp_all add: ram_page)
        moreover from this have "unat (?pa + (d - ?i)) = unat ?pa + unat (d - ?i)"
          using page_off_less [of d] by (subst unat_add_lem64) (simp_all add: ram_range_def layout_defs)
        ultimately show ?thesis
          using bd page_ok_ram(1) [OF pok] by (simp add: ram_range_def word_le_nat_alt)
      qed
      moreover have "read_bytes (?pa + (d - ?i)) ?n (mem s) = view_bytes s r d ?n"
        using vp V by (auto simp: read_bytes_def view_bytes_def Let_def)
      ultimately have mv: "memmove_out (?pa + (d - ?i)) ?n s = Inr (view_bytes s r d ?n)"
        by (simp add: memmove_out_def)
      have lp: "copyin r d len s = rbind ?rest (\<lambda>(x, cs). Inr (x, view_bytes s r d ?n @ cs))"
        using pos wa V page_ok_ram(4) [OF pok] mv by (simp add: copyin.simps [of r d] Let_def)
      have m1: "mapped s r d ?n" using vp V by (simp add: mapped_def Let_def)
      show ?thesis
      proof (cases "?n = len")
        case True
        then show ?thesis using lp m1 by (simp add: copyin.simps [of r "?i + PGSIZE"])
      next
        case lt: False
        have off: "unat (d - ?i) + ?n = 4096" using copy_len_bounds(2) [OF pos, of d] np(2) lt by simp
        have dd: "?i + PGSIZE = d + of_nat ?n" by (rule next_page [OF off])
        have "unat (of_nat ?n :: uint64) = ?n" using off by (intro unat_of_nat64) simp
        then have ud: "unat (d + of_nat ?n) = unat d + ?n"
          using less.prems np(2) by (subst unat_add_lem64) (simp_all add: layout_defs)
        obtain cs where cs: "copyin r (d + of_nat ?n) (len - ?n) s =
            Inr (if mapped s r (d + of_nat ?n) (len - ?n) then 0 else -1, cs)"
          "mapped s r (d + of_nat ?n) (len - ?n) \<longrightarrow> cs = view_bytes s r (d + of_nat ?n) (len - ?n)"
          using less.IH [of "len - ?n" "d + of_nat ?n"] np ud less.prems by auto
        have "mapped s r d len \<longleftrightarrow> mapped s r (d + of_nat ?n) (len - ?n)"
          using mapped_add [of s r d ?n "len - ?n"] m1 np(2) by simp
        moreover have "view_bytes s r d len = view_bytes s r d ?n @ view_bytes s r (d + of_nat ?n) (len - ?n)"
          using view_bytes_add [of s r d ?n "len - ?n"] np(2) by simp
        ultimately show ?thesis using lp cs by (auto simp: dd)
      qed
    qed
  qed
qed

section \<open>One byte at a time\<close>

text \<open>A page the process can write without a fault.\<close>

definition direct :: "uint64 \<Rightarrow> bool" where
  "direct e \<longleftrightarrow> writable e \<and> e AND PTE_COW = 0"

lemma copyout_byte:
  assumes "vm_inv s R xs" "r \<in> R" "scause \<noteq> 13" "d < TRAPFRAME" "direct (entry (mem s) r d)"
  shows "\<exists>t. copyout scause r d [b] s = Inr (0, t) \<and> vm_inv t R xs \<and>
    (\<forall>r' \<in> R. \<forall>va. entry (mem t) r' va = entry (mem s) r' va) \<and>
    (\<forall>r' \<in> R. \<forall>va < TRAPFRAME. uview t r' va = (if r' = r \<and> va = d then Some b else uview s r' va))"
proof -
  have n: "copy_len d (length [b]) = 1" using page_off_less [of d] by (auto simp: copy_len_def Let_def unat_page_rest)
  have z: "unat (va - d) < 1 \<longleftrightarrow> va = d" for va by (simp add: unat_eq_zero)
  obtain t ys where t: "copyout scause r d [b] s = copyout scause r (PGROUNDDOWN d + PGSIZE) (drop 1 [b]) t"
    "vm_inv t R ys" "ys = xs" "\<forall>r' \<in> R. \<forall>va. entry (mem t) r' va = entry (mem s) r' va"
    "\<forall>r' \<in> R. \<forall>va < TRAPFRAME. uview t r' va = (if r' = r \<and> unat (va - d) < 1 then Some ([b] ! unat (va - d)) else uview s r' va)"
    using copyout_step [OF assms(1-3) _ assms(4), of "[b]"] assms(5) unfolding n direct_def by blast
  have "copyout scause r d [b] s = Inr (0, t)" using t(1) by (simp add: copyout.simps)
  then show ?thesis using t(2-5) unfolding z by auto
qed

lemma copyin_byte:
  assumes "vm_inv s R xs" "r \<in> R" "d < TRAPFRAME"
  shows "\<exists>bs. copyin r d 1 s = Inr (if uview s r d = None then -1 else 0, bs) \<and>
    (\<forall>b. uview s r d = Some b \<longrightarrow> bs = [b])"
proof -
  have "unat d + 1 \<le> unat TRAPFRAME" using assms(3) by (simp add: word_less_nat_alt)
  then obtain bs where "copyin r d 1 s = Inr (if mapped s r d 1 then 0 else -1, bs)"
    "mapped s r d 1 \<longrightarrow> bs = view_bytes s r d 1"
    using copyin_ok [OF assms(1,2)] by blast
  then show ?thesis by (auto simp: mapped_def view_bytes_def)
qed

end
