(* ===== verification/Space.thy ===== *)
theory Space
  imports Copy
begin

text \<open>
  Making and growing an address space: \<open>uvmcreate\<close>, \<open>uvmalloc\<close>, \<open>uvmdealloc\<close> and \<open>uvmclear\<close>.
  A new page table joins the set of roots; \<open>uvmalloc\<close> either maps zeroed pages up to the
  new size or undoes what it did.
\<close>

section \<open>A new root\<close>

lemma node_zero:
  assumes "\<And>i. unat i < 512 \<Longrightarrow> load64 m (pte_slot g i) = 0" "table_path is"
  shows "node m g is = (if is = [] then Some g else None)"
  using assms(2) by (cases rule: table_path_cases) (simp_all add: assms(1))

lemma new_root:
  assumes inv: "mm_inv s R xs" and own: "owned s R g"
    and zero: "\<And>i. unat i < 512 \<Longrightarrow> load64 (mem s) (pte_slot g i) = 0"
  shows "mm_inv s (insert g R) xs" "g \<notin> R" "entry (mem s) g va = 0"
proof -
  have ok: "alloc_inv s xs" "tab_inv s R" "user_ok s R" using inv by (simp_all add: mm_inv_def)
  have g: "page_ok s g" "ref_count s (rc_index g) = 1" "g \<notin> tables (mem s) R"
    "ucount (entry (mem s)) R g = 0" using own by (simp_all add: owned_def)
  show gR: "g \<notin> R" using root_tables [of g R "mem s"] g(3) by auto
  have n: "node (mem s) g is = (if is = [] then Some g else None)" if "table_path is" for "is"
    by (rule node_zero [OF zero that])
  have T: "tables (mem s) (insert g R) = insert g (tables (mem s) R)"
    unfolding tables_def using n by (auto split: if_splits intro: exI [of _ "[]"])
  have inj: "r1 = r2 \<and> is1 = is2"
    if a: "r1 \<in> insert g R" "r2 \<in> insert g R" "table_path is1" "table_path is2"
      "node (mem s) r1 is1 = Some p" "node (mem s) r2 is2 = Some p" for r1 r2 is1 is2 p
  proof -
    have c: "r = g \<and> is = [] \<and> p = g \<or> r \<in> R \<and> p \<noteq> g"
      if "r \<in> insert g R" "table_path is" "node (mem s) r is = Some p" for r "is"
      using that n [OF that(2)] tablesI [of r R "is" "mem s" p] g(3) by (auto split: if_splits)
    show ?thesis
      using c [OF a(1,3,5)] c [OF a(2,4,6)] tab_inv_inj [OF ok(2) _ _ a(3,4) a(5,6)] by blast
  qed
  have "tab_inv s (insert g R)"
    unfolding tab_inv_def T using ok(2) g(1,2) inj by (auto simp: tab_inv_def)
  moreover show e0: "entry (mem s) g va = 0" for va
    using n [of "[PX 2 va, PX 1 va]"] by (simp add: entry_def del: node.simps)
  have "refs (entry (mem s)) (insert g R) p = refs (entry (mem s)) R p" for p
    unfolding refs_def using e0 by (auto simp: maps_def)
  then have cnt: "ucount (entry (mem s)) (insert g R) p = ucount (entry (mem s)) R p" for p
    by (simp add: ucount_def)
  have "user_ok s (insert g R)"
    unfolding user_ok_def
  proof (intro ballI allI impI)
    fix r va assume r: "r \<in> insert g R" "uva va" "entry (mem s) r va AND PTE_V \<noteq> 0"
    then have rR: "r \<in> R" using e0 by auto
    have m: "maps (entry (mem s) r va) (PTE2PA (entry (mem s) r va))" using r(3) by (simp add: maps_def)
    have "PTE2PA (entry (mem s) r va) \<noteq> g"
      using g(4) rR r(2) m unfolding ucount_0 by metis
    then show "leaf_ok s (insert g R) (entry (mem s) r va)"
      using user_okD [OF ok(3) rR r(2,3)] by (auto simp: leaf_ok_def T cnt)
  qed
  ultimately show "mm_inv s (insert g R) xs" using ok(1) by (simp add: mm_inv_def)
qed

lemma uview_same_entries:
  assumes inv: "mm_inv s R xs" and r: "r \<in> R" "va < TRAPFRAME"
    and ent: "entry (mem t) r va = entry (mem s) r va"
    and m: "\<And>a q. PGROUNDDOWN a = q \<Longrightarrow> maps (entry (mem s) r va) q \<Longrightarrow> mem t a = mem s a"
  shows "uview t r va = uview s r va"
  by (rule uview_cong) (use ent m in \<open>auto simp: same_page_def maps_def\<close>)

lemma alloc_zeroed:
  assumes inv: "vm_inv s R (g # ys)"
  shows "\<exists>s1 t. kalloc s = Inr (g, s1) \<and> g \<noteq> 0 \<and> memset_ram g 0 (ucast PGSIZE) s1 = Inr t \<and>
    vm_inv t R ys \<and> owned t R g \<and> mem t = fill_page g 0 (mem s) \<and>
    (\<forall>r \<in> R. \<forall>va. entry (mem t) r va = entry (mem s) r va) \<and>
    (\<forall>r \<in> R. \<forall>va < TRAPFRAME. uview t r va = uview s r va) \<and> pages R s (g # ys) = insert g (pages R t ys)"
proof -
  have ok: "lock_ready s" "alloc_inv s (g # ys)" "mm_inv s R (g # ys)" "user_ok s R" using vm_invD inv by blast+
  have g: "page_ok s g" "g \<notin> set ys" using ok(2) by (simp_all add: alloc_inv_def)
  obtain s1 where s1: "kalloc s = Inr (g, s1)" "lock_ready s1" "alloc_inv s1 ys" "allocated s g s1"
    using locked.alloc_some [OF ok(1,2)] by blast
  define t where "t = s1\<lparr>mem := fill_page g 0 (mem s)\<rparr>"
  have "page_ok s1 g" using g(1) s1(4) by (simp add: allocated_def page_ok_def)
  then have ms: "memset_ram g 0 (ucast PGSIZE) s1 = Inr t"
    using memset_ram_page [of s1 g 0] s1(4) by (simp add: t_def allocated_def fill_page_twice)
  have at: "alloc_inv t ys"
  proof (rule alloc_inv_frame [OF s1(3)])
    fix a assume "PGROUNDDOWN a \<in> set ys"
    then have "PGROUNDDOWN a \<noteq> g" using g(2) by metis
    then show "mem t a = mem s1 a" using s1(4) by (simp add: t_def allocated_def)
  qed (simp_all add: t_def)
  have f: "kend t = kend s" "ref_count t = (ref_count s)(rc_index g := 1)"
    using s1(4) by (simp_all add: t_def allocated_def)
  have mo: "mem t a = mem s a" if "PGROUNDDOWN a \<noteq> g" for a using that by (simp add: t_def)
  note own = alloc_owned [OF ok(3) at f mo]
  have "uview t r va = uview s r va" if "r \<in> R" "va < TRAPFRAME" for r va
  proof (rule uview_same_entries [OF ok(3) that])
    show "entry (mem t) r va = entry (mem s) r va" using own(4) that(1) by blast
    fix a q assume a: "PGROUNDDOWN a = q" "maps (entry (mem s) r va) q"
    then have "maps (entry (mem s) r (PGROUNDDOWN va)) q" by (simp add: entry_round)
    then have "q \<notin> set (g # ys)"
      using user_page_not_free [OF ok(4,2) that(1) below_TRAPFRAME(1) [OF that(2)]] by blast
    then show "mem t a = mem s a" using a(1) mo by auto
  qed
  moreover have "lock_ready t" using s1(2) by (simp add: t_def lock_ready_def)
  moreover have "pages R s (g # ys) = insert g (pages R t ys)"
  proof -
    have "g \<notin> tables (mem s) R" using tables_not_free [OF vm_invD(4) [OF inv] ok(2)] by auto
    then have "tables (mem t) R = tables (mem s) R" using mo by (intro tables_frame [OF vm_invD(4) [OF inv]]) metis
    moreover have "mapped_pages R t = mapped_pages R s" by (rule mapped_pages_cong) (rule own(4))
    ultimately show ?thesis by (simp add: pages_def)
  qed
  ultimately show ?thesis
    using s1(1) ms own page_ok_ram(4) [OF g(1)] by (auto simp: vm_inv_def t_def)
qed

lemma kalloc_empty:
  assumes "vm_inv s R []"
  shows "\<exists>t. kalloc s = Inr (0, t) \<and> vm_inv t R [] \<and> mem t = mem s"
proof -
  let ?t = "s\<lparr>kcpu := settle (kcpu s)\<rparr>"
  have "kalloc s = Inr (0, ?t)" by (rule kalloc_none [OF vm_invD(1,3) [OF assms]])
  moreover have "vm_inv ?t R []"
    using assms mm_inv_cong [of ?t s] by (simp add: vm_inv_def lock_ready_def)
  ultimately show ?thesis by auto
qed

lemma uvmcreate_ok:
  assumes inv: "vm_inv s R (g # ys)"
  shows "\<exists>t. uvmcreate s = Inr (g, t) \<and> vm_inv t (insert g R) ys \<and> g \<notin> R \<and>
    (\<forall>va. entry (mem t) g va = 0 \<and> node (mem t) g [PX 2 va, PX 1 va] = None) \<and>
    (\<forall>r \<in> R. \<forall>va. entry (mem t) r va = entry (mem s) r va) \<and>
    (\<forall>r \<in> R. \<forall>va < TRAPFRAME. uview t r va = uview s r va)"
proof -
  obtain s1 t where t: "kalloc s = Inr (g, s1)" "g \<noteq> 0" "memset_ram g 0 (ucast PGSIZE) s1 = Inr t"
    "vm_inv t R ys" "owned t R g" "mem t = fill_page g 0 (mem s)"
    "\<forall>r \<in> R. \<forall>va. entry (mem t) r va = entry (mem s) r va"
    "\<forall>r \<in> R. \<forall>va < TRAPFRAME. uview t r va = uview s r va"
    using alloc_zeroed [OF inv] by blast
  have "page_aligned g" using t(5) page_ok_ram(3) by (auto simp: owned_def)
  then have z: "load64 (mem t) (pte_slot g i) = 0" if "unat i < 512" for i
    using zero_slot [OF _ that] t(6) by simp
  note nr = new_root [OF vm_invD(2) [OF t(4)] t(5) z]
  have "node (mem t) g [PX 2 va, PX 1 va] = None" for va
    using node_zero [of "mem t" g, OF z] z [of "PX 2 va"] PX_less by simp
  moreover have "uvmcreate s = Inr (g, t)" using t(1-3) by (simp add: uvmcreate_def)
  moreover have "vm_inv t (insert g R) ys" using nr(1) t(4) by (simp add: vm_inv_def)
  ultimately show ?thesis using nr(2,3) t(7,8) by blast
qed

section \<open>Growing by one page\<close>

lemma keeps_view:
  assumes "keeps R s t" "r \<in> R" "va < TRAPFRAME" "entry (mem t) r va = entry (mem s) r va"
  shows "uview t r va = uview s r va"
proof (rule uview_cong)
  assume "entry (mem s) r va AND PTE_V \<noteq> 0"
  then have "maps (entry (mem t) r (PGROUNDDOWN va)) (PTE2PA (entry (mem s) r va))"
    using assms(4) by (simp add: maps_def entry_round)
  then show "same_page s t (PTE2PA (entry (mem s) r va))"
    by (rule keepsD [OF assms(1,2) below_TRAPFRAME(1) [OF assms(3)]])
qed (simp_all add: assms(4))

text \<open>Nothing but the pages of \<open>[lo, hi)\<close> under \<open>r\<close> is different.\<close>

definition unaffected :: "addr set \<Rightarrow> addr \<Rightarrow> uint64 \<Rightarrow> uint64 \<Rightarrow> kstate \<Rightarrow> kstate \<Rightarrow> bool" where
  "unaffected R r lo hi s t \<longleftrightarrow>
    (\<forall>r' \<in> R. \<forall>va < TRAPFRAME. \<not> (r' = r \<and> lo \<le> PGROUNDDOWN va \<and> PGROUNDDOWN va < hi) \<longrightarrow>
      entry (mem t) r' va = entry (mem s) r' va \<and> uview t r' va = uview s r' va)"

lemma unaffected_trans:
  "unaffected R r lo hi s t \<Longrightarrow> unaffected R r lo hi t u \<Longrightarrow> unaffected R r lo hi s u"
  by (simp add: unaffected_def)

lemma unaffected_mono:
  assumes "unaffected R r lo' hi' s t" "lo \<le> lo'" "hi' \<le> hi"
  shows "unaffected R r lo hi s t"
  using assms unfolding unaffected_def by (meson order_trans less_le_trans)

lemma free_owned:
  assumes inv: "vm_inv s R xs" and own: "owned s R g"
  shows "\<exists>t. kfree g s = Inr t \<and> vm_inv t R (g # xs) \<and> keeps R s t \<and>
    (\<forall>r \<in> R. \<forall>va. entry (mem t) r va = entry (mem s) r va) \<and> pages R t (g # xs) = insert g (pages R s xs)"
proof -
  have ok: "lock_ready s" "alloc_inv s xs" "tab_inv s R" "user_ok s R" using vm_invD inv by blast+
  have g: "page_ok s g" "ref_count s (rc_index g) = 1" "g \<notin> tables (mem s) R"
    "\<And>r va. r \<in> R \<Longrightarrow> uva va \<Longrightarrow> \<not> maps (entry (mem s) r va) g"
    using own unfolding owned_def ucount_0 by blast+
  have gf: "g \<notin> set xs" using ok(2) g(2) by (auto simp: alloc_inv_def)
  obtain t where t: "kfree g s = Inr t" "lock_ready t" "alloc_inv t (g # xs)" "freed s g t"
    using locked.free_last [OF ok(1,2) g(1) gf g(2)] by blast
  have m: "mem t a = mem s a" if "PGROUNDDOWN a \<noteq> g" for a using t(4) that by (simp add: freed_def)
  have tm: "mem t a = mem s a" if "PGROUNDDOWN a \<in> tables (mem s) R" for a
    using that g(3) m by metis
  have T: "tables (mem t) R = tables (mem s) R" by (rule tables_frame [OF ok(3) tm])
  have ent: "entry (mem t) r va = entry (mem s) r va" if "r \<in> R" for r va
    by (rule entry_frame [OF ok(3) that tm])
  have rc: "ref_count t (rc_index p) = ref_count s (rc_index p)" if "page_ok s p" "p \<noteq> g" for p
    using t(4) rc_index_eq_iff [OF that(1) g(1)] that(2) by (simp add: freed_def)
  have k: "kend t = kend s" using t(4) by (simp add: freed_def)
  have "tab_inv t R"
  proof (rule tab_inv_frame [OF ok(3) tm k])
    fix p assume "p \<in> tables (mem s) R"
    then show "ref_count t (rc_index p) = ref_count s (rc_index p)"
      using g(3) ok(3) by (intro rc) (auto simp: tab_inv_def)
  qed
  moreover have cnt: "ucount (entry (mem t)) R p = ucount (entry (mem s)) R p" for p
    by (rule ucount_cong) (simp add: ent)
  have "leaf_ok t R (entry (mem t) r va)" if "r \<in> R" "uva va" "entry (mem t) r va AND PTE_V \<noteq> 0" for r va
  proof -
    have v: "entry (mem s) r va AND PTE_V \<noteq> 0" using that ent by simp
    then have "PTE2PA (entry (mem s) r va) \<noteq> g" using g(4) [OF that(1,2)] by (auto simp: maps_def)
    then show ?thesis
      using user_okD [OF ok(4) that(1,2) v] rc by (auto simp: leaf_ok_def ent [OF that(1)] T cnt page_ok_def k)
  qed
  then have "user_ok t R" by (simp add: user_ok_def)
  moreover have "keeps R s t"
  proof (rule keepsI)
    fix r va p assume "r \<in> R" "uva va" "maps (entry (mem t) r va) p"
    then have "p \<noteq> g" using g(4) ent by auto
    then show "same_page s t p" using m by (simp add: same_page_def)
  qed
  moreover have "pages R t (g # xs) = insert g (pages R s xs)"
    using T mapped_pages_cong [of R t s] ent by (simp add: pages_def)
  ultimately show ?thesis using t(1-3) ent by (auto simp: vm_inv_def mm_inv_def)
qed

lemma pages_ext: "pt_ext R s xs t ys \<Longrightarrow> pages R t ys = pages R s xs"
  using mapped_pages_cong [of R t s] pt_extD(5) [of R s xs t ys] by (auto simp: pages_def elim!: pt_ext_tables)

lemma pages_map:
  assumes "pt_upd R s xs t ys r a e" "r \<in> R" "uva a" "entry (mem s) r a AND PTE_V = 0" "maps e g"
  shows "pages R t ys = insert g (pages R s xs)"
proof -
  obtain zs where z: "xs = zs @ ys" "tables (mem t) R = tables (mem s) R \<union> set zs" using pt_upd_tables [OF assms(1)] by blast
  have "entry (mem t) r' va = (if r' = r \<and> va = a then e else entry (mem s) r' va)" if "r' \<in> R" "uva va" for r' va
    using pt_updD(4) [OF assms(1) that(1) uva_MAXVA [OF that(2)]] uva_round [OF that(2)] uva_round [OF assms(3)] by simp
  then have "q \<in> mapped_pages R t \<longleftrightarrow> q = g \<or> q \<in> mapped_pages R s" for q
    unfolding mapped_pages_def mem_Collect_eq using assms(2-5) by (metis (no_types) maps_def)
  then show ?thesis unfolding pages_def z by auto
qed

lemma owned_ext:
  assumes inv: "mm_inv s R xs" and own: "owned s R g" and ext: "pt_ext R s xs t ys"
  shows "owned t R g"
proof -
  obtain zs where z: "xs = zs @ ys" "tables (mem t) R = tables (mem s) R \<union> set zs"
    "\<And>p. page_ok s p \<Longrightarrow> p \<notin> set zs \<Longrightarrow> ref_count t (rc_index p) = ref_count s (rc_index p)"
    using pt_ext_tables [OF ext] by blast
  have "g \<notin> set zs" using own inv z(1) by (auto simp: owned_def mm_inv_def alloc_inv_def)
  moreover have "ucount (entry (mem t)) R g = ucount (entry (mem s)) R g"
    by (rule ucount_cong) (simp add: pt_extD(5) [OF ext])
  ultimately show ?thesis using own z pt_extD(4) [OF ext] by (simp add: owned_def page_ok_def)
qed

definition user_perm :: "uint64 \<Rightarrow> uint64" where "user_perm x = PTE_R OR PTE_U OR x"

text \<open>One round of \<open>uvmalloc\<close>: out of memory with nothing changed, or one more zeroed page.\<close>

lemma grow_one:
  assumes inv: "vm_inv s R xs" and r: "r \<in> R" "uva a" "a < newsz" and x: "is_flags xp"
    and e: "entry (mem s) r a AND PTE_V = 0"
  shows "\<exists>t ys. vm_inv t R ys \<and> unaffected R r a (a + PGSIZE) s t \<and> pages R t ys = pages R s xs \<and>
    (uvmalloc_loop r a oldsz newsz xp s = rbind (uvmdealloc r a oldsz t) (\<lambda>(_, u). Inr (0, u)) \<and> length xs \<le> 2 \<and>
       entry (mem t) r a = entry (mem s) r a \<or>
     uvmalloc_loop r a oldsz newsz xp s = uvmalloc_loop r (a + PGSIZE) oldsz newsz xp t \<and> length xs \<le> length ys + 3 \<and>
       PTE_FLAGS (entry (mem t) r a) = user_perm xp OR PTE_V \<and>
       (\<forall>va. PGROUNDDOWN va = a \<longrightarrow> uview t r va = Some 0))"
proof (cases xs)
  case Nil
  then obtain t where t: "kalloc s = Inr (0, t)" "vm_inv t R []" "mem t = mem s"
    using kalloc_empty [of s R] inv by blast
  then have "uvmalloc_loop r a oldsz newsz xp s = rbind (uvmdealloc r a oldsz t) (\<lambda>(_, u). Inr (0, u))"
    using r(3) by (simp add: uvmalloc_loop.simps [of r a])
  moreover have "unaffected R r a (a + PGSIZE) s t"
    using t(3) uview_cong_mem [OF t(3)] by (simp add: unaffected_def)
  moreover have "pages R t [] = pages R s []" by (simp add: pages_def mapped_pages_def t(3))
  ultimately show ?thesis using t(2,3) Nil by (intro exI [of _ t] exI [of _ "[]"]) auto
next
  case (Cons g ys)
  let ?f = "user_perm xp" let ?e' = "PA2PTE g OR ?f OR PTE_V"
  obtain s1 s2 where s2: "kalloc s = Inr (g, s1)" "g \<noteq> 0" "memset_ram g 0 (ucast PGSIZE) s1 = Inr s2"
    "vm_inv s2 R ys" "owned s2 R g" "mem s2 = fill_page g 0 (mem s)"
    "\<forall>r \<in> R. \<forall>va. entry (mem s2) r va = entry (mem s) r va"
    "\<forall>r \<in> R. \<forall>va < TRAPFRAME. uview s2 r va = uview s r va" "pages R s xs = insert g (pages R s2 ys)"
    using alloc_zeroed [of s R g ys] inv Cons by blast
  have ok2: "lock_ready s2" "alloc_inv s2 ys" "tab_inv s2 R" "mm_inv s2 R ys" using vm_invD s2(4) by blast+
  have aM: "a < MAXVA" "page_aligned a" using uva_MAXVA r(2) by (simp_all add: uva_def)
  have ga: "page_aligned g" using s2(5) page_ok_ram(3) by (auto simp: owned_def)
  have u12: "unaffected R r a (a + PGSIZE) s s2" using s2(7,8) by (simp add: unaffected_def)
  consider t where "mappages r a PGSIZE g ?f s2 = Inr (-1, t)" "pt_ext R s2 ys t []" "length ys \<le> 1"
    | t zs where "mappages r a PGSIZE g ?f s2 = Inr (0, t)" "lock_ready t" "pt_upd R s2 ys t zs r a ?e'"
        "length ys \<le> length zs + 2"
    using mappages_one [OF ok2(1-3) r(1) aM(2,1)] by blast
  then show ?thesis
  proof cases
    case (1 t)
    have vt: "vm_inv t R []" "keeps R s2 t"
      using ext_inv [OF ok2(4) 1(2)] pt_extD(1) [OF 1(2)] by (simp_all add: vm_inv_def)
    obtain u where u: "kfree g t = Inr u" "vm_inv u R [g]" "keeps R t u"
      "\<forall>r \<in> R. \<forall>va. entry (mem u) r va = entry (mem t) r va" "pages R u [g] = insert g (pages R t [])"
      using free_owned [OF vt(1) owned_ext [OF ok2(4) s2(5) 1(2)]] by blast
    have "unaffected R r a (a + PGSIZE) s2 u"
      unfolding unaffected_def
    proof (intro ballI allI impI conjI)
      fix r' va assume a: "r' \<in> R" "va < TRAPFRAME"
      show "entry (mem u) r' va = entry (mem s2) r' va" using u(4) pt_extD(5) [OF 1(2)] a(1) by simp
      have "uview u r' va = uview t r' va" by (rule keeps_view [OF u(3) a]) (use u(4) a in simp)
      also have "\<dots> = uview s2 r' va" by (rule keeps_view [OF vt(2) a]) (use pt_extD(5) [OF 1(2)] a in simp)
      finally show "uview u r' va = uview s2 r' va" .
    qed
    then have "unaffected R r a (a + PGSIZE) s u" by (rule unaffected_trans [OF u12])
    moreover have "uvmalloc_loop r a oldsz newsz xp s = rbind (uvmdealloc r a oldsz u) (\<lambda>(_, u). Inr (0, u))"
      using r(3) s2(1-3) 1(1) u(1) by (simp add: uvmalloc_loop.simps [of r a] user_perm_def)
    moreover have "entry (mem u) r a = entry (mem s) r a"
      using u(4) pt_extD(5) [OF 1(2)] s2(7) r(1) by simp
    moreover have "length xs \<le> 2" using 1(3) Cons by simp
    moreover have "pages R u [g] = pages R s xs" using u(5) s2(9) pages_ext [OF 1(2)] by simp
    ultimately show ?thesis using u(2) by blast
  next
    case (2 t zs)
    have fl: "is_flags (?f OR PTE_V)" unfolding user_perm_def by (intro is_flags_or x) simp_all
    have parts: "PTE2PA ?e' = g" "PTE_FLAGS ?e' = ?f OR PTE_V"
      using pte_parts [OF ga fl] by (simp_all add: or.assoc)
    have bit: "?e' AND b = (?f OR PTE_V) AND b" if "is_flags b" for b
      using flag_of_FLAGS [OF that, of ?e'] parts(2) by simp
    have V: "?e' AND PTE_V \<noteq> 0" "?e' AND PTE_U \<noteq> 0" "?f OR PTE_V \<noteq> PTE_V"
    proof -
      have "(?f OR PTE_V) AND PTE_V = PTE_V" "(?f OR PTE_V) AND PTE_U = PTE_U" "PTE_V AND PTE_U = 0"
        unfolding user_perm_def by (rule bit_word_eqI; auto simp: bit_simps bit_PTE)+
      then show "?e' AND PTE_V \<noteq> 0" "?e' AND PTE_U \<noteq> 0" "?f OR PTE_V \<noteq> PTE_V" by (auto simp: bit)
    qed
    have e2: "entry (mem s2) r a AND PTE_V = 0" using s2(7) r(1) e by simp
    have mt: "maps ?e' g" using V(1) parts(1) by (simp add: maps_def)
    have INV: "mm_inv t R zs"
      by (rule owned_map_inv [OF ok2(4) s2(5) r(1,2) 2(3) mt])
        (use parts V e2 pt_updD [OF 2(3)] in \<open>simp_all add: maps_def\<close>)
    have et: "entry (mem t) r' va = (if r' = r \<and> PGROUNDDOWN va = a then ?e' else entry (mem s2) r' va)"
      if "r' \<in> R" "va < MAXVA" for r' va using pt_updD(4) [OF 2(3) that] uva_round [OF r(2)] by simp
    have "unaffected R r a (a + PGSIZE) s2 t"
      unfolding unaffected_def
    proof (intro ballI allI impI)
      fix r' va assume a: "r' \<in> R" "va < TRAPFRAME" "\<not> (r' = r \<and> a \<le> PGROUNDDOWN va \<and> PGROUNDDOWN va < a + PGSIZE)"
      note u = below_TRAPFRAME [OF a(2)]
      have "\<not> (r' = r \<and> PGROUNDDOWN va = a)" using a(3) page_next(3) [OF aM(2,1)] by auto
      then have same: "entry (mem t) r' va = entry (mem s2) r' va" using et [OF a(1) u(2)] by auto
      have "uview t r' va = uview s2 r' va"
      proof (rule uview_cong)
        assume "entry (mem s2) r' va AND PTE_V \<noteq> 0"
        then have "maps (entry (mem s2) r' (PGROUNDDOWN va)) (PTE2PA (entry (mem s2) r' va))"
          by (simp add: maps_def entry_round)
        then show "same_page s2 t (PTE2PA (entry (mem s2) r' va))"
          using pt_upd_user(1) [OF 2(3) vm_invD(5) [OF s2(4)] ok2(2) a(1) u(1)] by blast
      qed (simp_all add: same)
      then show "entry (mem t) r' va = entry (mem s2) r' va \<and> uview t r' va = uview s2 r' va" using same by simp
    qed
    then have un: "unaffected R r a (a + PGSIZE) s t" by (rule unaffected_trans [OF u12])
    have lp: "uvmalloc_loop r a oldsz newsz xp s = uvmalloc_loop r (a + PGSIZE) oldsz newsz xp t"
      using r(3) s2(1-3) 2(1) by (simp add: uvmalloc_loop.simps [of r a] user_perm_def)
    have "uview t r va = Some 0" if va: "PGROUNDDOWN va = a" for va
    proof -
      obtain ws where ws: "ys = ws @ zs"
        "\<And>a. PGROUNDDOWN a \<notin> tables (mem s2) R \<union> set ws \<Longrightarrow> mem t a = mem s2 a"
        using pt_upd_tables [OF 2(3)] by blast
      have "g \<notin> tables (mem s2) R \<union> set ws"
        using s2(5) ok2(2) ws(1) by (auto simp: owned_def alloc_inv_def)
      moreover have pg: "PGROUNDDOWN (g + (va - a)) = g" using page_byte [OF ga, of va] va by simp
      ultimately have "mem t (g + (va - a)) = 0" using ws(2) [of "g + (va - a)"] s2(6) by (simp add: fill_page_def)
      moreover have "entry (mem t) r va = ?e'"
        using et [OF r(1) aM(1)] va entry_round [of "mem t" r va] uva_round [OF r(2)] by simp
      ultimately show ?thesis using V parts(1) va by (simp add: uview_def)
    qed
    moreover have "entry (mem t) r a = ?e'" using et [OF r(1) aM(1)] uva_round [OF r(2)] by simp
    ultimately have fin: "PTE_FLAGS (entry (mem t) r a) = user_perm xp OR PTE_V"
        "\<forall>va. PGROUNDDOWN va = a \<longrightarrow> uview t r va = Some 0" using parts(2) by simp_all
    have "vm_inv t R zs" using 2(2) INV by (simp add: vm_inv_def)
    moreover have "length xs \<le> length zs + 3" using 2(4) Cons by simp
    moreover have "pages R t zs = pages R s xs" using pages_map [OF 2(3) r(1,2) e2 mt] s2(9) by simp
    ultimately show ?thesis using un lp fin by blast
  qed
qed

section \<open>uvmdealloc and uvmalloc\<close>

lemma scast_ucast_small:
  fixes x :: uint64
  assumes "unat x < 2 ^ 31"
  shows "scast (ucast x :: 32 word) = x"
proof (rule bit_word_eqI)
  fix n assume n: "n < LENGTH(64)"
  have small: "bit x k \<Longrightarrow> k < 31" for k
  proof (rule ccontr)
    assume "bit x k" "\<not> k < 31"
    then have "2 ^ k \<le> unat x" using bit_imp_le_length [of x k]
      by (metis bit_unsigned_iff linorder_not_less take_bit_nat_eq_self bit_take_bit_iff
          possible_bit_nat nat_neq_iff unsigned_take_bit_eq bit_iff_odd div_less even_zero)
    moreover have "(2 :: nat) ^ 31 \<le> 2 ^ k" using \<open>\<not> k < 31\<close> by (intro power_increasing) simp_all
    ultimately show False using assms by simp
  qed
  show "bit (scast (ucast x :: 32 word) :: uint64) n = bit x n"
    using small [of n] small [of 31] n by (cases "n < 31") (auto simp: bit_simps min_def)
qed

lemma PGROUNDUP_id: "page_aligned a \<Longrightarrow> unat a + 4095 < 2 ^ 64 \<Longrightarrow> PGROUNDUP a = a"
proof (rule word64_eqI)
  assume a: "page_aligned a" "unat a + 4095 < 2 ^ 64"
  obtain k where k: "unat a = 4096 * k" using a(1) by (auto simp: page_aligned_unat)
  then show "unat (PGROUNDUP a) = unat a" using unat_PGROUNDUP [OF a(2)] by simp
qed

lemma uvmdealloc_ok:
  assumes inv: "vm_inv s R xs" and r: "r \<in> R" and al: "page_aligned a" "page_aligned b"
    and le: "b \<le> a" "a \<le> TRAPFRAME"
    and e: "\<And>va. uva va \<Longrightarrow> b \<le> va \<Longrightarrow> va < a \<Longrightarrow> entry (mem s) r va AND PTE_V \<noteq> 0"
  shows "\<exists>t ys. uvmdealloc r a b s = Inr (b, t) \<and> vm_inv t R ys \<and> set xs \<subseteq> set ys \<and> pages R t ys = pages R s xs \<and> keeps R s t \<and>
    (\<forall>r' \<in> R. \<forall>va < MAXVA. entry (mem t) r' va =
      (if r' = r \<and> b \<le> va \<and> va < a then 0 else entry (mem s) r' va))"
proof (cases "b = a")
  case True
  moreover have "keeps R s s" by (simp add: keeps_def same_page_def)
  ultimately show ?thesis using inv by (auto simp: uvmdealloc_def)
next
  case False
  then have lt: "b < a" using le(1) by simp
  have T: "unat TRAPFRAME = 274877898752" by (simp add: layout_defs)
  have ua: "unat a \<le> 274877898752" using le(2) T by (simp add: word_le_nat_alt)
  have ub: "unat b < unat a" using lt by (simp add: word_less_nat_alt)
  have up: "PGROUNDUP a = a" "PGROUNDUP b = b" using al ua ub by (simp_all add: PGROUNDUP_id)
  obtain j k where jk: "unat a = 4096 * j" "unat b = 4096 * k"
    using al unfolding page_aligned_unat mod_eq_0_iff_dvd dvd_def by blast
  let ?n = "(a - b) div PGSIZE"
  have "unat (a - b) = 4096 * (j - k)" using unat_sub64 [OF le(1)] jk by (simp add: right_diff_distrib')
  then have n: "unat ?n = j - k" by (simp add: unat_div PGSIZE_def)
  have kj: "k < j" using ub jk by simp
  have sc: "scast (ucast ?n :: 32 word) = ?n" by (rule scast_ucast_small) (use n ua jk in simp)
  have stop: "b + ?n * PGSIZE = a"
  proof (rule word64_eqI)
    have "of_nat (unat ?n) = ?n" by simp
    then have "of_nat (j - k) = ?n" unfolding n .
    then show "unat (b + ?n * PGSIZE) = unat a"
      using unat_page_nth(1) [OF al(2), of "j - k"] jk kj ua by simp
  qed
  have "unat b + 4096 * unat ?n \<le> unat TRAPFRAME" using n jk kj ua T by simp
  then have "\<exists>t ys. uvmunmap r b ?n True s = Inr t \<and> vm_inv t R ys \<and> set xs \<subseteq> set ys \<and> pages R t ys = pages R s xs \<and> keeps R s t \<and>
    (\<forall>r' \<in> R. \<forall>va < MAXVA. entry (mem t) r' va =
      (if r' = r \<and> b \<le> va \<and> va < b + ?n * PGSIZE then 0 else entry (mem s) r' va))"
    by (intro uvmunmap_ok [OF inv r al(2)]) (use e stop in auto)
  then obtain t ys where t: "uvmunmap r b ?n True s = Inr t" "vm_inv t R ys" "set xs \<subseteq> set ys" "keeps R s t"
    "\<forall>r' \<in> R. \<forall>va < MAXVA. entry (mem t) r' va =
      (if r' = r \<and> b \<le> va \<and> va < a then 0 else entry (mem s) r' va)" "pages R t ys = pages R s xs"
    unfolding stop by blast
  have "\<not> b \<ge> a" using lt by (simp add: not_le)
  then have "uvmdealloc r a b s = Inr (b, t)" using lt t(1) by (simp add: uvmdealloc_def up sc Let_def)
  then show ?thesis using t(2-6) by blast
qed

text \<open>What \<open>uvmalloc\<close> leaves in \<open>[lo, newsz)\<close>.\<close>

definition grown :: "addr \<Rightarrow> uint64 \<Rightarrow> uint64 \<Rightarrow> uint64 \<Rightarrow> kstate \<Rightarrow> bool" where
  "grown r lo newsz xp t \<longleftrightarrow>
    (\<forall>va < TRAPFRAME. lo \<le> PGROUNDDOWN va \<longrightarrow> PGROUNDDOWN va < newsz \<longrightarrow>
      uview t r va = Some 0 \<and> PTE_FLAGS (entry (mem t) r va) = user_perm xp OR PTE_V)"

lemma unaffected_page:
  assumes "unaffected R r a (a + PGSIZE) s t" "uva a" "a < newsz"
  shows "unaffected R r a newsz s t"
  unfolding unaffected_def
proof (intro ballI allI impI)
  fix r' va assume h: "r' \<in> R" "va < TRAPFRAME" "\<not> (r' = r \<and> a \<le> PGROUNDDOWN va \<and> PGROUNDDOWN va < newsz)"
  have "page_aligned a" "a < MAXVA" using uva_MAXVA assms(2) by (simp_all add: uva_def)
  then have "a \<le> PGROUNDDOWN va \<and> PGROUNDDOWN va < a + PGSIZE \<longleftrightarrow> PGROUNDDOWN va = a"
    using page_range [of a "PGROUNDDOWN va"] by simp
  then have "\<not> (r' = r \<and> a \<le> PGROUNDDOWN va \<and> PGROUNDDOWN va < a + PGSIZE)" using h(3) assms(3) by auto
  then show "entry (mem t) r' va = entry (mem s) r' va \<and> uview t r' va = uview s r' va"
    using assms(1) h(1,2) unfolding unaffected_def by blast
qed

lemma unaffectedD:
  assumes "unaffected R r lo hi s t" "r \<in> R" "va < TRAPFRAME" "\<not> (lo \<le> PGROUNDDOWN va \<and> PGROUNDDOWN va < hi)"
  shows "entry (mem t) r va = entry (mem s) r va" "uview t r va = uview s r va"
  using assms unfolding unaffected_def by blast+

lemma grow_fail:
  assumes inv: "vm_inv t R ys" and r: "r \<in> R" and a: "page_aligned a" "page_aligned lo" "lo \<le> a" "a \<le> TRAPFRAME" "a < newsz"
    and lo: "\<And>va. uva va \<Longrightarrow> lo \<le> va \<Longrightarrow> va < a \<Longrightarrow> entry (mem t) r va AND PTE_V \<noteq> 0"
    and hi: "\<And>va. uva va \<Longrightarrow> a \<le> va \<Longrightarrow> va < newsz \<Longrightarrow> entry (mem t) r va AND PTE_V = 0"
  shows "\<exists>u zs. uvmdealloc r a lo t = Inr (lo, u) \<and> vm_inv u R zs \<and> unaffected R r lo newsz t u \<and> pages R u zs = pages R t ys \<and>
    (\<forall>va. uva va \<longrightarrow> lo \<le> va \<longrightarrow> va < newsz \<longrightarrow> entry (mem u) r va AND PTE_V = 0)"
proof -
  have "\<exists>u zs. uvmdealloc r a lo t = Inr (lo, u) \<and> vm_inv u R zs \<and> set ys \<subseteq> set zs \<and> pages R u zs = pages R t ys \<and> keeps R t u \<and>
      (\<forall>r' \<in> R. \<forall>va < MAXVA. entry (mem u) r' va =
        (if r' = r \<and> lo \<le> va \<and> va < a then 0 else entry (mem t) r' va))"
    by (rule uvmdealloc_ok [OF inv r a(1-4) lo])
  then obtain u zs where u: "uvmdealloc r a lo t = Inr (lo, u)" "vm_inv u R zs" "keeps R t u"
    "\<forall>r' \<in> R. \<forall>va < MAXVA. entry (mem u) r' va =
        (if r' = r \<and> lo \<le> va \<and> va < a then 0 else entry (mem t) r' va)" "pages R u zs = pages R t ys" by blast
  have "unaffected R r lo newsz t u"
    unfolding unaffected_def
  proof (intro ballI allI impI)
    fix r' va assume h: "r' \<in> R" "va < TRAPFRAME" "\<not> (r' = r \<and> lo \<le> PGROUNDDOWN va \<and> PGROUNDDOWN va < newsz)"
    note b = below_TRAPFRAME [OF h(2)]
    have "entry (mem u) r' (PGROUNDDOWN va) = entry (mem t) r' (PGROUNDDOWN va)"
      using u(4) h(1,3) uva_MAXVA [OF b(1)] a(5) by auto
    then have e: "entry (mem u) r' va = entry (mem t) r' va" by (simp add: entry_round)
    then show "entry (mem u) r' va = entry (mem t) r' va \<and> uview u r' va = uview t r' va"
      using keeps_view [OF u(3) h(1,2) e] by simp
  qed
  moreover have "entry (mem u) r va AND PTE_V = 0" if "uva va" "lo \<le> va" "va < newsz" for va
    using u(4) r that uva_MAXVA hi [OF that(1) _ that(3)] by (cases "va < a") auto
  ultimately show ?thesis using u(1,2,5) by blast
qed

lemma grown_step:
  assumes r: "r \<in> R" "uva a" and u: "unaffected R r (a + PGSIZE) newsz t u" "grown r (a + PGSIZE) newsz xp u"
    and fa: "PTE_FLAGS (entry (mem t) r a) = user_perm xp OR PTE_V"
    and va0: "\<forall>va. PGROUNDDOWN va = a \<longrightarrow> uview t r va = Some 0"
  shows "grown r a newsz xp u"
  unfolding grown_def
proof (intro allI impI)
  fix va assume h: "va < TRAPFRAME" "a \<le> PGROUNDDOWN va" "PGROUNDDOWN va < newsz"
  have a: "page_aligned a" "a < MAXVA" using r(2) uva_MAXVA by (simp_all add: uva_def)
  show "uview u r va = Some 0 \<and> PTE_FLAGS (entry (mem u) r va) = user_perm xp OR PTE_V"
  proof (cases "PGROUNDDOWN va = a")
    case True
    have "\<not> (a + PGSIZE \<le> PGROUNDDOWN va \<and> PGROUNDDOWN va < newsz)" using True page_next(3) [OF a] by (simp add: not_le)
    note d = unaffectedD [OF u(1) r(1) h(1) this]
    have "entry (mem t) r va = entry (mem t) r a" using True entry_round by metis
    then show ?thesis using d va0 fa True by simp
  next
    case False
    then have "a + PGSIZE \<le> PGROUNDDOWN va" using page_le_less [OF a(1) _ _ a(2), of "PGROUNDDOWN va"] h(2) by simp
    then show ?thesis using u(2) h by (simp add: grown_def)
  qed
qed

lemma uvmalloc_loop_ok:
  assumes "vm_inv s R xs" "r \<in> R" "page_aligned a" "page_aligned lo" "lo \<le> a" "a \<le> TRAPFRAME" "newsz \<le> TRAPFRAME"
    "unat newsz \<le> unat a + 4096 * n" "is_flags xp"
    and "\<And>va. uva va \<Longrightarrow> lo \<le> va \<Longrightarrow> va < a \<Longrightarrow> entry (mem s) r va AND PTE_V \<noteq> 0"
    and "\<And>va. uva va \<Longrightarrow> a \<le> va \<Longrightarrow> va < newsz \<Longrightarrow> entry (mem s) r va AND PTE_V = 0"
  shows "\<exists>ret t ys. uvmalloc_loop r a lo newsz xp s = Inr (ret, t) \<and> vm_inv t R ys \<and> pages R t ys = pages R s xs \<and>
    (3 * n \<le> length xs \<longrightarrow> ret = newsz \<and> grown r a newsz xp t \<and> length xs \<le> length ys + 3 * n) \<and>
    (ret = newsz \<and> unaffected R r a newsz s t \<and> grown r a newsz xp t \<or>
     ret = 0 \<and> unaffected R r lo newsz s t \<and>
       (\<forall>va. uva va \<longrightarrow> lo \<le> va \<longrightarrow> va < newsz \<longrightarrow> entry (mem t) r va AND PTE_V = 0))"
  using assms
proof (induction n arbitrary: a s xs)
  case 0
  then have "\<not> a < newsz" by (simp add: word_less_nat_alt)
  then show ?case
    using 0(1) by (auto simp: uvmalloc_loop.simps unaffected_def grown_def)
next
  case (Suc n)
  show ?case
  proof (cases "a < newsz")
    case False
    then show ?thesis
      using Suc.prems(1) by (auto simp: uvmalloc_loop.simps unaffected_def grown_def)
  next
    case True
    then have ua: "uva a" using Suc.prems(3,7) by (simp add: uva_def)
    have aM: "a < MAXVA" "a < TRAPFRAME" using uva_MAXVA [OF ua] ua by (simp_all add: uva_def)
    note nxt = page_next [OF Suc.prems(3) aM(1)]
    have uv: "va < TRAPFRAME \<and> PGROUNDDOWN va = va" if "uva va" for va
      using that uva_round by (simp add: uva_def)
    have ge: "a + PGSIZE \<le> va \<longleftrightarrow> a \<le> va \<and> va \<noteq> a" if "page_aligned va" for va
      using page_le_less [OF Suc.prems(3) that _ aM(1)] nxt(3) by auto
    obtain t ys where t: "vm_inv t R ys" "unaffected R r a (a + PGSIZE) s t" "pages R t ys = pages R s xs"
      and c: "uvmalloc_loop r a lo newsz xp s = rbind (uvmdealloc r a lo t) (\<lambda>(_, u). Inr (0, u)) \<and> length xs \<le> 2 \<and>
         entry (mem t) r a = entry (mem s) r a \<or>
       uvmalloc_loop r a lo newsz xp s = uvmalloc_loop r (a + PGSIZE) lo newsz xp t \<and> length xs \<le> length ys + 3 \<and>
         PTE_FLAGS (entry (mem t) r a) = user_perm xp OR PTE_V \<and>
         (\<forall>va. PGROUNDDOWN va = a \<longrightarrow> uview t r va = Some 0)"
      using grow_one [OF Suc.prems(1,2) ua True Suc.prems(9) Suc.prems(11) [OF ua _ True], of lo] by blast
    note un = unaffected_page [OF t(2) ua True]
    have ent: "entry (mem t) r va = entry (mem s) r va" if "uva va" "va \<noteq> a" for va
      using unaffectedD(1) [OF t(2) Suc.prems(2), of va] uv [OF that(1)] that ge [of va]
      by (auto simp: uva_def not_less)
    from c show ?thesis
    proof (elim disjE conjE)
      assume l: "uvmalloc_loop r a lo newsz xp s = rbind (uvmdealloc r a lo t) (\<lambda>(_, u). Inr (0, u))" and lx: "length xs \<le> 2"
        and ea: "entry (mem t) r a = entry (mem s) r a"
      have same: "entry (mem t) r va = entry (mem s) r va" if "uva va" for va
        using ent [OF that] ea by (cases "va = a") auto
      have "\<exists>u zs. uvmdealloc r a lo t = Inr (lo, u) \<and> vm_inv u R zs \<and> unaffected R r lo newsz t u \<and> pages R u zs = pages R t ys \<and>
          (\<forall>va. uva va \<longrightarrow> lo \<le> va \<longrightarrow> va < newsz \<longrightarrow> entry (mem u) r va AND PTE_V = 0)"
        by (rule grow_fail [OF t(1) Suc.prems(2-6) True]) (use same Suc.prems(10,11) in simp_all)
      then obtain u zs where "uvmdealloc r a lo t = Inr (lo, u)" "vm_inv u R zs" "unaffected R r lo newsz t u" "pages R u zs = pages R t ys"
        "\<forall>va. uva va \<longrightarrow> lo \<le> va \<longrightarrow> va < newsz \<longrightarrow> entry (mem u) r va AND PTE_V = 0"
        by blast
      moreover from this have "unaffected R r lo newsz s u"
        using unaffected_mono [OF un Suc.prems(5) order_refl] unaffected_trans by blast
      ultimately show ?thesis using l lx t(3) by auto
    next
      assume l: "uvmalloc_loop r a lo newsz xp s = uvmalloc_loop r (a + PGSIZE) lo newsz xp t" and lx: "length xs \<le> length ys + 3"
        and fa: "PTE_FLAGS (entry (mem t) r a) = user_perm xp OR PTE_V"
        and va0: "\<forall>va. PGROUNDDOWN va = a \<longrightarrow> uview t r va = Some 0"
      have "uview t r a = Some 0" using va0 uva_round [OF ua] by simp
      then have Va: "entry (mem t) r a AND PTE_V \<noteq> 0" by (auto simp: uview_def Let_def split: if_splits)
      have "\<exists>ret u zs. uvmalloc_loop r (a + PGSIZE) lo newsz xp t = Inr (ret, u) \<and> vm_inv u R zs \<and> pages R u zs = pages R t ys \<and>
        (3 * n \<le> length ys \<longrightarrow> ret = newsz \<and> grown r (a + PGSIZE) newsz xp u \<and> length ys \<le> length zs + 3 * n) \<and>
        (ret = newsz \<and> unaffected R r (a + PGSIZE) newsz t u \<and> grown r (a + PGSIZE) newsz xp u \<or>
         ret = 0 \<and> unaffected R r lo newsz t u \<and>
           (\<forall>va. uva va \<longrightarrow> lo \<le> va \<longrightarrow> va < newsz \<longrightarrow> entry (mem u) r va AND PTE_V = 0))"
      proof (rule Suc.IH [OF t(1) Suc.prems(2) nxt(2) Suc.prems(4)])
        show "lo \<le> a + PGSIZE" using Suc.prems(5) nxt(3) by (meson less_imp_le order_trans)
        show "a + PGSIZE \<le> TRAPFRAME"
          by (rule page_le_less [OF Suc.prems(3) _ aM(2,1)]) (simp add: page_aligned_def layout_defs)
        show "unat newsz \<le> unat (a + PGSIZE) + 4096 * n" using Suc.prems(8) nxt(1) by simp
      next
        fix va assume "uva va" "lo \<le> va" "va < a + PGSIZE"
        then show "entry (mem t) r va AND PTE_V \<noteq> 0"
          using Suc.prems(10) ent ge [of va] Va by (cases "va = a") (auto simp: uva_def not_le not_less)
      next
        fix va assume "uva va" "a + PGSIZE \<le> va" "va < newsz"
        then show "entry (mem t) r va AND PTE_V = 0"
          using Suc.prems(11) ent ge [of va] by (auto simp: uva_def)
      qed (use Suc.prems in auto)
      then obtain ret u zs where u: "uvmalloc_loop r (a + PGSIZE) lo newsz xp t = Inr (ret, u)" "vm_inv u R zs" "pages R u zs = pages R s xs"
        and lz: "3 * n \<le> length ys \<longrightarrow> ret = newsz \<and> grown r (a + PGSIZE) newsz xp u \<and> length ys \<le> length zs + 3 * n"
        and c: "ret = newsz \<and> unaffected R r (a + PGSIZE) newsz t u \<and> grown r (a + PGSIZE) newsz xp u \<or>
         ret = 0 \<and> unaffected R r lo newsz t u \<and>
           (\<forall>va. uva va \<longrightarrow> lo \<le> va \<longrightarrow> va < newsz \<longrightarrow> entry (mem u) r va AND PTE_V = 0)" unfolding t(3) by blast
      from c show ?thesis
      proof (elim disjE conjE)
        assume r: "ret = newsz" "unaffected R r (a + PGSIZE) newsz t u" "grown r (a + PGSIZE) newsz xp u"
        have "unaffected R r a newsz t u"
          by (rule unaffected_mono [OF r(2) less_imp_le [OF nxt(3)] order_refl])
        then have "unaffected R r a newsz s u" using un unaffected_trans by blast
        moreover have "grown r a newsz xp u"
          by (rule grown_step [OF Suc.prems(2) ua r(2,3) fa va0])
        ultimately show ?thesis using l u r(1) lx lz by auto
      next
        assume r: "ret = 0" "unaffected R r lo newsz t u"
          "\<forall>va. uva va \<longrightarrow> lo \<le> va \<longrightarrow> va < newsz \<longrightarrow> entry (mem u) r va AND PTE_V = 0"
        have "unaffected R r lo newsz s u"
          using unaffected_mono [OF un Suc.prems(5) order_refl] r(2) unaffected_trans by blast
        moreover have "\<not> 3 * Suc n \<le> length xs" using lz r(1) True lx by auto
        ultimately show ?thesis using l u r by auto
      qed
    qed
  qed
qed

end
