(* ===== verification/Memory.thy ===== *)
theory Memory
  imports Space
begin

text \<open>What the memory system of \<open>kernel/vm.c\<close> and \<open>kernel/kalloc.c\<close> promises to a process, stated with
  the user's view \<open>uview\<close>: growing, sharing by \<open>uvmcopy\<close>, resolving a copy-on-write fault, and copying
  between kernel and user, together with what happens when memory runs out or an address is not mapped.
  The witnesses run the kernel's own code from boot.\<close>

section \<open>The results of the loops, for whole calls\<close>

lemma uvmalloc_ok:
  assumes inv: "vm_inv s R xs" and r: "r \<in> R" and sz: "oldsz \<le> newsz" "newsz \<le> TRAPFRAME"
    and n: "unat newsz \<le> unat (PGROUNDUP oldsz) + 4096 * n" and x: "is_flags xp"
    and e: "\<And>va. uva va \<Longrightarrow> PGROUNDUP oldsz \<le> va \<Longrightarrow> va < newsz \<Longrightarrow> entry (mem s) r va AND PTE_V = 0"
  shows "\<exists>ret t ys. uvmalloc r oldsz newsz xp s = Inr (ret, t) \<and> vm_inv t R ys \<and> pages R t ys = pages R s xs \<and>
    (3 * n \<le> length xs \<longrightarrow> ret = newsz \<and> grown r (PGROUNDUP oldsz) newsz xp t \<and> length xs \<le> length ys + 3 * n) \<and>
    (ret = newsz \<and> unaffected R r (PGROUNDUP oldsz) newsz s t \<and> grown r (PGROUNDUP oldsz) newsz xp t \<or>
     ret = 0 \<and> unaffected R r (PGROUNDUP oldsz) newsz s t \<and>
       (\<forall>va. uva va \<longrightarrow> PGROUNDUP oldsz \<le> va \<longrightarrow> va < newsz \<longrightarrow> entry (mem t) r va AND PTE_V = 0))"
proof -
  have T: "unat TRAPFRAME = 274877898752" by (simp add: layout_defs)
  have o: "unat oldsz \<le> 274877898752" using order_trans [OF sz] T by (simp add: word_le_nat_alt)
  have "unat (PGROUNDUP oldsz) = (unat oldsz + 4095) div 4096 * 4096" by (rule unat_PGROUNDUP) (use o in simp)
  also have "\<dots> \<le> 274877898752" using o by (simp add: div_mult_mod_eq)
  finally have "PGROUNDUP oldsz \<le> TRAPFRAME" using T by (simp add: word_le_nat_alt)
  moreover have "page_aligned (PGROUNDUP oldsz)" by simp
  moreover have "uvmalloc r oldsz newsz xp s = uvmalloc_loop r (PGROUNDUP oldsz) (PGROUNDUP oldsz) newsz xp s"
    using sz(1) by (simp add: uvmalloc_def Let_def leD)
  moreover have "False" if "PGROUNDUP oldsz \<le> va" "va < PGROUNDUP oldsz" for va using that by simp
  ultimately show ?thesis
    using uvmalloc_loop_ok [OF inv r _ _ order_refl _ sz(2) n x] e by auto
qed

text \<open>Where the pages are that a failed call took: free again, or holding a page table.\<close>

lemma pages_unmapped:
  assumes "vm_inv s R xs" "vm_inv t R ys" "pages R t ys = pages R s xs" "mapped_pages R t = mapped_pages R s"
  shows "set ys \<union> tables (mem t) R = set xs \<union> tables (mem s) R"
proof -
  have "mapped_pages R u \<inter> (set zs \<union> tables (mem u) R) = {}" if "vm_inv u R zs" for u zs
    using user_page(2) [OF vm_invD(5) [OF that]] user_page_not_free [OF vm_invD(5) [OF that] vm_invD(3) [OF that]]
    by (auto simp: mapped_pages_def)
  from this [OF assms(1)] this [OF assms(2)] show ?thesis using assms(3,4) by (auto simp: pages_def)
qed

lemma mapped_pages_unaffected:
  assumes "unaffected R r lo hi s t"
    and "\<And>va. uva va \<Longrightarrow> lo \<le> va \<Longrightarrow> va < hi \<Longrightarrow> entry (mem s) r va AND PTE_V = 0"
    and "\<And>va. uva va \<Longrightarrow> lo \<le> va \<Longrightarrow> va < hi \<Longrightarrow> entry (mem t) r va AND PTE_V = 0"
  shows "mapped_pages R t = mapped_pages R s"
proof -
  have "maps (entry (mem t) r' va) p \<longleftrightarrow> maps (entry (mem s) r' va) p" if "r' \<in> R" "uva va" for r' va p
    using assms that uva_round [OF that(2)] unfolding unaffected_def maps_def uva_def by metis
  then show ?thesis unfolding mapped_pages_def by (metis (no_types, lifting))
qed

lemma cowed_view:
  assumes "keeps R s t" "r \<in> R" "va < TRAPFRAME" "cowed (entry (mem s) r' va) (entry (mem t) r va)"
  shows "uview t r va = uview s r' va"
proof -
  let ?e = "entry (mem s) r' va" and ?e' = "entry (mem t) r va"
  have bits: "?e' AND PTE_V = ?e AND PTE_V" "?e' AND PTE_U = ?e AND PTE_U" and pa: "PTE2PA ?e' = PTE2PA ?e"
    using cowed_bits [OF assms(4)] assms(4) by (simp_all add: cowed_def)
  have "same_page s t (PTE2PA ?e)" if "?e AND PTE_V \<noteq> 0"
  proof -
    have "maps (entry (mem t) r (PGROUNDDOWN va)) (PTE2PA ?e)"
      using that bits pa by (simp add: maps_def entry_round)
    then show ?thesis by (rule keepsD [OF assms(1,2) below_TRAPFRAME(1) [OF assms(3)]])
  qed
  then show ?thesis using bits pa by (auto simp: uview_def Let_def same_page_def page_byte)
qed

text \<open>A copied address space, seen by the two processes and by all others.\<close>

lemma uvmcopy_ok:
  assumes inv: "vm_inv s R xs" and r: "old \<in> R" "new \<in> R" "old \<noteq> new" and sz: "sz \<le> TRAPFRAME"
    and n: "unat sz \<le> 4096 * n"
    and o: "\<And>va. uva va \<Longrightarrow> va < sz \<Longrightarrow> entry (mem s) old va AND PTE_V \<noteq> 0"
    and e: "\<And>va. uva va \<Longrightarrow> entry (mem s) new va AND PTE_V = 0"
  shows "\<exists>ret t ys. uvmcopy old new sz s = Inr (ret, t) \<and> vm_inv t R ys \<and> copied R old new 0 sz s ret t \<and>
    (2 * n \<le> length xs \<longrightarrow> ret = 0 \<and> length xs \<le> length ys + 2 * n) \<and>
    (\<forall>r \<in> R - {new}. \<forall>va < TRAPFRAME. uview t r va = uview s r va) \<and>
    (ret = 0 \<and> (\<forall>va < TRAPFRAME. uview t new va = (if PGROUNDDOWN va < sz then uview s old va else None)) \<or>
     ret = -1 \<and> (\<forall>va < TRAPFRAME. uview t new va = None))"
proof -
  obtain ret t ys where t: "uvmcopy old new sz s = Inr (ret, t)" "vm_inv t R ys" "keeps R s t"
    "copied R old new 0 sz s ret t" "2 * n \<le> length xs \<longrightarrow> ret = 0" "ret = 0 \<longrightarrow> length xs \<le> length ys + 2 * n"
    using uvmcopy_loop_ok [OF inv r, of 0 sz n] sz n o e by (auto simp: uvmcopy_def page_aligned_def)
  have others: "uview t r va = uview s r va" if h: "r \<in> R - {new}" "va < TRAPFRAME" for r va
  proof -
    note u = below_TRAPFRAME(1) [OF h(2)]
    consider "entry (mem t) r va = entry (mem s) r va" | "cowed (entry (mem s) r va) (entry (mem t) r va)"
      using t(4) h(1) u entry_round [of "mem t" r va] entry_round [of "mem s" r va]
      unfolding copied_def by (metis DiffE singletonI)
    then show ?thesis
      using keeps_view [OF t(3) _ h(2)] cowed_view [OF t(3) _ h(2)] h(1) by cases auto
  qed
  have "uview t new va = (if PGROUNDDOWN va < sz then uview s old va else None)" if "ret = 0" and h: "va < TRAPFRAME" for va
  proof -
    note u = below_TRAPFRAME(1) [OF h]
    show ?thesis
    proof (cases "PGROUNDDOWN va < sz")
      case True
      then have "cowed (entry (mem s) old va) (entry (mem t) new va)"
        using t(4) u that(1) entry_round [of "mem t" new va] entry_round [of "mem s" old va]
        unfolding copied_def by auto
      then show ?thesis using cowed_view [OF t(3) r(2) h] True by simp
    next
      case False
      then have "entry (mem t) new va = entry (mem s) new va"
        using t(4) u that(1) entry_round [of "mem t" new va] entry_round [of "mem s" new va]
        unfolding copied_def by auto
      then show ?thesis using e [OF u] False by (simp add: uview_def entry_round)
    qed
  qed
  moreover have "uview t new va = None" if "ret = -1" "va < TRAPFRAME" for va
    using t(4) that below_TRAPFRAME(1) [OF that(2)] entry_round [of "mem t" new va]
    unfolding copied_def by (auto simp: uview_def)
  moreover have "ret = 0 \<or> ret = -1" using t(4) unfolding copied_def by blast
  ultimately show ?thesis using t others by blast
qed

section \<open>A kernel with two processes\<close>

text \<open>Boot with twelve free pages, make an address space of one writable page, and an empty one.\<close>

definition mem_boot :: kstate where
  "mem_boot = demo_boot\<lparr>kend := 0x87FF3001\<rparr>"

definition two_spaces :: "(addr \<times> addr \<times> kstate) result" where
  "two_spaces =
    rbind (kinit mem_boot) (\<lambda>s0.
    rbind (uvmcreate s0) (\<lambda>(r, s1).
    rbind (uvmalloc r 0 PGSIZE PTE_W s1) (\<lambda>(_, s2).
    rbind (uvmcreate s2) (\<lambda>(c, s3). Inr (r, c, s3)))))"

lemma mem_booted:
  obtains s xs where "kinit mem_boot = Inr s" "vm_inv s {} xs" "length xs = 12"
proof -
  have "boot_state mem_boot"
    by (simp add: boot_state_def mem_boot_def demo_boot_def layout_defs cpu_ok_def)
  then obtain s where s: "kinit mem_boot = Inr s" "lock_ready s" "alloc_inv s (boot_pages mem_boot)"
    using kinit_inv by blast
  have p: "PGROUNDUP (kend mem_boot) = 0x87FF4000" by (simp add: mem_boot_def PGROUNDUP_def PGSIZE_def)
  have "length (boot_pages mem_boot) = 12"
    unfolding boot_pages_def p by (simp add: layout_defs pages_down_def)
  moreover have "vm_inv s {} (boot_pages mem_boot)"
    using s(2,3) by (simp add: vm_inv_def mm_inv_def tab_inv_def tables_def user_ok_def)
  ultimately show ?thesis using that s(1) by blast
qed

lemma one_page_range: "va < TRAPFRAME \<Longrightarrow> PGROUNDDOWN va < PGSIZE \<longleftrightarrow> PGROUNDDOWN va = 0"
proof
  assume "PGROUNDDOWN va < PGSIZE"
  then have "unat va div 4096 * 4096 < 4096"
    by (simp add: word_less_nat_alt unat_PGROUNDDOWN PGSIZE_def)
  then have "unat (PGROUNDDOWN va) = 0" by (simp add: unat_PGROUNDDOWN)
  then show "PGROUNDDOWN va = 0" by (simp add: unat_eq_zero)
qed (simp add: PGSIZE_def)

lemma two_spaces_ok:
  obtains r c s xs where "two_spaces = Inr (r, c, s)" "vm_inv s {c, r} xs" "r \<noteq> c" "5 \<le> length xs"
    "\<And>va. va < TRAPFRAME \<Longrightarrow> PGROUNDDOWN va < PGSIZE \<Longrightarrow>
       uview s r va = Some 0 \<and> PTE_FLAGS (entry (mem s) r va) = user_perm PTE_W OR PTE_V"
    "\<And>va. entry (mem s) c va = 0" "\<And>va. node (mem s) c [PX 2 va, PX 1 va] = None"
proof -
  obtain s0 xs0 where s0: "kinit mem_boot = Inr s0" "vm_inv s0 {} xs0" "length xs0 = 12"
    by (rule mem_booted)
  obtain r xs1 where x0: "xs0 = r # xs1" using s0(3) by (cases xs0) auto
  obtain s1 where s1: "uvmcreate s0 = Inr (r, s1)" "vm_inv s1 {r} xs1" "\<forall>va. entry (mem s1) r va = 0"
    using uvmcreate_ok [of s0 "{}" r xs1] s0(2) x0 by blast
  have l1: "length xs1 = 11" using s0(3) x0 by simp
  have up: "PGROUNDUP 0 = 0" by (simp add: PGROUNDUP_def PGSIZE_def)
  obtain ret s2 xs2 where s2: "uvmalloc r 0 PGSIZE PTE_W s1 = Inr (ret, s2)" "vm_inv s2 {r} xs2"
    "grown r 0 PGSIZE PTE_W s2" "length xs1 \<le> length xs2 + 3"
    using uvmalloc_ok [OF s1(2), of r 0 PGSIZE 1 PTE_W] s1(3) l1 unfolding up
    by (auto simp: PGSIZE_def layout_defs)
  obtain c xs3 where x2: "xs2 = c # xs3" using s2(4) l1 by (cases xs2) auto
  obtain s3 where s3: "uvmcreate s2 = Inr (c, s3)" "vm_inv s3 {c, r} xs3" "c \<notin> {r}"
    "\<forall>va. entry (mem s3) c va = 0" "\<forall>va. node (mem s3) c [PX 2 va, PX 1 va] = None" "\<forall>va. entry (mem s3) r va = entry (mem s2) r va"
    "\<forall>va < TRAPFRAME. uview s3 r va = uview s2 r va"
    using uvmcreate_ok [of s2 "{r}" c xs3] s2(2) x2 by blast
  have "two_spaces = Inr (r, c, s3)" using s0(1) s1(1) s2(1) s3(1) by (simp add: two_spaces_def)
  moreover have "5 \<le> length xs3" using s2(4) l1 x2 by simp
  moreover have "uview s3 r va = Some 0 \<and> PTE_FLAGS (entry (mem s3) r va) = user_perm PTE_W OR PTE_V"
    if "va < TRAPFRAME" "PGROUNDDOWN va < PGSIZE" for va
    using s2(3) s3(6,7) that by (auto simp: grown_def)
  ultimately show ?thesis using that s3 by blast
qed

lemma user_perm_bits:
  assumes "PTE_FLAGS e = user_perm PTE_W OR PTE_V"
  shows "e AND PTE_V \<noteq> 0" "e AND PTE_U \<noteq> 0" "e AND PTE_W \<noteq> 0"
proof -
  have "PTE_FLAGS e AND PTE_V = e AND PTE_V" "PTE_FLAGS e AND PTE_U = e AND PTE_U" "PTE_FLAGS e AND PTE_W = e AND PTE_W"
    by (simp_all add: and_PTE_FLAGS)
  then show "e AND PTE_V \<noteq> 0" "e AND PTE_U \<noteq> 0" "e AND PTE_W \<noteq> 0"
    using assms by (simp_all add: user_perm_def PTE_V_def PTE_U_def PTE_W_def PTE_R_def)
qed

lemma cowed_shared:
  assumes "cowed e e'"
  shows "PTE2PA e' = PTE2PA e \<and> (if e AND PTE_W \<noteq> 0 then e' AND PTE_W = 0 \<and> e' AND PTE_COW \<noteq> 0 else PTE_FLAGS e' = PTE_FLAGS e)"
proof -
  have f: "e' AND PTE_W = PTE_FLAGS e' AND PTE_W" "e' AND PTE_COW = PTE_FLAGS e' AND PTE_COW" by (simp_all add: and_PTE_FLAGS)
  have "PTE_COW \<noteq> 0" by (simp add: PTE_COW_def)
  then show ?thesis using assms cow_flags_bits(1,2) [of "PTE_FLAGS e"] by (auto simp: cowed_def f)
qed

text \<open>A mapping made by \<open>uvmcopy\<close> can still be written to, through the fault handler.\<close>

lemma cowed_writable:
  assumes "cowed e e'" "writable e"
  shows "writable e'" "e' AND PTE_COW \<noteq> 0"
proof -
  have f: "PTE_FLAGS x AND PTE_COW = x AND PTE_COW" for x by (simp add: and_PTE_FLAGS)
  have "PTE_COW \<noteq> 0" by (simp add: PTE_COW_def)
  then show "e' AND PTE_COW \<noteq> 0"
    using assms f [of e'] f [of e] cow_flags_bits(2) [of "PTE_FLAGS e"]
    by (auto simp: cowed_def writable_def split: if_splits)
  then show "writable e'" using assms cowed_bits [OF assms(1)] by (auto simp: writable_def)
qed

definition forked :: "(addr \<times> addr \<times> kstate) result" where
  "forked = rbind two_spaces (\<lambda>(r, c, s). rbind (uvmcopy r c PGSIZE s) (\<lambda>(_, t). Inr (r, c, t)))"

lemma PGSIZE_TRAPFRAME: "PGSIZE \<le> TRAPFRAME" "unat PGSIZE \<le> 4096 * 1" "0 < TRAPFRAME"
  by (simp_all add: PGSIZE_def layout_defs)

lemma uva_below_PGSIZE: "uva va \<Longrightarrow> va < PGSIZE \<Longrightarrow> va = 0"
  using one_page_range [of va] by (simp add: uva_def PGROUNDDOWN_id)

lemma forked_ok:
  obtains r c s xs where "forked = Inr (r, c, s)" "vm_inv s {c, r} xs" "r \<noteq> c" "3 \<le> length xs"
    "writable (entry (mem s) c 0)" "entry (mem s) c 0 AND PTE_COW \<noteq> 0"
    "PTE2PA (entry (mem s) r 0) = PTE2PA (entry (mem s) c 0)" "entry (mem s) r 0 AND PTE_V \<noteq> 0"
proof -
  obtain r c s xs where s: "two_spaces = Inr (r, c, s)" "vm_inv s {c, r} xs" "r \<noteq> c" "5 \<le> length xs"
    "\<And>va. va < TRAPFRAME \<Longrightarrow> PGROUNDDOWN va < PGSIZE \<Longrightarrow>
       uview s r va = Some 0 \<and> PTE_FLAGS (entry (mem s) r va) = user_perm PTE_W OR PTE_V"
    "\<And>va. entry (mem s) c va = 0" "\<And>va. node (mem s) c [PX 2 va, PX 1 va] = None"
    by (rule two_spaces_ok) blast
  have 0: "PGROUNDDOWN 0 = 0" "(0 :: uint64) < PGSIZE" "uva 0"
    using PGSIZE_TRAPFRAME(3) by (simp_all add: PGROUNDDOWN_def PGSIZE_def uva_def page_aligned_def)
  have f: "PTE_FLAGS (entry (mem s) r 0) = user_perm PTE_W OR PTE_V"
    using s(5) [OF PGSIZE_TRAPFRAME(3)] 0 by simp
  note bits = user_perm_bits [OF f]
  have e: "entry (mem s) r va AND PTE_V \<noteq> 0" if "uva va" "va < PGSIZE" for va
    using uva_below_PGSIZE [OF that] bits(1) by simp
  obtain ret t ys where t: "uvmcopy r c PGSIZE s = Inr (ret, t)" "vm_inv t {c, r} ys" "copied {c, r} r c 0 PGSIZE s ret t"
    "2 * 1 \<le> length xs \<longrightarrow> ret = 0 \<and> length xs \<le> length ys + 2 * 1"
    using uvmcopy_ok [OF s(2) _ _ s(3) PGSIZE_TRAPFRAME(1,2) e] s(6) by auto
  then have cw: "cowed (entry (mem s) r 0) (entry (mem t) r 0)" "cowed (entry (mem s) r 0) (entry (mem t) c 0)"
    using s(4) 0 by (auto simp: copied_def)
  have w: "writable (entry (mem s) r 0)" using bits by (simp add: writable_def)
  have "forked = Inr (r, c, t)" unfolding forked_def s(1) by (simp add: t(1))
  moreover have "3 \<le> length ys" using s(4) t(4) by simp
  moreover have "PTE2PA (entry (mem t) r 0) = PTE2PA (entry (mem t) c 0)" using cw by (simp add: cowed_def)
  ultimately show ?thesis
    using that t(2) s(3) cowed_writable [OF cw(2) w] cowed_writable [OF cw(1) w] unfolding writable_def by blast
qed

lemma kalloc_vm:
  assumes "vm_inv s R (g # ys)"
  shows "\<exists>t. kalloc s = Inr (g, t) \<and> vm_inv t R ys \<and> (\<forall>r \<in> R. \<forall>va. entry (mem t) r va = entry (mem s) r va)"
proof -
  obtain t where t: "kalloc s = Inr (g, t)" "lock_ready t" "alloc_inv t ys" "allocated s g t"
    using locked.alloc_some [OF vm_invD(1,3) [OF assms]] by blast
  have "mem t a = mem s a" if "PGROUNDDOWN a \<noteq> g" for a using t(4) that by (simp add: allocated_def)
  then show ?thesis
    using alloc_owned [of s R g ys t] vm_invD(2) [OF assms] t by (auto simp: allocated_def vm_inv_def)
qed

lemma drain:
  "vm_inv s R xs \<Longrightarrow>
    \<exists>ps t. alloc_times kalloc (length xs) s = Inr (ps, t) \<and> vm_inv t R [] \<and>
      (\<forall>r \<in> R. \<forall>va. entry (mem t) r va = entry (mem s) r va)"
proof (induction xs arbitrary: s)
  case (Cons g ys)
  obtain t where t: "kalloc s = Inr (g, t)" "vm_inv t R ys" "\<forall>r \<in> R. \<forall>va. entry (mem t) r va = entry (mem s) r va"
    using kalloc_vm [OF Cons.prems] by blast
  then show ?case using Cons.IH [OF t(2)] by auto
qed auto

section \<open>Properties\<close>

text \<open>C6: \<open>uvmcopy\<close> gives the child the parent's memory by sharing.  Either it returns 0 and every page below \<open>sz\<close> is mapped in
  parent and child to the physical page the parent had there; where the parent could write, both mappings are now
  copy-on-write and not writable, elsewhere the flags are the parent's; the child's view below \<open>sz\<close> is the parent's
  and empty above.  Or it returns -1 and the child has nothing mapped.  In both cases no other process, the
  parent included, sees any byte change, and the invariant (every reference count is the number of mappings, a
  writable page is mapped once) holds.  With two free pages per page copied it cannot fail.\<close>

theorem uvmcopy_shares:
  assumes "vm_inv s R xs" "old \<in> R" "new \<in> R" "old \<noteq> new" "sz \<le> TRAPFRAME" "unat sz \<le> 4096 * n"
    and "\<forall>va. uva va \<and> va < sz \<longrightarrow> entry (mem s) old va AND PTE_V \<noteq> 0"
    and "\<forall>va. uva va \<longrightarrow> entry (mem s) new va AND PTE_V = 0"
  shows "\<exists>ret t ys. uvmcopy old new sz s = Inr (ret, t) \<and> vm_inv t R ys \<and> (2 * n \<le> length xs \<longrightarrow> ret = 0) \<and>
    (\<forall>r \<in> R - {new}. \<forall>va < TRAPFRAME. uview t r va = uview s r va) \<and>
    (ret = 0 \<and> (\<forall>va < TRAPFRAME. uview t new va = (if PGROUNDDOWN va < sz then uview s old va else None)) \<and>
       (\<forall>va. uva va \<and> va < sz \<longrightarrow> (\<forall>r \<in> {old, new}. PTE2PA (entry (mem t) r va) = PTE2PA (entry (mem s) old va) \<and>
          (if entry (mem s) old va AND PTE_W \<noteq> 0 then entry (mem t) r va AND PTE_W = 0 \<and> entry (mem t) r va AND PTE_COW \<noteq> 0
           else PTE_FLAGS (entry (mem t) r va) = PTE_FLAGS (entry (mem s) old va)))) \<or>
     ret = -1 \<and> (\<forall>va < TRAPFRAME. uview t new va = None))"
proof -
  obtain ret t ys where t: "uvmcopy old new sz s = Inr (ret, t)" "vm_inv t R ys" "copied R old new 0 sz s ret t"
    "2 * n \<le> length xs \<longrightarrow> ret = 0" "\<forall>r \<in> R - {new}. \<forall>va < TRAPFRAME. uview t r va = uview s r va"
    "ret = 0 \<and> (\<forall>va < TRAPFRAME. uview t new va = (if PGROUNDDOWN va < sz then uview s old va else None)) \<or>
     ret = -1 \<and> (\<forall>va < TRAPFRAME. uview t new va = None)"
    using uvmcopy_ok [OF assms(1-6)] assms(7,8) by blast
  have "cowed (entry (mem s) old va) (entry (mem t) r va)" if "ret = 0" "uva va" "va < sz" "r \<in> {old, new}" for va r
    using t(3) that by (auto simp: copied_def)
  then have "\<forall>va. uva va \<and> va < sz \<longrightarrow> (\<forall>r \<in> {old, new}. PTE2PA (entry (mem t) r va) = PTE2PA (entry (mem s) old va) \<and>
          (if entry (mem s) old va AND PTE_W \<noteq> 0 then entry (mem t) r va AND PTE_W = 0 \<and> entry (mem t) r va AND PTE_COW \<noteq> 0
           else PTE_FLAGS (entry (mem t) r va) = PTE_FLAGS (entry (mem s) old va)))" if "ret = 0"
    using cowed_shared that by blast
  then show ?thesis using t(1,2,4-6) by blast
qed

theorem uvmcopy_shares_witness:
  "\<exists>r c s t. two_spaces = Inr (r, c, s) \<and> uvmcopy r c PGSIZE s = Inr (0, t) \<and> uview t c 7 = Some 0"
proof -
  obtain r c s xs where s: "two_spaces = Inr (r, c, s)" "vm_inv s {c, r} xs" "r \<noteq> c" "5 \<le> length xs"
    "\<And>va. va < TRAPFRAME \<Longrightarrow> PGROUNDDOWN va < PGSIZE \<Longrightarrow>
       uview s r va = Some 0 \<and> PTE_FLAGS (entry (mem s) r va) = user_perm PTE_W OR PTE_V"
    "\<And>va. entry (mem s) c va = 0" "\<And>va. node (mem s) c [PX 2 va, PX 1 va] = None"
    by (rule two_spaces_ok) blast
  have 7: "(7 :: uint64) < TRAPFRAME" "PGROUNDDOWN 7 < PGSIZE" "PGROUNDDOWN 0 < PGSIZE"
    by (simp_all add: layout_defs PGROUNDDOWN_def PGSIZE_def)
  have o: "\<forall>va. uva va \<and> va < PGSIZE \<longrightarrow> entry (mem s) r va AND PTE_V \<noteq> 0"
    using uva_below_PGSIZE user_perm_bits(1) s(5) [OF PGSIZE_TRAPFRAME(3) 7(3)] by blast
  obtain ret t where t: "uvmcopy r c PGSIZE s = Inr (ret, t)" "2 * 1 \<le> length xs \<longrightarrow> ret = 0"
    "ret = 0 \<and> (\<forall>va < TRAPFRAME. uview t c va = (if PGROUNDDOWN va < PGSIZE then uview s r va else None)) \<or>
     ret = -1 \<and> (\<forall>va < TRAPFRAME. uview t c va = None)"
    using uvmcopy_shares [OF s(2) _ _ s(3) PGSIZE_TRAPFRAME(1,2) o] s(6) by auto
  have "ret = 0" using t(2) s(4) by simp
  moreover have "uview t c 7 = Some 0" using t(3) calculation 7 s(5) [OF 7(1,2)] by simp
  ultimately show ?thesis using s(1) t(1) by blast
qed

text \<open>C7: A write fault on a shared page is resolved by a private copy: \<open>cow_fault_handler\<close> returns 0,
  the faulting page is then writable, no longer copy-on-write and mapped exactly once, and no process
  sees any byte of its memory change.\<close>

theorem cow_fault_private:
  assumes "vm_inv s R xs" "r \<in> R" "va < TRAPFRAME" "scause \<noteq> 13"
    and "entry (mem s) r va AND PTE_V \<noteq> 0" "entry (mem s) r va AND PTE_U \<noteq> 0" "entry (mem s) r va AND PTE_COW \<noteq> 0"
    and "ref_count s (rc_index (PTE2PA (entry (mem s) r va))) = 1 \<or> xs \<noteq> []"
  shows "\<exists>t ys. cow_fault_handler scause r va s = Inr (0, t) \<and> vm_inv t R ys \<and>
    entry (mem t) r va AND PTE_W \<noteq> 0 \<and> entry (mem t) r va AND PTE_COW = 0 \<and>
    ref_count t (rc_index (PTE2PA (entry (mem t) r va))) = 1 \<and>
    (\<forall>r' \<in> R. \<forall>va < TRAPFRAME. uview t r' va = uview s r' va)"
proof -
  obtain t ys where t: "cow_fault_handler scause r va s = Inr (0, t)" "vm_inv t R ys" "resolved R r (PGROUNDDOWN va) s t"
    using cow_fault_ok [OF assms] by blast
  let ?e = "entry (mem s) r va" and ?e' = "entry (mem t) r va"
  have f: "PTE_FLAGS ?e' = private_flags (PTE_FLAGS ?e)" using t(3) by (simp add: resolved_def entry_round)
  have W: "PTE_W \<noteq> 0" by (simp add: PTE_W_def)
  have bits: "?e' AND PTE_W \<noteq> 0" "?e' AND PTE_COW = 0" "?e' AND PTE_V \<noteq> 0"
    using private_bits [of "PTE_FLAGS ?e"] assms(5) f W and_PTE_FLAGS [of PTE_W ?e'] and_PTE_FLAGS [of PTE_COW ?e']
      and_PTE_FLAGS [of PTE_V ?e'] and_PTE_FLAGS [of PTE_V ?e] by simp_all
  have "leaf_ok t R (entry (mem t) r (PGROUNDDOWN va))"
    by (rule user_okD [OF vm_invD(5) [OF t(2)] assms(2) below_TRAPFRAME(1) [OF assms(3)]])
      (use bits(3) in \<open>simp add: entry_round\<close>)
  then have "ref_count t (rc_index (PTE2PA ?e')) = 1" using bits(1) by (simp add: leaf_ok_def entry_round)
  then show ?thesis using t bits by (auto simp: resolved_def)
qed

theorem cow_fault_private_witness:
  "\<exists>r c s t. forked = Inr (r, c, s) \<and> cow_fault_handler 15 c 0 s = Inr (0, t) \<and>
     entry (mem t) c 0 AND PTE_W \<noteq> 0 \<and> uview t r 0 = uview s r 0"
proof -
  obtain r c s xs where s: "forked = Inr (r, c, s)" "vm_inv s {c, r} xs" "r \<noteq> c" "3 \<le> length xs"
    "writable (entry (mem s) c 0)" "entry (mem s) c 0 AND PTE_COW \<noteq> 0"
    by (rule forked_ok)
  then have "xs \<noteq> []" by auto
  then obtain t where "cow_fault_handler 15 c 0 s = Inr (0, t)" "entry (mem t) c 0 AND PTE_W \<noteq> 0"
    "\<forall>r' \<in> {c, r}. \<forall>va < TRAPFRAME. uview t r' va = uview s r' va"
    using cow_fault_private [OF s(2) _ PGSIZE_TRAPFRAME(3), of c 15] s(5,6) by (auto simp: writable_def)
  then show ?thesis using s(1) PGSIZE_TRAPFRAME(3) by blast
qed

text \<open>C8: \<open>copyout\<close> writes exactly the bytes it is given.  When the destination is writable, directly or
  by copy-on-write, and there is a free page for each page it touches, it returns 0; afterwards the
  process sees the source bytes in the destination range, and no other byte of any process has
  changed, in particular none of a process that shared a page with it.\<close>

theorem copyout_exact:
  assumes "vm_inv s R xs" "r \<in> R" "scause \<noteq> 13" "unat d + length src \<le> unat TRAPFRAME"
    "unat (d - PGROUNDDOWN d) + length src \<le> 4096 * length xs"
    and "\<forall>va < TRAPFRAME. unat (va - d) < length src \<longrightarrow> writable (entry (mem s) r va)"
  shows "\<exists>t ys. copyout scause r d src s = Inr (0, t) \<and> vm_inv t R ys \<and>
    (\<forall>r' \<in> R. \<forall>va < TRAPFRAME. uview t r' va =
      (if r' = r \<and> unat (va - d) < length src then Some (src ! unat (va - d)) else uview s r' va))"
  using copyout_ok [OF assms(1-5)] assms(6) by blast

lemma small_offset: "va < TRAPFRAME \<Longrightarrow> unat (va - 0) < 2 \<Longrightarrow> PGROUNDDOWN va = 0"
proof -
  assume "unat (va - 0) < 2"
  then have "unat (PGROUNDDOWN va) = 0" by (simp add: unat_PGROUNDDOWN)
  then show "PGROUNDDOWN va = 0" by (simp add: unat_eq_zero)
qed

lemma forked_writable:
  assumes "writable (entry (mem s) c 0)" "va < TRAPFRAME" "unat (va - 0) < 2"
  shows "writable (entry (mem s) c va)"
  using assms(1) small_offset [OF assms(2,3)] entry_round [of "mem s" c va] by simp

theorem copyout_exact_witness:
  "\<exists>r c s t. forked = Inr (r, c, s) \<and> copyout 8 c 0 [1, 2] s = Inr (0, t) \<and>
     uview t c 1 = Some 2 \<and> uview t r 1 = uview s r 1"
proof -
  obtain r c s xs where s: "forked = Inr (r, c, s)" "vm_inv s {c, r} xs" "r \<noteq> c" "3 \<le> length xs"
    "writable (entry (mem s) c 0)"
    by (rule forked_ok)
  have z: "unat (0 :: uint64) + length [1, 2 :: byte] \<le> unat TRAPFRAME"
    "unat (0 - PGROUNDDOWN 0) + length [1, 2 :: byte] \<le> 4096 * length xs" "(1 :: uint64) < TRAPFRAME"
    using s(4) by (simp_all add: layout_defs PGROUNDDOWN_def PGSIZE_def)
  have w: "\<forall>va < TRAPFRAME. unat (va - 0) < length [1, 2 :: byte] \<longrightarrow> writable (entry (mem s) c va)"
    using forked_writable [OF s(5)] by simp
  obtain t where t: "copyout 8 c 0 [1, 2] s = Inr (0, t)"
    "\<forall>r' \<in> {c, r}. \<forall>va < TRAPFRAME. uview t r' va =
      (if r' = c \<and> unat (va - 0) < length [1, 2 :: byte] then Some ([1, 2] ! unat (va - 0)) else uview s r' va)"
    using copyout_exact [OF s(2) _ _ z(1,2) w, of 8] by auto
  have "uview t c 1 = Some 2" "uview t r 1 = uview s r 1" using t(2) z(3) s(3) by auto
  then show ?thesis using s(1) t(1) by blast
qed

lemma unat_offset:
  fixes va d :: uint64
  shows "unat (va - d) < n \<Longrightarrow> unat d + n < 2 ^ 64 \<Longrightarrow> unat va = unat d + unat (va - d)"
  using unat_add_lem64 [of d "va - d"] by simp

text \<open>C9: What \<open>copyout\<close> writes, \<open>copyin\<close> reads back.\<close>

theorem copyout_copyin_roundtrip:
  assumes "vm_inv s R xs" "r \<in> R" "scause \<noteq> 13" "unat d + length src \<le> unat TRAPFRAME"
    "unat (d - PGROUNDDOWN d) + length src \<le> 4096 * length xs"
    and "\<forall>va < TRAPFRAME. unat (va - d) < length src \<longrightarrow> writable (entry (mem s) r va)"
  shows "\<exists>t. copyout scause r d src s = Inr (0, t) \<and> copyin r d (length src) t = Inr (0, src)"
proof -
  obtain t ys where t: "copyout scause r d src s = Inr (0, t)" "vm_inv t R ys"
    "\<forall>r' \<in> R. \<forall>va < TRAPFRAME. uview t r' va =
      (if r' = r \<and> unat (va - d) < length src then Some (src ! unat (va - d)) else uview s r' va)"
    using copyout_ok [OF assms(1-5)] assms(6) by blast
  have v: "uview t r (d + of_nat k) = Some (src ! k)" if k: "k < length src" for k
  proof -
    have "unat TRAPFRAME = 274877898752" by (simp add: layout_defs)
    then have b: "unat d + k < 274877898752" using k assms(4) by simp
    then have u: "unat (of_nat k :: uint64) = k" by (intro unat_of_nat64) simp
    then have "unat (d + of_nat k - d) = k" by simp
    moreover have "unat (d + of_nat k) = unat d + k" using unat_add_lem64 [of d "of_nat k"] u b by simp
    moreover from this have "d + of_nat k < TRAPFRAME" using b by (simp add: word_less_nat_alt layout_defs)
    ultimately show ?thesis using t(3) assms(2) k by simp
  qed
  have "mapped t r d (length src)" using v by (simp add: mapped_def)
  moreover have "view_bytes t r d (length src) = src"
    by (rule nth_equalityI) (use v in \<open>simp_all add: view_bytes_def\<close>)
  ultimately show ?thesis using copyin_ok [OF t(2) assms(2,4)] t(1) by auto
qed

lemma forked_room:
  assumes "3 \<le> length xs"
  shows "unat (0 :: uint64) + length [1, 2 :: byte] \<le> unat TRAPFRAME"
    "unat (0 - PGROUNDDOWN 0) + length [1, 2 :: byte] \<le> 4096 * length xs"
  using assms by (simp_all add: layout_defs PGROUNDDOWN_def PGSIZE_def)

theorem copyout_copyin_roundtrip_witness:
  "\<exists>r c s t. forked = Inr (r, c, s) \<and> copyout 8 c 0 [1, 2] s = Inr (0, t) \<and> copyin c 0 2 t = Inr (0, [1, 2])"
proof -
  obtain r c s xs where s: "forked = Inr (r, c, s)" "vm_inv s {c, r} xs" "r \<noteq> c" "3 \<le> length xs"
    "writable (entry (mem s) c 0)"
    by (rule forked_ok)
  have w: "\<forall>va < TRAPFRAME. unat (va - 0) < length [1, 2 :: byte] \<longrightarrow> writable (entry (mem s) c va)"
    using forked_writable [OF s(5)] by simp
  obtain t where "copyout 8 c 0 [1, 2] s = Inr (0, t)" "copyin c 0 (length [1, 2 :: byte]) t = Inr (0, [1, 2])"
    using copyout_copyin_roundtrip [OF s(2) _ _ forked_room [OF s(4)] w, of 8] by auto
  then show ?thesis using s(1) by (auto simp: numeral_2_eq_2)
qed

text \<open>C10: Copy-on-write implements copying.  After \<open>uvmcopy\<close> and a \<open>copyout\<close> into either of the two spaces, the one
  written to sees the parent's old memory with the written bytes in it, the other one sees the parent's old memory,
  as if all pages had been copied, and every other process sees what it saw before.\<close>

theorem fork_then_write:
  assumes "vm_inv s R xs" "old \<in> R" "new \<in> R" "old \<noteq> new" "sz \<le> TRAPFRAME" "unat sz \<le> 4096 * n"
    and "\<forall>va. uva va \<and> va < sz \<longrightarrow> entry (mem s) old va AND PTE_V \<noteq> 0"
    and "\<forall>va. uva va \<longrightarrow> entry (mem s) new va AND PTE_V = 0"
    and "scause \<noteq> 13" "unat d + length src \<le> unat sz" "2 * n \<le> length xs"
    and "unat (d - PGROUNDDOWN d) + length src + 4096 * (2 * n) \<le> 4096 * length xs"
    and "\<forall>va < TRAPFRAME. unat (va - d) < length src \<longrightarrow> writable (entry (mem s) old va)" "w \<in> {old, new}"
  shows "\<exists>t u ys. uvmcopy old new sz s = Inr (0, t) \<and> copyout scause w d src t = Inr (0, u) \<and> vm_inv u R ys \<and>
    (\<forall>r \<in> R - {old, new}. \<forall>va < TRAPFRAME. uview u r va = uview s r va) \<and>
    (\<forall>r \<in> {old, new}. \<forall>va < TRAPFRAME. PGROUNDDOWN va < sz \<longrightarrow> uview u r va =
      (if r = w \<and> unat (va - d) < length src then Some (src ! unat (va - d)) else uview s old va))"
proof -
  obtain t ys where t: "uvmcopy old new sz s = Inr (0, t)" "vm_inv t R ys" "copied R old new 0 sz s 0 t"
    "length xs \<le> length ys + 2 * n" "\<forall>r \<in> R - {new}. \<forall>va < TRAPFRAME. uview t r va = uview s r va"
    "\<forall>va < TRAPFRAME. uview t new va = (if PGROUNDDOWN va < sz then uview s old va else None)"
    using uvmcopy_ok [OF assms(1-6)] assms(7,8,11) by force
  have sz: "unat sz \<le> unat TRAPFRAME" using assms(5) by (simp add: word_le_nat_alt)
  have w: "writable (entry (mem t) w va)" if h: "va < TRAPFRAME" "unat (va - d) < length src" for va
  proof -
    have "unat TRAPFRAME = 274877898752" by (simp add: layout_defs)
    then have "va < sz" using sz unat_offset [OF h(2)] assms(10) h(2) by (simp add: word_less_nat_alt)
    then have "PGROUNDDOWN va < sz" using PGROUNDDOWN_le [of va] by (rule le_less_trans [rotated])
    then have "cowed (entry (mem s) old va) (entry (mem t) w va)"
      using t(3) below_TRAPFRAME(1) [OF h(1)] entry_round [of "mem t" w va] entry_round [of "mem s" old va] assms(14)
      unfolding copied_def by auto
    then show ?thesis using cowed_writable(1) assms(13) h by blast
  qed
  have wR: "w \<in> R" using assms(2,3,14) by blast
  obtain u zs where u: "copyout scause w d src t = Inr (0, u)" "vm_inv u R zs"
    "\<forall>r' \<in> R. \<forall>va < TRAPFRAME. uview u r' va =
      (if r' = w \<and> unat (va - d) < length src then Some (src ! unat (va - d)) else uview t r' va)"
    using copyout_ok [OF t(2) wR assms(9), of d src] assms(10,12) sz t(4) w by force
  have "uview u r va = uview s r va" if "r \<in> R - {old, new}" "va < TRAPFRAME" for r va
    using t(5) u(3) that assms(14) by auto
  moreover have "uview u r va = (if r = w \<and> unat (va - d) < length src then Some (src ! unat (va - d)) else uview s old va)"
    if "r \<in> {old, new}" "va < TRAPFRAME" "PGROUNDDOWN va < sz" for r va
    using t(5,6) u(3) that assms(2-4) by auto
  ultimately show ?thesis using t(1) u(1,2) by blast
qed

lemma two_spaces_writable:
  assumes "\<And>va. va < TRAPFRAME \<Longrightarrow> PGROUNDDOWN va < PGSIZE \<Longrightarrow>
       uview s r va = Some 0 \<and> PTE_FLAGS (entry (mem s) r va) = user_perm PTE_W OR PTE_V"
  shows "\<forall>va. uva va \<and> va < PGSIZE \<longrightarrow> entry (mem s) r va AND PTE_V \<noteq> 0"
    and "\<forall>va < TRAPFRAME. unat (va - 0) < length [1, 2 :: byte] \<longrightarrow> writable (entry (mem s) r va)"
proof -
  have 0: "PGROUNDDOWN 0 = 0" "(0 :: uint64) < PGSIZE" by (simp_all add: PGROUNDDOWN_def PGSIZE_def)
  have f: "PTE_FLAGS (entry (mem s) r 0) = user_perm PTE_W OR PTE_V"
    using assms [OF PGSIZE_TRAPFRAME(3)] 0 by simp
  show "\<forall>va. uva va \<and> va < PGSIZE \<longrightarrow> entry (mem s) r va AND PTE_V \<noteq> 0"
    using uva_below_PGSIZE user_perm_bits(1) [OF f] by blast
  have "writable (entry (mem s) r 0)" using user_perm_bits [OF f] by (simp add: writable_def)
  then show "\<forall>va < TRAPFRAME. unat (va - 0) < length [1, 2 :: byte] \<longrightarrow> writable (entry (mem s) r va)"
    using forked_writable [of s r] by (simp add: numeral_2_eq_2)
qed

theorem fork_then_write_witness:
  "\<exists>r c s t u. two_spaces = Inr (r, c, s) \<and> uvmcopy r c PGSIZE s = Inr (0, t) \<and> copyout 8 r 0 [1, 2] t = Inr (0, u) \<and>
     uview u c 1 = Some 0 \<and> uview u r 1 = Some 2 \<and> uview u r 2 = Some 0"
proof -
  obtain r c s xs where s: "two_spaces = Inr (r, c, s)" "vm_inv s {c, r} xs" "r \<noteq> c" "5 \<le> length xs"
    "\<And>va. va < TRAPFRAME \<Longrightarrow> PGROUNDDOWN va < PGSIZE \<Longrightarrow>
       uview s r va = Some 0 \<and> PTE_FLAGS (entry (mem s) r va) = user_perm PTE_W OR PTE_V"
    "\<And>va. entry (mem s) c va = 0" "\<And>va. node (mem s) c [PX 2 va, PX 1 va] = None"
    by (rule two_spaces_ok) blast
  note o = two_spaces_writable [OF s(5)]
  have n: "unat (0 :: uint64) + length [1, 2 :: byte] \<le> unat PGSIZE" "2 * 1 \<le> length xs"
    "unat (0 - PGROUNDDOWN 0) + length [1, 2 :: byte] + 4096 * (2 * 1) \<le> 4096 * length xs"
    "(1 :: uint64) < TRAPFRAME" "(2 :: uint64) < TRAPFRAME" "PGROUNDDOWN 1 < PGSIZE" "PGROUNDDOWN 2 < PGSIZE"
    using s(4) by (simp_all add: PGSIZE_def PGROUNDDOWN_def layout_defs)
  have e: "\<forall>va. uva va \<longrightarrow> entry (mem s) c va AND PTE_V = 0" using s(6) by simp
  obtain t u where t: "uvmcopy r c PGSIZE s = Inr (0, t)" "copyout 8 r 0 [1, 2] t = Inr (0, u)"
    "\<forall>q \<in> {r, c}. \<forall>va < TRAPFRAME. PGROUNDDOWN va < PGSIZE \<longrightarrow> uview u q va =
      (if q = r \<and> unat (va - 0) < length [1, 2 :: byte] then Some ([1, 2] ! unat (va - 0)) else uview s r va)"
    using fork_then_write [OF s(2) _ _ s(3) PGSIZE_TRAPFRAME(1,2) o(1) e _ n(1-3) o(2), of 8 r] by auto
  have "uview u c 1 = Some 0" using t(3) s(3) n(4,6) s(5) [OF n(4,6)] by simp
  moreover have "uview u r 1 = Some 2" "uview u r 2 = Some 0"
    using t(3) n(4-7) s(5) [OF n(5,7)] by auto
  ultimately show ?thesis using s(1) t(1,2) by blast
qed

text \<open>C11: \<open>uvmalloc\<close> grows a process by zeroed pages with the permissions asked for, or not at all: it
  returns the new size with every page of the new range mapped, zero, and readable by the user, or
  0 with none of the range mapped.  Either way every byte of every other process and every byte below
  the old size is untouched, and no page is lost: the pages that are free, hold a page table or are mapped are the
  same before and after, and after a failure every page that was free is free again or was made a page table by \<open>walk\<close>,
  which does not give those back.  With three free pages per new page it succeeds.\<close>

theorem uvmalloc_all_or_nothing:
  assumes "vm_inv s R xs" "r \<in> R" "oldsz \<le> newsz" "newsz \<le> TRAPFRAME"
    "unat newsz \<le> unat (PGROUNDUP oldsz) + 4096 * n" "is_flags xp"
    and "\<forall>va. uva va \<and> PGROUNDUP oldsz \<le> va \<and> va < newsz \<longrightarrow> entry (mem s) r va AND PTE_V = 0"
  shows "\<exists>ret t ys. uvmalloc r oldsz newsz xp s = Inr (ret, t) \<and> vm_inv t R ys \<and>
    (3 * n \<le> length xs \<longrightarrow> ret = newsz) \<and> unaffected R r (PGROUNDUP oldsz) newsz s t \<and> pages R t ys = pages R s xs \<and>
    (ret = newsz \<and> grown r (PGROUNDUP oldsz) newsz xp t \<or>
     ret = 0 \<and> (\<forall>va. uva va \<and> PGROUNDUP oldsz \<le> va \<and> va < newsz \<longrightarrow> entry (mem t) r va AND PTE_V = 0) \<and>
       set ys \<union> tables (mem t) R = set xs \<union> tables (mem s) R)"
proof -
  obtain ret t ys where t: "uvmalloc r oldsz newsz xp s = Inr (ret, t)" "vm_inv t R ys" "pages R t ys = pages R s xs"
    "3 * n \<le> length xs \<longrightarrow> ret = newsz" "unaffected R r (PGROUNDUP oldsz) newsz s t"
    "ret = newsz \<and> grown r (PGROUNDUP oldsz) newsz xp t \<or>
     ret = 0 \<and> (\<forall>va. uva va \<and> PGROUNDUP oldsz \<le> va \<and> va < newsz \<longrightarrow> entry (mem t) r va AND PTE_V = 0)"
    using uvmalloc_ok [OF assms(1-6)] assms(7) by blast
  have "set ys \<union> tables (mem t) R = set xs \<union> tables (mem s) R"
    if "\<forall>va. uva va \<and> PGROUNDUP oldsz \<le> va \<and> va < newsz \<longrightarrow> entry (mem t) r va AND PTE_V = 0"
    by (rule pages_unmapped [OF assms(1) t(2,3)], rule mapped_pages_unaffected [OF t(5)]) (use assms(7) that in blast)+
  then show ?thesis using t by blast
qed

theorem uvmalloc_all_or_nothing_witness:
  "\<exists>s r t u. kinit mem_boot = Inr s \<and> uvmcreate s = Inr (r, t) \<and>
     uvmalloc r 0 8192 PTE_W t = Inr (8192, u) \<and> grown r 0 8192 PTE_W u"
proof -
  obtain s0 xs0 where s0: "kinit mem_boot = Inr s0" "vm_inv s0 {} xs0" "length xs0 = 12"
    by (rule mem_booted)
  obtain r xs1 where x0: "xs0 = r # xs1" using s0(3) by (cases xs0) auto
  obtain s1 where s1: "uvmcreate s0 = Inr (r, s1)" "vm_inv s1 {r} xs1" "\<forall>va. entry (mem s1) r va = 0"
    using uvmcreate_ok [of s0 "{}" r xs1] s0(2) x0 by blast
  have up: "PGROUNDUP 0 = 0" "(0 :: uint64) \<le> 8192" "8192 \<le> TRAPFRAME" "unat (8192 :: uint64) \<le> unat (PGROUNDUP 0) + 4096 * 2"
    "is_flags PTE_W" by (simp_all add: PGROUNDUP_def PGSIZE_def layout_defs)
  have e: "\<forall>va. uva va \<and> PGROUNDUP 0 \<le> va \<and> va < 8192 \<longrightarrow> entry (mem s1) r va AND PTE_V = 0"
    using s1(3) by simp
  obtain ret t where t: "uvmalloc r 0 8192 PTE_W s1 = Inr (ret, t)" "3 * 2 \<le> length xs1 \<longrightarrow> ret = 8192"
    "ret = 8192 \<and> grown r (PGROUNDUP 0) 8192 PTE_W t \<or> ret = 0"
    using uvmalloc_all_or_nothing [OF s1(2) _ up(2-5) e] by auto
  then have "ret = 8192" "grown r 0 8192 PTE_W t" using s0(3) x0 up(1) by auto
  then show ?thesis using s0(1) s1(1) t(1) by blast
qed

lemma kalloc_no_lock_drained: "alloc_inv s [] \<Longrightarrow> kalloc_no_lock s = Inr (0, s)"
  by (simp add: kalloc_no_lock_def alloc_inv_def)

text \<open>C12: Out of memory in the fault handler is fatal to the kernel.  On a write fault to a page that is
  shared, with no free page left, \<open>update\<close> uses the null result of \<open>kalloc_no_lock\<close> as the destination
  of its \<open>memmove\<close>: the kernel accesses memory that is not there, instead of returning -1 and killing
  the process.\<close>

theorem cow_fault_out_of_memory:
  assumes "vm_inv s R []" "r \<in> R" "va < TRAPFRAME" "scause \<noteq> 13"
    and "entry (mem s) r va AND PTE_V \<noteq> 0" "entry (mem s) r va AND PTE_U \<noteq> 0" "entry (mem s) r va AND PTE_COW \<noteq> 0"
    and "1 < ref_count s (rc_index (PTE2PA (entry (mem s) r va)))"
  shows "cow_fault_handler scause r va s = Inl WildAccess"
proof -
  let ?i = "PGROUNDDOWN va" and ?e = "entry (mem s) r va"
  note u = below_TRAPFRAME [OF assms(3)]
  have ei: "entry (mem s) r ?i = ?e" by (rule entry_round)
  have nz: "entry (mem s) r ?i \<noteq> 0" using assms(5) by (auto simp: ei)
  obtain p where p: "walk r ?i False s = Inr (pte_slot p (PX 0 ?i), s)"
    "ld64 (pte_slot p (PX 0 ?i)) s = Inr (entry (mem s) r ?i)"
    using valid_walk [OF vm_invD(4) [OF assms(1)] assms(2) uva_MAXVA [OF u(1)] nz] by blast
  have "maps (entry (mem s) r ?i) (PTE2PA ?e)" using assms(5) by (simp add: maps_def ei)
  note pa = user_page [OF vm_invD(5) [OF assms(1)] assms(2) u(1) this]
  have rc: "get_ref_count (PTE2PA ?e) (held s) = Inr (ref_count s (rc_index (PTE2PA ?e)))"
    using rc_index_page_ok [OF pa(1)] by (simp add: get_ref_count_def)
  have "kalloc_no_lock (held s) = Inr (0, held s)"
    using vm_invD(3) [OF assms(1)] by (intro kalloc_no_lock_drained) (simp add: alloc_inv_def)
  then have "update r ?i q (PTE2PA ?e) (PTE_FLAGS ?e) s = Inl WildAccess" for q
    using assms(8) by (simp add: update_def kmem_acquire_held [OF vm_invD(1) [OF assms(1)]] rc Let_def memmove_ram_def
        ram_range_def PGSIZE_def layout_defs)
  then show ?thesis using p assms(4-7) nz u(2) by (simp add: cow_fault_handler_def ei not_le)
qed

theorem cow_fault_out_of_memory_witness:
  "\<exists>r c s n ps t. forked = Inr (r, c, s) \<and> alloc_times kalloc n s = Inr (ps, t) \<and>
     cow_fault_handler 15 c 0 t = Inl WildAccess"
proof -
  obtain r c s xs where s: "forked = Inr (r, c, s)" "vm_inv s {c, r} xs" "r \<noteq> c" "3 \<le> length xs"
    "writable (entry (mem s) c 0)" "entry (mem s) c 0 AND PTE_COW \<noteq> 0"
    "PTE2PA (entry (mem s) r 0) = PTE2PA (entry (mem s) c 0)" "entry (mem s) r 0 AND PTE_V \<noteq> 0"
    by (rule forked_ok)
  obtain ps t where t: "alloc_times kalloc (length xs) s = Inr (ps, t)" "vm_inv t {c, r} []"
    "entry (mem t) r 0 = entry (mem s) r 0" "entry (mem t) c 0 = entry (mem s) c 0"
    using drain [OF s(2)] by auto
  let ?p = "PTE2PA (entry (mem t) c 0)"
  have 0: "uva 0" using PGSIZE_TRAPFRAME(3) by (simp add: uva_def page_aligned_def)
  have m: "maps (entry (mem t) c 0) ?p" "maps (entry (mem t) r 0) ?p"
    using s(5,7,8) t(3,4) by (simp_all add: maps_def writable_def)
  have "ucount (entry (mem t)) {c, r} ?p \<noteq> 1"
    using ucount_one [of "entry (mem t)" "{c, r}" ?p c 0 r 0] 0 m s(3) by auto
  moreover have "1 \<le> ucount (entry (mem t)) {c, r} ?p" using ucount_pos [of c "{c, r}" 0 "entry (mem t)"] 0 m(1) by simp
  moreover have "leaf_ok t {c, r} (entry (mem t) c 0)"
    by (rule user_okD [OF vm_invD(5) [OF t(2)] _ 0]) (use m(1) in \<open>simp_all add: maps_def\<close>)
  ultimately have "1 < ref_count t (rc_index ?p)" by (simp add: leaf_ok_def)
  then have "cow_fault_handler 15 c 0 t = Inl WildAccess"
    using cow_fault_out_of_memory [OF t(2) _ PGSIZE_TRAPFRAME(3), of c 15] s(5,6) t(4) by (simp add: writable_def)
  then show ?thesis using s(1) t(1) by blast
qed

lemma ld64_null: "ld64 0 s = Inl WildAccess"
  by (simp add: ld64_def ram_range_def layout_defs)

lemma page_aligned_next: "page_aligned a \<Longrightarrow> page_aligned (a + PGSIZE)"
proof -
  assume "page_aligned a"
  then have "(unat a + 4096) mod 2 ^ 64 mod 4096 = 0" by (simp add: page_aligned_unat mod_mod_cancel)
  then show ?thesis by (simp add: page_aligned_unat unat_word_ariths PGSIZE_def)
qed

lemma copy_len_append:
  assumes "a \<noteq> []" "4096 dvd unat (d - PGROUNDDOWN d) + length a"
  shows "copy_len d (length (a @ b)) = copy_len d (length a)"
proof -
  have "4096 \<le> unat (d - PGROUNDDOWN d) + length a" using assms by (intro dvd_imp_le) simp_all
  then show ?thesis using page_off_less [of d] by (auto simp: copy_len_def Let_def unat_page_rest)
qed

text \<open>Bytes that fill whole pages are copied before the pages after them are looked at.\<close>

lemma copyout_append:
  assumes "4096 dvd unat (d - PGROUNDDOWN d) + length a" "copyout scause r d a s = Inr (0, t)"
  shows "copyout scause r d (a @ b) s = copyout scause r (d + of_nat (length a)) b t"
  using assms
proof (induction "length a" arbitrary: a d s rule: less_induct)
  case less
  show ?case
  proof (cases "a = []")
    case True
    then show ?thesis using less.prems(2) by (simp add: copyout.simps [of scause r d "[]"])
  next
    case False
    let ?n = "copy_len d (length a)" and ?i = "PGROUNDDOWN d"
    have n: "0 < ?n" "?n \<le> length a" "unat (d - ?i) + ?n = 4096"
    proof -
      show "0 < ?n" "?n \<le> length a" using False copy_len_pos copy_len_le by auto
      have "4096 \<le> unat (d - ?i) + length a" using less.prems(1) False by (intro dvd_imp_le) simp_all
      then show "unat (d - ?i) + ?n = 4096" using page_off_less [of d] by (auto simp: copy_len_def Let_def unat_page_rest)
    qed
    have al: "page_aligned (?i + PGSIZE)" by (rule page_aligned_next) simp
    have nx: "?i + PGSIZE + of_nat (length (drop ?n a)) = d + of_nat (length a)"
    proof -
      have "PGSIZE = (of_nat 4096 :: uint64)" by (simp add: PGSIZE_def)
      also have "\<dots> = (d - ?i) + of_nat ?n" unfolding n(3) [symmetric] of_nat_add by simp
      finally have p: "PGSIZE = d - ?i + of_nat ?n" .
      show ?thesis unfolding p using n(2) by (simp add: of_nat_diff)
    qed
    from less.prems(2) False obtain pte s1 e0 q s2 e s3 where c: "\<not> MAXVA \<le> ?i" "walk r ?i False s = Inr (pte, s1)" "ld64 pte s1 = Inr e0"
      "(if e0 AND PTE_COW \<noteq> 0 then cow_fault_handler scause r ?i s1 else Inr (0, s1)) = Inr (q, s2)" "q \<noteq> -1" "pte \<noteq> 0" "ld64 pte s2 = Inr e"
      "e AND PTE_V \<noteq> 0" "e AND PTE_U \<noteq> 0" "e AND PTE_W \<noteq> 0" "memmove_in (PTE2PA e + (d - ?i)) (take ?n a) s2 = Inr s3"
      "copyout scause r (?i + PGSIZE) (drop ?n a) s3 = Inr (0, t)"
      unfolding copyout.simps [of scause r d a] Let_def by (elim rbind_InrE | simp split: if_splits prod.splits)+
    have "copyout scause r d (a @ b) s = copyout scause r (?i + PGSIZE) (drop ?n a @ b) s3"
      using False n(2) c(1-11) copy_len_append [OF False less.prems(1), of b]
      by (simp add: copyout.simps [of scause r d "a @ b"] Let_def)
    also have "\<dots> = copyout scause r (?i + PGSIZE + of_nat (length (drop ?n a))) b t"
    proof (rule less.hyps [OF _ _ c(12)])
      show "length (drop ?n a) < length a" using n(1,2) by simp
      have "length a - ?n + 4096 = unat (d - ?i) + length a" using n by simp
      then have "4096 dvd length a - ?n + 4096" using less.prems(1) by simp
      then have "4096 dvd length a - ?n" by (simp only: dvd_add_triv_right_iff)
      then show "4096 dvd unat (?i + PGSIZE - PGROUNDDOWN (?i + PGSIZE)) + length (drop ?n a)" using al by (simp add: PGROUNDDOWN_id)
    qed
    finally show ?thesis unfolding nx .
  qed
qed

text \<open>C13: What \<open>copyout\<close> does with every kind of address it cannot write to.  It returns -1 and changes nothing for an address of \<open>MAXVA\<close> or
  more, for a page that is not copy-on-write and not writable (not valid, not the user's, or read-only), and for a
  copy-on-write page that is not valid, not the user's, or met while \<open>scause\<close> is that of a load fault.  But for an address below \<open>MAXVA\<close>
  with no page table it reads \<open>*pte\<close> before it tests \<open>pte == 0\<close>: the kernel dereferences a null pointer
  instead of returning -1.  When the bytes before a page boundary can be written, the call goes on after it as
  a call for the rest, so the same holds of a bad page further on, with the pages before it written.\<close>

theorem copyout_refusals:
  assumes "tab_inv s R" "r \<in> R" "src \<noteq> []"
  shows "(MAXVA \<le> PGROUNDDOWN d \<longrightarrow> copyout scause r d src s = Inr (-1, s)) \<and>
    (PGROUNDDOWN d < MAXVA \<longrightarrow> node (mem s) r [PX 2 d, PX 1 d] = None \<longrightarrow> copyout scause r d src s = Inl WildAccess) \<and>
    (PGROUNDDOWN d < MAXVA \<longrightarrow> node (mem s) r [PX 2 d, PX 1 d] \<noteq> None \<longrightarrow>
      (if entry (mem s) r d AND PTE_COW = 0 then \<not> writable (entry (mem s) r d)
       else entry (mem s) r d AND PTE_V = 0 \<or> entry (mem s) r d AND PTE_U = 0 \<or> scause = 13) \<longrightarrow>
      copyout scause r d src s = Inr (-1, s)) \<and>
    (\<forall>a b t. src = a @ b \<longrightarrow> 4096 dvd unat (d - PGROUNDDOWN d) + length a \<longrightarrow> copyout scause r d a s = Inr (0, t) \<longrightarrow>
      copyout scause r d src s = copyout scause r (d + of_nat (length a)) b t)"
proof (cases "MAXVA \<le> PGROUNDDOWN d")
  case True
  then show ?thesis using assms(3) leD [OF True] copyout_append by (simp add: copyout.simps [of scause r d src] Let_def del: node.simps)
next
  case False
  let ?i = "PGROUNDDOWN d"
  have i: "PX 2 ?i = PX 2 d" "PX 1 ?i = PX 1 d" by (simp_all add: PX_PGROUNDDOWN)
  have w: "walk r ?i False s = Inr (leaf_slot (mem s) r ?i, s)"
    by (rule walk_noalloc [OF assms(1,2)]) (use False in simp)
  have *: "(node (mem s) r [PX 2 d, PX 1 d] = None \<longrightarrow> copyout scause r d src s = Inl WildAccess) \<and>
    (node (mem s) r [PX 2 d, PX 1 d] \<noteq> None \<longrightarrow>
      (if entry (mem s) r d AND PTE_COW = 0 then \<not> writable (entry (mem s) r d)
       else entry (mem s) r d AND PTE_V = 0 \<or> entry (mem s) r d AND PTE_U = 0 \<or> scause = 13) \<longrightarrow>
      copyout scause r d src s = Inr (-1, s))"
  proof (cases rule: leaf_slot_cases [OF assms(1,2), of ?i])
    case 1
    then show ?thesis using assms(3) False w i
      by (simp add: copyout.simps [of scause r d src] Let_def ld64_null del: node.simps)
  next
    case (2 p)
    have "ld64 (pte_slot p (PX 0 ?i)) s = Inr (entry (mem s) r d)"
      using slot_entry [OF assms(1,2) 2(3)] by (simp add: entry_round)
    then show ?thesis using assms(3) False w i 2
      by (auto simp: copyout.simps [of scause r d src] Let_def writable_def cow_fault_handler_def simp del: node.simps)
  qed
  show ?thesis using * False copyout_append by (simp del: node.simps)
qed

theorem copyout_refusals_witness:
  "\<exists>r c s. two_spaces = Inr (r, c, s) \<and> copyout 8 c MAXVA [1] s = Inr (-1, s) \<and> copyout 8 c 0 [1] s = Inl WildAccess"
proof -
  obtain r c s xs where s: "two_spaces = Inr (r, c, s)" "vm_inv s {c, r} xs" "r \<noteq> c" "5 \<le> length xs"
    "\<And>va. va < TRAPFRAME \<Longrightarrow> PGROUNDDOWN va < PGSIZE \<Longrightarrow>
       uview s r va = Some 0 \<and> PTE_FLAGS (entry (mem s) r va) = user_perm PTE_W OR PTE_V"
    "\<And>va. entry (mem s) c va = 0" "\<And>va. node (mem s) c [PX 2 va, PX 1 va] = None"
    by (rule two_spaces_ok) blast
  have "copyout 8 c MAXVA [1] s = Inr (-1, s)"
    using copyout_refusals [OF vm_invD(4) [OF s(2)], of c "[1]" MAXVA 8] by (simp add: PGROUNDDOWN_def PGSIZE_def MAXVA_def)
  moreover have "copyout 8 c 0 [1] s = Inl WildAccess"
    using copyout_refusals [OF vm_invD(4) [OF s(2)], of c "[1]" 0 8] s(7) by (simp add: PGROUNDDOWN_def PGSIZE_def MAXVA_def)
  ultimately show ?thesis using s(1) by blast
qed

end
