(* ===== verification/Ring.thy ===== *)
theory Ring
  imports Prelude
begin

text \<open>Ring buffers as the kernel writes them: an array indexed by a free-running unsigned counter taken
  modulo the array's length.  The pipe (kernel/pipe.c), the console input buffer (kernel/console.c)
  and the transmit buffer of the serial port (kernel/uart.c) all have this shape.  The counters wrap
  around; because the length of the array divides the range of the counter nothing goes wrong there.
  The locale \<open>bounded_fifo\<close> is the contract of such a buffer with its two ends.\<close>

definition ring_at :: "'a list \<Rightarrow> 'w :: len word \<Rightarrow> 'a" where
  "ring_at xs i = xs ! (unat i mod length xs)"

definition ring_set :: "'a list \<Rightarrow> 'w :: len word \<Rightarrow> 'a \<Rightarrow> 'a list" where
  "ring_set xs i x = xs[unat i mod length xs := x]"

text \<open>The elements from counter \<open>r\<close> up to, not including, counter \<open>w\<close>.\<close>

definition ring_span :: "'a list \<Rightarrow> 'w :: len word \<Rightarrow> 'w word \<Rightarrow> 'a list" where
  "ring_span xs r w = map (\<lambda>k. ring_at xs (r + of_nat k)) [0..<unat (w - r)]"

definition ring_size :: "'w :: len itself \<Rightarrow> 'a list \<Rightarrow> bool" where
  "ring_size _ xs \<longleftrightarrow> xs \<noteq> [] \<and> length xs dvd 2 ^ LENGTH('w)"

lemma length_ring_set [simp]: "length (ring_set xs i x) = length xs"
  by (simp add: ring_set_def)

lemma length_ring_span [simp]: "length (ring_span xs r w) = unat (w - r)"
  by (simp add: ring_span_def)

lemma ring_span_empty [simp]: "ring_span xs r r = []"
  by (simp add: ring_span_def)

lemma ring_index:
  fixes r :: "'w :: len word"
  assumes "ring_size TYPE('w) xs"
  shows "unat (r + of_nat k) mod length xs = (unat r + k) mod length xs"
  using assms by (simp add: ring_size_def unat_word_ariths unat_of_nat mod_mod_cancel mod_add_right_eq)

lemma ring_set_other:
  fixes r w :: "'w :: len word"
  assumes size: "ring_size TYPE('w) xs" and k: "k < unat (w - r)" "unat (w - r) < length xs"
  shows "ring_at (ring_set xs w x) (r + of_nat k) = ring_at xs (r + of_nat k)"
proof -
  let ?n = "length xs" and ?d = "unat (w - r)"
  have w: "w = r + of_nat ?d" by simp
  have "unat w mod ?n = (unat r + ?d) mod ?n" using ring_index [OF size, of r ?d] w by metis
  moreover have "(unat r + k) mod ?n \<noteq> (unat r + ?d) mod ?n"
  proof
    assume "(unat r + k) mod ?n = (unat r + ?d) mod ?n"
    then have "?n dvd ?d - k" using k(1) by (metis add_diff_cancel_left add_le_cancel_left less_imp_le mod_eq_dvd_iff_nat)
    then show False using k by (auto dest: dvd_imp_le)
  qed
  ultimately show ?thesis
    using ring_index [OF size, of r k] by (simp add: ring_at_def ring_set_def)
qed

lemma ring_at_set:
  assumes "xs \<noteq> []"
  shows "ring_at (ring_set xs w x) w = x"
  using assms by (simp add: ring_at_def ring_set_def)

lemma unat_succ:
  fixes d :: "'w :: len word"
  assumes "unat d < n" "n < 2 ^ LENGTH('w)"
  shows "unat (d + 1) = Suc (unat d)"
  using assms by (simp add: unat_word_ariths mod_less)

lemma unat_pred:
  fixes d :: "'w :: len word"
  assumes "d \<noteq> 0"
  shows "unat d = Suc (unat (d - 1))"
proof -
  have "0 < unat d" using assms by (simp add: unat_gt_0)
  then show ?thesis using unat_minus_one [OF assms] by simp
qed

text \<open>Adding at the head of the counter, removing at its tail, and taking back the last element.\<close>

lemma ring_push:
  fixes r w :: "'w :: len word"
  assumes size: "ring_size TYPE('w) xs" "length xs < 2 ^ LENGTH('w)" and room: "unat (w - r) < length xs"
  shows "ring_span (ring_set xs w x) r (w + 1) = ring_span xs r w @ [x]"
proof -
  have "unat (w + 1 - r) = Suc (unat (w - r))"
    using unat_succ [OF room size(2)] by (simp add: algebra_simps)
  moreover have "map (\<lambda>k. ring_at (ring_set xs w x) (r + of_nat k)) [0..<unat (w - r)] =
      map (\<lambda>k. ring_at xs (r + of_nat k)) [0..<unat (w - r)]"
    using ring_set_other [OF size(1) _ room] by simp
  moreover have "ring_at (ring_set xs w x) (r + of_nat (unat (w - r))) = x"
    using size(1) ring_at_set [of xs w x] by (simp add: ring_size_def)
  ultimately show ?thesis by (simp add: ring_span_def)
qed

lemma ring_pop:
  fixes r w :: "'w :: len word"
  assumes "r \<noteq> w"
  shows "ring_span xs r w = ring_at xs r # ring_span xs (r + 1) w"
proof -
  have "unat (w - r) = Suc (unat (w - r - 1))" using assms by (intro unat_pred) simp
  then have "unat (w - r) = Suc (unat (w - (r + 1)))" by (simp add: algebra_simps)
  then show ?thesis
    by (simp add: ring_span_def upt_conv_Cons map_Suc_upt [symmetric] add.assoc del: upt_Suc)
qed

lemma ring_drop_last:
  fixes r w :: "'w :: len word"
  assumes "r \<noteq> w"
  shows "ring_span xs r (w - 1) = butlast (ring_span xs r w)"
proof -
  have "unat (w - r) = Suc (unat (w - r - 1))" using assms by (intro unat_pred) simp
  then have "unat (w - r) = Suc (unat (w - 1 - r))" by (simp add: algebra_simps)
  then show ?thesis by (simp add: ring_span_def)
qed

lemma ring_span_append:
  fixes r w e :: "'w :: len word"
  assumes "unat (e - r) = unat (w - r) + unat (e - w)"
  shows "ring_span xs r e = ring_span xs r w @ ring_span xs w e"
proof -
  have "r + of_nat (unat (w - r) + k) = w + of_nat k" for k by (simp add: algebra_simps)
  then have "map (\<lambda>k. ring_at xs (r + of_nat k)) [unat (w - r)..<unat (w - r) + unat (e - w)] =
      map (\<lambda>k. ring_at xs (w + of_nat k)) [0..<unat (e - w)]"
    by (intro nth_equalityI) simp_all
  then show ?thesis unfolding ring_span_def assms by (subst upt_add_eq_append) simp_all
qed

section \<open>The contract of a bounded queue\<close>

datatype 'a fifo_op = Put 'a | Get

locale bounded_fifo =
  fixes put :: "'a \<Rightarrow> 's \<Rightarrow> 's" and get :: "'s \<Rightarrow> 'a \<times> 's"
    and full empty :: "'s \<Rightarrow> bool"
    and queue :: "'s \<Rightarrow> 'a list" and cap :: nat and good :: "'s \<Rightarrow> bool"
  assumes bound: "good s \<Longrightarrow> length (queue s) \<le> cap"
    and full_iff: "good s \<Longrightarrow> full s \<longleftrightarrow> length (queue s) = cap"
    and empty_iff: "good s \<Longrightarrow> empty s \<longleftrightarrow> queue s = []"
    and put_law: "good s \<Longrightarrow> \<not> full s \<Longrightarrow> good (put x s) \<and> queue (put x s) = queue s @ [x]"
    and get_law: "good s \<Longrightarrow> \<not> empty s \<Longrightarrow>
      good (snd (get s)) \<and> queue s = fst (get s) # queue (snd (get s))"
begin

text \<open>Runs a sequence of operations, skipping a put on a full and a get on an empty buffer; gives the
  elements accepted, the elements delivered, and the buffer.\<close>

primrec run_ops :: "'a fifo_op list \<Rightarrow> 's \<Rightarrow> 'a list \<times> 'a list \<times> 's" where
  "run_ops [] s = ([], [], s)"
| "run_ops (op # ops) s =
    (case op of
       Put x \<Rightarrow> if full s then run_ops ops s
                else (let (ins, outs, t) = run_ops ops (put x s) in (x # ins, outs, t))
     | Get \<Rightarrow> if empty s then run_ops ops s
              else (let (x, s1) = get s; (ins, outs, t) = run_ops ops s1 in (ins, x # outs, t)))"

lemma run_fifo:
  "good s \<Longrightarrow> run_ops ops s = (ins, outs, t) \<Longrightarrow> good t \<and> queue s @ ins = outs @ queue t"
proof (induction ops arbitrary: s ins outs t)
  case (Cons op ops)
  show ?case
  proof (cases op)
    case (Put x)
    show ?thesis
      using Cons.prems Put put_law [OF Cons.prems(1)] Cons.IH
      by (fastforce split: if_splits prod.splits)
  next
    case Get
    show ?thesis
      using Cons.prems Get get_law [OF Cons.prems(1)] Cons.IH
      by (fastforce split: if_splits prod.splits)
  qed
qed simp

lemma run_bound: "good s \<Longrightarrow> run_ops ops s = (ins, outs, t) \<Longrightarrow> length ins \<le> length outs + cap"
proof -
  assume h: "good s" "run_ops ops s = (ins, outs, t)"
  have t: "good t" "queue s @ ins = outs @ queue t" using run_fifo [OF h] by simp_all
  have "length (queue s) + length ins = length outs + length (queue t)" using arg_cong [OF t(2), of length] by simp
  then show ?thesis using bound [OF t(1)] by simp
qed

end

end
