(* ===== verification/Usercopy.thy ===== *)
theory Usercopy
  imports Memory
begin

text \<open>Copying to and from the running process as the drivers and the file system do it:
  \<open>either_copyout\<close> and \<open>either_copyin\<close> of \<open>kernel/proc.c\<close>, and what a process sees after a sequence of
  bytes has been copied to it one by one.\<close>

definition either_copyout :: "uint64 \<Rightarrow> addr \<Rightarrow> bool \<Rightarrow> uint64 \<Rightarrow> byte list \<Rightarrow> kstate \<Rightarrow> (int \<times> kstate) result" where
  "either_copyout scause pt user_dst dst src s =
    (if user_dst then copyout scause pt dst src s
     else rbind (memmove_in dst src s) (\<lambda>t. Inr (0, t)))"

definition either_copyin :: "addr \<Rightarrow> bool \<Rightarrow> uint64 \<Rightarrow> nat \<Rightarrow> kstate \<Rightarrow> (int \<times> byte list) result" where
  "either_copyin pt user_src src len s =
    (if user_src then copyin pt src len s
     else rbind (memmove_out src len s) (\<lambda>bs. Inr (0, bs)))"

text \<open>Address arithmetic of the loops.\<close>

lemma unat_user_addr:
  assumes "0 \<le> i" "i < n" "unat ad + nat n \<le> unat TRAPFRAME"
  shows "unat (ad + of_int i) = unat ad + nat i" "ad + of_int i < TRAPFRAME"
proof -
  have T: "unat TRAPFRAME = 274877898752" by (simp add: layout_defs)
  have b: "unat ad + nat i < 274877898752" using assms T by linarith
  have "(of_int i :: uint64) = of_nat (nat i)" using assms(1) by simp
  moreover have "unat (of_nat (nat i) :: uint64) = nat i" using b by (intro unat_of_nat64) simp
  ultimately show u: "unat (ad + of_int i) = unat ad + nat i"
    using unat_add_lem64 [of ad "of_int i"] b by simp
  show "ad + of_int i < TRAPFRAME" using b by (simp add: word_less_nat_alt u T)
qed

lemma view_bytes_Cons:
  assumes "uview ks pt (ad + of_int i) = Some b" "i + 1 \<le> j"
  shows "view_bytes ks pt (ad + of_int i) (nat (j - i)) = b # view_bytes ks pt (ad + of_int (i + 1)) (nat (j - (i + 1)))"
proof -
  have "nat (j - i) = 1 + nat (j - (i + 1))" using assms(2) by simp
  then show ?thesis
    using view_bytes_add [of ks pt "ad + of_int i" 1 "nat (j - (i + 1))"] assms(1)
    by (simp add: view_bytes_def algebra_simps)
qed

text \<open>The process \<open>pt\<close> has got the bytes \<open>bs\<close> at \<open>d\<close>, and nobody sees any other change.\<close>

definition user_gets :: "addr set \<Rightarrow> addr \<Rightarrow> uint64 \<Rightarrow> byte list \<Rightarrow> kstate \<Rightarrow> kstate \<Rightarrow> bool" where
  "user_gets R pt d bs ks ks' \<longleftrightarrow>
    (\<forall>r \<in> R. \<forall>va < TRAPFRAME. uview ks' r va =
      (if r = pt \<and> unat (va - d) < length bs then Some (bs ! unat (va - d)) else uview ks r va))"

lemma user_gets_step:
  assumes "user_gets R pt (d + 1) bs ks1 ks2" "length bs < 2 ^ 63"
    and "\<forall>r \<in> R. \<forall>va < TRAPFRAME. uview ks1 r va = (if r = pt \<and> va = d then Some b else uview ks r va)"
  shows "user_gets R pt d (b # bs) ks ks2"
  unfolding user_gets_def
proof (intro ballI allI impI)
  fix r va assume h: "r \<in> R" "va < TRAPFRAME"
  have one: "d + 1 = d + of_nat 1" by simp
  note split = range_split [OF one, of "Suc (length bs)" va]
  have z: "unat (va - d) < 1 \<longleftrightarrow> va = d" by (simp add: unat_eq_zero)
  have l: "Suc (length bs) < 2 ^ 64" using assms(2) by simp
  show "uview ks2 r va = (if r = pt \<and> unat (va - d) < length (b # bs) then Some ((b # bs) ! unat (va - d)) else uview ks r va)"
  proof (cases "r = pt \<and> unat (va - (d + 1)) < length bs")
    case True
    then have "unat (va - d) = 1 + unat (va - (d + 1))" using split(2) l by simp
    then show ?thesis using True assms(1) h by (simp add: user_gets_def)
  next
    case False
    then have "uview ks2 r va = uview ks1 r va" using assms(1) h by (auto simp: user_gets_def)
    then show ?thesis using assms(3) h False split(1) l z by auto
  qed
qed

lemma view_bytes_gets:
  assumes "user_gets R pt d bs ks ks'" "pt \<in> R" "unat d + length bs \<le> unat TRAPFRAME"
  shows "view_bytes ks' pt d (length bs) = bs"
proof (rule nth_equalityI)
  fix k assume "k < length (view_bytes ks' pt d (length bs))"
  then have k: "k < length bs" by (simp add: view_bytes_def)
  have T: "unat TRAPFRAME = 274877898752" by (simp add: layout_defs)
  have u: "unat (of_nat k :: uint64) = k" using k assms(3) T by (intro unat_of_nat64) simp
  then have "unat (d + of_nat k) = unat d + k" using unat_add_lem64 [of d "of_nat k"] k assms(3) T by simp
  then have "d + of_nat k < TRAPFRAME" using k assms(3) by (simp add: word_less_nat_alt)
  then have "uview ks' pt (d + of_nat k) = Some (bs ! k)"
    using assms(1,2) u k by (simp add: user_gets_def)
  then show "view_bytes ks' pt d (length bs) ! k = bs ! k" using k by (simp add: view_bytes_def)
qed (simp add: view_bytes_def)

end
