(* ===== verification/Pipe.thy ===== *)
theory Pipe
  imports Ring Usercopy
begin

text \<open>Pipes, \<open>kernel/pipe.c\<close>.  Each operation runs under the pipe's lock; what runs in one piece is the
  code from acquiring the lock (or waking up, which acquires it again) to the next \<open>sleep\<close> or the
  return.  Such a piece ends in \<open>Done ret\<close> or in \<open>Wait i\<close>, asleep with \<open>i\<close> bytes already written; the
  channels it woke come with it.  The struct lives in a page of its own (\<open>pipealloc\<close> gets it from
  \<open>kalloc\<close>), so the process memory the bytes are copied from and to is the rest of the kernel state.\<close>

definition PIPESIZE :: nat where "PIPESIZE = 512"

record pipe =
  pipe_data :: "byte list"
  nread :: uint
  nwrite :: uint
  readopen :: bool
  writeopen :: bool

datatype pipe_chan = ChanRead | ChanWrite

datatype pipe_out = Done int | Wait int

text \<open>\<open>pipealloc\<close> sets the fields of a page with whatever bytes are in it; the two files are in theory
  \<open>File\<close>.\<close>

definition pipe_init :: "byte list \<Rightarrow> pipe" where
  "pipe_init page = \<lparr>pipe_data = page, nread = 0, nwrite = 0, readopen = True, writeopen = True\<rparr>"

definition pipe_put :: "byte \<Rightarrow> pipe \<Rightarrow> pipe" where
  "pipe_put ch pi = pi\<lparr>pipe_data := ring_set (pipe_data pi) (nwrite pi) ch, nwrite := nwrite pi + 1\<rparr>"

definition pipe_get :: "pipe \<Rightarrow> byte \<times> pipe" where
  "pipe_get pi = (ring_at (pipe_data pi) (nread pi), pi\<lparr>nread := nread pi + 1\<rparr>)"

definition pipe_full :: "pipe \<Rightarrow> bool" where
  "pipe_full pi \<longleftrightarrow> nwrite pi = nread pi + of_nat PIPESIZE"

definition pipe_empty :: "pipe \<Rightarrow> bool" where
  "pipe_empty pi \<longleftrightarrow> nread pi = nwrite pi"

text \<open>The pipe after \<open>pipeclose\<close>, the channel woken, and whether the page is freed.\<close>

definition pipeclose :: "bool \<Rightarrow> pipe \<Rightarrow> pipe_chan \<times> bool \<times> pipe" where
  "pipeclose is_writable pi =
    (let pi1 = (if is_writable then pi\<lparr>writeopen := False\<rparr> else pi\<lparr>readopen := False\<rparr>);
         ch = (if is_writable then ChanRead else ChanWrite)
     in (ch, \<not> readopen pi1 \<and> \<not> writeopen pi1, pi1))"

text \<open>The loop of \<open>pipewrite\<close> with \<open>i\<close> bytes written so far.  \<open>p->killed\<close> is not protected by \<open>pi->lock\<close>: another process may set it
  between any two rounds, so \<open>killed i\<close> is what \<open>killed(pr)\<close> gives in the round with \<open>i\<close> bytes written.\<close>

function pipewrite :: "addr \<Rightarrow> uint64 \<Rightarrow> int \<Rightarrow> (int \<Rightarrow> bool) \<Rightarrow> kstate \<Rightarrow> int \<Rightarrow> pipe \<Rightarrow>
    (pipe_out \<times> pipe_chan list \<times> pipe) result" where
  "pipewrite pt ad n killed ks i pi =
    (if i < n then
       if \<not> readopen pi \<or> killed i then Inr (Done (-1), [], pi)
       else if pipe_full pi then Inr (Wait i, [ChanRead], pi)
       else rbind (copyin pt (ad + of_int i) 1 ks) (\<lambda>(r, ch).
            if r = -1 then Inr (Done i, [ChanRead], pi)
            else pipewrite pt ad n killed ks (i + 1) (pipe_put (hd ch) pi))
     else Inr (Done i, [ChanRead], pi))"
  by pat_completeness auto
termination
  by (relation "measure (\<lambda>(_, _, n, _, _, i, _). nat (n - i))") auto

declare pipewrite.simps [simp del]

text \<open>The copying loop of \<open>piperead\<close>, and \<open>piperead\<close> from its start or from waking up.\<close>

function piperead_copy :: "uint64 \<Rightarrow> addr \<Rightarrow> uint64 \<Rightarrow> int \<Rightarrow> int \<Rightarrow> pipe \<Rightarrow> kstate \<Rightarrow>
    (int \<times> pipe \<times> kstate) result" where
  "piperead_copy scause pt ad n i pi ks =
    (if i < n then
       if pipe_empty pi then Inr (i, pi, ks)
       else let (ch, pi1) = pipe_get pi
            in rbind (copyout scause pt (ad + of_int i) [ch] ks) (\<lambda>(r, ks1).
               if r = -1 then Inr (i, pi1, ks1)
               else piperead_copy scause pt ad n (i + 1) pi1 ks1)
     else Inr (i, pi, ks))"
  by pat_completeness auto
termination
  by (relation "measure (\<lambda>(_, _, _, n, i, _). nat (n - i))") auto

declare piperead_copy.simps [simp del]

definition piperead :: "uint64 \<Rightarrow> addr \<Rightarrow> uint64 \<Rightarrow> int \<Rightarrow> bool \<Rightarrow> pipe \<Rightarrow> kstate \<Rightarrow>
    (pipe_out \<times> pipe_chan list \<times> pipe \<times> kstate) result" where
  "piperead scause pt ad n killed pi ks =
    (if pipe_empty pi \<and> writeopen pi then
       if killed then Inr (Done (-1), [], pi, ks) else Inr (Wait 0, [], pi, ks)
     else rbind (piperead_copy scause pt ad n 0 pi ks) (\<lambda>(i, pi1, ks1).
          Inr (Done i, [ChanWrite], pi1, ks1)))"

section \<open>The pipe is a bounded queue\<close>

definition pipe_queue :: "pipe \<Rightarrow> byte list" where
  "pipe_queue pi = ring_span (pipe_data pi) (nread pi) (nwrite pi)"

definition pipe_ok :: "pipe \<Rightarrow> bool" where
  "pipe_ok pi \<longleftrightarrow> length (pipe_data pi) = PIPESIZE \<and> unat (nwrite pi - nread pi) \<le> PIPESIZE"

lemma pipe_ring_size: "pipe_ok pi \<Longrightarrow> ring_size TYPE(32) (pipe_data pi)"
  by (auto simp: pipe_ok_def PIPESIZE_def ring_size_def)

lemma pipe_full_iff: "pipe_full pi \<longleftrightarrow> unat (nwrite pi - nread pi) = PIPESIZE"
proof -
  have "pipe_full pi \<longleftrightarrow> nwrite pi - nread pi = of_nat PIPESIZE"
    unfolding pipe_full_def by (auto simp: algebra_simps)
  also have "\<dots> \<longleftrightarrow> unat (nwrite pi - nread pi) = unat (of_nat PIPESIZE :: uint)" by (simp only: word_unat_eq_iff)
  finally show ?thesis by (simp add: PIPESIZE_def)
qed

interpretation pq: bounded_fifo pipe_put pipe_get pipe_full pipe_empty pipe_queue PIPESIZE pipe_ok
proof unfold_locales
  fix s :: pipe and x assume s: "pipe_ok s"
  show "length (pipe_queue s) \<le> PIPESIZE" using s by (simp add: pipe_queue_def pipe_ok_def)
  show "pipe_full s = (length (pipe_queue s) = PIPESIZE)" by (simp add: pipe_full_iff pipe_queue_def)
  show "pipe_empty s = (pipe_queue s = [])"
    by (auto simp: pipe_empty_def pipe_queue_def ring_span_def unat_eq_zero)
  have n: "length (pipe_data s) < 2 ^ LENGTH(32)" using s by (simp add: pipe_ok_def PIPESIZE_def)
  show "pipe_ok (pipe_put x s) \<and> pipe_queue (pipe_put x s) = pipe_queue s @ [x]" if "\<not> pipe_full s"
  proof -
    have room: "unat (nwrite s - nread s) < length (pipe_data s)"
      using that s by (simp add: pipe_full_iff pipe_ok_def)
    have "unat (nwrite s + 1 - nread s) = Suc (unat (nwrite s - nread s))"
      using unat_succ [OF room n] by (simp add: algebra_simps)
    then have "pipe_ok (pipe_put x s)" using room s by (simp add: pipe_ok_def pipe_put_def)
    then show ?thesis
      using ring_push [OF pipe_ring_size [OF s] n room] by (simp add: pipe_queue_def pipe_put_def)
  qed
  show "pipe_ok (snd (pipe_get s)) \<and> pipe_queue s = fst (pipe_get s) # pipe_queue (snd (pipe_get s))"
    if "\<not> pipe_empty s"
  proof -
    have ne: "nread s \<noteq> nwrite s" using that by (simp add: pipe_empty_def)
    then have "unat (nwrite s - nread s) = Suc (unat (nwrite s - nread s - 1))" by (intro unat_pred) simp
    then have "unat (nwrite s - (nread s + 1)) \<le> PIPESIZE" using s by (simp add: pipe_ok_def algebra_simps)
    then show ?thesis using s ring_pop [OF ne] by (simp add: pipe_ok_def pipe_get_def pipe_queue_def)
  qed
qed

section \<open>Bytes between a process and the pipe\<close>

text \<open>What one piece of \<open>pipewrite\<close> does: \<open>j\<close> is the number of bytes written when it stops.\<close>

definition wrote :: "addr \<Rightarrow> uint64 \<Rightarrow> int \<Rightarrow> (int \<Rightarrow> bool) \<Rightarrow> kstate \<Rightarrow> int \<Rightarrow> pipe \<Rightarrow> pipe_out \<Rightarrow> pipe_chan list \<Rightarrow> pipe \<Rightarrow> int \<Rightarrow> bool" where
  "wrote pt ad n killed ks i pi out wk pi' j \<longleftrightarrow>
    pipe_ok pi' \<and> nread pi' = nread pi \<and> readopen pi' = readopen pi \<and> writeopen pi' = writeopen pi \<and>
    i \<le> j \<and> pipe_queue pi' = pipe_queue pi @ view_bytes ks pt (ad + of_int i) (nat (j - i)) \<and>
    (out = Done j \<and> wk = [ChanRead] \<and> (j = n \<or> n < i \<or> j < n \<and> uview ks pt (ad + of_int j) = None) \<or>
     out = Wait j \<and> wk = [ChanRead] \<and> j < n \<and> pipe_full pi' \<or>
     out = Done (-1) \<and> wk = [] \<and> j < n \<and> (killed j \<and> readopen pi \<or> \<not> readopen pi \<and> j = i \<and> pi' = pi))"

lemma pipewrite_ok:
  assumes inv: "vm_inv ks R xs" and pt: "pt \<in> R" and ad: "unat ad + nat n \<le> unat TRAPFRAME"
  shows "pipe_ok pi \<Longrightarrow> 0 \<le> i \<Longrightarrow>
    \<exists>out wk pi' j. pipewrite pt ad n killed ks i pi = Inr (out, wk, pi') \<and> wrote pt ad n killed ks i pi out wk pi' j"
proof (induction "nat (n - i)" arbitrary: i pi rule: less_induct)
  case less
  note simps = pipewrite.simps [of pt ad n killed ks i pi]
  have z: "view_bytes ks pt a 0 = []" for a by (simp add: view_bytes_def)
  show ?case
  proof (cases "i < n")
    case False
    then show ?thesis using less.prems simps z
      by (intro exI [of _ "Done i"] exI [of _ "[ChanRead]"] exI [of _ pi] exI [of _ i]) (auto simp: wrote_def)
  next
    case lt: True
    show ?thesis
    proof (cases "\<not> readopen pi \<or> killed i")
      case True
      then show ?thesis using less.prems simps z lt
        by (intro exI [of _ "Done (-1)"] exI [of _ "[]"] exI [of _ pi] exI [of _ i]) (auto simp: wrote_def)
    next
      case alive: False
      show ?thesis
      proof (cases "pipe_full pi")
        case True
        then show ?thesis using less.prems simps z lt alive
          by (intro exI [of _ "Wait i"] exI [of _ "[ChanRead]"] exI [of _ pi] exI [of _ i]) (auto simp: wrote_def)
      next
        case room: False
        have a: "ad + of_int i < TRAPFRAME" using unat_user_addr [OF less.prems(2) lt ad] by simp
        obtain bs where c: "copyin pt (ad + of_int i) 1 ks =
            Inr (if uview ks pt (ad + of_int i) = None then -1 else 0, bs)"
          "\<forall>b. uview ks pt (ad + of_int i) = Some b \<longrightarrow> bs = [b]"
          using copyin_byte [OF inv pt a] by blast
        show ?thesis
        proof (cases "uview ks pt (ad + of_int i)")
          case None
          then show ?thesis using less.prems simps z lt alive room c(1)
            by (intro exI [of _ "Done i"] exI [of _ "[ChanRead]"] exI [of _ pi] exI [of _ i]) (auto simp: wrote_def)
        next
          case (Some b)
          note p = pq.put_law [OF less.prems(1) room, of b]
          have step: "pipewrite pt ad n killed ks i pi = pipewrite pt ad n killed ks (i + 1) (pipe_put b pi)"
            using simps lt alive room c Some by simp
          obtain out wk pi' j where r: "pipewrite pt ad n killed ks (i + 1) (pipe_put b pi) = Inr (out, wk, pi')"
            "wrote pt ad n killed ks (i + 1) (pipe_put b pi) out wk pi' j"
            using less.hyps [of "i + 1" "pipe_put b pi"] lt p less.prems(2) by auto
          have j: "i + 1 \<le> j" using r(2) by (simp add: wrote_def)
          have "pipe_queue pi' = pipe_queue pi @ view_bytes ks pt (ad + of_int i) (nat (j - i))"
            using r(2) p view_bytes_Cons [OF Some j] by (simp add: wrote_def)
          then have "wrote pt ad n killed ks i pi out wk pi' j"
            using r(2) j lt alive by (auto simp: wrote_def pipe_put_def)
          then show ?thesis using step r(1) by metis
        qed
      qed
    qed
  qed
qed

text \<open>What the copying loop of \<open>piperead\<close> does: bytes leave the pipe for the process.\<close>

lemma piperead_copy_ok:
  assumes pt: "pt \<in> R" and sc: "scause \<noteq> 13" and ad: "unat ad + nat n \<le> unat TRAPFRAME"
  shows "vm_inv ks R xs \<Longrightarrow> pipe_ok pi \<Longrightarrow> 0 \<le> i \<Longrightarrow>
    (\<And>k. i \<le> k \<Longrightarrow> k < n \<Longrightarrow> direct (entry (mem ks) pt (ad + of_int k))) \<Longrightarrow>
    \<exists>pi' ks'. piperead_copy scause pt ad n i pi ks = Inr (i + int (min (nat (n - i)) (length (pipe_queue pi))), pi', ks') \<and>
      vm_inv ks' R xs \<and> pipe_ok pi' \<and> nwrite pi' = nwrite pi \<and> readopen pi' = readopen pi \<and> writeopen pi' = writeopen pi \<and>
      pipe_queue pi' = drop (nat (n - i)) (pipe_queue pi) \<and>
      user_gets R pt (ad + of_int i) (take (nat (n - i)) (pipe_queue pi)) ks ks'"
proof (induction "nat (n - i)" arbitrary: i pi ks rule: less_induct)
  case less
  note simps = piperead_copy.simps [of scause pt ad n i pi ks]
  have none: "user_gets R pt d [] ks ks" for d by (simp add: user_gets_def)
  show ?case
  proof (cases "i < n")
    case False
    then show ?thesis using simps less.prems none by auto
  next
    case lt: True
    show ?thesis
    proof (cases "pipe_empty pi")
      case True
      then have "pipe_queue pi = []" using pq.empty_iff [OF less.prems(2)] by simp
      then show ?thesis using simps less.prems none lt True by auto
    next
      case False
      obtain ch pi1 where g: "pipe_get pi = (ch, pi1)" by fastforce
      have q: "pipe_ok pi1" "pipe_queue pi = ch # pipe_queue pi1" using pq.get_law [OF less.prems(2) False] g by simp_all
      have a: "ad + of_int i < TRAPFRAME" using unat_user_addr [OF less.prems(3) lt ad] by simp
      obtain ks1 where k: "copyout scause pt (ad + of_int i) [ch] ks = Inr (0, ks1)" "vm_inv ks1 R xs"
        "\<forall>r' \<in> R. \<forall>va. entry (mem ks1) r' va = entry (mem ks) r' va"
        "\<forall>r' \<in> R. \<forall>va < TRAPFRAME. uview ks1 r' va = (if r' = pt \<and> va = ad + of_int i then Some ch else uview ks r' va)"
        using copyout_byte [OF less.prems(1) pt sc a less.prems(4) [OF order_refl lt]] by blast
      have dir: "direct (entry (mem ks1) pt (ad + of_int k))" if "i + 1 \<le> k" "k < n" for k
        using less.prems(4) [of k] k(3) pt that by simp
      have n: "nat (n - i) = Suc (nat (n - (i + 1)))" using lt by simp
      obtain pi' ks' where r: "piperead_copy scause pt ad n (i + 1) pi1 ks1 =
          Inr (i + 1 + int (min (nat (n - (i + 1))) (length (pipe_queue pi1))), pi', ks')"
        "vm_inv ks' R xs" "pipe_ok pi'" "nwrite pi' = nwrite pi1" "readopen pi' = readopen pi1" "writeopen pi' = writeopen pi1"
        "pipe_queue pi' = drop (nat (n - (i + 1))) (pipe_queue pi1)"
        "user_gets R pt (ad + of_int (i + 1)) (take (nat (n - (i + 1))) (pipe_queue pi1)) ks1 ks'"
        using less.hyps [of "i + 1" ks1 pi1] lt k(2) q(1) less.prems(3) dir by auto
      have "piperead_copy scause pt ad n i pi ks =
          Inr (i + int (min (nat (n - i)) (length (pipe_queue pi))), pi', ks')"
        using simps lt False g k(1) r(1) q(2) n by (simp del: of_int_add)
      moreover have "user_gets R pt (ad + of_int i) (take (nat (n - i)) (pipe_queue pi)) ks ks'"
      proof -
        have "length (pipe_queue pi1) \<le> 512" using pq.bound [OF q(1)] by (simp add: PIPESIZE_def)
        then show ?thesis
          using user_gets_step [of R pt "ad + of_int i" "take (nat (n - (i + 1))) (pipe_queue pi1)" ks1 ks' ch ks] r(8) k(4) n q(2)
          by (simp add: algebra_simps)
      qed
      ultimately show ?thesis using r(2-7) n q(2) g by (auto simp: pipe_get_def)
    qed
  qed
qed

section \<open>Any interleaving of writers and readers\<close>

text \<open>\<open>pipe_run R pi ks W D\<close>: the pipe and the memory after some pieces of \<open>pipewrite\<close> and \<open>piperead\<close> by
  processes with address spaces in \<open>R\<close>, in any order and of any size, closing of one end, and whatever
  the processes did to the memory in between; \<open>W\<close> are the bytes the writers had in their memory,
  \<open>D\<close> the bytes the readers find in theirs.\<close>

inductive pipe_run :: "addr set \<Rightarrow> pipe \<Rightarrow> kstate \<Rightarrow> byte list \<Rightarrow> byte list \<Rightarrow> bool" for R where
  run_start: "length page = PIPESIZE \<Longrightarrow> vm_inv ks R xs \<Longrightarrow> pipe_run R (pipe_init page) ks [] []"
| run_write: "pipe_run R pi ks W D \<Longrightarrow> pt \<in> R \<Longrightarrow> unat ad + nat n \<le> unat TRAPFRAME \<Longrightarrow> 0 \<le> i \<Longrightarrow>
    pipewrite pt ad n killed ks i pi = Inr (out, wk, pi') \<Longrightarrow>
    pipe_run R pi' ks (W @ view_bytes ks pt (ad + of_int i) (unat (nwrite pi' - nwrite pi))) D"
| run_read: "pipe_run R pi ks W D \<Longrightarrow> pt \<in> R \<Longrightarrow> scause \<noteq> 13 \<Longrightarrow> unat ad + nat n \<le> unat TRAPFRAME \<Longrightarrow>
    (\<And>k. 0 \<le> k \<Longrightarrow> k < n \<Longrightarrow> direct (entry (mem ks) pt (ad + of_int k))) \<Longrightarrow>
    piperead scause pt ad n killed pi ks = Inr (Done m, wk, pi', ks') \<Longrightarrow>
    pipe_run R pi' ks' W (D @ view_bytes ks' pt ad (nat m))"
| run_close: "pipe_run R pi ks W D \<Longrightarrow> pipeclose w pi = (ch, False, pi') \<Longrightarrow> pipe_run R pi' ks W D"
| run_user: "pipe_run R pi ks W D \<Longrightarrow> vm_inv ks' R xs \<Longrightarrow> pipe_run R pi ks' W D"

lemma pipe_init_ok: "length page = PIPESIZE \<Longrightarrow> pipe_ok (pipe_init page) \<and> pipe_queue (pipe_init page) = []"
  by (simp add: pipe_ok_def pipe_init_def pipe_queue_def)

text \<open>The counter tells how many bytes a piece of \<open>pipewrite\<close> has added.\<close>

lemma wrote_count:
  assumes "wrote pt ad n killed ks i pi out wk pi' j"
  shows "unat (nwrite pi' - nwrite pi) = nat (j - i)"
proof -
  have "length (pipe_queue pi') = length (pipe_queue pi) + nat (j - i)" using assms by (simp add: wrote_def view_bytes_def)
  then have l: "unat (nwrite pi' - nread pi) = unat (nwrite pi - nread pi) + nat (j - i)"
    using assms by (simp add: pipe_queue_def wrote_def)
  then have "nwrite pi - nread pi \<le> nwrite pi' - nread pi" by (simp add: word_le_nat_alt)
  note unat_sub [OF this]
  moreover have "nwrite pi' - nread pi - (nwrite pi - nread pi) = nwrite pi' - nwrite pi" by simp
  ultimately show ?thesis using l by simp
qed

lemma piperead_ok:
  assumes "vm_inv ks R xs" "pipe_ok pi" "pt \<in> R" "scause \<noteq> 13" "unat ad + nat n \<le> unat TRAPFRAME"
    and "\<And>k. 0 \<le> k \<Longrightarrow> k < n \<Longrightarrow> direct (entry (mem ks) pt (ad + of_int k))"
    and "piperead scause pt ad n killed pi ks = Inr (Done m, wk, pi', ks')"
  shows "vm_inv ks' R xs \<and> pipe_ok pi' \<and> pipe_queue pi = view_bytes ks' pt ad (nat m) @ pipe_queue pi'"
proof (cases "pipe_empty pi \<and> writeopen pi")
  case True
  then show ?thesis using assms(1,2,7) by (auto simp: piperead_def view_bytes_def split: if_splits)
next
  case False
  obtain p k where r: "piperead_copy scause pt ad n 0 pi ks = Inr (int (min (nat n) (length (pipe_queue pi))), p, k)"
    "vm_inv k R xs" "pipe_ok p" "pipe_queue p = drop (nat n) (pipe_queue pi)"
    "user_gets R pt ad (take (nat n) (pipe_queue pi)) ks k"
    using piperead_copy_ok [OF assms(3-5,1,2) order_refl assms(6)] by auto
  have e: "m = int (length (take (nat n) (pipe_queue pi)))" "pi' = p" "ks' = k"
    using assms(7) False r(1) by (auto simp: piperead_def min.commute)
  have "view_bytes k pt ad (nat m) = take (nat n) (pipe_queue pi)"
    using view_bytes_gets [OF r(5) assms(3)] assms(5) e(1) by simp
  then show ?thesis using r e by simp
qed

lemma pipe_run_inv:
  "pipe_run R pi ks W D \<Longrightarrow> pipe_ok pi \<and> (\<exists>xs. vm_inv ks R xs) \<and> W = D @ pipe_queue pi"
proof (induction rule: pipe_run.induct)
  case (run_start page ks xs)
  then show ?case using pipe_init_ok by auto
next
  case (run_write pi ks W D pt ad n i killed out wk pi')
  then obtain xs where xs: "vm_inv ks R xs" by blast
  obtain j where j: "wrote pt ad n killed ks i pi out wk pi' j"
    using pipewrite_ok [OF xs run_write.hyps(2,3), of pi i killed] run_write by auto
  then show ?case using wrote_count [OF j] run_write.IH by (auto simp: wrote_def)
next
  case (run_read pi ks W D pt scause ad n killed m wk pi' ks')
  then obtain xs where xs: "vm_inv ks R xs" by blast
  have "vm_inv ks' R xs \<and> pipe_ok pi' \<and> pipe_queue pi = view_bytes ks' pt ad (nat m) @ pipe_queue pi'"
    by (rule piperead_ok [OF xs _ run_read.hyps(2,3,4,5,6)]) (use run_read.IH in auto)
  then show ?case using run_read.IH by auto
next
  case (run_close pi ks W D w ch pi')
  then have "pipe_queue pi' = pipe_queue pi" "pipe_ok pi' = pipe_ok pi"
    by (auto simp: pipeclose_def Let_def pipe_queue_def pipe_ok_def split: if_splits)
  then show ?case using run_close.IH by simp
qed auto

section \<open>Properties\<close>

text \<open>C14: A pipe delivers the writers' bytes to the readers unchanged and in order.  Whatever the
  interleaving of pieces of \<open>pipewrite\<close> and \<open>piperead\<close>, the bytes found in the readers' memory followed
  by those still in the pipe are the bytes that were in the writers' memory, and never more than
  \<open>PIPESIZE\<close> are under way.  The counters wrap around at 32 bits without harm.\<close>

theorem pipe_fifo:
  assumes "pipe_run R pi ks W D"
  shows "W = D @ pipe_queue pi \<and> length W \<le> length D + PIPESIZE"
  using pipe_run_inv [OF assms] pq.bound by auto

theorem pipe_fifo_witness:
  "\<exists>r c s out wk pi. two_spaces = Inr (r, c, s) \<and>
     pipewrite r 0 1 (\<lambda>_. False) s 0 (pipe_init (replicate 512 7)) = Inr (out, wk, pi) \<and> out = Done 1 \<and> pipe_queue pi = [0]"
proof -
  obtain r c s xs where s: "two_spaces = Inr (r, c, s)" "vm_inv s {c, r} xs"
    "\<And>va. va < TRAPFRAME \<Longrightarrow> PGROUNDDOWN va < PGSIZE \<Longrightarrow>
       uview s r va = Some 0 \<and> PTE_FLAGS (entry (mem s) r va) = user_perm PTE_W OR PTE_V"
    by (rule two_spaces_ok) blast
  have 0: "uview s r 0 = Some 0" using s(3) [of 0] by (simp add: PGROUNDDOWN_def PGSIZE_def layout_defs)
  let ?pi = "pipe_init (replicate 512 7)"
  have len: "length (replicate 512 (7 :: byte)) = PIPESIZE" by (simp add: PIPESIZE_def)
  have ad: "unat (0 :: uint64) + nat 1 \<le> unat TRAPFRAME" by (simp add: layout_defs)
  have st: "pipe_run {c, r} ?pi s [] []" by (rule run_start [OF len s(2)])
  obtain bs where b: "copyin r 0 1 s = Inr (0, bs)" "bs = [0]"
    using copyin_byte [OF s(2), of r 0] 0 PGSIZE_TRAPFRAME(3) by auto
  have w: "pipewrite r 0 1 (\<lambda>_. False) s 0 ?pi = Inr (Done 1, [ChanRead], pipe_put 0 ?pi)"
    using b by (simp add: pipewrite.simps pipe_init_def pipe_full_def PIPESIZE_def)
  have "pipe_run {c, r} (pipe_put 0 ?pi) s ([] @ view_bytes s r (0 + of_int 0) (unat (nwrite (pipe_put 0 ?pi) - nwrite ?pi))) []"
    by (rule run_write [OF st _ ad order_refl w]) simp
  moreover have "unat (nwrite (pipe_put 0 ?pi) - nwrite ?pi) = 1" by (simp add: pipe_put_def pipe_init_def)
  ultimately have "pipe_queue (pipe_put 0 ?pi) = view_bytes s r 0 1" using pipe_fifo by fastforce
  then have "pipe_queue (pipe_put 0 ?pi) = [0]" using 0 by (simp add: view_bytes_def)
  then show ?thesis using s(1) w by blast
qed

lemma pipewrite_wakes:
  "pipewrite pt ad n killed ks i pi = Inr (out, wk, pi') \<Longrightarrow> 0 \<le> i \<Longrightarrow>
    (ChanRead \<in> set wk \<longleftrightarrow> out \<noteq> Done (-1)) \<and> (\<forall>j. out = Wait j \<longrightarrow> pipe_full pi' \<and> readopen pi') \<and>
    (out = Done (-1) \<longrightarrow> \<not> readopen pi \<and> pi' = pi \<or> readopen pi \<and> (\<exists>j \<ge> i. j < n \<and> killed j \<and> nwrite pi' = nwrite pi + of_int (j - i)))"
proof (induction pt ad n killed ks i pi rule: pipewrite.induct)
  case (1 pt ad n killed ks i pi)
  note eq = "1.prems"(1) [unfolded pipewrite.simps [of pt ad n killed ks i pi]]
  show ?case
  proof (cases "i < n \<and> readopen pi \<and> \<not> killed i \<and> \<not> pipe_full pi")
    case False
    then show ?thesis using eq "1.prems"(2) by (auto split: if_splits)
  next
    case True
    then obtain r ch where c: "copyin pt (ad + of_int i) 1 ks = Inr (r, ch)"
      "(if r = -1 then Inr (Done i, [ChanRead], pi)
        else pipewrite pt ad n killed ks (i + 1) (pipe_put (hd ch) pi)) = Inr (out, wk, pi')"
      using eq by auto
    show ?thesis
    proof (cases "r = -1")
      case True
      then show ?thesis using c(2) "1.prems"(2) by auto
    next
      case False
      then have "pipewrite pt ad n killed ks (i + 1) (pipe_put (hd ch) pi) = Inr (out, wk, pi')" using c(2) by simp
      then have ih: "(ChanRead \<in> set wk \<longleftrightarrow> out \<noteq> Done (-1)) \<and> (\<forall>j. out = Wait j \<longrightarrow> pipe_full pi' \<and> readopen pi') \<and>
          (out = Done (-1) \<longrightarrow> (\<exists>j \<ge> i + 1. j < n \<and> killed j \<and> nwrite pi' = nwrite pi + 1 + of_int (j - (i + 1))))"
        using "1.IH" True False c(1) "1.prems"(2) by (auto simp: pipe_put_def)
      have "\<exists>j \<ge> i. j < n \<and> killed j \<and> nwrite pi' = nwrite pi + of_int (j - i)"
        if g: "\<exists>j \<ge> i + 1. j < n \<and> killed j \<and> nwrite pi' = nwrite pi + 1 + of_int (j - (i + 1))"
      proof -
        obtain j where "i + 1 \<le> j" "j < n" "killed j" "nwrite pi' = nwrite pi + 1 + of_int (j - (i + 1))" using g by blast
        then show ?thesis by (intro exI [of _ j]) simp
      qed
      then show ?thesis using ih True by blast
    qed
  qed
qed

text \<open>C15: Who is woken.  A piece of \<open>pipewrite\<close> wakes the readers when it sleeps, which it does only on a full pipe with the read
  end open, and when it returns, except when it returns -1.  It returns -1 when the read end is closed, and then it has
  added nothing, or when a reading of \<open>killed(pr)\<close> is true after \<open>j\<close> bytes: then the bytes it has added since it
  last slept are in the pipe and the readers are not woken.  A piece of \<open>piperead\<close> that removed bytes has woken the
  writers, and it sleeps only on an empty pipe whose write end is open; closing an end wakes the other one.\<close>

theorem pipe_wakeups:
  assumes "0 \<le> i"
  shows "(pipewrite pt ad n killed ks i pi = Inr (out, wk, pi') \<longrightarrow>
      (ChanRead \<in> set wk \<longleftrightarrow> out \<noteq> Done (-1)) \<and> (\<forall>j. out = Wait j \<longrightarrow> pipe_full pi' \<and> readopen pi') \<and>
      (out = Done (-1) \<longrightarrow>
        \<not> readopen pi \<and> pi' = pi \<or> readopen pi \<and> (\<exists>j \<ge> i. j < n \<and> killed j \<and> nwrite pi' = nwrite pi + of_int (j - i)))) \<and>
    (piperead scause pt ad n kl pi ks = Inr (out, wk, pi', ks') \<longrightarrow>
      (pi' \<noteq> pi \<longrightarrow> ChanWrite \<in> set wk) \<and>
      (\<forall>j. out = Wait j \<longrightarrow> pi' = pi \<and> pipe_empty pi \<and> writeopen pi)) \<and>
    fst (pipeclose is_writer pi) = (if is_writer then ChanRead else ChanWrite)"
proof -
  have "(pi' \<noteq> pi \<longrightarrow> ChanWrite \<in> set wk) \<and> (\<forall>j. out = Wait j \<longrightarrow> pi' = pi \<and> pipe_empty pi \<and> writeopen pi)"
    if "piperead scause pt ad n kl pi ks = Inr (out, wk, pi', ks')"
    using that by (auto simp: piperead_def split: if_splits)
  then show ?thesis using pipewrite_wakes [OF _ assms] by (simp add: pipeclose_def Let_def)
qed

theorem pipe_wakeups_witness:
  "\<exists>r c s wk pi. two_spaces = Inr (r, c, s) \<and>
     pipewrite r 0 2 (\<lambda>j. j = 1) s 0 (pipe_init (replicate 512 7)) = Inr (Done (-1), wk, pi) \<and> nwrite pi = 1 \<and> ChanRead \<notin> set wk"
proof -
  obtain r c s xs where s: "two_spaces = Inr (r, c, s)" "vm_inv s {c, r} xs"
    "\<And>va. va < TRAPFRAME \<Longrightarrow> PGROUNDDOWN va < PGSIZE \<Longrightarrow>
       uview s r va = Some 0 \<and> PTE_FLAGS (entry (mem s) r va) = user_perm PTE_W OR PTE_V"
    by (rule two_spaces_ok) blast
  let ?p = "pipe_init (replicate 512 7)"
  have 0: "uview s r 0 = Some 0" using s(3) [of 0] by (simp add: PGROUNDDOWN_def PGSIZE_def layout_defs)
  obtain bs where b: "copyin r 0 1 s = Inr (0, bs)" "bs = [0]"
    using copyin_byte [OF s(2), of r 0] 0 PGSIZE_TRAPFRAME(3) by auto
  have w: "pipewrite r 0 2 (\<lambda>j. j = 1) s 0 ?p = Inr (Done (-1), [], pipe_put 0 ?p)"
    using b by (simp add: pipewrite.simps [of r 0 2 _ s 0] pipewrite.simps [of r 0 2 _ s 1] pipe_init_def pipe_full_def PIPESIZE_def pipe_put_def)
  obtain j where "j < 2" "j = 1" "nwrite (pipe_put 0 ?p) = nwrite ?p + of_int (j - 0)" "ChanRead \<notin> set []"
    using pipe_wakeups [of 0 r 0 2 "\<lambda>j. j = 1" s ?p "Done (-1)" "[]" "pipe_put 0 ?p" 0 True s True] w by (auto simp: pipe_init_def)
  then have "nwrite (pipe_put 0 ?p) = 1" "ChanRead \<notin> set []" by (simp_all add: pipe_init_def)
  then show ?thesis using s(1) w by blast
qed

end
