(* ===== verification/Uart.thy ===== *)
theory Uart
  imports Ring Spinlock
begin

text \<open>The driver of the serial port, \<open>kernel/uart.c\<close>.  The device is the environment: \<open>tx_idle k\<close> is the
  transmit-idle bit that the \<open>k\<close>-th read of the line status register finds, and an input character
  list is what the receive register will give.  The driver's effect on the device is the list of its
  register writes, in order.\<close>

section \<open>Registers and state\<close>

definition RHR :: nat where "RHR = 0"
definition THR :: nat where "THR = 0"
definition IER :: nat where "IER = 1"
definition IER_RX_ENABLE :: byte where "IER_RX_ENABLE = 1"
definition IER_TX_ENABLE :: byte where "IER_TX_ENABLE = 2"
definition FCR :: nat where "FCR = 2"
definition FCR_FIFO_ENABLE :: byte where "FCR_FIFO_ENABLE = 1"
definition FCR_FIFO_CLEAR :: byte where "FCR_FIFO_CLEAR = 6"
definition LCR :: nat where "LCR = 3"
definition LCR_EIGHT_BITS :: byte where "LCR_EIGHT_BITS = 3"
definition LCR_BAUD_LATCH :: byte where "LCR_BAUD_LATCH = 128"
definition UART_TX_BUF_SIZE :: nat where "UART_TX_BUF_SIZE = 32"

record uart =
  uart_tx_buf :: "byte list"
  uart_tx_w :: uint64
  uart_tx_r :: uint64
  reg_writes :: "(nat \<times> byte) list"
  lsr_reads :: nat

definition WriteReg :: "nat \<Rightarrow> byte \<Rightarrow> uart \<Rightarrow> uart" where
  "WriteReg reg v u = u\<lparr>reg_writes := reg_writes u @ [(reg, v)]\<rparr>"

definition uartinit :: "uart \<Rightarrow> uart" where
  "uartinit u =
    (let u1 = WriteReg IER 0 u;
         u2 = WriteReg LCR LCR_BAUD_LATCH u1;
         u3 = WriteReg 0 3 u2;
         u4 = WriteReg 1 0 u3;
         u5 = WriteReg LCR LCR_EIGHT_BITS u4;
         u6 = WriteReg FCR (FCR_FIFO_ENABLE OR FCR_FIFO_CLEAR) u5
     in WriteReg IER (IER_TX_ENABLE OR IER_RX_ENABLE) u6)"

section \<open>Transmitting\<close>

definition tx_put :: "byte \<Rightarrow> uart \<Rightarrow> uart" where
  "tx_put c u = u\<lparr>uart_tx_buf := ring_set (uart_tx_buf u) (uart_tx_w u) c, uart_tx_w := uart_tx_w u + 1\<rparr>"

definition tx_get :: "uart \<Rightarrow> byte \<times> uart" where
  "tx_get u = (ring_at (uart_tx_buf u) (uart_tx_r u), u\<lparr>uart_tx_r := uart_tx_r u + 1\<rparr>)"

definition tx_full :: "uart \<Rightarrow> bool" where
  "tx_full u \<longleftrightarrow> uart_tx_w u = uart_tx_r u + of_nat UART_TX_BUF_SIZE"

definition tx_empty :: "uart \<Rightarrow> bool" where
  "tx_empty u \<longleftrightarrow> uart_tx_w u = uart_tx_r u"

text \<open>\<open>uartstart\<close> gives the number of wakeups of \<open>uart_tx_r\<close> along with the state.\<close>

function uartstart :: "(nat \<Rightarrow> bool) \<Rightarrow> uart \<Rightarrow> nat \<times> uart" where
  "uartstart tx_idle u =
    (if tx_empty u then (0, u)
     else let u1 = u\<lparr>lsr_reads := lsr_reads u + 1\<rparr>
          in if \<not> tx_idle (lsr_reads u) then (0, u1)
             else let (c, u2) = tx_get u1; (n, u3) = uartstart tx_idle (WriteReg THR c u2)
                  in (n + 1, u3))"
  by pat_completeness auto
termination
proof (relation "measure (\<lambda>(_, u). unat (uart_tx_w u - uart_tx_r u))", simp)
  fix tx_idle u u1 p c u2
  assume h: "\<not> tx_empty u" "u1 = u\<lparr>lsr_reads := lsr_reads u + 1\<rparr>" "p = tx_get u1" "(c, u2) = p"
  have "uart_tx_w u - uart_tx_r u \<noteq> 0" using h(1) by (simp add: tx_empty_def)
  then have "unat (uart_tx_w u - uart_tx_r u - 1) < unat (uart_tx_w u - uart_tx_r u)"
    using unat_pred by fastforce
  then show "((tx_idle, WriteReg THR c u2), tx_idle, u) \<in> measure (\<lambda>(_, u). unat (uart_tx_w u - uart_tx_r u))"
    using h by (simp add: WriteReg_def tx_get_def algebra_simps)
qed

declare uartstart.simps [simp del]

text \<open>\<open>uartputc\<close> from its start or from waking up; \<open>Inl Sleep\<close> is the sleep on \<open>uart_tx_r\<close>, which leaves the
  state as it was.\<close>

definition uartputc :: "(nat \<Rightarrow> bool) \<Rightarrow> bool \<Rightarrow> byte \<Rightarrow> uart \<Rightarrow> (nat \<times> uart) result" where
  "uartputc tx_idle panicked c u =
    (if panicked then Inl Spin
     else if tx_full u then Inl Sleep
     else Inr (uartstart tx_idle (tx_put c u)))"

text \<open>Polling for the transmit-idle bit: the number of reads made so far when it is found set.\<close>

partial_function (option) wait_idle :: "(nat \<Rightarrow> bool) \<Rightarrow> nat \<Rightarrow> nat option" where
  "wait_idle tx_idle k = (if tx_idle k then Some (k + 1) else wait_idle tx_idle (k + 1))"

definition uartputc_sync :: "(nat \<Rightarrow> bool) \<Rightarrow> bool \<Rightarrow> byte \<Rightarrow> uart \<times> cpu \<Rightarrow> (uart \<times> cpu) result" where
  "uartputc_sync tx_idle panicked c uc =
    (let (u, p) = uc; p1 = push_off p
     in if panicked then Inl Spin
        else case wait_idle tx_idle (lsr_reads u) of
               None \<Rightarrow> Inl Spin
             | Some k \<Rightarrow> rbind (pop_off p1) (\<lambda>p2. Inr (WriteReg THR c (u\<lparr>lsr_reads := k\<rparr>), p2)))"

section \<open>Receiving\<close>

text \<open>\<open>uartgetc\<close> takes the next waiting input character.\<close>

fun uartgetc :: "byte list \<Rightarrow> int \<times> byte list" where
  "uartgetc [] = (-1, [])"
| "uartgetc (c # cs) = (uint c, cs)"

text \<open>\<open>uartintr\<close> hands every waiting character to \<open>consoleintr\<close> and then starts the transmitter.\<close>

function uartintr_in :: "(int \<Rightarrow> 'c \<Rightarrow> 'c result) \<Rightarrow> byte list \<Rightarrow> 'c \<Rightarrow> 'c result" where
  "uartintr_in consoleintr input s =
    (let (c, rest) = uartgetc input
     in if c = -1 then Inr s
        else rbind (consoleintr c s) (uartintr_in consoleintr rest))"
  by pat_completeness auto
termination
proof (relation "measure (\<lambda>(_, input, _). length input)", simp)
  fix consoleintr :: "int \<Rightarrow> 'c \<Rightarrow> 'c result" and input s p c rest s1
  assume "p = uartgetc input" "(c, rest) = p" "c \<noteq> -1"
  then show "((consoleintr, rest, s1), consoleintr, input, s) \<in> measure (\<lambda>(_, input, _). length input)"
    by (cases input) auto
qed

declare uartintr_in.simps [simp del]

definition uartintr :: "(nat \<Rightarrow> bool) \<Rightarrow> (int \<Rightarrow> 'c \<Rightarrow> 'c result) \<Rightarrow> byte list \<Rightarrow> 'c \<Rightarrow> uart \<Rightarrow> ('c \<times> nat \<times> uart) result" where
  "uartintr tx_idle consoleintr input s u =
    rbind (uartintr_in consoleintr input s) (\<lambda>s1. Inr (s1, uartstart tx_idle u))"

section \<open>The transmit buffer is a bounded queue\<close>

definition tx_queue :: "uart \<Rightarrow> byte list" where
  "tx_queue u = ring_span (uart_tx_buf u) (uart_tx_r u) (uart_tx_w u)"

definition uart_ok :: "uart \<Rightarrow> bool" where
  "uart_ok u \<longleftrightarrow> length (uart_tx_buf u) = UART_TX_BUF_SIZE \<and> unat (uart_tx_w u - uart_tx_r u) \<le> UART_TX_BUF_SIZE"

lemma tx_full_iff: "tx_full u \<longleftrightarrow> unat (uart_tx_w u - uart_tx_r u) = UART_TX_BUF_SIZE"
proof -
  have "tx_full u \<longleftrightarrow> uart_tx_w u - uart_tx_r u = of_nat UART_TX_BUF_SIZE"
    unfolding tx_full_def by (auto simp: algebra_simps)
  also have "\<dots> \<longleftrightarrow> unat (uart_tx_w u - uart_tx_r u) = unat (of_nat UART_TX_BUF_SIZE :: uint64)"
    by (simp only: word_unat_eq_iff)
  finally show ?thesis by (simp add: UART_TX_BUF_SIZE_def)
qed

interpretation tq: bounded_fifo tx_put tx_get tx_full tx_empty tx_queue UART_TX_BUF_SIZE uart_ok
proof unfold_locales
  fix s :: uart and x assume s: "uart_ok s"
  show "length (tx_queue s) \<le> UART_TX_BUF_SIZE" using s by (simp add: tx_queue_def uart_ok_def)
  show "tx_full s = (length (tx_queue s) = UART_TX_BUF_SIZE)" by (simp add: tx_full_iff tx_queue_def)
  show "tx_empty s = (tx_queue s = [])"
    by (auto simp: tx_empty_def tx_queue_def ring_span_def unat_eq_zero)
  have n: "length (uart_tx_buf s) < 2 ^ LENGTH(64)" "ring_size TYPE(64) (uart_tx_buf s)"
    using s by (auto simp: uart_ok_def UART_TX_BUF_SIZE_def ring_size_def)
  show "uart_ok (tx_put x s) \<and> tx_queue (tx_put x s) = tx_queue s @ [x]" if "\<not> tx_full s"
  proof -
    have room: "unat (uart_tx_w s - uart_tx_r s) < length (uart_tx_buf s)"
      using that s by (simp add: tx_full_iff uart_ok_def)
    have "unat (uart_tx_w s + 1 - uart_tx_r s) = Suc (unat (uart_tx_w s - uart_tx_r s))"
      using unat_succ [OF room n(1)] by (simp add: algebra_simps)
    then have "uart_ok (tx_put x s)" using room s by (simp add: uart_ok_def tx_put_def)
    then show ?thesis using ring_push [OF n(2,1) room] by (simp add: tx_queue_def tx_put_def)
  qed
  show "uart_ok (snd (tx_get s)) \<and> tx_queue s = fst (tx_get s) # tx_queue (snd (tx_get s))" if "\<not> tx_empty s"
  proof -
    have ne: "uart_tx_r s \<noteq> uart_tx_w s" using that by (simp add: tx_empty_def)
    then have "unat (uart_tx_w s - uart_tx_r s) = Suc (unat (uart_tx_w s - uart_tx_r s - 1))" by (intro unat_pred) simp
    then have "unat (uart_tx_w s - (uart_tx_r s + 1)) \<le> UART_TX_BUF_SIZE" using s by (simp add: uart_ok_def algebra_simps)
    then show ?thesis using s ring_pop [OF ne] by (simp add: uart_ok_def tx_get_def tx_queue_def)
  qed
qed

text \<open>The bytes sent: the writes to the transmit register once the port is set up.\<close>

definition sent :: "uart \<Rightarrow> byte list" where
  "sent u = map snd (filter (\<lambda>(reg, _). reg = THR) (reg_writes u))"

lemma sent_write: "sent (WriteReg THR c u) = sent u @ [c]"
  by (simp add: sent_def WriteReg_def)

lemma uartstart_ok:
  "uart_ok u \<Longrightarrow> uartstart tx_idle u = (n, v) \<Longrightarrow>
    uart_ok v \<and> sent v @ tx_queue v = sent u @ tx_queue u \<and> length (sent v) = length (sent u) + n \<and>
    (tx_empty v \<or> \<not> tx_idle (lsr_reads v - 1))"
proof (induction tx_idle u arbitrary: n rule: uartstart.induct)
  case (1 tx_idle u)
  note eq = "1.prems"(2) [unfolded uartstart.simps [of tx_idle u]]
  let ?u1 = "u\<lparr>lsr_reads := lsr_reads u + 1\<rparr>"
  have u1: "uart_ok ?u1" "tx_queue ?u1 = tx_queue u" "sent ?u1 = sent u" "tx_empty ?u1 = tx_empty u"
    using "1.prems"(1) by (simp_all add: uart_ok_def tx_queue_def sent_def tx_empty_def)
  show ?case
  proof (cases "tx_empty u \<or> \<not> tx_idle (lsr_reads u)")
    case True
    then show ?thesis using eq u1 "1.prems"(1) by (auto simp: Let_def split: if_splits)
  next
    case False
    obtain c u2 where g: "tx_get ?u1 = (c, u2)" by fastforce
    have q: "uart_ok u2" "tx_queue u = c # tx_queue u2" using tq.get_law [OF u1(1)] u1 False g by auto
    have s2: "sent u2 = sent u" using g by (auto simp: tx_get_def sent_def)
    let ?u3 = "WriteReg THR c u2"
    have u3: "uart_ok ?u3" "tx_queue ?u3 = tx_queue u2" using q(1) by (simp_all add: uart_ok_def tx_queue_def WriteReg_def)
    obtain m where m: "uartstart tx_idle ?u3 = (m, v)" "n = m + 1"
      using eq False g by (auto simp: Let_def split: prod.splits)
    have "uart_ok v \<and> sent v @ tx_queue v = sent ?u3 @ tx_queue ?u3 \<and> length (sent v) = length (sent ?u3) + m \<and>
      (tx_empty v \<or> \<not> tx_idle (lsr_reads v - 1))"
      by (rule "1.IH" [OF _ refl _ g [symmetric] _ u3(1) m(1)]) (use False in simp_all)
    then show ?thesis using u3(2) q(2) s2 m(2) by (simp add: sent_write)
  qed
qed

lemma wait_idle_Some: "tx_idle j \<Longrightarrow> k \<le> j \<Longrightarrow> \<exists>m. wait_idle tx_idle k = Some m"
proof (induction "j - k" arbitrary: k)
  case 0
  then show ?case by (simp add: wait_idle.simps)
next
  case (Suc d)
  then show ?case by (cases "tx_idle k") (auto simp: wait_idle.simps [of tx_idle k])
qed

section \<open>Properties\<close>

text \<open>Callers of \<open>uartputc\<close> and transmit interrupts in any order; a \<open>uartputc\<close> that finds the buffer full is
  not accepted yet.  Gives the characters accepted and the state.\<close>

datatype uart_event = PutC byte | TxIntr

primrec uart_run :: "(nat \<Rightarrow> bool) \<Rightarrow> uart_event list \<Rightarrow> uart \<Rightarrow> byte list \<times> uart" where
  "uart_run tx_idle [] u = ([], u)"
| "uart_run tx_idle (ev # evs) u =
    (case ev of
       PutC c \<Rightarrow> (case uartputc tx_idle False c u of
                    Inr (_, v) \<Rightarrow> (let (acc, w) = uart_run tx_idle evs v in (c # acc, w))
                  | Inl _ \<Rightarrow> uart_run tx_idle evs u)
     | TxIntr \<Rightarrow> uart_run tx_idle evs (snd (uartstart tx_idle u)))"

text \<open>C16: The serial port sends exactly the characters that \<open>uartputc\<close> accepted, in their order: what has
  gone to the transmit register followed by what is buffered is what was accepted, whatever the device
  answers and however interrupts fall.  And output never gets stuck: after \<open>uartstart\<close> the buffer is
  empty or the device was busy, so that its next interrupt continues.\<close>

theorem uart_output_order:
  assumes "uart_ok u"
  shows "uart_ok (snd (uart_run tx_idle evs u)) \<and>
    sent (snd (uart_run tx_idle evs u)) @ tx_queue (snd (uart_run tx_idle evs u)) =
      sent u @ tx_queue u @ fst (uart_run tx_idle evs u) \<and>
    (tx_empty (snd (uartstart tx_idle u)) \<or> \<not> tx_idle (lsr_reads (snd (uartstart tx_idle u)) - 1))"
proof -
  have "uart_ok v \<and> sent v @ tx_queue v = sent u @ tx_queue u @ acc"
    if "uart_ok u" "uart_run tx_idle evs u = (acc, v)" for acc v u
    using that
  proof (induction evs arbitrary: u acc)
    case (Cons ev evs)
    show ?case
    proof (cases ev)
      case (PutC c)
      show ?thesis
      proof (cases "tx_full u")
        case True
        then show ?thesis using Cons.prems PutC Cons.IH [of u acc] by (simp add: uartputc_def)
      next
        case False
        obtain n w where w: "uartstart tx_idle (tx_put c u) = (n, w)" by fastforce
        have p: "uart_ok (tx_put c u)" "tx_queue (tx_put c u) = tx_queue u @ [c]"
          using tq.put_law [OF Cons.prems(1) False] by simp_all
        have "sent (tx_put c u) = sent u" by (simp add: sent_def tx_put_def)
        then have s: "uart_ok w" "sent w @ tx_queue w = sent u @ tx_queue u @ [c]"
          using uartstart_ok [OF p(1) w] p(2) by simp_all
        obtain acc' where a: "uart_run tx_idle evs w = (acc', v)" "acc = c # acc'"
          using Cons.prems(2) PutC False w by (auto simp: uartputc_def split: prod.splits)
        show ?thesis using Cons.IH [OF s(1) a(1)] s(2) a(2) by simp
      qed
    next
      case TxIntr
      obtain n w where w: "uartstart tx_idle u = (n, w)" by fastforce
      show ?thesis
        using Cons.IH [of w acc] uartstart_ok [OF Cons.prems(1) w] Cons.prems(2) TxIntr w by simp
    qed
  qed simp
  moreover have "tx_empty (snd (uartstart tx_idle u)) \<or> \<not> tx_idle (lsr_reads (snd (uartstart tx_idle u)) - 1)"
    using uartstart_ok [OF assms, of tx_idle] by (metis prod.collapse)
  ultimately show ?thesis using assms by (metis prod.collapse)
qed

definition demo_uart :: uart where
  "demo_uart = \<lparr>uart_tx_buf = replicate 32 0, uart_tx_w = 0, uart_tx_r = 0, reg_writes = [], lsr_reads = 0\<rparr>"

theorem uart_output_order_witness:
  "uart_ok demo_uart \<and>
    sent (snd (uart_run (\<lambda>k. even k) [PutC 104, PutC 105, TxIntr] demo_uart)) @
      tx_queue (snd (uart_run (\<lambda>k. even k) [PutC 104, PutC 105, TxIntr] demo_uart)) = [104, 105]"
proof -
  have ok: "uart_ok demo_uart" by (simp add: uart_ok_def demo_uart_def UART_TX_BUF_SIZE_def)
  have f: "fst (uart_run (\<lambda>k. even k) [PutC 104, PutC 105, TxIntr] demo_uart) = [104, 105]"
    by (simp add: uartputc_def tx_full_def demo_uart_def UART_TX_BUF_SIZE_def uartstart.simps tx_empty_def tx_put_def
        tx_get_def WriteReg_def Let_def ring_set_def ring_at_def)
  have z: "sent demo_uart = []" "tx_queue demo_uart = []" by (simp_all add: sent_def tx_queue_def demo_uart_def)
  show ?thesis using uart_output_order [OF ok, of "\<lambda>k. even k" "[PutC 104, PutC 105, TxIntr]"] ok f z by simp
qed

end
