(* ===== verification/Console.thy ===== *)
theory Console
  imports Uart Usercopy
begin

text \<open>The console, \<open>kernel/console.c\<close>: echoing and line editing in the input interrupt handler, and
  reading a line at a time.  \<open>cons.lock\<close> makes each handler and each piece of \<open>consoleread\<close> between
  sleeps one step.  \<open>cons_wakeups\<close> counts the calls of \<open>wakeup(&cons.r)\<close>; it is not a field of the
  struct.\<close>

section \<open>Model\<close>

definition BACKSPACE :: int where "BACKSPACE = 256"
definition INPUT_BUF_SIZE :: nat where "INPUT_BUF_SIZE = 128"

text \<open>Control characters and the two line ends: \<open>C('P')\<close>, \<open>C('U')\<close>, \<open>C('H')\<close>, \<open>C('D')\<close>, delete, newline, return.\<close>

abbreviation "ctrl_P \<equiv> 16 :: int"
abbreviation "ctrl_U \<equiv> 21 :: int"
abbreviation "ctrl_H \<equiv> 8 :: int"
abbreviation "ctrl_D \<equiv> 4 :: int"
abbreviation "delete \<equiv> 127 :: int"
abbreviation "newline \<equiv> 10 :: int"
abbreviation "return \<equiv> 13 :: int"

record cons =
  cons_buf :: "byte list"
  cons_r :: uint
  cons_w :: uint
  cons_e :: uint
  cons_wakeups :: nat

type_synonym tty = "cons \<times> uart \<times> cpu"

definition consputc :: "(nat \<Rightarrow> bool) \<Rightarrow> bool \<Rightarrow> int \<Rightarrow> uart \<times> cpu \<Rightarrow> (uart \<times> cpu) result" where
  "consputc tx_idle panicked c uc =
    (if c = BACKSPACE then
       rbind (uartputc_sync tx_idle panicked 8 uc) (\<lambda>uc.
       rbind (uartputc_sync tx_idle panicked 32 uc) (\<lambda>uc.
       uartputc_sync tx_idle panicked 8 uc))
     else uartputc_sync tx_idle panicked (of_int c) uc)"

text \<open>The write loop sends to the transmit buffer; \<open>Inl Sleep\<close> when that is full.\<close>

function consolewrite :: "(nat \<Rightarrow> bool) \<Rightarrow> bool \<Rightarrow> addr \<Rightarrow> bool \<Rightarrow> uint64 \<Rightarrow> int \<Rightarrow> kstate \<Rightarrow> int \<Rightarrow> uart \<Rightarrow> (int \<times> uart) result" where
  "consolewrite tx_idle panicked pt user_src src n ks i u =
    (if i < n then
       rbind (either_copyin pt user_src (src + of_int i) 1 ks) (\<lambda>(r, c).
       if r = -1 then Inr (i, u)
       else rbind (uartputc tx_idle panicked (hd c) u) (\<lambda>(_, u1).
            consolewrite tx_idle panicked pt user_src src n ks (i + 1) u1))
     else Inr (i, u))"
  by pat_completeness auto
termination
  by (relation "measure (\<lambda>(_, _, _, _, _, n, _, i, _). nat (n - i))") auto

declare consolewrite.simps [simp del]

text \<open>A piece of \<open>consoleread\<close> returns, or sleeps on \<open>cons.r\<close> with \<open>n\<close> bytes to go at \<open>dst\<close>.\<close>

datatype read_out = Returned int | Sleeping int uint64

function consoleread :: "uint64 \<Rightarrow> addr \<Rightarrow> bool \<Rightarrow> int \<Rightarrow> bool \<Rightarrow> int \<Rightarrow> uint64 \<Rightarrow> cons \<Rightarrow> kstate \<Rightarrow>
    (read_out \<times> cons \<times> kstate) result" where
  "consoleread scause pt user_dst target killed n dst cs ks =
    (if n > 0 then
       if cons_r cs = cons_w cs then
         if killed then Inr (Returned (-1), cs, ks) else Inr (Sleeping n dst, cs, ks)
       else
         let c = ring_at (cons_buf cs) (cons_r cs);
             cs1 = cs\<lparr>cons_r := cons_r cs + 1\<rparr>
         in if uint c = ctrl_D then
              Inr (Returned (target - n), if n < target then cs1\<lparr>cons_r := cons_r cs1 - 1\<rparr> else cs1, ks)
            else
              rbind (either_copyout scause pt user_dst dst [c] ks) (\<lambda>(r, ks1).
              if r = -1 then Inr (Returned (target - n), cs1, ks1)
              else if uint c = newline then Inr (Returned (target - (n - 1)), cs1, ks1)
              else consoleread scause pt user_dst target killed (n - 1) (dst + 1) cs1 ks1)
     else Inr (Returned (target - n), cs, ks))"
  by pat_completeness auto
termination
  by (relation "measure (\<lambda>(_, _, _, _, _, n, _). nat n)") auto

declare consoleread.simps [simp del]

text \<open>The loop of kill-line, and the interrupt handler.  \<open>procdump\<close> is the process listing of
  \<open>kernel/proc.c\<close>, which prints through this module.\<close>

function erase_line :: "(nat \<Rightarrow> bool) \<Rightarrow> bool \<Rightarrow> tty \<Rightarrow> tty result" where
  "erase_line tx_idle panicked (cs, uc) =
    (if cons_e cs \<noteq> cons_w cs \<and> uint (ring_at (cons_buf cs) (cons_e cs - 1)) \<noteq> newline
     then rbind (consputc tx_idle panicked BACKSPACE uc) (\<lambda>uc1.
          erase_line tx_idle panicked (cs\<lparr>cons_e := cons_e cs - 1\<rparr>, uc1))
     else Inr (cs, uc))"
  by pat_completeness auto
termination
proof (relation "measure (\<lambda>(_, _, cs, _). unat (cons_e cs - cons_w cs))", simp)
  fix tx_idle panicked uc uc1 and cs :: cons
  assume "cons_e cs \<noteq> cons_w cs \<and> uint (ring_at (cons_buf cs) (cons_e cs - 1)) \<noteq> newline"
  then have "unat (cons_e cs - cons_w cs) = Suc (unat (cons_e cs - cons_w cs - 1))" by (intro unat_pred) simp
  then show "((tx_idle, panicked, cs\<lparr>cons_e := cons_e cs - 1\<rparr>, uc1), tx_idle, panicked, cs, uc)
      \<in> measure (\<lambda>(_, _, cs, _). unat (cons_e cs - cons_w cs))"
    by (simp add: algebra_simps)
qed

declare erase_line.simps [simp del]

definition consoleintr :: "(nat \<Rightarrow> bool) \<Rightarrow> bool \<Rightarrow> (uart \<times> cpu \<Rightarrow> (uart \<times> cpu) result) \<Rightarrow> int \<Rightarrow> tty \<Rightarrow> tty result" where
  "consoleintr tx_idle panicked procdump c s =
    (let (cs, uc) = s
     in if c = ctrl_P then rbind (procdump uc) (\<lambda>uc1. Inr (cs, uc1))
        else if c = ctrl_U then erase_line tx_idle panicked s
        else if c = ctrl_H \<or> c = delete then
          if cons_e cs \<noteq> cons_w cs then
            rbind (consputc tx_idle panicked BACKSPACE uc) (\<lambda>uc1. Inr (cs\<lparr>cons_e := cons_e cs - 1\<rparr>, uc1))
          else Inr s
        else if c \<noteq> 0 \<and> cons_e cs - cons_r cs < of_nat INPUT_BUF_SIZE then
          let c1 = (if c = return then newline else c)
          in rbind (consputc tx_idle panicked c1 uc) (\<lambda>uc1.
             let cs1 = cs\<lparr>cons_buf := ring_set (cons_buf cs) (cons_e cs) (of_int c1), cons_e := cons_e cs + 1\<rparr>
             in if c1 = newline \<or> c1 = ctrl_D \<or> cons_e cs1 - cons_r cs1 = of_nat INPUT_BUF_SIZE
                then Inr (cs1\<lparr>cons_w := cons_e cs1, cons_wakeups := cons_wakeups cs1 + 1\<rparr>, uc1)
                else Inr (cs1, uc1))
        else Inr s)"

section \<open>The line editor the handler implements\<close>

text \<open>The characters of complete lines that wait for a reader, and the line being edited.\<close>

definition lines_of :: "cons \<Rightarrow> byte list" where
  "lines_of cs = ring_span (cons_buf cs) (cons_r cs) (cons_w cs)"

definition edited :: "cons \<Rightarrow> byte list" where
  "edited cs = ring_span (cons_buf cs) (cons_w cs) (cons_e cs)"

definition cons_ok :: "cons \<Rightarrow> bool" where
  "cons_ok cs \<longleftrightarrow> length (cons_buf cs) = INPUT_BUF_SIZE \<and>
    unat (cons_e cs - cons_r cs) = unat (cons_w cs - cons_r cs) + unat (cons_e cs - cons_w cs) \<and>
    unat (cons_e cs - cons_r cs) \<le> INPUT_BUF_SIZE \<and>
    (\<forall>c \<in> set (edited cs). uint c \<noteq> newline \<and> uint c \<noteq> ctrl_D \<and> c \<noteq> 0)"

text \<open>The editor on the two character lists.\<close>

definition edit :: "int \<Rightarrow> byte list \<times> byte list \<Rightarrow> byte list \<times> byte list" where
  "edit c ll =
    (let (done, line) = ll
     in if c = ctrl_P then ll
        else if c = ctrl_U then (done, [])
        else if c = ctrl_H \<or> c = delete then (done, butlast line)
        else if c \<noteq> 0 \<and> length done + length line < INPUT_BUF_SIZE then
          let c1 = (if c = return then newline else c); line1 = line @ [of_int c1]
          in if c1 = newline \<or> c1 = ctrl_D \<or> length done + length line1 = INPUT_BUF_SIZE
             then (done @ line1, []) else (done, line1)
        else ll)"

text \<open>A device that becomes idle again and again, and a kernel that has not panicked.\<close>

definition responsive :: "(nat \<Rightarrow> bool) \<Rightarrow> bool" where
  "responsive tx_idle \<longleftrightarrow> (\<forall>k. \<exists>j \<ge> k. tx_idle j)"

lemma pop_push: "cpu_ok p \<Longrightarrow> pop_off (push_off p) = Inr (settle p)"
  by (auto simp: pop_off_def push_off_def settle_def cpu_ok_def Let_def)

lemma putc_ok:
  assumes "responsive tx_idle" "cpu_ok p"
  shows "\<exists>u' p'. uartputc_sync tx_idle False c (u, p) = Inr (u', p') \<and> cpu_ok p' \<and> sent u' = sent u @ [c] \<and> tx_queue u' = tx_queue u"
proof -
  obtain j where "lsr_reads u \<le> j" "tx_idle j" using assms(1) by (auto simp: responsive_def)
  then obtain k where "wait_idle tx_idle (lsr_reads u) = Some k" using wait_idle_Some by blast
  then show ?thesis
    using pop_push [OF assms(2)] assms(2)
    by (auto simp: uartputc_sync_def cpu_ok_def sent_def WriteReg_def tx_queue_def)
qed

lemma consputc_ok:
  assumes "responsive tx_idle" "cpu_ok p"
  shows "\<exists>u' p'. consputc tx_idle False c (u, p) = Inr (u', p') \<and> cpu_ok p' \<and>
    sent u' = sent u @ (if c = BACKSPACE then [8, 32, 8] else [of_int c]) \<and> tx_queue u' = tx_queue u"
proof (cases "c = BACKSPACE")
  case False
  then show ?thesis using putc_ok [OF assms, of "of_int c" u] by (simp add: consputc_def)
next
  case True
  obtain u1 p1 where 1: "uartputc_sync tx_idle False 8 (u, p) = Inr (u1, p1)" "cpu_ok p1" "sent u1 = sent u @ [8]" "tx_queue u1 = tx_queue u"
    using putc_ok [OF assms] by blast
  obtain u2 p2 where 2: "uartputc_sync tx_idle False 32 (u1, p1) = Inr (u2, p2)" "cpu_ok p2" "sent u2 = sent u1 @ [32]" "tx_queue u2 = tx_queue u1"
    using putc_ok [OF assms(1) 1(2)] by blast
  obtain u3 p3 where 3: "uartputc_sync tx_idle False 8 (u2, p2) = Inr (u3, p3)" "cpu_ok p3" "sent u3 = sent u2 @ [8]" "tx_queue u3 = tx_queue u2"
    using putc_ok [OF assms(1) 2(2)] by blast
  show ?thesis using True 1 2 3 by (simp add: consputc_def)
qed

section \<open>The handler's steps on the ring\<close>

abbreviation put_char :: "byte \<Rightarrow> cons \<Rightarrow> cons" where
  "put_char x cs \<equiv> cs\<lparr>cons_buf := ring_set (cons_buf cs) (cons_e cs) x, cons_e := cons_e cs + 1\<rparr>"

lemma lines_edited:
  assumes "unat (cons_e cs - cons_r cs) = unat (cons_w cs - cons_r cs) + unat (cons_e cs - cons_w cs)"
  shows "ring_span (cons_buf cs) (cons_r cs) (cons_e cs) = lines_of cs @ edited cs"
  unfolding lines_of_def edited_def by (rule ring_span_append [OF assms])

lemma put_char_ok:
  assumes ok: "cons_ok cs" and room: "unat (cons_e cs - cons_r cs) < INPUT_BUF_SIZE"
  shows "unat (cons_e cs + 1 - cons_r cs) = unat (cons_e cs - cons_r cs) + 1"
    "unat (cons_e cs + 1 - cons_w cs) = unat (cons_e cs - cons_w cs) + 1"
    "lines_of (put_char x cs) = lines_of cs" "edited (put_char x cs) = edited cs @ [x]"
proof -
  have n: "length (cons_buf cs) < 2 ^ LENGTH(32)" "ring_size TYPE(32) (cons_buf cs)"
    and room': "unat (cons_e cs - cons_r cs) < length (cons_buf cs)" "unat (cons_e cs - cons_w cs) < length (cons_buf cs)"
    and d: "unat (cons_e cs - cons_r cs) = unat (cons_w cs - cons_r cs) + unat (cons_e cs - cons_w cs)"
    using ok room by (auto simp: cons_ok_def INPUT_BUF_SIZE_def ring_size_def)
  show e: "unat (cons_e cs + 1 - cons_r cs) = unat (cons_e cs - cons_r cs) + 1"
    using unat_succ [OF room'(1) n(1)] by (simp add: algebra_simps)
  show w: "unat (cons_e cs + 1 - cons_w cs) = unat (cons_e cs - cons_w cs) + 1"
    using unat_succ [OF room'(2) n(1)] by (simp add: algebra_simps)
  show ed: "edited (put_char x cs) = edited cs @ [x]"
    using ring_push [OF n(2,1) room'(2)] by (simp add: edited_def)
  have "lines_of (put_char x cs) @ edited (put_char x cs) = ring_span (cons_buf cs) (cons_r cs) (cons_e cs) @ [x]"
    using lines_edited [of "put_char x cs"] ring_push [OF n(2,1) room'(1), of x] d e w by simp
  then show "lines_of (put_char x cs) = lines_of cs" using ed lines_edited [OF d] by simp
qed

lemma drop_char_ok:
  assumes ok: "cons_ok cs" and ne: "cons_e cs \<noteq> cons_w cs"
  defines "cs' \<equiv> cs\<lparr>cons_e := cons_e cs - 1\<rparr>"
  shows "cons_ok cs'" "lines_of cs' = lines_of cs" "edited cs' = butlast (edited cs)"
    "ring_at (cons_buf cs) (cons_e cs - 1) \<in> set (edited cs)"
proof -
  have d: "unat (cons_e cs - cons_r cs) = unat (cons_w cs - cons_r cs) + unat (cons_e cs - cons_w cs)"
    using ok by (simp add: cons_ok_def)
  have w: "unat (cons_e cs - cons_w cs) = Suc (unat (cons_e cs - 1 - cons_w cs))"
    using unat_pred [of "cons_e cs - cons_w cs"] ne by (simp add: algebra_simps)
  then have "cons_e cs - cons_r cs \<noteq> 0" using d by (metis add_is_0 nat.distinct(1) unat_0)
  then have r: "unat (cons_e cs - cons_r cs) = Suc (unat (cons_e cs - 1 - cons_r cs))"
    using unat_pred [of "cons_e cs - cons_r cs"] by (simp add: algebra_simps)
  show l: "lines_of cs' = lines_of cs" by (simp add: cs'_def lines_of_def)
  show e: "edited cs' = butlast (edited cs)"
    using ring_drop_last [of "cons_w cs" "cons_e cs"] ne by (simp add: cs'_def edited_def)
  show "cons_ok cs'" using ok d r w e in_set_butlastD [of _ "edited cs"] by (auto simp: cons_ok_def cs'_def)
  have "edited cs \<noteq> []" using w by (auto simp: edited_def dest: arg_cong [of _ _ length])
  then have "last (edited cs) \<in> set (edited cs)" by simp
  moreover have "last (edited cs) = ring_at (cons_buf cs) (cons_w cs + of_nat (unat (cons_e cs - 1 - cons_w cs)))"
    unfolding edited_def ring_span_def w by simp
  moreover have "cons_w cs + of_nat (unat (cons_e cs - 1 - cons_w cs)) = cons_e cs - 1" by simp
  ultimately show "ring_at (cons_buf cs) (cons_e cs - 1) \<in> set (edited cs)" by metis
qed

text \<open>Kill-line erases the edited line entirely, as no newline can be in it.\<close>

lemma erase_line_ok:
  assumes "responsive tx_idle"
  shows "cons_ok cs \<Longrightarrow> cpu_ok p \<Longrightarrow>
    \<exists>cs' u' p'. erase_line tx_idle False (cs, u, p) = Inr (cs', u', p') \<and> cons_ok cs' \<and> cpu_ok p' \<and>
      lines_of cs' = lines_of cs \<and> edited cs' = [] \<and> cons_wakeups cs' = cons_wakeups cs"
proof (induction "unat (cons_e cs - cons_w cs)" arbitrary: cs u p)
  case 0
  then have "cons_e cs = cons_w cs" by (simp add: unat_eq_zero)
  then show ?case using "0.prems" by (simp add: erase_line.simps edited_def)
next
  case (Suc n)
  then have ne: "cons_e cs \<noteq> cons_w cs" by auto
  let ?cs = "cs\<lparr>cons_e := cons_e cs - 1\<rparr>"
  note d = drop_char_ok [OF Suc.prems(1) ne]
  have "uint (ring_at (cons_buf cs) (cons_e cs - 1)) \<noteq> newline"
    using d(4) Suc.prems(1) by (simp add: cons_ok_def)
  moreover obtain u1 p1 where u1: "consputc tx_idle False BACKSPACE (u, p) = Inr (u1, p1)" "cpu_ok p1"
    using consputc_ok [OF assms Suc.prems(2)] by blast
  ultimately have "erase_line tx_idle False (cs, u, p) = erase_line tx_idle False (?cs, u1, p1)"
    using ne by (simp add: erase_line.simps)
  moreover have "n = unat (cons_e ?cs - cons_w ?cs)"
    using Suc.hyps(2) unat_pred [of "cons_e cs - cons_w cs"] ne by (simp add: algebra_simps)
  ultimately show ?case using Suc.hyps(1) [OF _ d(1) u1(2), of u1] d(2) by auto
qed

lemma uint_of_int_byte: "0 \<le> c \<Longrightarrow> c < 256 \<Longrightarrow> uint (of_int c :: byte) = c"
  by (simp add: uint_word_of_int_eq unsigned_of_int take_bit_eq_mod)

lemma consoleintr_ok:
  assumes dev: "responsive tx_idle" and ok: "cons_ok cs" "cpu_ok p" and c: "0 \<le> c" "c < 256"
    and pd: "c = ctrl_P \<Longrightarrow> \<exists>u' p'. procdump (u, p) = Inr (u', p') \<and> cpu_ok p'"
  shows "\<exists>cs' u' p'. consoleintr tx_idle False procdump c (cs, u, p) = Inr (cs', u', p') \<and> cons_ok cs' \<and> cpu_ok p' \<and>
    (lines_of cs', edited cs') = edit c (lines_of cs, edited cs) \<and>
    cons_wakeups cs' = cons_wakeups cs + of_bool (lines_of cs' \<noteq> lines_of cs)"
proof -
  have d: "unat (cons_e cs - cons_r cs) = length (lines_of cs) + length (edited cs)"
    using ok(1) by (simp add: cons_ok_def lines_of_def edited_def)
  have lt: "cons_e cs - cons_r cs < of_nat INPUT_BUF_SIZE \<longleftrightarrow> unat (cons_e cs - cons_r cs) < INPUT_BUF_SIZE"
    by (simp add: word_less_nat_alt INPUT_BUF_SIZE_def)
  consider "c = ctrl_P" | "c = ctrl_U" | "c = ctrl_H \<or> c = delete"
    | "c \<notin> {ctrl_P, ctrl_U, ctrl_H, delete}" "c \<noteq> 0" "unat (cons_e cs - cons_r cs) < INPUT_BUF_SIZE"
    | "c \<notin> {ctrl_P, ctrl_U, ctrl_H, delete}" "c = 0 \<or> \<not> unat (cons_e cs - cons_r cs) < INPUT_BUF_SIZE" by blast
  then show ?thesis
  proof cases
    case 1
    then show ?thesis using pd ok by (auto simp: consoleintr_def edit_def)
  next
    case 2
    then show ?thesis using erase_line_ok [OF dev ok, of u] by (auto simp: consoleintr_def edit_def)
  next
    case 3
    show ?thesis
    proof (cases "cons_e cs = cons_w cs")
      case True
      then have "edited cs = []" by (simp add: edited_def)
      then show ?thesis using 3 True ok by (auto simp: consoleintr_def edit_def)
    next
      case False
      obtain u1 p1 where u1: "consputc tx_idle False BACKSPACE (u, p) = Inr (u1, p1)" "cpu_ok p1"
        using consputc_ok [OF dev ok(2)] by blast
      show ?thesis using 3 False u1 drop_char_ok [OF ok(1) False] by (auto simp: consoleintr_def edit_def)
    qed
  next
    case 5
    then show ?thesis using ok d lt by (auto simp: consoleintr_def edit_def)
  next
    case 4
    define c1 where "c1 = (if c = return then newline else c)"
    have c1: "0 \<le> c1" "c1 < 256" "c1 \<noteq> 0" using c 4(2) by (auto simp: c1_def)
    let ?x = "of_int c1 :: byte" and ?cs = "put_char (of_int c1) cs"
    have ux: "uint ?x = c1" using uint_of_int_byte c1 by simp
    note pc = put_char_ok(1,2) [OF ok(1) 4(3)] put_char_ok(3,4) [OF ok(1) 4(3), of ?x]
    obtain u1 p1 where u1: "consputc tx_idle False c1 (u, p) = Inr (u1, p1)" "cpu_ok p1"
      using consputc_ok [OF dev ok(2)] by blast
    have full: "cons_e ?cs - cons_r ?cs = of_nat INPUT_BUF_SIZE \<longleftrightarrow>
        length (lines_of cs) + length (edited cs @ [?x]) = INPUT_BUF_SIZE"
    proof -
      have "cons_e ?cs - cons_r ?cs = of_nat INPUT_BUF_SIZE \<longleftrightarrow> unat (cons_e cs + 1 - cons_r cs) = INPUT_BUF_SIZE"
        by (simp add: word_unat_eq_iff INPUT_BUF_SIZE_def)
      then show ?thesis using pc(1) d by simp
    qed
    have step: "consoleintr tx_idle False procdump c (cs, u, p) =
        (if c1 = newline \<or> c1 = ctrl_D \<or> cons_e ?cs - cons_r ?cs = of_nat INPUT_BUF_SIZE
         then Inr (?cs\<lparr>cons_w := cons_e ?cs, cons_wakeups := cons_wakeups ?cs + 1\<rparr>, u1, p1) else Inr (?cs, u1, p1))"
      using 4 u1(1) lt by (simp add: consoleintr_def Let_def c1_def [symmetric])
    have ed: "edit c (lines_of cs, edited cs) =
        (if c1 = newline \<or> c1 = ctrl_D \<or> length (lines_of cs) + length (edited cs @ [?x]) = INPUT_BUF_SIZE
         then (lines_of cs @ edited cs @ [?x], []) else (lines_of cs, edited cs @ [?x]))"
      using 4 d by (simp add: edit_def Let_def c1_def [symmetric])
    have k: "length (cons_buf ?cs) = INPUT_BUF_SIZE"
      "unat (cons_e ?cs - cons_r ?cs) = unat (cons_w ?cs - cons_r ?cs) + unat (cons_e ?cs - cons_w ?cs)"
      "unat (cons_e ?cs - cons_r ?cs) \<le> INPUT_BUF_SIZE"
      using ok(1) pc(1,2) 4(3) by (simp_all add: cons_ok_def)
    show ?thesis
    proof (cases "c1 = newline \<or> c1 = ctrl_D \<or> length (lines_of cs) + length (edited cs @ [?x]) = INPUT_BUF_SIZE")
      case True
      let ?t = "?cs\<lparr>cons_w := cons_e ?cs, cons_wakeups := cons_wakeups ?cs + 1\<rparr>"
      have "lines_of ?t = lines_of cs @ edited cs @ [?x]"
        using lines_edited [OF k(2)] pc(3,4) by (simp add: lines_of_def)
      moreover have "edited ?t = []" by (simp add: edited_def)
      moreover from this have "cons_ok ?t" using k by (simp add: cons_ok_def)
      ultimately show ?thesis using True step ed full u1(2) by auto
    next
      case False
      have "cons_ok ?cs" using k pc(4) ok(1) False ux c1(3) by (auto simp: cons_ok_def)
      then show ?thesis using False step ed full u1(2) pc(3,4) by auto
    qed
  qed
qed

section \<open>Reading a line\<close>

text \<open>What a reader with room for \<open>n\<close> bytes takes from the waiting lines: the bytes, the rest, and whether
  it is done.  End-of-file is taken off only by a reader that has got nothing yet.\<close>

fun line_read :: "bool \<Rightarrow> nat \<Rightarrow> byte list \<Rightarrow> byte list \<times> byte list \<times> bool" where
  "line_read fresh 0 q = ([], q, True)"
| "line_read fresh (Suc n) [] = ([], [], False)"
| "line_read fresh (Suc n) (c # q) =
    (if uint c = ctrl_D then ([], if fresh then q else c # q, True)
     else if uint c = newline then ([c], q, True)
     else let (got, rest, fin) = line_read False n q in (c # got, rest, fin))"

lemma lines_pop:
  assumes ok: "cons_ok cs" and ne: "cons_r cs \<noteq> cons_w cs"
  defines "cs' \<equiv> cs\<lparr>cons_r := cons_r cs + 1\<rparr>"
  shows "cons_ok cs'" "lines_of cs = ring_at (cons_buf cs) (cons_r cs) # lines_of cs'" "edited cs' = edited cs"
proof -
  have w: "unat (cons_w cs - cons_r cs) = Suc (unat (cons_w cs - (cons_r cs + 1)))"
    using unat_pred [of "cons_w cs - cons_r cs"] ne by (simp add: algebra_simps)
  moreover have d: "unat (cons_e cs - cons_r cs) = unat (cons_w cs - cons_r cs) + unat (cons_e cs - cons_w cs)"
    using ok by (simp add: cons_ok_def)
  ultimately have "cons_e cs - cons_r cs \<noteq> 0" by (metis add_is_0 nat.distinct(1) unat_0)
  then have e: "unat (cons_e cs - cons_r cs) = Suc (unat (cons_e cs - (cons_r cs + 1)))"
    using unat_pred [of "cons_e cs - cons_r cs"] by (simp add: algebra_simps)
  show l: "lines_of cs = ring_at (cons_buf cs) (cons_r cs) # lines_of cs'"
    using ring_pop [OF ne] by (simp add: cs'_def lines_of_def)
  show ed: "edited cs' = edited cs" by (simp add: cs'_def edited_def)
  show "cons_ok cs'" using ok d e w ed by (simp add: cons_ok_def cs'_def)
qed

lemma line_read_length: "line_read fresh n q = (got, rest, fin) \<Longrightarrow> length got \<le> n \<and> length got \<le> length q"
  by (induction fresh n q arbitrary: got rule: line_read.induct) (auto split: if_splits prod.splits)

text \<open>What a piece of \<open>consoleread\<close> leaves: the process got \<open>got\<close>, and it has returned or sleeps with what is
  left to do.\<close>

definition console_took :: "int \<Rightarrow> bool \<Rightarrow> int \<Rightarrow> uint64 \<Rightarrow> byte list \<Rightarrow> bool \<Rightarrow> read_out \<Rightarrow> bool" where
  "console_took target killed n dst got fin out \<longleftrightarrow>
    out = (if fin then Returned (target - n + int (length got))
           else if killed then Returned (-1)
           else Sleeping (n - int (length got)) (dst + of_nat (length got)))"

lemma next_addr:
  assumes "0 < n" "unat dst + nat n \<le> unat TRAPFRAME"
  shows "dst < TRAPFRAME" "unat (dst + 1) + nat (n - 1) \<le> unat TRAPFRAME"
proof -
  have T: "unat TRAPFRAME = 274877898752" by (simp add: layout_defs)
  show "dst < TRAPFRAME" using assms by (simp add: word_less_nat_alt)
  have "unat (dst + 1) = unat dst + 1" using unat_add_lem64 [of dst 1] assms T by simp
  then show "unat (dst + 1) + nat (n - 1) \<le> unat TRAPFRAME" using assms by simp
qed

lemma consoleread_ok:
  assumes pt: "pt \<in> R" and sc: "scause \<noteq> 13"
  shows "vm_inv ks R xs \<Longrightarrow> cons_ok cs \<Longrightarrow> 0 \<le> n \<Longrightarrow> n \<le> target \<Longrightarrow> unat dst + nat n \<le> unat TRAPFRAME \<Longrightarrow>
    (\<And>k. k < nat n \<Longrightarrow> direct (entry (mem ks) pt (dst + of_nat k))) \<Longrightarrow>
    line_read (n = target) (nat n) (lines_of cs) = (got, rest, fin) \<Longrightarrow>
    \<exists>out cs' ks'. consoleread scause pt True target killed n dst cs ks = Inr (out, cs', ks') \<and>
      console_took target killed n dst got fin out \<and> vm_inv ks' R xs \<and> cons_ok cs' \<and>
      lines_of cs' = rest \<and> edited cs' = edited cs \<and> user_gets R pt dst got ks ks'"
proof (induction "nat n" arbitrary: n dst cs ks got rule: less_induct)
  case less
  note simps = consoleread.simps [of scause pt True target killed n dst cs ks]
  have none: "user_gets R pt d [] ks ks" for d by (simp add: user_gets_def)
  show ?case
  proof (cases "0 < n")
    case False
    then show ?thesis using simps less.prems none by (auto simp: console_took_def)
  next
    case pos: True
    then obtain m where m: "nat n = Suc m" by (cases "nat n") auto
    show ?thesis
    proof (cases "cons_r cs = cons_w cs")
      case True
      then have "lines_of cs = []" by (simp add: lines_of_def)
      then show ?thesis using simps pos True less.prems none m by (auto simp: console_took_def)
    next
      case ne: False
      let ?c = "ring_at (cons_buf cs) (cons_r cs)" and ?cs = "cs\<lparr>cons_r := cons_r cs + 1\<rparr>"
      note p = lines_pop [OF less.prems(2) ne]
      show ?thesis
      proof (cases "uint ?c = ctrl_D")
        case True
        have "?cs\<lparr>cons_r := cons_r ?cs - 1\<rparr> = cs" by simp
        then show ?thesis using simps pos ne True less.prems none m p
          by (auto simp: console_took_def Let_def)
      next
        case noD: False
        note a = next_addr [OF pos less.prems(5)]
        have dir: "direct (entry (mem ks) pt dst)" using less.prems(6) [of 0] pos by simp
        obtain ks1 where k: "copyout scause pt dst [?c] ks = Inr (0, ks1)" "vm_inv ks1 R xs"
          "\<forall>r' \<in> R. \<forall>va. entry (mem ks1) r' va = entry (mem ks) r' va"
          "\<forall>r' \<in> R. \<forall>va < TRAPFRAME. uview ks1 r' va = (if r' = pt \<and> va = dst then Some ?c else uview ks r' va)"
          using copyout_byte [OF less.prems(1) pt sc a(1) dir] by blast
        show ?thesis
        proof (cases "uint ?c = newline")
          case True
          have "user_gets R pt dst [?c] ks ks1" using k(4) unfolding user_gets_def by (auto simp: unat_eq_zero)
          then show ?thesis using simps pos ne noD True less.prems(7) m p k(1,2)
            by (auto simp: console_took_def Let_def either_copyout_def)
        next
          case noN: False
          obtain got' where r: "line_read False m (lines_of ?cs) = (got', rest, fin)" "got = ?c # got'"
            using less.prems(7) m p(2) noD noN by (auto split: prod.splits)
          have m': "nat (n - 1) = m" "n - 1 \<noteq> target" using m less.prems(4) by auto
          have dir': "direct (entry (mem ks1) pt (dst + 1 + of_nat j))" if "j < nat (n - 1)" for j
            using less.prems(6) [of "Suc j"] that m m' k(3) pt by (simp add: algebra_simps)
          have "\<exists>out cs' ks'. consoleread scause pt True target killed (n - 1) (dst + 1) ?cs ks1 = Inr (out, cs', ks') \<and>
              console_took target killed (n - 1) (dst + 1) got' fin out \<and> vm_inv ks' R xs \<and> cons_ok cs' \<and>
              lines_of cs' = rest \<and> edited cs' = edited ?cs \<and> user_gets R pt (dst + 1) got' ks1 ks'"
            by (rule less.hyps [OF _ k(2) p(1) _ _ a(2) dir']) (use pos less.prems(4) r(1) m' in auto)
          then obtain out cs' ks' where ih: "consoleread scause pt True target killed (n - 1) (dst + 1) ?cs ks1 = Inr (out, cs', ks')"
            "console_took target killed (n - 1) (dst + 1) got' fin out" "vm_inv ks' R xs" "cons_ok cs'"
            "lines_of cs' = rest" "edited cs' = edited ?cs" "user_gets R pt (dst + 1) got' ks1 ks'" by blast
          have "console_took target killed n dst got fin out"
            using ih(2) r(2) by (simp add: console_took_def algebra_simps)
          moreover have "user_gets R pt dst got ks ks'"
          proof -
            have "length got' \<le> length (lines_of ?cs)" using line_read_length [OF r(1)] by simp
            also have "\<dots> < 2 ^ 63" using p(1) by (simp add: lines_of_def cons_ok_def INPUT_BUF_SIZE_def)
            finally show ?thesis using user_gets_step [OF ih(7) _ k(4)] r(2) by simp
          qed
          moreover have "consoleread scause pt True target killed n dst cs ks = Inr (out, cs', ks')"
            using simps pos ne noD noN k(1) ih(1) by (simp add: Let_def either_copyout_def)
          ultimately show ?thesis using ih(3-6) p(3) by auto
        qed
      qed
    qed
  qed
qed

section \<open>Properties\<close>

text \<open>C17: The input handler is a line editor.  For every character but control-P, which lists the processes, the ring buffer with its three wrapping
  indices behaves as two character lists, the finished lines and the line being edited: backspace
  and delete remove the last edited character, control-U the whole edited line and never a finished one,
  newline, return, control-D or a full buffer finish the line, and other characters are appended while
  there is room; a reader is woken exactly when there is something new to read.\<close>

theorem console_edits:
  assumes "responsive tx_idle" "cons_ok cs" "cpu_ok p" "0 \<le> c" "c < 256" "c \<noteq> ctrl_P"
  shows "\<exists>cs' u' p'. consoleintr tx_idle False procdump c (cs, u, p) = Inr (cs', u', p') \<and> cons_ok cs' \<and> cpu_ok p' \<and>
    (lines_of cs', edited cs') = edit c (lines_of cs, edited cs) \<and>
    cons_wakeups cs' = cons_wakeups cs + of_bool (lines_of cs' \<noteq> lines_of cs)"
  using consoleintr_ok [OF assms(1-5)] assms(6) by blast

definition demo_cons :: cons where
  "demo_cons = \<lparr>cons_buf = replicate 128 0, cons_r = 4294967295, cons_w = 4294967295, cons_e = 4294967295, cons_wakeups = 0\<rparr>"

lemma demo_cons_ok: "cons_ok demo_cons" "lines_of demo_cons = []" "edited demo_cons = []"
  by (simp_all add: cons_ok_def demo_cons_def INPUT_BUF_SIZE_def lines_of_def edited_def)

theorem console_edits_witness:
  "\<exists>cs' u' p'. consoleintr (\<lambda>_. True) False Inr 104 (demo_cons, demo_uart, kcpu demo_boot) = Inr (cs', u', p') \<and>
     lines_of cs' = [] \<and> edited cs' = [104]"
proof -
  have "cpu_ok (kcpu demo_boot)" by (simp add: demo_boot_def cpu_ok_def)
  moreover have "responsive (\<lambda>_. True)" by (auto simp: responsive_def)
  ultimately show ?thesis
    using console_edits [of "\<lambda>_. True" demo_cons "kcpu demo_boot" 104 Inr demo_uart] demo_cons_ok
    by (auto simp: edit_def INPUT_BUF_SIZE_def)
qed

text \<open>C18: \<open>consoleread\<close> gives the process at most one line.  It takes characters of finished lines up to the
  number asked for, through the first newline, or up to an end-of-file, which it consumes only when
  it has nothing else to report; the bytes it took are in the process's memory, nobody sees any
  other change, and the count returned is the number of bytes, or the process sleeps with the rest still to
  do.\<close>

theorem console_reads_line:
  assumes "vm_inv ks R xs" "pt \<in> R" "scause \<noteq> 13" "cons_ok cs" "0 \<le> n" "unat dst + nat n \<le> unat TRAPFRAME"
    and "\<forall>k < nat n. direct (entry (mem ks) pt (dst + of_nat k))"
    and "line_read True (nat n) (lines_of cs) = (got, rest, fin)"
  shows "\<exists>out cs' ks'. consoleread scause pt True n False n dst cs ks = Inr (out, cs', ks') \<and>
      out = (if fin then Returned (int (length got)) else Sleeping (n - int (length got)) (dst + of_nat (length got))) \<and>
      vm_inv ks' R xs \<and> cons_ok cs' \<and> lines_of cs' = rest \<and> user_gets R pt dst got ks ks'"
  using consoleread_ok [OF assms(2,3,1,4,5) order_refl assms(6), of got rest fin False] assms(7,8)
  by (auto simp: console_took_def)

lemma user_perm_direct:
  assumes "PTE_FLAGS e = user_perm PTE_W OR PTE_V"
  shows "direct e"
proof -
  have "PTE_FLAGS e AND PTE_COW = e AND PTE_COW" by (simp add: and_PTE_FLAGS)
  then have "e AND PTE_COW = 0"
    using assms by (simp add: user_perm_def PTE_V_def PTE_U_def PTE_W_def PTE_R_def PTE_COW_def)
  then show ?thesis using user_perm_bits [OF assms] by (simp add: direct_def writable_def)
qed

definition demo_lines :: cons where
  "demo_lines = \<lparr>cons_buf = 104 # 10 # replicate 126 0, cons_r = 0, cons_w = 2, cons_e = 2, cons_wakeups = 1\<rparr>"

theorem console_reads_line_witness:
  "\<exists>r c s cs' ks'. two_spaces = Inr (r, c, s) \<and>
     consoleread 8 r True 5 False 5 16 demo_lines s = Inr (Returned 2, cs', ks') \<and> uview ks' r 16 = Some 104"
proof -
  obtain r c s xs where s: "two_spaces = Inr (r, c, s)" "vm_inv s {c, r} xs"
    "\<And>va. va < TRAPFRAME \<Longrightarrow> PGROUNDDOWN va < PGSIZE \<Longrightarrow>
       uview s r va = Some 0 \<and> PTE_FLAGS (entry (mem s) r va) = user_perm PTE_W OR PTE_V"
    by (rule two_spaces_ok) blast
  have ok: "cons_ok demo_lines" "lines_of demo_lines = [104, 10]"
    by (simp_all add: cons_ok_def demo_lines_def INPUT_BUF_SIZE_def lines_of_def edited_def ring_span_def ring_at_def upt_rec)
  have dir: "\<forall>k < nat 5. direct (entry (mem s) r (16 + of_nat k))"
  proof (intro allI impI)
    fix k assume "k < nat 5"
    then have u: "unat (16 + of_nat k :: uint64) = 16 + k" using unat_add_lem64 [of 16 "of_nat k"] unat_of_nat64 [of k] by simp
    then have "16 + of_nat k < TRAPFRAME" "PGROUNDDOWN (16 + of_nat k) < PGSIZE"
      using \<open>k < nat 5\<close> by (simp_all add: word_less_nat_alt layout_defs unat_PGROUNDDOWN PGSIZE_def)
    then show "direct (entry (mem s) r (16 + of_nat k))" using s(3) user_perm_direct by blast
  qed
  have lr: "line_read True (nat 5) (lines_of demo_lines) = ([104, 10], [], True)"
  proof -
    have "nat 5 = Suc (Suc (Suc 2))" by simp
    then show ?thesis unfolding ok(2) by (simp only: line_read.simps) simp
  qed
  have "unat (16 :: uint64) + nat 5 \<le> unat TRAPFRAME" "(16 :: uint64) < TRAPFRAME" by (simp_all add: layout_defs)
  then obtain cs' ks' where "consoleread 8 r True 5 False 5 16 demo_lines s = Inr (Returned 2, cs', ks')"
    "user_gets {c, r} r 16 [104, 10] s ks'"
    using console_reads_line [OF s(2) _ _ ok(1) _ _ dir lr, of 8] by auto
  moreover from this(2) have "uview ks' r 16 = Some 104"
    using \<open>(16 :: uint64) < TRAPFRAME\<close> by (simp add: user_gets_def)
  ultimately show ?thesis using s(1) by blast
qed

end
