(* ===== verification/Printf.thy ===== *)
theory Printf
  imports Console
begin

text \<open>Formatted console output, \<open>kernel/printf.c\<close>.  \<open>printint\<close>, \<open>printptr\<close> and \<open>printf\<close> give the characters
  they hand to \<open>consputc\<close>; \<open>putchars\<close> is the sequence of those calls.  The buffer of \<open>printint\<close> has sixteen
  bytes, and writing past it is a \<open>WildAccess\<close>.  The lock \<open>pr.lock\<close> only keeps the output of several
  processors apart.\<close>

section \<open>Model\<close>

definition digits :: "byte list" where
  "digits = [48, 49, 50, 51, 52, 53, 54, 55, 56, 57, 97, 98, 99, 100, 101, 102]"

text \<open>The \<open>do\<close> loop that fills \<open>buf\<close> with the digits of \<open>x\<close>, last digit first.\<close>

function printint_digits :: "uint64 \<Rightarrow> uint64 \<Rightarrow> byte list \<Rightarrow> byte list result" where
  "printint_digits base x buf =
    (if length buf \<ge> 16 then Inl WildAccess
     else let buf1 = buf @ [digits ! unat (x mod base)]; x1 = x div base
          in if x1 \<noteq> 0 then printint_digits base x1 buf1 else Inr buf1)"
  by pat_completeness auto
termination
  by (relation "measure (\<lambda>(_, _, buf). 16 - length buf)") auto

declare printint_digits.simps [simp del]

definition printint :: "int \<Rightarrow> uint64 \<Rightarrow> bool \<Rightarrow> byte list result" where
  "printint xx base sg =
    (let neg = (sg \<and> xx < 0);
         x = (if neg then of_int (- xx) else of_int xx)
     in rbind (printint_digits base x []) (\<lambda>buf.
        if neg then (if length buf \<ge> 16 then Inl WildAccess else Inr (rev (buf @ [45])))
        else Inr (rev buf)))"

definition printptr :: "uint64 \<Rightarrow> byte list" where
  "printptr x = [48, 120] @ map (\<lambda>i. digits ! unat (drop_bit 60 (push_bit (4 * i) x))) [0..<16]"

text \<open>The variable arguments: an \<open>int\<close>, a \<open>uint64\<close>, or a string, null or given by its characters.  Taking an
  argument that is not there or has another type is a \<open>WildAccess\<close>.\<close>

datatype va_arg = VInt int | VLong uint64 | VStr "byte list option"

fun arg_int :: "va_arg list \<Rightarrow> (int \<times> va_arg list) result" where
  "arg_int (VInt i # ap) = Inr (i, ap)"
| "arg_int _ = Inl WildAccess"

fun arg_long :: "va_arg list \<Rightarrow> (uint64 \<times> va_arg list) result" where
  "arg_long (VLong x # ap) = Inr (x, ap)"
| "arg_long _ = Inl WildAccess"

fun arg_str :: "va_arg list \<Rightarrow> (byte list option \<times> va_arg list) result" where
  "arg_str (VStr s # ap) = Inr (s, ap)"
| "arg_str _ = Inl WildAccess"

definition fmt_at :: "byte list \<Rightarrow> nat \<Rightarrow> byte" where
  "fmt_at fmt i = (if i < length fmt then fmt ! i else 0)"

text \<open>One conversion, with \<open>fmt\<close> starting after the percent sign: how many characters of \<open>fmt\<close> it takes, and its
  output with the arguments left; \<open>None\<close> at the end of the format.\<close>

definition printf_conv :: "byte list \<Rightarrow> va_arg list \<Rightarrow> (nat \<times> (byte list \<times> va_arg list) result) option" where
  "printf_conv fmt ap =
    (let c0 = fmt_at fmt 0;
         c1 = (if c0 \<noteq> 0 then fmt_at fmt 1 else 0);
         c2 = (if c1 \<noteq> 0 then fmt_at fmt 2 else 0);
         num32 = (\<lambda>base sg. rbind (arg_int ap) (\<lambda>(i, ap1). rbind (printint i base sg) (\<lambda>out. Inr (out, ap1))));
         num64 = (\<lambda>base sg. rbind (arg_long ap) (\<lambda>(x, ap1). rbind (printint (sint x) base sg) (\<lambda>out. Inr (out, ap1))))
     in if c0 = 100 then Some (1, num32 10 True)
        else if c0 = 108 \<and> c1 = 100 then Some (2, num64 10 True)
        else if c0 = 108 \<and> c1 = 108 \<and> c2 = 100 then Some (3, num64 10 True)
        else if c0 = 117 then Some (1, num32 10 False)
        else if c0 = 108 \<and> c1 = 117 then Some (2, num64 10 False)
        else if c0 = 108 \<and> c1 = 108 \<and> c2 = 117 then Some (3, num64 10 False)
        else if c0 = 120 then Some (1, num32 16 False)
        else if c0 = 108 \<and> c1 = 120 then Some (2, num64 16 False)
        else if c0 = 108 \<and> c1 = 108 \<and> c2 = 120 then Some (3, num64 16 False)
        else if c0 = 112 then Some (1, rbind (arg_long ap) (\<lambda>(x, ap1). Inr (printptr x, ap1)))
        else if c0 = 115 then
          Some (1, rbind (arg_str ap) (\<lambda>(s, ap1).
            Inr (case s of None \<Rightarrow> [40, 110, 117, 108, 108, 41] | Some cs \<Rightarrow> takeWhile (\<lambda>c. c \<noteq> 0) cs, ap1)))
        else if c0 = 37 then Some (1, Inr ([37], ap))
        else if c0 = 0 then None
        else Some (1, Inr ([37, c0], ap)))"

text \<open>The main loop of \<open>printf\<close>; \<open>fmt\<close> is the rest of the format string, without its null.\<close>

function printf_loop :: "byte list \<Rightarrow> va_arg list \<Rightarrow> byte list result" where
  "printf_loop [] ap = Inr []"
| "printf_loop (cx # fmt) ap =
    (if cx = 0 then Inr []
     else if cx \<noteq> 37 then rbind (printf_loop fmt ap) (\<lambda>out. Inr (cx # out))
     else case printf_conv fmt ap of
            None \<Rightarrow> Inr []
          | Some (k, p) \<Rightarrow> rbind p (\<lambda>(out, ap1). rbind (printf_loop (drop k fmt) ap1) (\<lambda>out1. Inr (out @ out1))))"
  by pat_completeness auto
termination
  by (relation "measure (\<lambda>(fmt, _). length fmt)") auto

primrec putchars :: "(nat \<Rightarrow> bool) \<Rightarrow> bool \<Rightarrow> byte list \<Rightarrow> uart \<times> cpu \<Rightarrow> (uart \<times> cpu) result" where
  "putchars tx_idle panicked [] uc = Inr uc"
| "putchars tx_idle panicked (c # cs) uc =
    rbind (consputc tx_idle panicked (uint c) uc) (putchars tx_idle panicked cs)"

definition printf :: "(nat \<Rightarrow> bool) \<Rightarrow> bool \<Rightarrow> byte list \<Rightarrow> va_arg list \<Rightarrow> uart \<times> cpu \<Rightarrow> (uart \<times> cpu) result" where
  "printf tx_idle panicked fmt ap uc = rbind (printf_loop fmt ap) (\<lambda>out. putchars tx_idle panicked out uc)"

text \<open>\<open>panic\<close> prints and then spins for ever, with \<open>panicked\<close> set: what it leaves is the output it made.\<close>

definition panic :: "(nat \<Rightarrow> bool) \<Rightarrow> bool \<Rightarrow> byte list \<Rightarrow> uart \<times> cpu \<Rightarrow> (bool \<times> uart \<times> cpu) result" where
  "panic tx_idle panicked s uc =
    rbind (printf tx_idle panicked [112, 97, 110, 105, 99, 58, 32] [] uc) (\<lambda>uc1.
    rbind (printf tx_idle panicked [37, 115, 10] [VStr (Some s)] uc1) (\<lambda>uc2.
    Inr (True, uc2)))"

section \<open>The numerals printed\<close>

text \<open>The usual numeral of a number, most significant digit first, and the number a numeral stands for.\<close>

fun numeral_of :: "nat \<Rightarrow> nat \<Rightarrow> byte list" where
  "numeral_of base n =
    (if base < 2 \<or> n < base then [digits ! n] else numeral_of base (n div base) @ [digits ! (n mod base)])"

declare numeral_of.simps [simp del]

definition digit_val :: "byte \<Rightarrow> nat" where
  "digit_val c = (if c < 97 then unat c - 48 else unat c - 87)"

definition numeral_val :: "nat \<Rightarrow> byte list \<Rightarrow> nat" where
  "numeral_val base cs = foldl (\<lambda>v c. v * base + digit_val c) 0 cs"

lemma digit_val_digits: "d < 16 \<Longrightarrow> digit_val (digits ! d) = d"
proof -
  assume "d < 16"
  then have "d \<in> set [0..<16]" by simp
  then show ?thesis by (auto simp: digits_def digit_val_def upt_rec)
qed

lemma numeral_val_of:
  assumes "2 \<le> base" "base \<le> 16"
  shows "numeral_val base (numeral_of base n) = n"
proof (induction n rule: less_induct)
  case (less n)
  show ?case
  proof (cases "n < base")
    case True
    then show ?thesis using assms digit_val_digits [of n] by (simp add: numeral_of.simps numeral_val_def)
  next
    case False
    then have "n div base < n" using assms(1) by (intro div_less_dividend) auto
    then have "numeral_val base (numeral_of base (n div base)) = n div base" by (rule less)
    moreover have "n mod base < base" using assms(1) by simp
    then have "digit_val (digits ! (n mod base)) = n mod base" using assms(2) by (intro digit_val_digits) linarith
    ultimately show ?thesis
      using False assms(1) by (simp add: numeral_of.simps [of base n] numeral_val_def)
  qed
qed

lemma length_numeral: "length (numeral_of base n) \<le> k \<longleftrightarrow> 0 < k \<and> n < base ^ k" if "2 \<le> base"
proof (induction n arbitrary: k rule: less_induct)
  case (less n)
  show ?case
  proof (cases "n < base")
    case True
    then have "n < base ^ k" if "0 < k" using power_increasing [of 1 k base] that \<open>2 \<le> base\<close> by simp
    then show ?thesis using True by (auto simp: numeral_of.simps)
  next
    case False
    then have lt: "n div base < n" using that by (intro div_less_dividend) auto
    have l: "length (numeral_of base n) = Suc (length (numeral_of base (n div base)))"
      using False that by (simp add: numeral_of.simps [of base n])
    show ?thesis
    proof (cases k)
      case (Suc j)
      have "n < base ^ Suc j \<longleftrightarrow> n div base < base ^ j" using that by (simp add: div_less_iff_less_mult mult.commute)
      moreover have "0 < j" if "n div base < base ^ j" using that False \<open>2 \<le> base\<close> by (cases j) (auto simp: div_eq_0_iff)
      ultimately show ?thesis using less [OF lt, of j] l Suc by auto
    qed (use l in simp)
  qed
qed

lemma printint_digits_eq:
  assumes base: "2 \<le> unat base"
  shows "printint_digits base x buf =
    (if length buf + length (numeral_of (unat base) (unat x)) \<le> 16
     then Inr (buf @ rev (numeral_of (unat base) (unat x))) else Inl WildAccess)"
  using base
proof (induction base x buf rule: printint_digits.induct)
  case (1 base x buf)
  let ?b = "unat base" and ?n = "unat x"
  have m: "unat (x mod base) = ?n mod ?b" "unat (x div base) = ?n div ?b"
    by (simp_all add: unat_mod unat_div)
  have one: "1 \<le> length (numeral_of b n)" for b n by (subst numeral_of.simps) simp
  have z: "x div base \<noteq> 0 \<longleftrightarrow> \<not> ?n < ?b"
    using "1.prems" by (simp add: word_unat_eq_iff m div_eq_0_iff not_less)
  note simps = printint_digits.simps [of base x buf]
  show ?case
  proof (cases "length buf \<ge> 16")
    case True
    then show ?thesis using simps one [of ?b ?n] by simp
  next
    case False
    show ?thesis
    proof (cases "?n < ?b")
      case True
      then show ?thesis using simps False z m by (simp add: numeral_of.simps [of ?b ?n] Let_def)
    next
      case ge: False
      have n: "numeral_of ?b ?n = numeral_of ?b (?n div ?b) @ [digits ! (?n mod ?b)]"
        using ge "1.prems" by (simp add: numeral_of.simps [of ?b ?n])
      show ?thesis
        using simps False z ge m "1.IH" [OF False refl refl _ "1.prems"] n by (simp add: Let_def)
    qed
  qed
qed

text \<open>\<open>printint\<close> prints the numeral of the number, with a sign in front, or overruns its buffer.\<close>

lemma printint_eq:
  fixes sg :: bool
  assumes base: "2 \<le> unat base" and xx: "- (2 ^ 63) \<le> xx" "xx < 2 ^ 63"
  defines "n \<equiv> (if sg then nat \<bar>xx\<bar> else nat (xx mod 2 ^ 64))"
  shows "printint xx base sg =
    (let out = (if sg \<and> xx < 0 then [45] else []) @ numeral_of (unat base) n
     in if length out \<le> 16 then Inr out else Inl WildAccess)"
proof -
  have u: "unat (of_int i :: uint64) = nat (i mod 2 ^ 64)" for i
    by (simp add: unsigned_of_int take_bit_eq_mod)
  have "unat (if sg \<and> xx < 0 then of_int (- xx) else of_int xx :: uint64) = n"
  proof (cases "sg \<and> xx < 0")
    case True
    then have "(- xx) mod 2 ^ 64 = - xx" using xx by (intro mod_pos_pos_trivial) auto
    then show ?thesis using True u [of "- xx"] by (simp add: n_def del: of_int_minus)
  next
    case False
    then have "sg \<Longrightarrow> xx mod 2 ^ 64 = xx" using xx by (intro mod_pos_pos_trivial) auto
    then show ?thesis using False u [of xx] by (auto simp: n_def)
  qed
  then have d: "printint_digits base (if sg \<and> xx < 0 then of_int (- xx) else of_int xx) [] =
      (if length (numeral_of (unat base) n) \<le> 16 then Inr (rev (numeral_of (unat base) n)) else Inl WildAccess)"
    using printint_digits_eq [OF base] by (metis append_Nil length_0_conv add_0)
  show ?thesis unfolding printint_def Let_def d by auto
qed

section \<open>Properties\<close>

text \<open>C19: \<open>printint\<close> prints the numeral of the number: what it outputs, read as a number, is the absolute value
  of a signed argument with a minus sign in front of a negative one, or the argument modulo 2 to the 64
  when it is taken as unsigned.  It overruns its sixteen-byte buffer exactly when the numeral and the sign have more
  than sixteen characters.\<close>

theorem printint_numeral:
  fixes sg :: bool
  assumes "base = 10 \<or> base = 16" "- (2 ^ 63) \<le> xx" "xx < 2 ^ 63"
    and "n = (if sg then nat \<bar>xx\<bar> else nat (xx mod 2 ^ 64))" "k = (if sg \<and> xx < 0 then 1 else 0)"
  shows "printint xx base sg =
      (if n < unat base ^ (16 - k) then Inr (replicate k 45 @ numeral_of (unat base) n) else Inl WildAccess) \<and>
    numeral_val (unat base) (numeral_of (unat base) n) = n"
proof -
  have b: "2 \<le> unat base" "unat base \<le> 16" using assms(1) by auto
  have "length (numeral_of (unat base) n) \<le> 16 - k \<longleftrightarrow> n < unat base ^ (16 - k)"
    using length_numeral [OF b(1), of n "16 - k"] assms(5) by auto
  moreover have "length (replicate k (45 :: byte) @ numeral_of (unat base) n) \<le> 16 \<longleftrightarrow> length (numeral_of (unat base) n) \<le> 16 - k"
    using assms(5) by auto
  moreover have "(if sg \<and> xx < 0 then [45 :: byte] else []) = replicate k 45" using assms(5) by simp
  ultimately show ?thesis
    using printint_eq [OF b(1) assms(2,3), of sg] numeral_val_of [OF b, of n] assms(4) by (simp add: Let_def)
qed

theorem printint_numeral_witness:
  "printint (-305) 10 True = Inr [45, 51, 48, 53] \<and> numeral_val 10 [51, 48, 53] = 305"
proof -
  have "numeral_of 10 305 = [51, 48, 53]" by (simp add: numeral_of.simps digits_def)
  then show ?thesis using printint_numeral [of 10 "-305" 305 True 1] by simp
qed

text \<open>C20: The unsigned and the 64-bit decimal conversions of the kernel's \<open>printf\<close> can write past the end of
  \<open>printint\<close>'s buffer: \<open>%u\<close> of -1 (the \<open>int\<close> is sign-extended to 64 bits before it is taken as unsigned) and
  \<open>%lu\<close> of the largest number, while \<open>%d\<close> is safe for every \<open>int\<close>.\<close>

theorem printf_overruns:
  "printf_loop [37, 117] [VInt (-1)] = Inl WildAccess \<and>
   printf_loop [37, 108, 117] [VLong (-1)] = Inl WildAccess \<and>
   (\<forall>i. - (2 ^ 31) \<le> i \<and> i < 2 ^ 31 \<longrightarrow> printf_loop [37, 100] [VInt i] =
      Inr ((if i < 0 then [45] else []) @ numeral_of 10 (nat \<bar>i\<bar>)))"
proof (intro conjI allI impI)
  have big: "\<not> length (numeral_of 10 18446744073709551615) \<le> 16" by (simp add: length_numeral)
  have m: "printint (-1) 10 False = Inl WildAccess"
    using printint_eq [of 10 "-1" False] big by (simp add: Let_def)
  show "printf_loop [37, 117] [VInt (-1)] = Inl WildAccess" using m by (simp add: printf_conv_def fmt_at_def)
  show "printf_loop [37, 108, 117] [VLong (-1)] = Inl WildAccess" using m by (simp add: printf_conv_def fmt_at_def)
  fix i :: int assume i: "- (2 ^ 31) \<le> i \<and> i < 2 ^ 31"
  have "nat \<bar>i\<bar> < 10 ^ 10" using i by (simp add: nat_less_iff abs_if)
  then have "length (numeral_of 10 (nat \<bar>i\<bar>)) \<le> 10" by (simp add: length_numeral)
  then have "printint i 10 True = Inr ((if i < 0 then [45] else []) @ numeral_of 10 (nat \<bar>i\<bar>))"
    using printint_eq [of 10 i True] i by (auto simp: Let_def)
  then show "printf_loop [37, 100] [VInt i] = Inr ((if i < 0 then [45] else []) @ numeral_of 10 (nat \<bar>i\<bar>))"
    by (simp add: printf_conv_def fmt_at_def)
qed

theorem printf_overruns_witness:
  "printf_loop [37, 100] [VInt (-7)] = Inr [45, 55]"
proof -
  have "numeral_of 10 7 = [55]" by (simp add: numeral_of.simps digits_def)
  moreover have "printf_loop [37, 100] [VInt (-7)] = Inr ((if -7 < (0 :: int) then [45] else []) @ numeral_of 10 (nat \<bar>-7\<bar>))"
    using printf_overruns by auto
  ultimately show ?thesis by simp
qed

end
