(* ===== verification/Bio.thy ===== *)
theory Bio
  imports Prelude
begin

text \<open>Sleep locks (\<open>kernel/sleeplock.c\<close>) and the buffer cache (\<open>kernel/bio.c\<close>) on top of a disk.  The list of
  buffers is the code's doubly linked list: \<open>buf_next\<close> and \<open>buf_prev\<close> hold indices of buffers, with the index
  \<open>HEAD\<close> for \<open>bcache.head\<close>.  Walking the list is given \<open>NBUF + 1\<close> steps; a list that is longer, which the
  invariant excludes, is a \<open>Spin\<close>.  Each operation is what runs under \<open>bcache.lock\<close>.  The disk
  keeps the sequence of its block writes, so that a crash can be put between any two of them.\<close>

section \<open>Sleep locks\<close>

text \<open>The fields that \<open>lk->lk\<close> protects, and what the code does to them while it holds \<open>lk->lk\<close>, once it has seen \<open>locked == 0\<close> in
  \<open>acquiresleep\<close>; a lock that is held is an \<open>Inl Sleep\<close>.  Theory \<open>Sleeplock\<close> has the functions with the inner lock, \<open>sleep\<close> and
  \<open>wakeup\<close>, statement by statement, and shows that every interleaving of them changes the fields as these do.\<close>

record sleeplock =
  sl_locked :: bool
  sl_name :: string
  sl_pid :: int

definition initsleeplock :: "string \<Rightarrow> sleeplock" where
  "initsleeplock name = \<lparr>sl_locked = False, sl_name = name, sl_pid = 0\<rparr>"

definition acquiresleep :: "int \<Rightarrow> sleeplock \<Rightarrow> sleeplock result" where
  "acquiresleep pid lk = (if sl_locked lk then Inl Sleep else Inr (lk\<lparr>sl_locked := True, sl_pid := pid\<rparr>))"

definition releasesleep :: "sleeplock \<Rightarrow> sleeplock" where
  "releasesleep lk = lk\<lparr>sl_locked := False, sl_pid := 0\<rparr>"

definition holdingsleep :: "int \<Rightarrow> sleeplock \<Rightarrow> bool" where
  "holdingsleep pid lk \<longleftrightarrow> sl_locked lk \<and> sl_pid lk = pid"

section \<open>Buffers\<close>

type_synonym block = "byte list"

definition NBUF :: nat where "NBUF = 30"
definition BSIZE :: nat where "BSIZE = 1024"

abbreviation HEAD :: nat where "HEAD \<equiv> NBUF"

record buf =
  buf_valid :: bool
  buf_dev :: uint
  buf_blockno :: uint
  buf_lock :: sleeplock
  buf_refcnt :: uint
  buf_prev :: nat
  buf_next :: nat
  buf_data :: block

record bcache =
  bufs :: "nat \<Rightarrow> buf"
  disk :: "uint \<Rightarrow> block"
  disk_writes :: "(uint \<times> block) list"
  cur_pid :: int

definition upd_buf :: "nat \<Rightarrow> (buf \<Rightarrow> buf) \<Rightarrow> bcache \<Rightarrow> bcache" where
  "upd_buf b f s = s\<lparr>bufs := (bufs s)(b := f (bufs s b))\<rparr>"

text \<open>Putting a buffer at the front of the list and taking it out, statement by statement.\<close>

definition link_front :: "nat \<Rightarrow> bcache \<Rightarrow> bcache" where
  "link_front b s =
    (let s1 = upd_buf b (\<lambda>x. x\<lparr>buf_next := buf_next (bufs s HEAD)\<rparr>) s;
         s2 = upd_buf b (\<lambda>x. x\<lparr>buf_prev := HEAD\<rparr>) s1;
         s3 = upd_buf (buf_next (bufs s2 HEAD)) (\<lambda>x. x\<lparr>buf_prev := b\<rparr>) s2
     in upd_buf HEAD (\<lambda>x. x\<lparr>buf_next := b\<rparr>) s3)"

definition unlink_buf :: "nat \<Rightarrow> bcache \<Rightarrow> bcache" where
  "unlink_buf b s =
    (let s1 = upd_buf (buf_next (bufs s b)) (\<lambda>x. x\<lparr>buf_prev := buf_prev (bufs s b)\<rparr>) s
     in upd_buf (buf_prev (bufs s1 b)) (\<lambda>x. x\<lparr>buf_next := buf_next (bufs s1 b)\<rparr>) s1)"

definition binit :: "bcache \<Rightarrow> bcache" where
  "binit s =
    fold (\<lambda>b s. link_front b (upd_buf b (\<lambda>x. x\<lparr>buf_lock := initsleeplock ''buffer''\<rparr>) s)) [0..<NBUF]
      (upd_buf HEAD (\<lambda>x. x\<lparr>buf_prev := HEAD, buf_next := HEAD\<rparr>) s)"

text \<open>The two loops of \<open>bget\<close>.\<close>

primrec scan_cached :: "nat \<Rightarrow> nat \<Rightarrow> uint \<Rightarrow> uint \<Rightarrow> bcache \<Rightarrow> nat option result" where
  "scan_cached 0 b dev bn s = Inl Spin"
| "scan_cached (Suc n) b dev bn s =
    (if b = HEAD then Inr None
     else if buf_dev (bufs s b) = dev \<and> buf_blockno (bufs s b) = bn then Inr (Some b)
     else scan_cached n (buf_next (bufs s b)) dev bn s)"

primrec scan_unused :: "nat \<Rightarrow> nat \<Rightarrow> bcache \<Rightarrow> nat option result" where
  "scan_unused 0 b s = Inl Spin"
| "scan_unused (Suc n) b s =
    (if b = HEAD then Inr None
     else if buf_refcnt (bufs s b) = 0 then Inr (Some b)
     else scan_unused n (buf_prev (bufs s b)) s)"

text \<open>\<open>bget\<close> up to the point where \<open>bcache.lock\<close> is released, and its wait for the buffer's sleep lock.\<close>

definition bget_find :: "uint \<Rightarrow> uint \<Rightarrow> bcache \<Rightarrow> (nat \<times> bcache) result" where
  "bget_find dev bn s =
    rbind (scan_cached (NBUF + 1) (buf_next (bufs s HEAD)) dev bn s) (\<lambda>r.
    case r of
      Some b \<Rightarrow> Inr (b, upd_buf b (\<lambda>x. x\<lparr>buf_refcnt := buf_refcnt x + 1\<rparr>) s)
    | None \<Rightarrow>
        rbind (scan_unused (NBUF + 1) (buf_prev (bufs s HEAD)) s) (\<lambda>r.
        case r of
          Some b \<Rightarrow> Inr (b, upd_buf b (\<lambda>x. x\<lparr>buf_dev := dev, buf_blockno := bn, buf_valid := False, buf_refcnt := 1\<rparr>) s)
        | None \<Rightarrow> Inl (Panic ''bget: no buffers'')))"

definition lock_buf :: "nat \<Rightarrow> bcache \<Rightarrow> bcache result" where
  "lock_buf b s =
    rbind (acquiresleep (cur_pid s) (buf_lock (bufs s b))) (\<lambda>lk. Inr (upd_buf b (\<lambda>x. x\<lparr>buf_lock := lk\<rparr>) s))"

definition bget :: "uint \<Rightarrow> uint \<Rightarrow> bcache \<Rightarrow> (nat \<times> bcache) result" where
  "bget dev bn s = rbind (bget_find dev bn s) (\<lambda>(b, s1). rbind (lock_buf b s1) (\<lambda>s2. Inr (b, s2)))"

text \<open>The transfer of one block, as the driver does it for its caller; theory \<open>Virtio\<close> has the driver.\<close>

definition disk_rw :: "nat \<Rightarrow> bool \<Rightarrow> bcache \<Rightarrow> bcache" where
  "disk_rw b is_write s =
    (let bn = buf_blockno (bufs s b); d = buf_data (bufs s b)
     in if is_write then s\<lparr>disk := (disk s)(bn := d), disk_writes := disk_writes s @ [(bn, d)]\<rparr>
        else upd_buf b (\<lambda>x. x\<lparr>buf_data := disk s bn\<rparr>) s)"

definition bread :: "uint \<Rightarrow> uint \<Rightarrow> bcache \<Rightarrow> (nat \<times> bcache) result" where
  "bread dev bn s =
    rbind (bget dev bn s) (\<lambda>(b, s1).
    Inr (b, if \<not> buf_valid (bufs s1 b) then upd_buf b (\<lambda>x. x\<lparr>buf_valid := True\<rparr>) (disk_rw b False s1) else s1))"

definition bwrite :: "nat \<Rightarrow> bcache \<Rightarrow> bcache result" where
  "bwrite b s =
    (if \<not> holdingsleep (cur_pid s) (buf_lock (bufs s b)) then Inl (Panic ''bwrite'')
     else Inr (disk_rw b True s))"

definition brelse :: "nat \<Rightarrow> bcache \<Rightarrow> bcache result" where
  "brelse b s =
    (if \<not> holdingsleep (cur_pid s) (buf_lock (bufs s b)) then Inl (Panic ''brelse'')
     else
       let s1 = upd_buf b (\<lambda>x. x\<lparr>buf_lock := releasesleep (buf_lock x)\<rparr>) s;
           s2 = upd_buf b (\<lambda>x. x\<lparr>buf_refcnt := buf_refcnt x - 1\<rparr>) s1
       in Inr (if buf_refcnt (bufs s2 b) = 0 then link_front b (unlink_buf b s2) else s2))"

definition bpin :: "nat \<Rightarrow> bcache \<Rightarrow> bcache" where
  "bpin b s = upd_buf b (\<lambda>x. x\<lparr>buf_refcnt := buf_refcnt x + 1\<rparr>) s"

definition bunpin :: "nat \<Rightarrow> bcache \<Rightarrow> bcache" where
  "bunpin b s = upd_buf b (\<lambda>x. x\<lparr>buf_refcnt := buf_refcnt x - 1\<rparr>) s"

text \<open>Changing the contents of a buffer, which the users of the cache do through \<open>b->data\<close>.\<close>

definition set_data :: "nat \<Rightarrow> block \<Rightarrow> bcache \<Rightarrow> bcache" where
  "set_data b d s = upd_buf b (\<lambda>x. x\<lparr>buf_data := d\<rparr>) s"

section \<open>Linked lists\<close>

text \<open>Following \<open>f\<close> from \<open>a\<close> gives \<open>xs\<close> and then \<open>c\<close>.\<close>

fun path :: "('a \<Rightarrow> 'a) \<Rightarrow> 'a \<Rightarrow> 'a list \<Rightarrow> 'a \<Rightarrow> bool" where
  "path f a [] c \<longleftrightarrow> f a = c"
| "path f a (x # xs) c \<longleftrightarrow> f a = x \<and> path f x xs c"

lemma path_append: "path f a (xs @ y # ys) c \<longleftrightarrow> path f a xs y \<and> path f y ys c"
  by (induction xs arbitrary: a) auto

lemma path_head: "path f a xs c \<Longrightarrow> f a = hd (xs @ [c])"
  by (cases xs) auto

lemma path_last: "path f a xs c \<Longrightarrow> f (last (a # xs)) = c"
  by (induction xs arbitrary: a) auto

lemma path_cong: "(\<And>x. x \<in> set (a # xs) \<Longrightarrow> f x = g x) \<Longrightarrow> path f a xs c = path g a xs c"
  by (induction xs arbitrary: a) auto

lemma path_unlink:
  assumes "path f a (us @ b # vs) c" "distinct (a # us @ b # vs)"
  shows "path (f(last (a # us) := f b)) a (us @ vs) c"
  using assms
proof (induction us arbitrary: a)
  case Nil
  show ?case
  proof (cases vs)
    case (Cons v ws)
    have "path (f(a := f b)) v ws c = path f v ws c" by (rule path_cong) (use Nil.prems Cons in auto)
    then have "path (f(a := f b)) a (v # ws) c"
      using Nil.prems(1) unfolding Cons by (simp only: path.simps append_Nil fun_upd_same)
    then show ?thesis by (simp only: Cons last.simps append_Nil simp_thms if_True)
  qed (use Nil.prems in simp)
next
  case (Cons u us)
  have "path (f(last (u # us) := f b)) u (us @ vs) c" by (rule Cons.IH) (use Cons.prems in auto)
  moreover have "a \<noteq> last (u # us)" using Cons.prems(2) last_in_set [of "u # us"] by auto
  ultimately have "path (f(last (u # us) := f b)) a (u # us @ vs) c"
    using Cons.prems(1) by (simp only: path.simps append_Cons fun_upd_other simp_thms not_False_eq_True)
  moreover have "last (a # u # us) = last (u # us)" by simp
  ultimately show ?case by (simp only: append_Cons)
qed

lemma path_push_front:
  assumes "path f a ys c" "b \<notin> set (a # ys)" "distinct (a # ys)"
  shows "path (f(b := f a, a := b)) a (b # ys) c"
proof (cases ys)
  case Nil
  then show ?thesis using assms by auto
next
  case (Cons y zs)
  have "path (f(b := f a, a := b)) y zs c = path f y zs c"
    by (rule path_cong) (use assms Cons in auto)
  then show ?thesis using assms Cons by auto
qed

lemma path_push_back:
  assumes "path g a zs c" "b \<notin> set (a # zs)" "distinct (a # zs)"
  shows "path (g(b := c, last (a # zs) := b)) a (zs @ [b]) c"
proof -
  let ?g = "g(b := c, last (a # zs) := b)"
  have "path ?g a zs b"
    using assms
  proof (induction zs arbitrary: a)
    case (Cons z zs)
    have "last (z # zs) \<noteq> a" using Cons.prems(3) last_in_set [of "z # zs"] by auto
    then show ?case using Cons by auto
  qed auto
  moreover have "b \<noteq> last (a # zs)" using assms(2) last_in_set [of "a # zs"] by auto
  ultimately show ?thesis by (simp add: path_append)
qed

text \<open>The list of the cache, front first.\<close>

abbreviation nexts :: "bcache \<Rightarrow> nat \<Rightarrow> nat" where "nexts s \<equiv> \<lambda>b. buf_next (bufs s b)"
abbreviation prevs :: "bcache \<Rightarrow> nat \<Rightarrow> nat" where "prevs s \<equiv> \<lambda>b. buf_prev (bufs s b)"

definition lru :: "bcache \<Rightarrow> nat list \<Rightarrow> bool" where
  "lru s xs \<longleftrightarrow> path (nexts s) HEAD xs HEAD \<and> path (prevs s) HEAD (rev xs) HEAD \<and>
    distinct xs \<and> HEAD \<notin> set xs"

lemma lru_upd:
  assumes "lru s xs" "\<And>x. buf_next (f x) = buf_next x \<and> buf_prev (f x) = buf_prev x"
  shows "lru (upd_buf b f s) xs"
proof -
  have "nexts (upd_buf b f s) = nexts s" "prevs (upd_buf b f s) = prevs s"
    using assms(2) by (auto simp: upd_buf_def)
  then show ?thesis using assms(1) by (simp add: lru_def)
qed

lemma lru_cong:
  assumes "\<And>b. buf_next (bufs t b) = buf_next (bufs s b) \<and> buf_prev (bufs t b) = buf_prev (bufs s b)"
  shows "lru t xs = lru s xs"
proof -
  have "nexts t = nexts s" "prevs t = prevs s" using assms by auto
  then show ?thesis by (simp add: lru_def)
qed

lemma nexts_upd: "(\<lambda>c. buf_next (bufs (upd_buf b f s) c)) = (nexts s)(b := buf_next (f (bufs s b)))"
  and prevs_upd: "(\<lambda>c. buf_prev (bufs (upd_buf b f s) c)) = (prevs s)(b := buf_prev (f (bufs s b)))"
  by (auto simp: upd_buf_def)

lemma bufs_upd [simp]: "bufs (upd_buf b f s) = (bufs s)(b := f (bufs s b))"
  by (simp add: upd_buf_def)

lemma upd_buf_more [simp]:
  "disk (upd_buf b f s) = disk s" "disk_writes (upd_buf b f s) = disk_writes s" "cur_pid (upd_buf b f s) = cur_pid s"
  by (simp_all add: upd_buf_def)

lemma unlink_lru:
  assumes "lru s (us @ b # vs)"
  shows "lru (unlink_buf b s) (us @ vs)"
proof -
  let ?n = "nexts s" and ?p = "prevs s"
  have d: "distinct (HEAD # us @ b # vs)" "distinct (HEAD # rev vs @ b # rev us)"
    and n: "path ?n HEAD (us @ b # vs) HEAD" and p: "path ?p HEAD (rev vs @ b # rev us) HEAD"
    using assms by (auto simp: lru_def)
  have pb: "?p b = last (HEAD # us)"
    using p path_head [of ?p b "rev us" HEAD] hd_rev [of "HEAD # us"] by (simp add: path_append)
  have nb: "?n b = last (HEAD # rev vs)"
    using n path_head [of ?n b vs HEAD] hd_rev [of "HEAD # rev vs"] by (simp add: path_append)
  have "b \<noteq> last (HEAD # us)" "b \<noteq> last (HEAD # rev vs)"
    using d last_in_set [of "HEAD # us"] last_in_set [of "HEAD # rev vs"] by auto
  then have "nexts (unlink_buf b s) = ?n(?p b := ?n b)" "prevs (unlink_buf b s) = ?p(?n b := ?p b)"
    using pb nb by (auto simp: unlink_buf_def Let_def fun_eq_iff)
  then show ?thesis
    using path_unlink [OF n d(1)] path_unlink [OF p d(2)] d pb nb by (simp add: lru_def)
qed

lemma link_lru:
  assumes "lru s ys" "b \<notin> set ys" "b \<noteq> HEAD"
  shows "lru (link_front b s) (b # ys)"
proof -
  let ?n = "nexts s" and ?p = "prevs s"
  have d: "distinct (HEAD # ys)" "distinct (HEAD # rev ys)" "b \<notin> set (HEAD # ys)" "b \<notin> set (HEAD # rev ys)"
    and n: "path ?n HEAD ys HEAD" and p: "path ?p HEAD (rev ys) HEAD"
    using assms by (auto simp: lru_def)
  have nh: "?n HEAD = last (HEAD # rev ys)"
    using path_head [OF n] hd_rev [of "HEAD # rev ys"] by simp
  have "nexts (link_front b s) = ?n(b := ?n HEAD, HEAD := b)" "prevs (link_front b s) = ?p(b := HEAD, ?n HEAD := b)"
    using assms(3) by (auto simp: link_front_def Let_def fun_eq_iff)
  then show ?thesis
    using path_push_front [OF n d(3,1)] path_push_back [OF p d(4,2)] d nh by (simp add: lru_def)
qed

lemma binit_lru: "lru (binit s) (rev [0..<NBUF])"
proof -
  let ?f = "\<lambda>b s. link_front b (upd_buf b (\<lambda>x. x\<lparr>buf_lock := initsleeplock ''buffer''\<rparr>) s)"
  let ?s = "upd_buf HEAD (\<lambda>x. x\<lparr>buf_prev := HEAD, buf_next := HEAD\<rparr>) s"
  have "n \<le> NBUF \<Longrightarrow> lru (fold ?f [0..<n] ?s) (rev [0..<n])" for n
  proof (induction n)
    case 0
    then show ?case by (simp add: lru_def)
  next
    case (Suc n)
    then have "lru (upd_buf n (\<lambda>x. x\<lparr>buf_lock := initsleeplock ''buffer''\<rparr>) (fold ?f [0..<n] ?s)) (rev [0..<n])"
      by (intro lru_upd) simp_all
    then show ?case using link_lru [of _ "rev [0..<n]" n] Suc.prems by simp
  qed
  then show ?thesis by (simp add: binit_def)
qed

text \<open>The loops of \<open>bget\<close> search the list from the front and from the back.\<close>

lemma scan_cached_eq:
  assumes "HEAD \<notin> set xs"
  shows "path (nexts s) a xs HEAD \<Longrightarrow> length xs < n \<Longrightarrow>
    scan_cached n (buf_next (bufs s a)) dev bn s = Inr (find (\<lambda>b. buf_dev (bufs s b) = dev \<and> buf_blockno (bufs s b) = bn) xs)"
  using assms
proof (induction xs arbitrary: a n)
  case Nil
  then show ?case by (cases n) auto
next
  case (Cons x xs)
  then show ?case by (cases n) auto
qed

lemma scan_unused_eq:
  assumes "HEAD \<notin> set xs"
  shows "path (prevs s) a xs HEAD \<Longrightarrow> length xs < n \<Longrightarrow>
    scan_unused n (buf_prev (bufs s a)) s = Inr (find (\<lambda>b. buf_refcnt (bufs s b) = 0) xs)"
  using assms
proof (induction xs arbitrary: a n)
  case Nil
  then show ?case by (cases n) auto
next
  case (Cons x xs)
  then show ?case by (cases n) auto
qed

section \<open>Coherence\<close>

text \<open>The invariant: all buffers are on the list; a block of a device is in at most one buffer (unused
  buffers have device 0 at the start); a buffer nobody uses is unlocked, and what it caches is what is
  on the disk.\<close>

definition holds :: "bcache \<Rightarrow> uint \<Rightarrow> uint \<Rightarrow> nat \<Rightarrow> bool" where
  "holds s dev bn b \<longleftrightarrow> buf_dev (bufs s b) = dev \<and> buf_blockno (bufs s b) = bn"

definition bcache_ok :: "bcache \<Rightarrow> nat list \<Rightarrow> bool" where
  "bcache_ok s xs \<longleftrightarrow> lru s xs \<and> set xs = {0..<NBUF} \<and>
    (\<forall>b < NBUF. \<forall>c < NBUF. \<forall>dev bn. dev \<noteq> 0 \<longrightarrow> holds s dev bn b \<longrightarrow> holds s dev bn c \<longrightarrow> b = c) \<and>
    (\<forall>b < NBUF. buf_refcnt (bufs s b) = 0 \<longrightarrow> \<not> sl_locked (buf_lock (bufs s b)) \<and>
      (buf_valid (bufs s b) \<longrightarrow> buf_data (bufs s b) = disk s (buf_blockno (bufs s b))))"

text \<open>The contents of a block as the kernel sees it: the cached copy if there is one, else the disk.\<close>

definition view :: "uint \<Rightarrow> bcache \<Rightarrow> uint \<Rightarrow> block" where
  "view dev s bn =
    (case find (\<lambda>b. holds s dev bn b \<and> buf_valid (bufs s b)) [0..<NBUF] of
       Some b \<Rightarrow> buf_data (bufs s b) | None \<Rightarrow> disk s bn)"

lemma bcache_okD:
  assumes "bcache_ok s xs"
  shows "lru s xs" "set xs = {0..<NBUF}" "length xs = NBUF"
    and "b < NBUF \<Longrightarrow> c < NBUF \<Longrightarrow> dev \<noteq> 0 \<Longrightarrow> holds s dev bn b \<Longrightarrow> holds s dev bn c \<Longrightarrow> b = c"
    and "b < NBUF \<Longrightarrow> buf_refcnt (bufs s b) = 0 \<Longrightarrow> \<not> sl_locked (buf_lock (bufs s b))"
    and "b < NBUF \<Longrightarrow> buf_refcnt (bufs s b) = 0 \<Longrightarrow> buf_valid (bufs s b) \<Longrightarrow>
      buf_data (bufs s b) = disk s (buf_blockno (bufs s b))"
proof -
  have "distinct xs" "set xs = {0..<NBUF}" using assms by (simp_all add: bcache_ok_def lru_def)
  then show "length xs = NBUF" using distinct_card [of xs] by simp
qed (use assms in \<open>auto simp: bcache_ok_def\<close>)

lemma find_SomeD: "find P xs = Some b \<Longrightarrow> P b \<and> b \<in> set xs"
  by (auto simp: find_Some_iff)

lemma find_unique:
  assumes "P b" "b \<in> set xs" "\<And>c. c \<in> set xs \<Longrightarrow> P c \<Longrightarrow> c = b"
  shows "find P xs = Some b"
proof (cases "find P xs")
  case None
  then show ?thesis using assms(1,2) by (simp add: find_None_iff)
next
  case (Some c)
  then have "c \<in> set xs" "P c" by (auto simp: find_Some_iff)
  then show ?thesis using assms(3) Some by simp
qed

lemma view_cached:
  assumes "bcache_ok s xs" "dev \<noteq> 0" "b < NBUF" "holds s dev bn b" "buf_valid (bufs s b)"
  shows "view dev s bn = buf_data (bufs s b)"
proof -
  have "find (\<lambda>b. holds s dev bn b \<and> buf_valid (bufs s b)) [0..<NBUF] = Some b"
    by (rule find_unique) (use assms bcache_okD(4) [OF assms(1)] in auto)
  then show ?thesis by (simp add: view_def)
qed

lemma view_disk:
  assumes "\<And>b. b < NBUF \<Longrightarrow> holds s dev bn b \<Longrightarrow> \<not> buf_valid (bufs s b)"
  shows "view dev s bn = disk s bn"
proof -
  have "find (\<lambda>b. holds s dev bn b \<and> buf_valid (bufs s b)) [0..<NBUF] = None"
    using assms by (auto simp: find_None_iff)
  then show ?thesis by (simp add: view_def)
qed

text \<open>Two states that agree on every buffer's block, validity and data, and on the disk, give the same view.\<close>

lemma view_cong:
  assumes "\<And>b. b < NBUF \<Longrightarrow> buf_dev (bufs t b) = buf_dev (bufs s b) \<and> buf_blockno (bufs t b) = buf_blockno (bufs s b) \<and>
      buf_valid (bufs t b) = buf_valid (bufs s b) \<and> buf_data (bufs t b) = buf_data (bufs s b)"
    and "disk t = disk s"
  shows "view dev t = view dev s"
proof
  fix bn
  have "find (\<lambda>b. holds t dev bn b \<and> buf_valid (bufs t b)) [0..<NBUF] =
      find (\<lambda>b. holds s dev bn b \<and> buf_valid (bufs s b)) [0..<NBUF]"
    by (rule find_cong) (use assms(1) in \<open>auto simp: holds_def\<close>)
  moreover have "buf_data (bufs t b) = buf_data (bufs s b)"
    if "find (\<lambda>b. holds s dev bn b \<and> buf_valid (bufs s b)) [0..<NBUF] = Some b" for b
    using find_SomeD [OF that] assms(1) by simp
  ultimately show "view dev t bn = view dev s bn"
    using assms(2) by (simp add: view_def split: option.splits)
qed

lemma bget_find_cached:
  assumes "bcache_ok s xs" "dev \<noteq> 0" "b < NBUF" "holds s dev bn b"
  shows "bget_find dev bn s = Inr (b, upd_buf b (\<lambda>x. x\<lparr>buf_refcnt := buf_refcnt x + 1\<rparr>) s)"
proof -
  note ok = bcache_okD [OF assms(1)]
  have "find (\<lambda>b. buf_dev (bufs s b) = dev \<and> buf_blockno (bufs s b) = bn) xs = Some b"
    by (rule find_unique) (use assms ok(2,4) in \<open>auto simp: holds_def\<close>)
  moreover have "scan_cached (NBUF + 1) (buf_next (bufs s HEAD)) dev bn s =
      Inr (find (\<lambda>b. buf_dev (bufs s b) = dev \<and> buf_blockno (bufs s b) = bn) xs)"
    by (rule scan_cached_eq) (use ok(1,3) in \<open>auto simp: lru_def\<close>)
  ultimately show ?thesis by (simp add: bget_find_def)
qed

lemma bget_find_new:
  assumes "bcache_ok s xs" "\<And>b. b < NBUF \<Longrightarrow> \<not> holds s dev bn b"
  shows "bget_find dev bn s =
    (case find (\<lambda>b. buf_refcnt (bufs s b) = 0) (rev xs) of
       Some b \<Rightarrow> Inr (b, upd_buf b (\<lambda>x. x\<lparr>buf_dev := dev, buf_blockno := bn, buf_valid := False, buf_refcnt := 1\<rparr>) s)
     | None \<Rightarrow> Inl (Panic ''bget: no buffers''))"
proof -
  note ok = bcache_okD [OF assms(1)]
  have "find (\<lambda>b. buf_dev (bufs s b) = dev \<and> buf_blockno (bufs s b) = bn) xs = None"
    using assms(2) ok(2) by (auto simp: find_None_iff holds_def)
  moreover have "scan_cached (NBUF + 1) (buf_next (bufs s HEAD)) dev bn s =
      Inr (find (\<lambda>b. buf_dev (bufs s b) = dev \<and> buf_blockno (bufs s b) = bn) xs)"
    by (rule scan_cached_eq) (use ok(1,3) in \<open>auto simp: lru_def\<close>)
  moreover have "scan_unused (NBUF + 1) (buf_prev (bufs s HEAD)) s = Inr (find (\<lambda>b. buf_refcnt (bufs s b) = 0) (rev xs))"
    by (rule scan_unused_eq) (use ok(1,3) in \<open>auto simp: lru_def\<close>)
  ultimately show ?thesis by (simp add: bget_find_def split: option.splits)
qed

text \<open>What a successful \<open>bread\<close> leaves: the buffer is locked by the caller and holds the block's contents;
  no other buffer in use has changed, and every block's contents is what it was.\<close>

definition got_buf :: "uint \<Rightarrow> uint \<Rightarrow> bcache \<Rightarrow> nat \<Rightarrow> bcache \<Rightarrow> bool" where
  "got_buf dev bn s b t \<longleftrightarrow> b < NBUF \<and> holds t dev bn b \<and> buf_valid (bufs t b) \<and>
    buf_lock (bufs t b) = (buf_lock (bufs s b))\<lparr>sl_locked := True, sl_pid := cur_pid s\<rparr> \<and>
    buf_data (bufs t b) = view dev s bn \<and>
    buf_refcnt (bufs t b) = (if holds s dev bn b then buf_refcnt (bufs s b) + 1 else 1) \<and>
    (holds s dev bn b \<or> buf_refcnt (bufs s b) = 0) \<and>
    (\<forall>c. c \<noteq> b \<longrightarrow> bufs t c = bufs s c) \<and>
    disk t = disk s \<and> disk_writes t = disk_writes s \<and> cur_pid t = cur_pid s \<and> view dev t = view dev s"

lemma view_upd_other:
  assumes "\<And>c. c < NBUF \<Longrightarrow> c \<noteq> b \<Longrightarrow> bufs t c = bufs s c" "disk t = disk s"
    and "\<not> holds t dev bn b" "\<not> holds s dev bn b"
  shows "view dev t bn = view dev s bn"
proof -
  have "find (\<lambda>b. holds t dev bn b \<and> buf_valid (bufs t b)) [0..<NBUF] =
      find (\<lambda>b. holds s dev bn b \<and> buf_valid (bufs s b)) [0..<NBUF]"
  proof (rule find_cong)
    fix x assume "x \<in> set [0..<NBUF]"
    then show "(holds t dev bn x \<and> buf_valid (bufs t x)) = (holds s dev bn x \<and> buf_valid (bufs s x))"
      using assms by (cases "x = b") (auto simp: holds_def)
  qed simp
  moreover have "bufs t c = bufs s c"
    if "find (\<lambda>b. holds s dev bn b \<and> buf_valid (bufs s b)) [0..<NBUF] = Some c" for c
    using find_SomeD [OF that] assms(1,4) by auto
  ultimately show ?thesis using assms(2) by (simp add: view_def split: option.splits)
qed

lemma bread_cached:
  assumes ok: "bcache_ok s xs" and dev: "dev \<noteq> 0" and b: "b < NBUF" "holds s dev bn b"
    and lk: "\<not> sl_locked (buf_lock (bufs s b))" and rc: "buf_refcnt (bufs s b) + 1 \<noteq> 0"
  shows "\<exists>t. bread dev bn s = Inr (b, t) \<and> bcache_ok t xs \<and> got_buf dev bn s b t"
proof -
  let ?s1 = "upd_buf b (\<lambda>x. x\<lparr>buf_refcnt := buf_refcnt x + 1\<rparr>) s"
  let ?s2 = "upd_buf b (\<lambda>x. x\<lparr>buf_lock := (buf_lock (bufs s b))\<lparr>sl_locked := True, sl_pid := cur_pid s\<rparr>\<rparr>) ?s1"
  define t where "t = (if \<not> buf_valid (bufs ?s2 b) then upd_buf b (\<lambda>x. x\<lparr>buf_valid := True\<rparr>) (disk_rw b False ?s2) else ?s2)"
  have br: "bread dev bn s = Inr (b, t)"
    using bget_find_cached [OF ok dev b] lk
    by (simp add: bread_def bget_def lock_buf_def acquiresleep_def t_def)
  have bt: "bufs t = (bufs s)(b := (bufs s b)\<lparr>buf_refcnt := buf_refcnt (bufs s b) + 1,
      buf_lock := (buf_lock (bufs s b))\<lparr>sl_locked := True, sl_pid := cur_pid s\<rparr>,
      buf_valid := True, buf_data := view dev s bn\<rparr>)" and dt: "disk t = disk s" "disk_writes t = disk_writes s" "cur_pid t = cur_pid s"
  proof -
    have "view dev s bn = (if buf_valid (bufs s b) then buf_data (bufs s b) else disk s bn)"
      using view_cached [OF ok dev b] view_disk [of s dev bn] bcache_okD(4) [OF ok] dev b by (auto)
    then show "bufs t = (bufs s)(b := (bufs s b)\<lparr>buf_refcnt := buf_refcnt (bufs s b) + 1,
      buf_lock := (buf_lock (bufs s b))\<lparr>sl_locked := True, sl_pid := cur_pid s\<rparr>,
      buf_valid := True, buf_data := view dev s bn\<rparr>)"
      using b(2) by (auto simp: t_def disk_rw_def Let_def holds_def fun_eq_iff)
  qed (auto simp: t_def disk_rw_def Let_def)
  have hold: "holds t dev' bn' c = holds s dev' bn' c" for dev' bn' c by (auto simp: holds_def bt)
  have "lru t xs" using bcache_okD(1) [OF ok] lru_cong [of t s] by (simp add: bt)
  then have okt: "bcache_ok t xs"
    using ok rc unfolding bcache_ok_def hold by (auto simp: bt dt)
  have "view dev t bn' = view dev s bn'" for bn'
  proof (cases "bn' = bn")
    case True
    then show ?thesis using view_cached [OF okt dev b(1), of bn] b(2) by (simp add: hold) (simp add: bt)
  next
    case False
    then show ?thesis using b(2) by (intro view_upd_other [of b]) (auto simp: bt dt holds_def)
  qed
  then have "view dev t = view dev s" by auto
  then have "got_buf dev bn s b t"
    using b dt unfolding got_buf_def hold by (auto simp: bt)
  then show ?thesis using br okt by blast
qed

lemma bread_new:
  assumes ok: "bcache_ok s xs" and dev: "dev \<noteq> 0" and no: "\<And>b. b < NBUF \<Longrightarrow> \<not> holds s dev bn b"
    and free: "c < NBUF" "buf_refcnt (bufs s c) = 0"
  shows "\<exists>b t. bread dev bn s = Inr (b, t) \<and> bcache_ok t xs \<and> got_buf dev bn s b t"
proof -
  obtain b where fb: "find (\<lambda>b. buf_refcnt (bufs s b) = 0) (rev xs) = Some b"
    using free bcache_okD(2) [OF ok] by (cases "find (\<lambda>b. buf_refcnt (bufs s b) = 0) (rev xs)") (auto simp: find_None_iff)
  then have "b \<in> set (rev xs)" "buf_refcnt (bufs s b) = 0" by (auto simp: find_Some_iff simp del: set_rev intro: nth_mem)
  then have b: "b < NBUF" "buf_refcnt (bufs s b) = 0" using bcache_okD(2) [OF ok] by auto
  let ?s1 = "upd_buf b (\<lambda>x. x\<lparr>buf_dev := dev, buf_blockno := bn, buf_valid := False, buf_refcnt := 1\<rparr>) s"
  let ?s2 = "upd_buf b (\<lambda>x. x\<lparr>buf_lock := (buf_lock (bufs s b))\<lparr>sl_locked := True, sl_pid := cur_pid s\<rparr>\<rparr>) ?s1"
  define t where "t = upd_buf b (\<lambda>x. x\<lparr>buf_valid := True\<rparr>) (disk_rw b False ?s2)"
  have br: "bread dev bn s = Inr (b, t)"
    using bget_find_new [OF ok no] fb bcache_okD(5) [OF ok b]
    by (simp add: bread_def bget_def lock_buf_def acquiresleep_def t_def)
  have vd: "view dev s bn = disk s bn" using no by (intro view_disk) auto
  have bt: "bufs t = (bufs s)(b := (bufs s b)\<lparr>buf_dev := dev, buf_blockno := bn, buf_refcnt := 1,
      buf_lock := (buf_lock (bufs s b))\<lparr>sl_locked := True, sl_pid := cur_pid s\<rparr>,
      buf_valid := True, buf_data := view dev s bn\<rparr>)"
    and dt: "disk t = disk s" "disk_writes t = disk_writes s" "cur_pid t = cur_pid s"
    by (auto simp: t_def disk_rw_def Let_def vd fun_eq_iff)
  have hold: "holds t dev' bn' c = (if c = b then dev' = dev \<and> bn' = bn else holds s dev' bn' c)" for dev' bn' c
    by (auto simp: holds_def bt)
  have "lru t xs" using bcache_okD(1) [OF ok] lru_cong [of t s] by (simp add: bt)
  then have okt: "bcache_ok t xs"
    using ok no unfolding bcache_ok_def hold by (auto simp: bt dt)
  have "view dev t bn' = view dev s bn'" for bn'
  proof (cases "bn' = bn")
    case True
    then show ?thesis using view_cached [OF okt dev b(1), of bn] by (simp add: hold) (simp add: bt)
  next
    case False
    show ?thesis
    proof (cases "holds s dev bn' b \<and> buf_valid (bufs s b)")
      case True
      then have "view dev s bn' = disk s bn'"
        using view_cached [OF ok dev b(1), of bn'] bcache_okD(6) [OF ok b] by (simp add: holds_def)
      moreover have "view dev t bn' = disk t bn'"
        by (rule view_disk) (use True False bcache_okD(4) [OF ok _ b(1) dev] in \<open>auto simp: hold split: if_splits\<close>)
      ultimately show ?thesis using dt by simp
    next
      case nb: False
      show ?thesis
      proof (cases "holds s dev bn' b")
        case True
        then have "view dev s bn' = disk s bn'"
          using nb bcache_okD(4) [OF ok _ b(1) dev] by (intro view_disk) auto
        moreover have "view dev t bn' = disk t bn'"
          by (rule view_disk) (use True False bcache_okD(4) [OF ok _ b(1) dev] in \<open>auto simp: hold split: if_splits\<close>)
        ultimately show ?thesis using dt by simp
      next
        case nh: False
        then show ?thesis using False by (intro view_upd_other [of b]) (auto simp: bt dt hold)
      qed
    qed
  qed
  then have "view dev t = view dev s" by auto
  then have "got_buf dev bn s b t"
    using b dt no unfolding got_buf_def hold by (auto simp: bt)
  then show ?thesis using br okt by blast
qed

text \<open>A buffer without its links.\<close>

definition core :: "buf \<Rightarrow> buf" where
  "core x = x\<lparr>buf_prev := 0, buf_next := 0\<rparr>"

lemma core_fields:
  assumes "core x = core y"
  shows "buf_valid x = buf_valid y" "buf_dev x = buf_dev y" "buf_blockno x = buf_blockno y" "buf_lock x = buf_lock y"
    "buf_refcnt x = buf_refcnt y" "buf_data x = buf_data y"
proof -
  have "buf_valid (core z) = buf_valid z" "buf_dev (core z) = buf_dev z" "buf_blockno (core z) = buf_blockno z"
    "buf_lock (core z) = buf_lock z" "buf_refcnt (core z) = buf_refcnt z" "buf_data (core z) = buf_data z" for z
    by (simp_all add: core_def)
  then show "buf_valid x = buf_valid y" "buf_dev x = buf_dev y" "buf_blockno x = buf_blockno y" "buf_lock x = buf_lock y"
    "buf_refcnt x = buf_refcnt y" "buf_data x = buf_data y"
    using assms by metis+
qed

lemma core_links [simp]: "core (bufs (link_front b s) c) = core (bufs s c)" "core (bufs (unlink_buf b s) c) = core (bufs s c)"
  by (auto simp: link_front_def unlink_buf_def Let_def core_def)

lemma links_more [simp]:
  "disk (link_front b s) = disk s" "disk_writes (link_front b s) = disk_writes s" "cur_pid (link_front b s) = cur_pid s"
  "disk (unlink_buf b s) = disk s" "disk_writes (unlink_buf b s) = disk_writes s" "cur_pid (unlink_buf b s) = cur_pid s"
  by (simp_all add: link_front_def unlink_buf_def Let_def)

text \<open>The buffers of \<open>t\<close> are those of \<open>s\<close>, except for \<open>b\<close>, which is \<open>x\<close>, and the links.\<close>

definition only_buf :: "nat \<Rightarrow> buf \<Rightarrow> bcache \<Rightarrow> bcache \<Rightarrow> bool" where
  "only_buf b x s t \<longleftrightarrow> (\<forall>c. core (bufs t c) = core (if c = b then x else bufs s c)) \<and>
    disk_writes t = disk_writes s \<and> cur_pid t = cur_pid s \<and> disk t = disk s"

lemma only_bufD:
  assumes "only_buf b x s t"
  shows "core (bufs t b) = core x" "c \<noteq> b \<Longrightarrow> core (bufs t c) = core (bufs s c)"
    "disk_writes t = disk_writes s" "cur_pid t = cur_pid s" "disk t = disk s"
  using assms unfolding only_buf_def by (auto split: if_splits)

lemma only_buf_holds:
  assumes "only_buf b x s t" "buf_dev x = buf_dev (bufs s b)" "buf_blockno x = buf_blockno (bufs s b)"
  shows "holds t dev bn c = holds s dev bn c"
  using only_bufD(1,2) [OF assms(1)] assms(2,3) core_fields [of "bufs t c" "bufs s c"] core_fields [of "bufs t b" x]
  by (cases "c = b") (auto simp: holds_def)

text \<open>Changing the use count, the lock or the contents of a buffer.\<close>

lemma only_buf_ok:
  assumes ok: "bcache_ok s xs" and o: "only_buf b x s t" and same: "buf_dev x = buf_dev (bufs s b)" "buf_blockno x = buf_blockno (bufs s b)"
    and l: "lru t ys" "set ys = set xs"
    and unused: "buf_refcnt x = 0 \<Longrightarrow> \<not> sl_locked (buf_lock x) \<and> (buf_valid x \<longrightarrow> buf_data x = disk s (buf_blockno x))"
  shows "bcache_ok t ys"
proof -
  note h = only_buf_holds [OF o same] and od = only_bufD [OF o]
  have "\<not> sl_locked (buf_lock (bufs t c)) \<and> (buf_valid (bufs t c) \<longrightarrow> buf_data (bufs t c) = disk t (buf_blockno (bufs t c)))"
    if "c < NBUF" "buf_refcnt (bufs t c) = 0" for c
  proof (cases "c = b")
    case True
    then show ?thesis using unused core_fields [OF od(1)] od(5) that by simp
  next
    case False
    then show ?thesis using bcache_okD(5,6) [OF ok that(1)] core_fields [OF od(2) [OF False]] od(5) that by simp
  qed
  then show ?thesis using ok l unfolding bcache_ok_def h by blast
qed

lemma only_buf_view:
  assumes "only_buf b x s t" "buf_dev x = buf_dev (bufs s b)" "buf_blockno x = buf_blockno (bufs s b)"
    "buf_valid x = buf_valid (bufs s b)" "buf_data x = buf_data (bufs s b)"
  shows "view dev t = view dev s"
proof (rule view_cong)
  fix c assume "c < NBUF"
  show "buf_dev (bufs t c) = buf_dev (bufs s c) \<and> buf_blockno (bufs t c) = buf_blockno (bufs s c) \<and>
      buf_valid (bufs t c) = buf_valid (bufs s c) \<and> buf_data (bufs t c) = buf_data (bufs s c)"
    using core_fields [of "bufs t c" x] core_fields [of "bufs t c" "bufs s c"] only_bufD(1,2) [OF assms(1)] assms(2-5)
    by (cases "c = b") auto
qed (rule only_bufD(5) [OF assms(1)])

lemma only_buf_upd: "only_buf b (f (bufs s b)) s (upd_buf b f s)"
  by (simp add: only_buf_def)

lemma brelse_ok:
  assumes ok: "bcache_ok s xs" and b: "b < NBUF" and hold: "holdingsleep (cur_pid s) (buf_lock (bufs s b))"
    and clean: "buf_refcnt (bufs s b) = 1 \<Longrightarrow> buf_valid (bufs s b) \<Longrightarrow> buf_data (bufs s b) = disk s (buf_blockno (bufs s b))"
  defines "x \<equiv> (bufs s b)\<lparr>buf_lock := releasesleep (buf_lock (bufs s b)), buf_refcnt := buf_refcnt (bufs s b) - 1\<rparr>"
  shows "\<exists>t. brelse b s = Inr t \<and>
    bcache_ok t (if buf_refcnt (bufs s b) = 1 then b # remove1 b xs else xs) \<and> only_buf b x s t \<and> view dev t = view dev s"
proof -
  let ?s2 = "upd_buf b (\<lambda>x. x\<lparr>buf_refcnt := buf_refcnt x - 1\<rparr>) (upd_buf b (\<lambda>x. x\<lparr>buf_lock := releasesleep (buf_lock x)\<rparr>) s)"
  define t where "t = (if buf_refcnt (bufs ?s2 b) = 0 then link_front b (unlink_buf b ?s2) else ?s2)"
  have br: "brelse b s = Inr t" using hold by (simp add: brelse_def t_def)
  have one: "buf_refcnt (bufs ?s2 b) = 0 \<longleftrightarrow> buf_refcnt (bufs s b) = 1" by (simp add: right_minus_eq)
  have "core (bufs t c) = core (bufs ?s2 c)" "disk_writes t = disk_writes s" "cur_pid t = cur_pid s" "disk t = disk s" for c
    unfolding t_def by (cases "buf_refcnt (bufs ?s2 b) = 0"; simp)+
  then have o: "only_buf b x s t" by (simp add: only_buf_def x_def)
  have same: "buf_dev x = buf_dev (bufs s b)" "buf_blockno x = buf_blockno (bufs s b)"
    "buf_valid x = buf_valid (bufs s b)" "buf_data x = buf_data (bufs s b)" by (simp_all add: x_def)
  have s2: "lru ?s2 xs" using bcache_okD(1) [OF ok] by (intro lru_upd) simp_all
  have "bcache_ok t (if buf_refcnt (bufs s b) = 1 then b # remove1 b xs else xs)"
  proof (rule only_buf_ok [OF ok o same(1,2)])
    show "lru t (if buf_refcnt (bufs s b) = 1 then b # remove1 b xs else xs)"
    proof (cases "buf_refcnt (bufs s b) = 1")
      case True
      have "b \<in> set xs" using b bcache_okD(2) [OF ok] by simp
      then obtain us vs where uv: "xs = us @ b # vs" "b \<notin> set us" by (meson split_list_first)
      have d: "distinct xs" "HEAD \<notin> set xs" using s2 by (simp_all add: lru_def)
      have "lru (unlink_buf b ?s2) (us @ vs)" using unlink_lru s2 uv by simp
      moreover have "b \<notin> set (us @ vs)" "b \<noteq> HEAD" using d uv by auto
      ultimately have "lru (link_front b (unlink_buf b ?s2)) (b # us @ vs)" by (rule link_lru)
      moreover have "remove1 b xs = us @ vs" using uv by (simp add: remove1_append)
      ultimately show ?thesis using True one by (simp add: t_def)
    qed (use s2 one in \<open>simp add: t_def\<close>)
    show "set (if buf_refcnt (bufs s b) = 1 then b # remove1 b xs else xs) = set xs"
    proof -
      have "distinct xs" "b \<in> set xs" using bcache_okD(1,2) [OF ok] b by (simp_all add: lru_def)
      then show ?thesis by (simp add: insert_absorb)
    qed
    show "\<not> sl_locked (buf_lock x) \<and> (buf_valid x \<longrightarrow> buf_data x = disk s (buf_blockno x))" if "buf_refcnt x = 0"
      using clean that by (simp add: x_def releasesleep_def)
  qed
  then show ?thesis using br o only_buf_view [OF o same] by blast
qed

text \<open>Writing into a locked buffer changes the view of its block only.\<close>

lemma set_data_ok:
  assumes ok: "bcache_ok s xs" and dev: "dev \<noteq> 0" and b: "b < NBUF" "holds s dev bn b" "buf_valid (bufs s b)" "buf_refcnt (bufs s b) \<noteq> 0"
  shows "bcache_ok (set_data b d s) xs" "view dev (set_data b d s) = (view dev s)(bn := d)"
proof -
  let ?t = "set_data b d s"
  have o: "only_buf b ((bufs s b)\<lparr>buf_data := d\<rparr>) s ?t"
    unfolding set_data_def using only_buf_upd [of b "\<lambda>x. x\<lparr>buf_data := d\<rparr>" s] .
  have l: "lru ?t xs" unfolding set_data_def by (rule lru_upd [OF bcache_okD(1) [OF ok]]) simp
  show okt: "bcache_ok ?t xs" by (rule only_buf_ok [OF ok o _ _ l]) (use b in simp_all)
  show "view dev ?t = (view dev s)(bn := d)"
  proof
    fix bn'
    show "view dev ?t bn' = ((view dev s)(bn := d)) bn'"
    proof (cases "bn' = bn")
      case True
      have "view dev ?t bn = buf_data (bufs ?t b)"
        by (rule view_cached [OF okt dev b(1)]) (use b in \<open>simp_all add: holds_def set_data_def\<close>)
      then show ?thesis using True by (simp add: set_data_def)
    next
      case False
      have "view dev ?t bn' = view dev s bn'"
        by (rule view_upd_other [of b]) (use False b(2) in \<open>auto simp: set_data_def holds_def\<close>)
      then show ?thesis using False by simp
    qed
  qed
qed

text \<open>\<open>bwrite\<close> puts the contents of the buffer on the disk and leaves every view as it is.\<close>

lemma bwrite_ok:
  assumes ok: "bcache_ok s xs" and dev: "dev \<noteq> 0" and b: "b < NBUF" "holds s dev bn b" "buf_valid (bufs s b)"
    and hold: "holdingsleep (cur_pid s) (buf_lock (bufs s b))"
    and one_dev: "\<And>c. c < NBUF \<Longrightarrow> buf_valid (bufs s c) \<Longrightarrow> buf_dev (bufs s c) = dev"
  defines "d \<equiv> buf_data (bufs s b)"
  shows "\<exists>t. bwrite b s = Inr t \<and> bcache_ok t xs \<and> view dev t = view dev s \<and> bufs t = bufs s \<and>
    disk t = (disk s)(bn := d) \<and> disk_writes t = disk_writes s @ [(bn, d)] \<and> cur_pid t = cur_pid s"
proof -
  define t where "t = s\<lparr>disk := (disk s)(bn := d), disk_writes := disk_writes s @ [(bn, d)]\<rparr>"
  have bw: "bwrite b s = Inr t" using hold b(2) by (simp add: bwrite_def disk_rw_def Let_def t_def d_def holds_def)
  have h: "holds t dev' bn' c = holds s dev' bn' c" for dev' bn' c by (simp add: holds_def t_def)
  have lru: "lru t xs" using bcache_okD(1) [OF ok] by (simp add: lru_def t_def)
  have "buf_data (bufs t c) = disk t (buf_blockno (bufs t c))"
    if c: "c < NBUF" "buf_refcnt (bufs t c) = 0" "buf_valid (bufs t c)" for c
  proof (cases "buf_blockno (bufs s c) = bn")
    case True
    then have "holds s dev bn c" using one_dev [OF c(1)] c(3) by (simp add: holds_def t_def)
    then have "c = b" using bcache_okD(4) [OF ok c(1) b(1) dev] b(2) by simp
    then show ?thesis using True by (simp add: t_def d_def)
  next
    case False
    then show ?thesis using bcache_okD(6) [OF ok c(1)] c by (simp add: t_def)
  qed
  moreover have "\<not> sl_locked (buf_lock (bufs t c))" if "c < NBUF" "buf_refcnt (bufs t c) = 0" for c
    using bcache_okD(5) [OF ok that(1)] that by (simp add: t_def)
  ultimately have okt: "bcache_ok t xs" using ok lru unfolding bcache_ok_def h by (simp add: t_def)
  have "view dev t bn' = view dev s bn'" for bn'
  proof (cases "bn' = bn")
    case True
    then show ?thesis using view_cached [OF ok dev b] view_cached [OF okt dev b(1), of bn] b(2,3) by (simp add: h) (simp add: t_def)
  next
    case False
    have e: "find (\<lambda>b. holds t dev bn' b \<and> buf_valid (bufs t b)) [0..<NBUF] =
        find (\<lambda>b. holds s dev bn' b \<and> buf_valid (bufs s b)) [0..<NBUF]" by (simp add: h) (simp add: t_def)
    show ?thesis using False unfolding view_def e by (simp add: t_def split: option.splits)
  qed
  then have "view dev t = view dev s" by auto
  then show ?thesis using bw okt by (auto simp: t_def)
qed

text \<open>At boot the buffers are zero; \<open>binit\<close> makes them a list and keeps the rest.\<close>

definition zero_buf :: buf where
  "zero_buf = \<lparr>buf_valid = False, buf_dev = 0, buf_blockno = 0, buf_lock = \<lparr>sl_locked = False, sl_name = [], sl_pid = 0\<rparr>,
    buf_refcnt = 0, buf_prev = 0, buf_next = 0, buf_data = []\<rparr>"

definition boot_cache :: "int \<Rightarrow> (uint \<Rightarrow> block) \<Rightarrow> bcache" where
  "boot_cache pid d = \<lparr>bufs = (\<lambda>_. zero_buf), disk = d, disk_writes = [], cur_pid = pid\<rparr>"

lemma binit_fields:
  shows "buf_dev (bufs (binit s) b) = buf_dev (bufs s b)" "buf_blockno (bufs (binit s) b) = buf_blockno (bufs s b)"
    "buf_valid (bufs (binit s) b) = buf_valid (bufs s b)" "buf_refcnt (bufs (binit s) b) = buf_refcnt (bufs s b)"
    "disk (binit s) = disk s" "disk_writes (binit s) = disk_writes s" "cur_pid (binit s) = cur_pid s"
    "\<not> sl_locked (buf_lock (bufs s b)) \<Longrightarrow> \<not> sl_locked (buf_lock (bufs (binit s) b))"
proof -
  let ?f = "\<lambda>b s. link_front b (upd_buf b (\<lambda>x. x\<lparr>buf_lock := initsleeplock ''buffer''\<rparr>) s)"
  define P where "P t \<longleftrightarrow> (\<forall>b. buf_dev (bufs t b) = buf_dev (bufs s b) \<and> buf_blockno (bufs t b) = buf_blockno (bufs s b) \<and>
    buf_valid (bufs t b) = buf_valid (bufs s b) \<and> buf_refcnt (bufs t b) = buf_refcnt (bufs s b) \<and>
    (\<not> sl_locked (buf_lock (bufs s b)) \<longrightarrow> \<not> sl_locked (buf_lock (bufs t b)))) \<and>
    disk t = disk s \<and> disk_writes t = disk_writes s \<and> cur_pid t = cur_pid s" for t :: bcache
  have "P (?f n t)" if "P t" for n t
  proof -
    have c: "core (bufs (?f n t) b) = core (if b = n then (bufs t n)\<lparr>buf_lock := initsleeplock ''buffer''\<rparr> else bufs t b)" for b
      by simp
    show ?thesis using that core_fields [OF c] by (simp add: P_def initsleeplock_def)
  qed
  then have "P t \<Longrightarrow> P (fold ?f ns t)" for ns t by (induction ns arbitrary: t) simp_all
  moreover have "P (upd_buf HEAD (\<lambda>x. x\<lparr>buf_prev := HEAD, buf_next := HEAD\<rparr>) s)" by (simp add: P_def)
  ultimately have "P (binit s)" unfolding binit_def by blast
  then show "buf_dev (bufs (binit s) b) = buf_dev (bufs s b)" "buf_blockno (bufs (binit s) b) = buf_blockno (bufs s b)"
    "buf_valid (bufs (binit s) b) = buf_valid (bufs s b)" "buf_refcnt (bufs (binit s) b) = buf_refcnt (bufs s b)"
    "disk (binit s) = disk s" "disk_writes (binit s) = disk_writes s" "cur_pid (binit s) = cur_pid s"
    "\<not> sl_locked (buf_lock (bufs s b)) \<Longrightarrow> \<not> sl_locked (buf_lock (bufs (binit s) b))"
    by (simp_all add: P_def)
qed

lemma boot_cache_ok:
  "bcache_ok (binit (boot_cache pid d)) (rev [0..<NBUF])" "b < NBUF \<Longrightarrow> buf_refcnt (bufs (binit (boot_cache pid d)) b) = 0"
  "dev \<noteq> 0 \<Longrightarrow> \<not> holds (binit (boot_cache pid d)) dev bn b" "view dev (binit (boot_cache pid d)) = d"
  "\<not> buf_valid (bufs (binit (boot_cache pid d)) b)"
proof -
  let ?s = "binit (boot_cache pid d)"
  have z: "buf_dev (bufs ?s b) = 0" "buf_refcnt (bufs ?s b) = 0" "\<not> buf_valid (bufs ?s b)" "\<not> sl_locked (buf_lock (bufs ?s b))" "disk ?s = d" for b
    by (simp_all add: binit_fields boot_cache_def zero_buf_def)
  show h: "dev \<noteq> 0 \<Longrightarrow> \<not> holds ?s dev bn b" for dev bn b by (simp add: holds_def z)
  show "bcache_ok ?s (rev [0..<NBUF])" using binit_lru z h by (auto simp: bcache_ok_def)
  show "buf_refcnt (bufs ?s b) = 0" "\<not> buf_valid (bufs ?s b)" by (simp_all add: z)
  show "view dev ?s = d" using view_disk [of ?s dev] z by auto
qed

section \<open>Properties\<close>

text \<open>C21: \<open>bread\<close> is coherent.  It sleeps when another process holds the buffer of the block, panics when the
  block is not cached and every buffer is in use, and otherwise gives a buffer, locked for the caller,
  with the block's contents as the kernel sees it; it keeps the invariant (in particular never two
  buffers for one block), changes no other buffer, no block's contents, and not the disk.\<close>

theorem bread_coherent:
  assumes "bcache_ok s xs" "dev \<noteq> 0" "\<forall>b < NBUF. buf_refcnt (bufs s b) + 1 \<noteq> 0"
  shows "((\<exists>b < NBUF. holds s dev bn b \<and> sl_locked (buf_lock (bufs s b))) \<longrightarrow> bread dev bn s = Inl Sleep) \<and>
    ((\<forall>b < NBUF. \<not> holds s dev bn b \<and> buf_refcnt (bufs s b) \<noteq> 0) \<longrightarrow> bread dev bn s = Inl (Panic ''bget: no buffers'')) \<and>
    ((\<exists>b < NBUF. holds s dev bn b \<and> \<not> sl_locked (buf_lock (bufs s b))) \<or>
     (\<forall>b < NBUF. \<not> holds s dev bn b) \<and> (\<exists>b < NBUF. buf_refcnt (bufs s b) = 0) \<longrightarrow>
       (\<exists>b t. bread dev bn s = Inr (b, t) \<and> bcache_ok t xs \<and> got_buf dev bn s b t))"
proof (intro conjI impI)
  assume "\<exists>b < NBUF. holds s dev bn b \<and> sl_locked (buf_lock (bufs s b))"
  then obtain b where b: "b < NBUF" "holds s dev bn b" "sl_locked (buf_lock (bufs s b))" by blast
  then show "bread dev bn s = Inl Sleep"
    using bget_find_cached [OF assms(1,2) b(1,2)] by (simp add: bread_def bget_def lock_buf_def acquiresleep_def)
next
  assume a: "\<forall>b < NBUF. \<not> holds s dev bn b \<and> buf_refcnt (bufs s b) \<noteq> 0"
  then have "find (\<lambda>b. buf_refcnt (bufs s b) = 0) (rev xs) = None"
    using bcache_okD(2) [OF assms(1)] by (auto simp: find_None_iff)
  then show "bread dev bn s = Inl (Panic ''bget: no buffers'')"
    using bget_find_new [OF assms(1)] a by (simp add: bread_def bget_def)
next
  assume "(\<exists>b < NBUF. holds s dev bn b \<and> \<not> sl_locked (buf_lock (bufs s b))) \<or>
     (\<forall>b < NBUF. \<not> holds s dev bn b) \<and> (\<exists>b < NBUF. buf_refcnt (bufs s b) = 0)"
  then show "\<exists>b t. bread dev bn s = Inr (b, t) \<and> bcache_ok t xs \<and> got_buf dev bn s b t"
    using bread_cached [OF assms(1,2)] bread_new [OF assms(1,2)] assms(3) by blast
qed

theorem bread_coherent_witness:
  "\<exists>b t. bread 1 7 (binit (boot_cache 3 (\<lambda>bn. [ucast bn]))) = Inr (b, t) \<and> buf_data (bufs t b) = [7]"
proof -
  let ?s = "binit (boot_cache 3 (\<lambda>bn. [ucast bn]))"
  note ok = boot_cache_ok [where pid = 3 and d = "\<lambda>bn. [ucast bn]"]
  have rc: "\<forall>b < NBUF. buf_refcnt (bufs ?s b) + 1 \<noteq> 0" using ok(2) by simp
  have "(\<forall>b < NBUF. \<not> holds ?s 1 7 b) \<and> (\<exists>b < NBUF. buf_refcnt (bufs ?s b) = 0)"
    using ok(2) [of 0] ok(3) [of 1 7] by (auto simp: NBUF_def intro: exI [of _ 0])
  then obtain b t where "bread 1 7 ?s = Inr (b, t)" "got_buf 1 7 ?s b t"
    using bread_coherent [OF ok(1) _ rc, of 1 7] by auto
  then show ?thesis using ok(4) by (auto simp: got_buf_def)
qed

lemma bget_panics:
  assumes "bcache_ok s xs" "dev \<noteq> 0"
  shows "bget dev bn s = Inl (Panic ''bget: no buffers'') \<longleftrightarrow> (\<forall>c < NBUF. \<not> holds s dev bn c \<and> buf_refcnt (bufs s c) \<noteq> 0)"
proof (cases "\<exists>b < NBUF. holds s dev bn b")
  case True
  then obtain b where "b < NBUF" "holds s dev bn b" by blast
  then show ?thesis using bget_find_cached [OF assms] by (auto simp: bget_def lock_buf_def acquiresleep_def)
next
  case False
  then have f: "bget_find dev bn s = (case find (\<lambda>b. buf_refcnt (bufs s b) = 0) (rev xs) of
       Some b \<Rightarrow> Inr (b, upd_buf b (\<lambda>x. x\<lparr>buf_dev := dev, buf_blockno := bn, buf_valid := False, buf_refcnt := 1\<rparr>) s)
     | None \<Rightarrow> Inl (Panic ''bget: no buffers''))" by (intro bget_find_new [OF assms(1)]) blast
  have "find (\<lambda>b. buf_refcnt (bufs s b) = 0) (rev xs) = None \<longleftrightarrow> (\<forall>c < NBUF. buf_refcnt (bufs s c) \<noteq> 0)"
    using bcache_okD(2) [OF assms(1)] by (auto simp: find_None_iff)
  then show ?thesis using f False by (auto simp: bget_def lock_buf_def acquiresleep_def split: option.splits)
qed

text \<open>C22: The cache replaces the least recently used buffer.  The code's list operations on the \<open>prev\<close> and
  \<open>next\<close> pointers keep a list of all buffers; releasing a buffer for the last time moves it to the
  front, and a block that is not cached gets the unused buffer nearest to the end.  On a device other than 0,
  \<open>bget\<close> panics exactly when the block is not cached and every buffer is referenced.\<close>

theorem cache_is_lru:
  assumes "bcache_ok s xs" "b < NBUF" "holdingsleep (cur_pid s) (buf_lock (bufs s b))" "buf_refcnt (bufs s b) = 1"
    and "buf_valid (bufs s b) \<longrightarrow> buf_data (bufs s b) = disk s (buf_blockno (bufs s b))"
    and "\<forall>c < NBUF. \<not> holds s dev bn c"
  shows "\<exists>t. brelse b s = Inr t \<and> bcache_ok t (b # remove1 b xs) \<and>
    (\<exists>u. bget dev bn t = Inr (last (filter (\<lambda>c. buf_refcnt (bufs t c) = 0) (b # remove1 b xs)), u)) \<and>
    (\<forall>dev bn. dev \<noteq> 0 \<longrightarrow> (bget dev bn s = Inl (Panic ''bget: no buffers'') \<longleftrightarrow>
      (\<forall>c < NBUF. \<not> holds s dev bn c \<and> buf_refcnt (bufs s c) \<noteq> 0)))"
proof -
  obtain t where t: "brelse b s = Inr t" "bcache_ok t (b # remove1 b xs)"
    "only_buf b ((bufs s b)\<lparr>buf_lock := releasesleep (buf_lock (bufs s b)), buf_refcnt := buf_refcnt (bufs s b) - 1\<rparr>) s t"
    using brelse_ok [OF assms(1-3)] assms(4,5) by auto
  let ?ys = "b # remove1 b xs" and ?P = "\<lambda>c. buf_refcnt (bufs t c) = 0"
  have no: "\<not> holds t dev bn c" if "c < NBUF" for c
    using only_buf_holds [OF t(3), of dev bn c] assms(6) that by simp
  have "buf_refcnt (bufs t b) = 0" using core_fields(5) [OF only_bufD(1) [OF t(3)]] assms(4) by simp
  then have ne: "filter ?P ?ys \<noteq> []" by simp
  have "find P (rev ys) = Some (last (filter P ys))" if "filter P ys \<noteq> []" for P and ys :: "nat list"
    using that by (induction ys rule: rev_induct) (auto split: if_splits)
  then have f: "find ?P (rev ?ys) = Some (last (filter ?P ?ys))" using ne by blast
  define c where "c = last (filter ?P ?ys)"
  have "c \<in> set (filter ?P ?ys)" unfolding c_def using ne by (rule last_in_set)
  then have "c \<in> set ?ys" "?P c" by (simp_all only: set_filter mem_Collect_eq)
  then have c: "c < NBUF" "buf_refcnt (bufs t c) = 0" using bcache_okD(2) [OF t(2)] by auto
  have "\<not> sl_locked (buf_lock (bufs t c))" by (rule bcache_okD(5) [OF t(2) c])
  then have "\<exists>u. bget dev bn t = Inr (c, u)"
    using bget_find_new [OF t(2) no] f [folded c_def] by (simp add: bget_def lock_buf_def acquiresleep_def)
  then have "\<exists>u. bget dev bn t = Inr (last (filter ?P ?ys), u)" unfolding c_def .
  then show ?thesis using t(1,2) bget_panics [OF assms(1)] by blast
qed

theorem cache_is_lru_witness:
  "\<exists>b t u c v. bread 1 7 (binit (boot_cache 3 (\<lambda>bn. [ucast bn]))) = Inr (b, t) \<and> brelse b t = Inr u \<and>
     bcache_ok u (b # remove1 b (rev [0..<NBUF])) \<and> bget 1 8 u = Inr (c, v)"
proof -
  let ?s = "binit (boot_cache 3 (\<lambda>bn. [ucast bn]))"
  note ok = boot_cache_ok [where pid = 3 and d = "\<lambda>bn. [ucast bn]"]
  have no: "\<not> holds ?s 1 bn b" for bn b using ok(3) [of 1 bn b] by simp
  obtain b t where t: "bread 1 7 ?s = Inr (b, t)" "bcache_ok t (rev [0..<NBUF])" "got_buf 1 7 ?s b t"
    using bread_new [OF ok(1), of 1 7 0] no ok(2) [of 0] by (auto simp: NBUF_def)
  have b: "b < NBUF" "holdingsleep (cur_pid t) (buf_lock (bufs t b))" "buf_refcnt (bufs t b) = 1"
    using t(3) no by (simp_all add: got_buf_def holdingsleep_def)
  have "disk ?s = (\<lambda>bn. [ucast bn])" by (simp add: binit_fields boot_cache_def)
  then have d: "buf_valid (bufs t b) \<longrightarrow> buf_data (bufs t b) = disk t (buf_blockno (bufs t b))"
    using t(3) ok(4) [of 1] by (simp add: got_buf_def holds_def)
  have n: "\<forall>c < NBUF. \<not> holds t 1 8 c"
  proof (intro allI impI)
    fix c assume "c < NBUF"
    show "\<not> holds t 1 8 c"
    proof (cases "c = b")
      case True
      then show ?thesis using t(3) by (simp add: got_buf_def holds_def)
    next
      case False
      then have "bufs t c = bufs ?s c" using t(3) by (simp add: got_buf_def)
      then show ?thesis using no [of 8 c] by (simp add: holds_def)
    qed
  qed
  show ?thesis using cache_is_lru [OF t(2) b d n] t(1) by blast
qed

end
