(* ===== verification/Cache.thy ===== *)
theory Cache
  imports Bio
begin

text \<open>The contract of the buffer cache with its users, the log and the file system: a disk whose blocks have
  contents as the kernel sees them (\<open>view\<close>), a set \<open>H\<close> of blocks whose buffers the running process holds,
  and a set \<open>P\<close> of blocks that are pinned in the cache.  The locale \<open>buffered_disk\<close> states the laws, and what
  the users need of them is proved there; the interpretation shows that \<open>kernel/bio.c\<close> obeys them.\<close>

locale buffered_disk =
  fixes get :: "uint \<Rightarrow> 's \<Rightarrow> ('b \<times> 's) result" and put :: "'b \<Rightarrow> 's \<Rightarrow> 's result"
    and data :: "'b \<Rightarrow> 's \<Rightarrow> block" and change :: "'b \<Rightarrow> block \<Rightarrow> 's \<Rightarrow> 's"
    and flush :: "'b \<Rightarrow> 's \<Rightarrow> 's result" and pin unpin :: "'b \<Rightarrow> 's \<Rightarrow> 's"
    and handle :: "'s \<Rightarrow> uint \<Rightarrow> 'b \<Rightarrow> bool" and contents platter :: "'s \<Rightarrow> uint \<Rightarrow> block"
    and trace :: "'s \<Rightarrow> (uint \<times> block) list"
    and inv :: "'s \<Rightarrow> uint set \<Rightarrow> uint set \<Rightarrow> bool" and size :: nat
  assumes get_law: "inv s P H \<Longrightarrow> bn \<notin> H \<Longrightarrow> bn \<in> P \<or> card (P \<union> H) < size \<Longrightarrow>
      \<exists>b t. get bn s = Inr (b, t) \<and> inv t P (insert bn H) \<and> handle t bn b \<and>
        contents t = contents s \<and> platter t = platter s \<and> trace t = trace s \<and>
        (\<forall>bn' \<in> P \<union> H. \<forall>b'. handle s bn' b' \<longrightarrow> handle t bn' b')"
    and data_law: "inv s P H \<Longrightarrow> bn \<in> H \<Longrightarrow> handle s bn b \<Longrightarrow> data b s = contents s bn"
    and change_law: "inv s P H \<Longrightarrow> bn \<in> H \<Longrightarrow> handle s bn b \<Longrightarrow>
      inv (change b d s) P H \<and> contents (change b d s) = (contents s)(bn := d) \<and>
      platter (change b d s) = platter s \<and> trace (change b d s) = trace s \<and> handle (change b d s) = handle s"
    and flush_law: "inv s P H \<Longrightarrow> bn \<in> H \<Longrightarrow> handle s bn b \<Longrightarrow>
      \<exists>t. flush b s = Inr t \<and> inv t P H \<and> contents t = contents s \<and> platter t = (platter s)(bn := contents s bn) \<and>
        trace t = trace s @ [(bn, contents s bn)] \<and> handle t = handle s"
    and pin_law: "inv s P H \<Longrightarrow> bn \<in> H \<Longrightarrow> bn \<notin> P \<Longrightarrow> handle s bn b \<Longrightarrow>
      inv (pin b s) (insert bn P) H \<and> contents (pin b s) = contents s \<and> platter (pin b s) = platter s \<and>
      trace (pin b s) = trace s \<and> handle (pin b s) = handle s"
    and unpin_law: "inv s P H \<Longrightarrow> bn \<in> H \<Longrightarrow> bn \<in> P \<Longrightarrow> handle s bn b \<Longrightarrow>
      inv (unpin b s) (P - {bn}) H \<and> contents (unpin b s) = contents s \<and> platter (unpin b s) = platter s \<and>
      trace (unpin b s) = trace s \<and> handle (unpin b s) = handle s"
    and put_law: "inv s P H \<Longrightarrow> bn \<in> H \<Longrightarrow> handle s bn b \<Longrightarrow> bn \<in> P \<or> contents s bn = platter s bn \<Longrightarrow>
      \<exists>t. put b s = Inr t \<and> inv t P (H - {bn}) \<and> contents t = contents s \<and> platter t = platter s \<and> trace t = trace s \<and> handle t = handle s"
begin

text \<open>Reading a block and giving it back.\<close>

lemma read_put:
  assumes "inv s P H" "bn \<notin> H" "bn \<in> P \<or> card (P \<union> H) < size" "bn \<in> P \<or> contents s bn = platter s bn"
  shows "\<exists>b t u. get bn s = Inr (b, t) \<and> data b t = contents s bn \<and> put b t = Inr u \<and> inv u P H \<and>
    contents u = contents s \<and> platter u = platter s \<and> trace u = trace s \<and>
    (\<forall>bn' \<in> P \<union> H. \<forall>b'. handle s bn' b' \<longrightarrow> handle u bn' b')"
proof -
  obtain b t where t: "get bn s = Inr (b, t)" "inv t P (insert bn H)" "handle t bn b"
    "contents t = contents s" "platter t = platter s" "trace t = trace s"
    "\<forall>bn' \<in> P \<union> H. \<forall>b'. handle s bn' b' \<longrightarrow> handle t bn' b'"
    using get_law [OF assms(1-3)] by blast
  obtain u where u: "put b t = Inr u" "inv u P (insert bn H - {bn})" "contents u = contents t" "platter u = platter t"
    "trace u = trace t" "handle u = handle t"
    using put_law [OF t(2) _ t(3)] assms(4) t(4,5) by auto
  have "insert bn H - {bn} = H" using assms(2) by simp
  then show ?thesis using t u data_law [OF t(2) _ t(3)] by auto
qed

text \<open>Replacing the contents of a block on the disk.\<close>

lemma write_through:
  assumes "inv s P H" "bn \<notin> H" "bn \<in> P \<or> card (P \<union> H) < size"
  shows "\<exists>b t u v. get bn s = Inr (b, t) \<and> data b t = contents s bn \<and> flush b (change b d t) = Inr u \<and> put b u = Inr v \<and> inv v P H \<and>
    contents v = (contents s)(bn := d) \<and> platter v = (platter s)(bn := d) \<and> trace v = trace s @ [(bn, d)] \<and>
    (\<forall>bn' \<in> P \<union> H. \<forall>b'. handle s bn' b' \<longrightarrow> handle v bn' b')"
proof -
  obtain b t where t: "get bn s = Inr (b, t)" "inv t P (insert bn H)" "handle t bn b"
    "contents t = contents s" "platter t = platter s" "trace t = trace s"
    "\<forall>bn' \<in> P \<union> H. \<forall>b'. handle s bn' b' \<longrightarrow> handle t bn' b'"
    using get_law [OF assms] by blast
  note c = change_law [OF t(2) _ t(3), of d]
  have hc: "handle (change b d t) bn b" using c t(3) by simp
  obtain u where u: "flush b (change b d t) = Inr u" "inv u P (insert bn H)" "contents u = (contents t)(bn := d)"
    "platter u = (platter t)(bn := d)" "trace u = trace t @ [(bn, d)]" "handle u = handle t"
    using flush_law [of "change b d t" P "insert bn H" bn b] c hc by auto
  have hu: "handle u bn b" using u(6) t(3) by simp
  obtain v where v: "put b u = Inr v" "inv v P (insert bn H - {bn})" "contents v = contents u" "platter v = platter u"
    "trace v = trace u" "handle v = handle u"
    using put_law [OF u(2) _ hu] u(3,4) by auto
  have "insert bn H - {bn} = H" using assms(2) by simp
  then show ?thesis using t u v data_law [OF t(2) _ t(3)] by auto
qed

text \<open>Changing a block that will be written later: it is pinned.\<close>

lemma change_pinned:
  assumes "inv s P H" "bn \<notin> H" "bn \<in> P \<or> card (P \<union> H) < size"
  shows "\<exists>b t u. get bn s = Inr (b, t) \<and> data b t = contents s bn \<and> handle t bn b \<and>
    put b (if bn \<in> P then change b d t else pin b (change b d t)) = Inr u \<and> inv u (insert bn P) H \<and>
    contents u = (contents s)(bn := d) \<and> platter u = platter s \<and> trace u = trace s \<and>
    (\<forall>bn' \<in> P \<union> H. \<forall>b'. handle s bn' b' \<longrightarrow> handle u bn' b')"
proof -
  obtain b t where t: "get bn s = Inr (b, t)" "inv t P (insert bn H)" "handle t bn b"
    "contents t = contents s" "platter t = platter s" "trace t = trace s"
    "\<forall>bn' \<in> P \<union> H. \<forall>b'. handle s bn' b' \<longrightarrow> handle t bn' b'"
    using get_law [OF assms] by blast
  note c = change_law [OF t(2) _ t(3), of d]
  let ?t = "if bn \<in> P then change b d t else pin b (change b d t)"
  have p: "inv ?t (insert bn P) (insert bn H)" "handle ?t = handle t" "contents ?t = (contents t)(bn := d)"
    "platter ?t = platter t" "trace ?t = trace t"
    using c pin_law [of "change b d t" P "insert bn H" bn b] t(3) by (auto simp: insert_absorb)
  obtain u where u: "put b ?t = Inr u" "inv u (insert bn P) (insert bn H - {bn})" "contents u = contents ?t" "platter u = platter ?t"
    "trace u = trace ?t" "handle u = handle ?t"
    using put_law [OF p(1), of bn b] t(3) p(2) by auto
  have "insert bn H - {bn} = H" using assms(2) by simp
  then show ?thesis using t u p data_law [OF t(2) _ t(3)] by auto
qed

text \<open>Copying a pinned block to another place, as \<open>write_log\<close> does.\<close>

lemma copy_pinned:
  assumes inv: "inv s P {}" and dst: "dst \<notin> P" "card P < size" and src: "src \<in> P"
  shows "\<exists>bt s1 bf s2 s3 s4 s5. get dst s = Inr (bt, s1) \<and> get src s1 = Inr (bf, s2) \<and>
    flush bt (change bt (data bf s2) s2) = Inr s3 \<and> put bf s3 = Inr s4 \<and> put bt s4 = Inr s5 \<and> inv s5 P {} \<and>
    contents s5 = (contents s)(dst := contents s src) \<and> platter s5 = (platter s)(dst := contents s src) \<and>
    trace s5 = trace s @ [(dst, contents s src)]"
proof -
  have ne: "src \<noteq> dst" using dst src by auto
  obtain bt s1 where 1: "get dst s = Inr (bt, s1)" "inv s1 P {dst}" "handle s1 dst bt" "contents s1 = contents s"
    "platter s1 = platter s" "trace s1 = trace s"
    using get_law [OF inv, of dst] dst by auto
  obtain bf s2 where 2: "get src s1 = Inr (bf, s2)" "inv s2 P {src, dst}" "handle s2 src bf" "contents s2 = contents s1"
    "platter s2 = platter s1" "trace s2 = trace s1" "handle s2 dst bt"
    using get_law [OF 1(2), of src] src ne 1(3) by auto
  have d: "data bf s2 = contents s src" using data_law [OF 2(2) _ 2(3)] 2(4) 1(4) by simp
  let ?c = "change bt (contents s src) s2"
  note c = change_law [OF 2(2) _ 2(7), of "contents s src"]
  obtain s3 where 3: "flush bt ?c = Inr s3" "inv s3 P {src, dst}" "contents s3 = (contents s2)(dst := contents s src)"
    "platter s3 = (platter s2)(dst := contents s src)" "trace s3 = trace s2 @ [(dst, contents s src)]" "handle s3 = handle s2"
    using flush_law [of ?c P "{src, dst}" dst bt] c 2(7) by auto
  have h3: "handle s3 src bf" "handle s3 dst bt" using 3(6) 2(3,7) by simp_all
  obtain s4 where 4: "put bf s3 = Inr s4" "inv s4 P ({src, dst} - {src})" "contents s4 = contents s3" "platter s4 = platter s3"
    "trace s4 = trace s3" "handle s4 = handle s3"
    using put_law [OF 3(2) _ h3(1)] src by auto
  have h4: "inv s4 P {dst}" "handle s4 dst bt" using 4(2,6) ne h3(2) by (auto simp: insert_Diff_if)
  obtain s5 where 5: "put bt s4 = Inr s5" "inv s5 P ({dst} - {dst})" "contents s5 = contents s4" "platter s5 = platter s4" "trace s5 = trace s4"
    using put_law [OF h4(1) _ h4(2)] 4(3,4) 3(3,4) by auto
  show ?thesis using 1 2 3 4 5 d by auto
qed

text \<open>Copying a block home, as \<open>install_trans\<close> does, with or without taking the pin of the destination off.\<close>

lemma copy_home:
  assumes inv: "inv s P {}" and src: "src \<notin> P" "contents s src = platter s src" and ne: "src \<noteq> dst"
    and room: "card P < size" "dst \<in> P \<or> card P + 1 < size" and dst: "recovering \<or> dst \<in> P"
  shows "\<exists>bl s1 bd s2 s3 s4 s5. get src s = Inr (bl, s1) \<and> get dst s1 = Inr (bd, s2) \<and>
    flush bd (change bd (data bl s2) s2) = Inr s3 \<and> put bl (if recovering then s3 else unpin bd s3) = Inr s4 \<and> put bd s4 = Inr s5 \<and>
    inv s5 (if recovering then P else P - {dst}) {} \<and>
    contents s5 = (contents s)(dst := contents s src) \<and> platter s5 = (platter s)(dst := contents s src) \<and>
    trace s5 = trace s @ [(dst, contents s src)]"
proof -
  obtain bl s1 where 1: "get src s = Inr (bl, s1)" "inv s1 P {src}" "handle s1 src bl" "contents s1 = contents s"
    "platter s1 = platter s" "trace s1 = trace s"
    using get_law [OF inv, of src] room(1) by auto
  have "dst \<in> P \<or> card (P \<union> {src}) < size" using room(2) src(1) by (simp add: card_insert_if)
  then obtain bd s2 where 2: "get dst s1 = Inr (bd, s2)" "inv s2 P {dst, src}" "handle s2 dst bd" "contents s2 = contents s1"
    "platter s2 = platter s1" "trace s2 = trace s1" "handle s2 src bl"
    using get_law [OF 1(2), of dst] ne 1(3) by auto
  have d: "data bl s2 = contents s src" using data_law [OF 2(2) _ 2(7)] 2(4) 1(4) by simp
  let ?c = "change bd (contents s src) s2" and ?P = "if recovering then P else P - {dst}"
  note c = change_law [OF 2(2) _ 2(3), of "contents s src"]
  obtain s3 where 3: "flush bd ?c = Inr s3" "inv s3 P {dst, src}" "contents s3 = (contents s2)(dst := contents s src)"
    "platter s3 = (platter s2)(dst := contents s src)" "trace s3 = trace s2 @ [(dst, contents s src)]" "handle s3 = handle s2"
    using flush_law [of ?c P "{dst, src}" dst bd] c 2(3) by auto
  let ?u = "if recovering then s3 else unpin bd s3"
  have u: "inv ?u ?P {dst, src}" "contents ?u = contents s3" "platter ?u = platter s3" "trace ?u = trace s3" "handle ?u = handle s3"
    using 3(2) unpin_law [OF 3(2), of dst bd] dst 2(3) 3(6) by auto
  have hu: "handle ?u src bl" "handle ?u dst bd" using u(5) 3(6) 2(3,7) by simp_all
  obtain s4 where 4: "put bl ?u = Inr s4" "inv s4 ?P ({dst, src} - {src})" "contents s4 = contents ?u" "platter s4 = platter ?u"
    "trace s4 = trace ?u" "handle s4 = handle ?u"
    using put_law [OF u(1) _ hu(1)] src(2) u(2,3) 3(3,4) 2(4,5) 1(4,5) ne by auto
  have h4: "inv s4 ?P {dst}" "handle s4 dst bd" using 4(2,6) ne hu(2) by (auto simp: insert_Diff_if)
  obtain s5 where 5: "put bd s4 = Inr s5" "inv s5 ?P ({dst} - {dst})" "contents s5 = contents s4" "platter s5 = platter s4" "trace s5 = trace s4"
    using put_law [OF h4(1) _ h4(2)] 4(3,4) u(2,3) 3(3,4) by auto
  show ?thesis using 1 2 3 u 4 5 d by auto
qed

end

section \<open>The buffer cache obeys the contract\<close>

text \<open>The state of a cache of the device \<open>dev\<close> whose running process holds the blocks \<open>H\<close> while the blocks \<open>P\<close>
  are pinned.\<close>

definition cache_inv :: "uint \<Rightarrow> bcache \<Rightarrow> uint set \<Rightarrow> uint set \<Rightarrow> bool" where
  "cache_inv dev s P H \<longleftrightarrow> dev \<noteq> 0 \<and> (\<exists>xs. bcache_ok s xs) \<and>
    (\<forall>b < NBUF. buf_refcnt (bufs s b) = of_bool (buf_dev (bufs s b) = dev \<and> buf_blockno (bufs s b) \<in> H) +
        of_bool (buf_dev (bufs s b) = dev \<and> buf_blockno (bufs s b) \<in> P) \<and>
      (sl_locked (buf_lock (bufs s b)) \<longleftrightarrow> buf_dev (bufs s b) = dev \<and> buf_blockno (bufs s b) \<in> H) \<and>
      (sl_locked (buf_lock (bufs s b)) \<longrightarrow> sl_pid (buf_lock (bufs s b)) = cur_pid s) \<and>
      (buf_valid (bufs s b) \<longrightarrow> buf_dev (bufs s b) = dev)) \<and>
    (\<forall>bn \<in> P \<union> H. \<exists>b < NBUF. holds s dev bn b \<and> buf_valid (bufs s b))"

definition buf_of :: "uint \<Rightarrow> bcache \<Rightarrow> uint \<Rightarrow> nat \<Rightarrow> bool" where
  "buf_of dev s bn b \<longleftrightarrow> b < NBUF \<and> holds s dev bn b"

lemma cache_invD:
  assumes "cache_inv dev s P H" "b < NBUF"
  shows "dev \<noteq> 0" "\<exists>xs. bcache_ok s xs"
    and "holds s dev bn b \<Longrightarrow> buf_refcnt (bufs s b) = of_bool (bn \<in> H) + of_bool (bn \<in> P)"
    and "holds s dev bn b \<Longrightarrow> sl_locked (buf_lock (bufs s b)) \<longleftrightarrow> bn \<in> H"
    and "holds s dev bn b \<Longrightarrow> bn \<in> H \<Longrightarrow> holdingsleep (cur_pid s) (buf_lock (bufs s b))"
    and "buf_valid (bufs s b) \<Longrightarrow> buf_dev (bufs s b) = dev"
  using assms by (auto simp: cache_inv_def holds_def holdingsleep_def)

lemma cache_inv_buf:
  assumes "cache_inv dev s P H" "bn \<in> P \<union> H" "b < NBUF" "holds s dev bn b"
  shows "buf_valid (bufs s b)"
proof -
  obtain xs where xs: "bcache_ok s xs" and dev: "dev \<noteq> 0" using assms(1) by (auto simp: cache_inv_def)
  obtain c where c: "c < NBUF" "holds s dev bn c" "buf_valid (bufs s c)" using assms(1,2) by (auto simp: cache_inv_def)
  then show ?thesis using bcache_okD(4) [OF xs c(1) assms(3) dev c(2) assms(4)] by simp
qed

lemma free_buffer:
  assumes inv: "cache_inv dev s P H" and "card (P \<union> H) < NBUF"
  shows "\<exists>b < NBUF. buf_refcnt (bufs s b) = 0"
proof (rule ccontr)
  assume "\<not> ?thesis"
  then have used: "buf_dev (bufs s b) = dev \<and> buf_blockno (bufs s b) \<in> P \<union> H" if "b < NBUF" for b
    using inv that by (fastforce simp: cache_inv_def)
  obtain xs where xs: "bcache_ok s xs" and dev: "dev \<noteq> 0" using inv by (auto simp: cache_inv_def)
  have "inj_on (\<lambda>b. buf_blockno (bufs s b)) {0..<NBUF}"
    using used bcache_okD(4) [OF xs _ _ dev] by (auto simp: inj_on_def holds_def)
  then have "NBUF = card ((\<lambda>b. buf_blockno (bufs s b)) ` {0..<NBUF})" by (simp add: card_image)
  also have "\<dots> \<le> card (P \<union> H)" using used by (intro card_mono image_subsetI) simp_all
  finally show False using assms(2) by simp
qed

lemma cache_inv_got:
  assumes inv: "cache_inv dev s P H" and bn: "bn \<notin> H" and t: "bcache_ok t xs" "got_buf dev bn s b t"
  shows "cache_inv dev t P (insert bn H)"
    and "bn' \<in> P \<union> H \<Longrightarrow> buf_of dev s bn' b' \<Longrightarrow> buf_of dev t bn' b'"
proof -
  have dev: "dev \<noteq> 0" using inv by (simp add: cache_inv_def)
  have g: "b < NBUF" "holds t dev bn b" "buf_valid (bufs t b)" "sl_locked (buf_lock (bufs t b))" "sl_pid (buf_lock (bufs t b)) = cur_pid t"
    "buf_refcnt (bufs t b) = (if holds s dev bn b then buf_refcnt (bufs s b) + 1 else 1)" "cur_pid t = cur_pid s"
    "holds s dev bn b \<or> buf_refcnt (bufs s b) = 0"
    and o: "\<And>c. c \<noteq> b \<Longrightarrow> bufs t c = bufs s c"
    using t(2) by (auto simp: got_buf_def)
  have sok: "\<exists>xs. bcache_ok s xs" using inv by (simp add: cache_inv_def)
  have hold_s: "c = b" if "holds s dev bn c" "c < NBUF" for c
  proof (rule ccontr)
    assume "c \<noteq> b"
    then have "holds t dev bn c" using o that(1) by (simp add: holds_def)
    then show False using bcache_okD(4) [OF t(1) that(2) g(1) dev _ g(2)] \<open>c \<noteq> b\<close> by blast
  qed
  have kept: "holds t dev bn' b'" "b' < NBUF" if h: "bn' \<in> P \<union> H" "b' < NBUF" "holds s dev bn' b'" for bn' b'
  proof -
    have "buf_refcnt (bufs s b') \<noteq> 0" using cache_invD(3) [OF inv h(2,3)] h(1) by (auto simp: of_bool_def)
    then have e: "holds s dev bn b" if "b' = b" using g(8) that by blast
    show "holds t dev bn' b'"
    proof (cases "b' = b")
      case True
      then have "bn' = bn" using e h(3) by (simp add: holds_def)
      then show ?thesis using g(2) True by simp
    next
      case False
      then show ?thesis using h(3) o by (simp add: holds_def)
    qed
    show "b' < NBUF" by (rule h(2))
  qed
  then show "bn' \<in> P \<union> H \<Longrightarrow> buf_of dev s bn' b' \<Longrightarrow> buf_of dev t bn' b'" by (simp add: buf_of_def)
  have pinned: "holds s dev bn b" if "bn \<in> P"
    using that inv hold_s by (auto simp: cache_inv_def)
  have "buf_refcnt (bufs t c) = of_bool (buf_dev (bufs t c) = dev \<and> buf_blockno (bufs t c) \<in> insert bn H) +
        of_bool (buf_dev (bufs t c) = dev \<and> buf_blockno (bufs t c) \<in> P) \<and>
      (sl_locked (buf_lock (bufs t c)) \<longleftrightarrow> buf_dev (bufs t c) = dev \<and> buf_blockno (bufs t c) \<in> insert bn H) \<and>
      (sl_locked (buf_lock (bufs t c)) \<longrightarrow> sl_pid (buf_lock (bufs t c)) = cur_pid t) \<and>
      (buf_valid (bufs t c) \<longrightarrow> buf_dev (bufs t c) = dev)" if c: "c < NBUF" for c
  proof (cases "c = b")
    case True
    have "buf_refcnt (bufs t b) = 1 + of_bool (bn \<in> P)"
      using g(6) pinned cache_invD(3) [OF inv g(1), of bn] bn by auto
    then show ?thesis using True g(2-5) by (simp add: holds_def)
  next
    case False
    have "\<not> (buf_dev (bufs s c) = dev \<and> buf_blockno (bufs s c) = bn)" using hold_s [OF _ c] False by (auto simp: holds_def)
    moreover have "buf_refcnt (bufs s c) = of_bool (buf_dev (bufs s c) = dev \<and> buf_blockno (bufs s c) \<in> H) +
        of_bool (buf_dev (bufs s c) = dev \<and> buf_blockno (bufs s c) \<in> P) \<and>
      (sl_locked (buf_lock (bufs s c)) \<longleftrightarrow> buf_dev (bufs s c) = dev \<and> buf_blockno (bufs s c) \<in> H) \<and>
      (sl_locked (buf_lock (bufs s c)) \<longrightarrow> sl_pid (buf_lock (bufs s c)) = cur_pid s) \<and>
      (buf_valid (bufs s c) \<longrightarrow> buf_dev (bufs s c) = dev)"
      using inv c by (simp add: cache_inv_def)
    ultimately show ?thesis using o [OF False] g(7) by auto
  qed
  moreover have "\<exists>c < NBUF. holds t dev bn' c \<and> buf_valid (bufs t c)" if "bn' \<in> P \<union> insert bn H" for bn'
  proof (cases "bn' = bn")
    case True
    then show ?thesis using g(1-3) by blast
  next
    case False
    then have m: "bn' \<in> P \<union> H" using that by auto
    then obtain c where c: "c < NBUF" "holds s dev bn' c" "buf_valid (bufs s c)" using inv by (auto simp: cache_inv_def)
    have "holds t dev bn' c" by (rule kept(1) [OF m c(1,2)])
    moreover have "buf_valid (bufs t c)" using c(3) o [of c] g(3) by (cases "c = b") auto
    ultimately show ?thesis using c(1) by blast
  qed
  ultimately show "cache_inv dev t P (insert bn H)" using dev t(1) unfolding cache_inv_def by blast
qed

lemma cache_get:
  assumes inv: "cache_inv dev s P H" and bn: "bn \<notin> H" and room: "bn \<in> P \<or> card (P \<union> H) < NBUF"
  shows "\<exists>b t. bread dev bn s = Inr (b, t) \<and> cache_inv dev t P (insert bn H) \<and> buf_of dev t bn b \<and>
    view dev t = view dev s \<and> disk t = disk s \<and> disk_writes t = disk_writes s \<and>
    (\<forall>bn' \<in> P \<union> H. \<forall>b'. buf_of dev s bn' b' \<longrightarrow> buf_of dev t bn' b')"
proof -
  obtain xs where xs: "bcache_ok s xs" and dev: "dev \<noteq> 0" using inv by (auto simp: cache_inv_def)
  have "\<exists>b t. bread dev bn s = Inr (b, t) \<and> bcache_ok t xs \<and> got_buf dev bn s b t"
  proof (cases "\<exists>b < NBUF. holds s dev bn b")
    case True
    then obtain b where b: "b < NBUF" "holds s dev bn b" by blast
    have "\<not> sl_locked (buf_lock (bufs s b))" using cache_invD(4) [OF inv b] bn by simp
    moreover have "buf_refcnt (bufs s b) + 1 \<noteq> 0" using cache_invD(3) [OF inv b] by (auto simp: of_bool_def)
    ultimately show ?thesis using bread_cached [OF xs dev b] by blast
  next
    case False
    then have "bn \<notin> P" using inv by (auto simp: cache_inv_def)
    then obtain c where "c < NBUF" "buf_refcnt (bufs s c) = 0" using free_buffer [OF inv] room by blast
    then show ?thesis using bread_new [OF xs dev] False by blast
  qed
  then obtain b t where t: "bread dev bn s = Inr (b, t)" "bcache_ok t xs" "got_buf dev bn s b t" by blast
  then show ?thesis
    using cache_inv_got [OF inv bn t(2,3)] by (auto simp: got_buf_def buf_of_def)
qed

lemma cache_data: "cache_inv dev s P H \<Longrightarrow> bn \<in> H \<Longrightarrow> buf_of dev s bn b \<Longrightarrow> buf_data (bufs s b) = view dev s bn"
  using cache_inv_buf [of dev s P H bn b] view_cached [of s _ dev b bn] by (auto simp: buf_of_def cache_inv_def)

text \<open>Operations on one buffer.\<close>

lemma cache_inv_only:
  assumes inv: "cache_inv dev s P H" and b: "b < NBUF" "holds s dev bn b"
    and cores: "\<And>c. core (bufs t c) = core (if c = b then x else bufs s c)" "cur_pid t = cur_pid s" and ok: "bcache_ok t ys"
    and x: "buf_dev x = buf_dev (bufs s b)" "buf_blockno x = buf_blockno (bufs s b)" "buf_valid x = buf_valid (bufs s b)"
    and sets: "\<And>bn'. bn' \<noteq> bn \<Longrightarrow> (bn' \<in> P' \<longleftrightarrow> bn' \<in> P) \<and> (bn' \<in> H' \<longleftrightarrow> bn' \<in> H)"
    and new: "buf_refcnt x = of_bool (bn \<in> H') + of_bool (bn \<in> P')" "sl_locked (buf_lock x) \<longleftrightarrow> bn \<in> H'"
      "sl_locked (buf_lock x) \<longrightarrow> sl_pid (buf_lock x) = cur_pid s" "bn \<in> P \<union> H"
  shows "cache_inv dev t P' H'" "buf_of dev t = buf_of dev s"
proof -
  have dev: "dev \<noteq> 0" using inv by (simp add: cache_inv_def)
  have cb: "core (bufs t b) = core x" and co: "\<And>c. c \<noteq> b \<Longrightarrow> core (bufs t c) = core (bufs s c)"
    using cores(1) by auto
  have h: "holds t dev' bn' c = holds s dev' bn' c" for dev' bn' c
    using core_fields [OF cb] core_fields [OF co] x by (cases "c = b") (auto simp: holds_def)
  show "buf_of dev t = buf_of dev s" by (intro ext) (simp add: buf_of_def h)
  have v: "buf_valid (bufs t c) = buf_valid (bufs s c)" for c
    using core_fields(1) [OF cb] core_fields(1) [OF co] x(3) by (cases "c = b") auto
  have bd: "buf_dev (bufs s b) = dev" "buf_blockno (bufs s b) = bn" using b(2) by (simp_all add: holds_def)
  have "buf_refcnt (bufs t c) = of_bool (buf_dev (bufs t c) = dev \<and> buf_blockno (bufs t c) \<in> H') +
        of_bool (buf_dev (bufs t c) = dev \<and> buf_blockno (bufs t c) \<in> P') \<and>
      (sl_locked (buf_lock (bufs t c)) \<longleftrightarrow> buf_dev (bufs t c) = dev \<and> buf_blockno (bufs t c) \<in> H') \<and>
      (sl_locked (buf_lock (bufs t c)) \<longrightarrow> sl_pid (buf_lock (bufs t c)) = cur_pid t) \<and>
      (buf_valid (bufs t c) \<longrightarrow> buf_dev (bufs t c) = dev)" if c: "c < NBUF" for c
  proof (cases "c = b")
    case True
    then show ?thesis using core_fields [OF cb] x new(1-3) cores(2) bd by simp
  next
    case False
    obtain xs where xs: "bcache_ok s xs" using inv by (auto simp: cache_inv_def)
    have "\<not> holds s dev bn c" using bcache_okD(4) [OF xs c b(1) dev _ b(2)] False by blast
    then have ne: "buf_dev (bufs s c) = dev \<Longrightarrow> buf_blockno (bufs s c) \<noteq> bn" by (simp add: holds_def)
    have "buf_refcnt (bufs s c) = of_bool (buf_dev (bufs s c) = dev \<and> buf_blockno (bufs s c) \<in> H) +
        of_bool (buf_dev (bufs s c) = dev \<and> buf_blockno (bufs s c) \<in> P) \<and>
      (sl_locked (buf_lock (bufs s c)) \<longleftrightarrow> buf_dev (bufs s c) = dev \<and> buf_blockno (bufs s c) \<in> H) \<and>
      (sl_locked (buf_lock (bufs s c)) \<longrightarrow> sl_pid (buf_lock (bufs s c)) = cur_pid s) \<and>
      (buf_valid (bufs s c) \<longrightarrow> buf_dev (bufs s c) = dev)"
      using inv c by (simp add: cache_inv_def)
    moreover have "(buf_dev (bufs s c) = dev \<and> buf_blockno (bufs s c) \<in> H') = (buf_dev (bufs s c) = dev \<and> buf_blockno (bufs s c) \<in> H)"
      "(buf_dev (bufs s c) = dev \<and> buf_blockno (bufs s c) \<in> P') = (buf_dev (bufs s c) = dev \<and> buf_blockno (bufs s c) \<in> P)"
      using sets ne by blast+
    ultimately show ?thesis using core_fields [OF co [OF False]] cores(2) by simp
  qed
  moreover have "\<exists>c < NBUF. holds t dev bn' c \<and> buf_valid (bufs t c)" if "bn' \<in> P' \<union> H'" for bn'
  proof -
    have "bn' \<in> P \<union> H" using that sets new(4) by (cases "bn' = bn") auto
    then show ?thesis using inv unfolding h v by (auto simp: cache_inv_def)
  qed
  ultimately show "cache_inv dev t P' H'" using dev ok unfolding cache_inv_def by blast
qed

lemma cache_change:
  assumes inv: "cache_inv dev s P H" and bn: "bn \<in> H" and b: "buf_of dev s bn b"
  shows "cache_inv dev (set_data b d s) P H" "buf_of dev (set_data b d s) = buf_of dev s"
    and "view dev (set_data b d s) = (view dev s)(bn := d)"
proof -
  have b': "b < NBUF" "holds s dev bn b" using b by (simp_all add: buf_of_def)
  obtain xs where xs: "bcache_ok s xs" and dev: "dev \<noteq> 0" using inv by (auto simp: cache_inv_def)
  have v: "buf_valid (bufs s b)" using cache_inv_buf [OF inv _ b'] bn by simp
  note rc = cache_invD(3) [OF inv b'] and lk = cache_invD(4,5) [OF inv b']
  have "buf_refcnt (bufs s b) \<noteq> 0" using rc bn by (auto simp: of_bool_def)
  note sd = set_data_ok [OF xs dev b' v this, of d]
  show "view dev (set_data b d s) = (view dev s)(bn := d)" by (rule sd(2))
  have c: "core (bufs (set_data b d s) c) = core (if c = b then (bufs s b)\<lparr>buf_data := d\<rparr> else bufs s c)" for c
    by (simp add: set_data_def)
  show "cache_inv dev (set_data b d s) P H" "buf_of dev (set_data b d s) = buf_of dev s"
    by (rule cache_inv_only [OF inv b' c _ sd(1), where P' = P and H' = H];
        use rc lk bn in \<open>simp add: set_data_def holdingsleep_def\<close>)+
qed

lemma cache_flush:
  assumes inv: "cache_inv dev s P H" and bn: "bn \<in> H" and b: "buf_of dev s bn b"
  shows "\<exists>t. bwrite b s = Inr t \<and> cache_inv dev t P H \<and> view dev t = view dev s \<and> disk t = (disk s)(bn := view dev s bn) \<and>
    disk_writes t = disk_writes s @ [(bn, view dev s bn)] \<and> buf_of dev t = buf_of dev s"
proof -
  have b': "b < NBUF" "holds s dev bn b" using b by (simp_all add: buf_of_def)
  obtain xs where xs: "bcache_ok s xs" and dev: "dev \<noteq> 0" using inv by (auto simp: cache_inv_def)
  have v: "buf_valid (bufs s b)" using cache_inv_buf [OF inv _ b'] bn by simp
  have d: "buf_data (bufs s b) = view dev s bn" by (rule cache_data [OF inv bn b])
  have hold: "holdingsleep (cur_pid s) (buf_lock (bufs s b))" by (rule cache_invD(5) [OF inv b' bn])
  obtain t where t: "bwrite b s = Inr t" "bcache_ok t xs" "view dev t = view dev s" "bufs t = bufs s"
    "disk t = (disk s)(bn := view dev s bn)" "disk_writes t = disk_writes s @ [(bn, view dev s bn)]" "cur_pid t = cur_pid s"
    using bwrite_ok [OF xs dev b' v hold cache_invD(6) [OF inv]] d by auto
  have "cache_inv dev t P H" "buf_of dev t = buf_of dev s"
    using inv t(2,4,7) by (auto simp: cache_inv_def holds_def buf_of_def fun_eq_iff)
  then show ?thesis using t by blast
qed

lemma cache_pin:
  assumes inv: "cache_inv dev s P H" and bn: "bn \<in> H" "bn \<notin> P" and b: "buf_of dev s bn b"
  shows "cache_inv dev (bpin b s) (insert bn P) H" "buf_of dev (bpin b s) = buf_of dev s" "view dev (bpin b s) = view dev s"
proof -
  have b': "b < NBUF" "holds s dev bn b" using b by (simp_all add: buf_of_def)
  obtain xs where xs: "bcache_ok s xs" using inv by (auto simp: cache_inv_def)
  let ?x = "(bufs s b)\<lparr>buf_refcnt := buf_refcnt (bufs s b) + 1\<rparr>"
  note rc = cache_invD(3) [OF inv b'] and lk = cache_invD(4,5) [OF inv b']
  have o: "only_buf b ?x s (bpin b s)" unfolding bpin_def using only_buf_upd [of b "\<lambda>x. x\<lparr>buf_refcnt := buf_refcnt x + 1\<rparr>" s] .
  have l: "lru (bpin b s) xs" unfolding bpin_def by (rule lru_upd [OF bcache_okD(1) [OF xs]]) simp
  have ok: "bcache_ok (bpin b s) xs"
    by (rule only_buf_ok [OF xs o _ _ l]) (use rc bn in simp_all)
  show "view dev (bpin b s) = view dev s" by (rule only_buf_view [OF o]) simp_all
  have c: "core (bufs (bpin b s) c) = core (if c = b then ?x else bufs s c)" for c by (simp add: bpin_def)
  show "cache_inv dev (bpin b s) (insert bn P) H" "buf_of dev (bpin b s) = buf_of dev s"
    by (rule cache_inv_only [OF inv b' c _ ok, where P' = "insert bn P" and H' = H];
        use rc lk bn in \<open>simp add: bpin_def holdingsleep_def\<close>)+
qed

lemma cache_unpin:
  assumes inv: "cache_inv dev s P H" and bn: "bn \<in> H" "bn \<in> P" and b: "buf_of dev s bn b"
  shows "cache_inv dev (bunpin b s) (P - {bn}) H" "buf_of dev (bunpin b s) = buf_of dev s" "view dev (bunpin b s) = view dev s"
proof -
  have b': "b < NBUF" "holds s dev bn b" using b by (simp_all add: buf_of_def)
  obtain xs where xs: "bcache_ok s xs" using inv by (auto simp: cache_inv_def)
  let ?x = "(bufs s b)\<lparr>buf_refcnt := buf_refcnt (bufs s b) - 1\<rparr>"
  note rc = cache_invD(3) [OF inv b'] and lk = cache_invD(4,5) [OF inv b']
  have o: "only_buf b ?x s (bunpin b s)" unfolding bunpin_def using only_buf_upd [of b "\<lambda>x. x\<lparr>buf_refcnt := buf_refcnt x - 1\<rparr>" s] .
  have l: "lru (bunpin b s) xs" unfolding bunpin_def by (rule lru_upd [OF bcache_okD(1) [OF xs]]) simp
  have ok: "bcache_ok (bunpin b s) xs"
    by (rule only_buf_ok [OF xs o _ _ l]) (use rc bn in simp_all)
  show "view dev (bunpin b s) = view dev s" by (rule only_buf_view [OF o]) simp_all
  have c: "core (bufs (bunpin b s) c) = core (if c = b then ?x else bufs s c)" for c by (simp add: bunpin_def)
  show "cache_inv dev (bunpin b s) (P - {bn}) H" "buf_of dev (bunpin b s) = buf_of dev s"
    by (rule cache_inv_only [OF inv b' c _ ok, where P' = "P - {bn}" and H' = H];
        use rc lk bn in \<open>simp add: bunpin_def holdingsleep_def\<close>)+
qed

lemma cache_put:
  assumes inv: "cache_inv dev s P H" and bn: "bn \<in> H" and b: "buf_of dev s bn b"
    and clean: "bn \<in> P \<or> view dev s bn = disk s bn"
  shows "\<exists>t. brelse b s = Inr t \<and> cache_inv dev t P (H - {bn}) \<and> view dev t = view dev s \<and> disk t = disk s \<and>
    disk_writes t = disk_writes s \<and> buf_of dev t = buf_of dev s"
proof -
  have b': "b < NBUF" "holds s dev bn b" using b by (simp_all add: buf_of_def)
  obtain xs where xs: "bcache_ok s xs" using inv by (auto simp: cache_inv_def)
  let ?x = "(bufs s b)\<lparr>buf_lock := releasesleep (buf_lock (bufs s b)), buf_refcnt := buf_refcnt (bufs s b) - 1\<rparr>"
  note rc = cache_invD(3) [OF inv b'] and lk = cache_invD(4,5) [OF inv b']
  have d: "buf_data (bufs s b) = view dev s bn" by (rule cache_data [OF inv bn b])
  have cl: "buf_data (bufs s b) = disk s (buf_blockno (bufs s b))" if "buf_refcnt (bufs s b) = 1"
  proof -
    have "bn \<notin> P" using that rc bn by auto
    then show ?thesis using clean d b'(2) by (simp add: holds_def)
  qed
  obtain t ys where t: "brelse b s = Inr t" "bcache_ok t ys" "only_buf b ?x s t" "view dev t = view dev s"
    using brelse_ok [OF xs b'(1) lk(2) [OF bn], of dev] cl by blast
  have c: "core (bufs t c) = core (if c = b then ?x else bufs s c)" for c
    using only_bufD(1,2) [OF t(3)] by simp
  have "cache_inv dev t P (H - {bn})" "buf_of dev t = buf_of dev s"
    by (rule cache_inv_only [OF inv b' c _ t(2), where P' = P and H' = "H - {bn}"];
        use rc lk bn only_bufD(4) [OF t(3)] in \<open>simp add: releasesleep_def\<close>)+
  then show ?thesis using t(1,4) only_bufD(3,5) [OF t(3)] by blast
qed

interpretation cache: buffered_disk "bread dev" brelse "\<lambda>b s. buf_data (bufs s b)" set_data bwrite bpin bunpin
  "buf_of dev" "view dev" disk disk_writes "cache_inv dev" NBUF
proof unfold_locales
  fix s P H bn b d
  assume inv: "cache_inv dev s P H"
  show "bn \<notin> H \<Longrightarrow> bn \<in> P \<or> card (P \<union> H) < NBUF \<Longrightarrow>
    \<exists>b t. bread dev bn s = Inr (b, t) \<and> cache_inv dev t P (insert bn H) \<and> buf_of dev t bn b \<and>
      view dev t = view dev s \<and> disk t = disk s \<and> disk_writes t = disk_writes s \<and>
      (\<forall>bn' \<in> P \<union> H. \<forall>b'. buf_of dev s bn' b' \<longrightarrow> buf_of dev t bn' b')"
    by (rule cache_get [OF inv])
  assume bn: "bn \<in> H" and b: "buf_of dev s bn b"
  show "buf_data (bufs s b) = view dev s bn" by (rule cache_data [OF inv bn b])
  show "cache_inv dev (set_data b d s) P H \<and> view dev (set_data b d s) = (view dev s)(bn := d) \<and>
      disk (set_data b d s) = disk s \<and> disk_writes (set_data b d s) = disk_writes s \<and> buf_of dev (set_data b d s) = buf_of dev s"
    using cache_change [OF inv bn b, of d] by (simp add: set_data_def)
  show "\<exists>t. bwrite b s = Inr t \<and> cache_inv dev t P H \<and> view dev t = view dev s \<and> disk t = (disk s)(bn := view dev s bn) \<and>
      disk_writes t = disk_writes s @ [(bn, view dev s bn)] \<and> buf_of dev t = buf_of dev s"
    by (rule cache_flush [OF inv bn b])
  show "cache_inv dev (bpin b s) (insert bn P) H \<and> view dev (bpin b s) = view dev s \<and> disk (bpin b s) = disk s \<and>
      disk_writes (bpin b s) = disk_writes s \<and> buf_of dev (bpin b s) = buf_of dev s" if "bn \<notin> P"
    using cache_pin [OF inv bn that b] by (simp add: bpin_def)
  show "cache_inv dev (bunpin b s) (P - {bn}) H \<and> view dev (bunpin b s) = view dev s \<and> disk (bunpin b s) = disk s \<and>
      disk_writes (bunpin b s) = disk_writes s \<and> buf_of dev (bunpin b s) = buf_of dev s" if "bn \<in> P"
    using cache_unpin [OF inv bn that b] by (simp add: bunpin_def)
  show "\<exists>t. brelse b s = Inr t \<and> cache_inv dev t P (H - {bn}) \<and> view dev t = view dev s \<and> disk t = disk s \<and>
      disk_writes t = disk_writes s \<and> buf_of dev t = buf_of dev s" if "bn \<in> P \<or> view dev s bn = disk s bn"
    by (rule cache_put [OF inv bn b that])
qed

end
