(* ===== verification/Block.thy ===== *)
theory Block
  imports Bio
begin

text \<open>Integers inside a block: the little-endian 16- and 32-bit fields of the structures the kernel overlays on
  \<open>b->data\<close> (the log header, the superblock, disk inodes, indirect blocks and directory entries).\<close>

definition rd16 :: "block \<Rightarrow> nat \<Rightarrow> uint16" where
  "rd16 d i = ucast (d ! i) OR push_bit 8 (ucast (d ! (i + 1)))"

definition wr16 :: "nat \<Rightarrow> uint16 \<Rightarrow> block \<Rightarrow> block" where
  "wr16 i v d = d[i := ucast v, i + 1 := ucast (drop_bit 8 v)]"

definition rd32 :: "block \<Rightarrow> nat \<Rightarrow> uint" where
  "rd32 d i = ucast (d ! i) OR push_bit 8 (ucast (d ! (i + 1))) OR push_bit 16 (ucast (d ! (i + 2))) OR
    push_bit 24 (ucast (d ! (i + 3)))"

definition wr32 :: "nat \<Rightarrow> uint \<Rightarrow> block \<Rightarrow> block" where
  "wr32 i v d = d[i := ucast v, i + 1 := ucast (drop_bit 8 v), i + 2 := ucast (drop_bit 16 v), i + 3 := ucast (drop_bit 24 v)]"

lemma length_wr [simp]: "length (wr16 i v d) = length d" "length (wr32 i w d) = length d"
  by (simp_all add: wr16_def wr32_def)

lemma rd16_bytes: "ucast (ucast v :: byte) OR push_bit 8 (ucast (ucast (drop_bit 8 v) :: byte)) = (v :: uint16)"
  by (rule bit_word_eqI) (auto simp: bit_simps)

lemma rd32_bytes:
  "ucast (ucast v :: byte) OR push_bit 8 (ucast (ucast (drop_bit 8 v) :: byte)) OR
    push_bit 16 (ucast (ucast (drop_bit 16 v) :: byte)) OR push_bit 24 (ucast (ucast (drop_bit 24 v) :: byte)) = (v :: uint)"
proof (rule bit_word_eqI)
  fix n assume "n < LENGTH(32)"
  then consider "n < 8" | "8 \<le> n" "n < 16" | "16 \<le> n" "n < 24" | "24 \<le> n" "n < 32" by fastforce
  then show "bit (ucast (ucast v :: byte) OR push_bit 8 (ucast (ucast (drop_bit 8 v) :: byte)) OR
      push_bit 16 (ucast (ucast (drop_bit 16 v) :: byte)) OR push_bit 24 (ucast (ucast (drop_bit 24 v) :: byte)) :: uint) n = bit v n"
    by cases (auto simp: bit_simps)
qed

lemma rd16_wr16: "i + 1 < length d \<Longrightarrow> rd16 (wr16 i v d) i = v"
  using rd16_bytes [of v] by (simp add: rd16_def wr16_def)

lemma rd32_wr32: "i + 3 < length d \<Longrightarrow> rd32 (wr32 i v d) i = v"
  using rd32_bytes [of v] by (simp add: rd32_def wr32_def)

lemma nth_wr16: "k < i \<or> i + 2 \<le> k \<Longrightarrow> wr16 i v d ! k = d ! k"
  by (auto simp: wr16_def)

lemma nth_wr32: "k < i \<or> i + 4 \<le> k \<Longrightarrow> wr32 i v d ! k = d ! k"
  by (auto simp: wr32_def)

lemma rd16_wr16_other: "j + 2 \<le> i \<or> i + 2 \<le> j \<Longrightarrow> rd16 (wr16 i v d) j = rd16 d j"
  unfolding rd16_def by (subst (1 2) nth_wr16) auto

lemma rd32_wr32_other: "j + 4 \<le> i \<or> i + 4 \<le> j \<Longrightarrow> rd32 (wr32 i v d) j = rd32 d j"
  unfolding rd32_def by (subst (1 2 3 4) nth_wr32) auto

lemma rd16_wr32_other: "j + 2 \<le> i \<or> i + 4 \<le> j \<Longrightarrow> rd16 (wr32 i v d) j = rd16 d j"
  unfolding rd16_def by (subst (1 2) nth_wr32) auto

lemma rd32_wr16_other: "j + 4 \<le> i \<or> i + 2 \<le> j \<Longrightarrow> rd32 (wr16 i v d) j = rd32 d j"
  unfolding rd32_def by (subst (1 2 3 4) nth_wr16) auto

lemmas rd_wr = rd16_wr16 rd32_wr32 rd16_wr16_other rd32_wr32_other rd16_wr32_other rd32_wr16_other

text \<open>An array of 32-bit numbers at \<open>i\<close>.\<close>

primrec wr32s :: "nat \<Rightarrow> uint list \<Rightarrow> block \<Rightarrow> block" where
  "wr32s i [] d = d"
| "wr32s i (v # vs) d = wr32s (i + 4) vs (wr32 i v d)"

lemma length_wr32s [simp]: "length (wr32s i vs d) = length d"
  by (induction vs arbitrary: i d) simp_all

lemma rd32_wr32s_before: "j + 4 \<le> i \<Longrightarrow> rd32 (wr32s i vs d) j = rd32 d j"
  by (induction vs arbitrary: i d) (simp_all add: rd32_wr32_other)

lemma rd32_wr32s: "k < length vs \<Longrightarrow> i + 4 * length vs \<le> length d \<Longrightarrow> rd32 (wr32s i vs d) (i + 4 * k) = vs ! k"
proof (induction vs arbitrary: i d k)
  case (Cons v vs)
  show ?case
  proof (cases k)
    case 0
    then show ?thesis using Cons.prems by (simp add: rd32_wr32s_before rd32_wr32)
  next
    case (Suc j)
    then have "rd32 (wr32s (i + 4) vs (wr32 i v d)) (i + 4 + 4 * j) = vs ! j" using Cons by (intro Cons.IH) auto
    then show ?thesis using Suc by (simp add: algebra_simps)
  qed
qed simp

end
