(* ===== verification/Log.thy ===== *)
theory Log
  imports Cache Block
begin

text \<open>The write-ahead log, \<open>kernel/log.c\<close>.  The header of the log is kept in memory as the list of its block
  numbers, \<open>lh\<close>, whose length is \<open>log.lh.n\<close>; \<open>log.lh.block\<close> has \<open>LOGSIZE\<close> entries, and storing more is a
  \<open>WildAccess\<close>.  A call that has to wait for a commit is an \<open>Inl Sleep\<close>.\<close>

section \<open>Model\<close>

definition LOGSIZE :: nat where "LOGSIZE = 30"
definition MAXOPBLOCKS :: nat where "MAXOPBLOCKS = 10"

record logst =
  bc :: bcache
  log_start :: uint
  log_size :: int
  log_outstanding :: int
  log_committing :: bool
  log_dev :: uint
  lh :: "uint list"

text \<open>The block of the log that holds the copy of the \<open>tail\<close>-th block of the transaction.\<close>

definition log_block :: "uint \<Rightarrow> nat \<Rightarrow> uint" where
  "log_block start tail = start + of_nat tail + 1"

definition install_trans :: "bool \<Rightarrow> uint \<Rightarrow> uint \<Rightarrow> uint list \<Rightarrow> bcache \<Rightarrow> bcache result" where
  "install_trans recovering dev start blocks s =
    rfold (\<lambda>tail s.
      rbind (bread dev (log_block start tail) s) (\<lambda>(lbuf, s1).
      rbind (bread dev (blocks ! tail) s1) (\<lambda>(dbuf, s2).
      rbind (bwrite dbuf (set_data dbuf (buf_data (bufs s2 lbuf)) s2)) (\<lambda>s3.
      rbind (brelse lbuf (if recovering then s3 else bunpin dbuf s3)) (\<lambda>s4.
      brelse dbuf s4))))) [0..<length blocks] s"

definition read_head :: "uint \<Rightarrow> uint \<Rightarrow> bcache \<Rightarrow> (uint list \<times> bcache) result" where
  "read_head dev start s =
    rbind (bread dev start s) (\<lambda>(b, s1).
    let d = buf_data (bufs s1 b); n = sint (rd32 d 0)
    in if n > int LOGSIZE then Inl WildAccess
       else rbind (brelse b s1) (\<lambda>s2. Inr (map (\<lambda>i. rd32 d (4 + 4 * i)) [0..<nat n], s2)))"

definition write_head :: "uint \<Rightarrow> uint \<Rightarrow> uint list \<Rightarrow> bcache \<Rightarrow> bcache result" where
  "write_head dev start blocks s =
    rbind (bread dev start s) (\<lambda>(b, s1).
    let d = buf_data (bufs s1 b)
    in rbind (bwrite b (set_data b (wr32s 4 blocks (wr32 0 (of_nat (length blocks)) d)) s1)) (\<lambda>s2.
       brelse b s2))"

definition recover_from_log :: "uint \<Rightarrow> uint \<Rightarrow> bcache \<Rightarrow> bcache result" where
  "recover_from_log dev start s =
    rbind (read_head dev start s) (\<lambda>(blocks, s1).
    rbind (install_trans True dev start blocks s1) (\<lambda>s2.
    write_head dev start [] s2))"

definition initlog :: "uint \<Rightarrow> uint \<Rightarrow> uint \<Rightarrow> bcache \<Rightarrow> logst result" where
  "initlog dev logstart nlog s =
    (if 4 + 4 * LOGSIZE \<ge> BSIZE then Inl (Panic ''initlog: too big logheader'')
     else rbind (recover_from_log dev logstart s) (\<lambda>s1.
          Inr \<lparr>bc = s1, log_start = logstart, log_size = sint nlog, log_outstanding = 0, log_committing = False,
            log_dev = dev, lh = []\<rparr>))"

definition begin_op :: "logst \<Rightarrow> logst result" where
  "begin_op st =
    (if log_committing st then Inl Sleep
     else if int (length (lh st)) + (log_outstanding st + 1) * int MAXOPBLOCKS > int LOGSIZE then Inl Sleep
     else Inr (st\<lparr>log_outstanding := log_outstanding st + 1\<rparr>))"

definition write_log :: "uint \<Rightarrow> uint \<Rightarrow> uint list \<Rightarrow> bcache \<Rightarrow> bcache result" where
  "write_log dev start blocks s =
    rfold (\<lambda>tail s.
      rbind (bread dev (log_block start tail) s) (\<lambda>(to, s1).
      rbind (bread dev (blocks ! tail) s1) (\<lambda>(from, s2).
      rbind (bwrite to (set_data to (buf_data (bufs s2 from)) s2)) (\<lambda>s3.
      rbind (brelse from s3) (\<lambda>s4.
      brelse to s4))))) [0..<length blocks] s"

definition commit :: "logst \<Rightarrow> logst result" where
  "commit st =
    (if length (lh st) > 0 then
       rbind (write_log (log_dev st) (log_start st) (lh st) (bc st)) (\<lambda>s1.
       rbind (write_head (log_dev st) (log_start st) (lh st) s1) (\<lambda>s2.
       rbind (install_trans False (log_dev st) (log_start st) (lh st) s2) (\<lambda>s3.
       rbind (write_head (log_dev st) (log_start st) [] s3) (\<lambda>s4.
       Inr (st\<lparr>bc := s4, lh := []\<rparr>)))))
     else Inr st)"

definition end_op :: "logst \<Rightarrow> logst result" where
  "end_op st =
    (let st1 = st\<lparr>log_outstanding := log_outstanding st - 1\<rparr>
     in if log_committing st1 then Inl (Panic ''log.committing'')
        else if log_outstanding st1 = 0 then
          rbind (commit (st1\<lparr>log_committing := True\<rparr>)) (\<lambda>st2. Inr (st2\<lparr>log_committing := False\<rparr>))
        else Inr st1)"

definition log_write :: "nat \<Rightarrow> logst \<Rightarrow> logst result" where
  "log_write b st =
    (if int (length (lh st)) \<ge> int LOGSIZE \<or> int (length (lh st)) \<ge> log_size st - 1 then Inl (Panic ''too big a transaction'')
     else if log_outstanding st < 1 then Inl (Panic ''log_write outside of trans'')
     else let bn = buf_blockno (bufs (bc st) b)
          in if bn \<in> set (lh st) then Inr st
             else Inr (st\<lparr>bc := bpin b (bc st), lh := lh st @ [bn]\<rparr>))"

section \<open>What the loops write\<close>

definition outside_log :: "uint \<Rightarrow> uint \<Rightarrow> bool" where
  "outside_log start bn \<longleftrightarrow> LOGSIZE \<le> unat (bn - start)"

lemma log_block_eq: "log_block start i = log_block start j \<longleftrightarrow> i = j" if "i \<le> LOGSIZE" "j \<le> LOGSIZE"
proof -
  have "unat (of_nat i :: uint) = i" "unat (of_nat j :: uint) = j" using that by (simp_all add: unat_of_nat LOGSIZE_def)
  moreover have "log_block start i = log_block start j \<longleftrightarrow> (of_nat i :: uint) = of_nat j" by (simp add: log_block_def)
  ultimately show ?thesis by metis
qed

lemma log_block_inside:
  assumes "Suc i < LOGSIZE"
  shows "log_block start i \<noteq> start" "\<not> outside_log start (log_block start i)" "\<not> outside_log start start"
proof -
  have "log_block start i - start = of_nat (Suc i)" by (simp add: log_block_def algebra_simps)
  moreover have "unat (of_nat (Suc i) :: uint) = Suc i" using assms by (simp add: unat_of_nat LOGSIZE_def del: of_nat_Suc)
  ultimately have u: "unat (log_block start i - start) = Suc i" by simp
  show "log_block start i \<noteq> start" using u by auto
  show "\<not> outside_log start (log_block start i)" using u assms by (simp add: outside_log_def)
  show "\<not> outside_log start start" by (simp add: outside_log_def LOGSIZE_def)
qed

text \<open>The block numbers a transaction may have.\<close>

definition log_list :: "uint \<Rightarrow> uint list \<Rightarrow> bool" where
  "log_list start blocks \<longleftrightarrow> length blocks < LOGSIZE \<and> (\<forall>bn \<in> set blocks. outside_log start bn)"

text \<open>Writing a list of blocks.\<close>

primrec put_blocks :: "(uint \<times> block) list \<Rightarrow> (uint \<Rightarrow> block) \<Rightarrow> uint \<Rightarrow> block" where
  "put_blocks [] d = d"
| "put_blocks (w # ws) d = put_blocks ws (d(fst w := snd w))"

lemma put_blocks_append: "put_blocks (ws @ vs) d = put_blocks vs (put_blocks ws d)"
  by (induction ws arbitrary: d) simp_all

lemma put_blocks_snoc: "put_blocks (ws @ [w]) d = (put_blocks ws d)(fst w := snd w)"
  by (induction ws arbitrary: d) (simp_all only: append.simps put_blocks.simps)

lemma put_blocks_other: "bn \<notin> fst ` set ws \<Longrightarrow> put_blocks ws d bn = d bn"
  by (induction ws arbitrary: d) auto

definition log_copies :: "uint \<Rightarrow> uint list \<Rightarrow> (uint \<Rightarrow> block) \<Rightarrow> nat \<Rightarrow> (uint \<times> block) list" where
  "log_copies start blocks c n = map (\<lambda>i. (log_block start i, c (blocks ! i))) [0..<n]"

definition home_copies :: "uint list \<Rightarrow> (nat \<Rightarrow> block) \<Rightarrow> nat \<Rightarrow> (uint \<times> block) list" where
  "home_copies blocks v n = map (\<lambda>i. (blocks ! i, v i)) [0..<n]"

lemma home_copies_fst: "n \<le> length blocks \<Longrightarrow> fst ` set (home_copies blocks v n) \<subseteq> set blocks"
  by (auto simp: home_copies_def)

lemma log_copies_fst: "fst ` set (log_copies start blocks c n) = log_block start ` {0..<n}"
  by (simp add: log_copies_def image_image)

lemma start_inside: "\<not> outside_log start start"
  by (simp add: outside_log_def LOGSIZE_def)

lemma log_copies_not:
  assumes "n < LOGSIZE"
  shows "start \<notin> fst ` set (log_copies start blocks c n)"
    and "outside_log start bn \<Longrightarrow> bn \<notin> fst ` set (log_copies start blocks c n)"
proof -
  have "x \<noteq> start \<and> \<not> outside_log start x" if x: "x \<in> log_block start ` {0..<n}" for x
  proof -
    obtain i where "i < n" "x = log_block start i" using x by auto
    then show ?thesis using log_block_inside [of i start] assms by simp
  qed
  then show "start \<notin> fst ` set (log_copies start blocks c n)"
    "outside_log start bn \<Longrightarrow> bn \<notin> fst ` set (log_copies start blocks c n)" unfolding log_copies_fst by blast+
qed

lemma write_log_ok:
  assumes inv: "cache_inv dev s (set blocks) {}" and ll: "log_list start blocks" and short: "length blocks < NBUF"
  shows "\<exists>t. write_log dev start blocks s = Inr t \<and> cache_inv dev t (set blocks) {} \<and>
    view dev t = put_blocks (log_copies start blocks (view dev s) (length blocks)) (view dev s) \<and>
    disk t = put_blocks (log_copies start blocks (view dev s) (length blocks)) (disk s) \<and>
    disk_writes t = disk_writes s @ log_copies start blocks (view dev s) (length blocks)"
proof -
  let ?f = "\<lambda>tail s.
      rbind (bread dev (log_block start tail) s) (\<lambda>(to, s1).
      rbind (bread dev (blocks ! tail) s1) (\<lambda>(from, s2).
      rbind (bwrite to (set_data to (buf_data (bufs s2 from)) s2)) (\<lambda>s3.
      rbind (brelse from s3) (\<lambda>s4. brelse to s4))))"
  have card: "card (set blocks) < NBUF"
    using card_length [of blocks] short by simp
  have "n \<le> length blocks \<Longrightarrow> \<exists>t. rfold ?f [0..<n] s = Inr t \<and> cache_inv dev t (set blocks) {} \<and>
    view dev t = put_blocks (log_copies start blocks (view dev s) n) (view dev s) \<and>
    disk t = put_blocks (log_copies start blocks (view dev s) n) (disk s) \<and>
    disk_writes t = disk_writes s @ log_copies start blocks (view dev s) n" for n
  proof (induction n)
    case 0
    then show ?case using inv by (simp add: log_copies_def)
  next
    case (Suc n)
    then obtain t where t: "rfold ?f [0..<n] s = Inr t" "cache_inv dev t (set blocks) {}"
      "view dev t = put_blocks (log_copies start blocks (view dev s) n) (view dev s)"
      "disk t = put_blocks (log_copies start blocks (view dev s) n) (disk s)"
      "disk_writes t = disk_writes s @ log_copies start blocks (view dev s) n" by auto
    have n: "blocks ! n \<in> set blocks" "Suc n < LOGSIZE" using Suc.prems ll by (simp_all add: log_list_def)
    have lb: "log_block start n \<notin> set blocks"
      using log_block_inside(2) [OF n(2), of start] ll by (auto simp: log_list_def)
    have v: "view dev t (blocks ! n) = view dev s (blocks ! n)"
      unfolding t(3)
    proof (rule put_blocks_other)
      show "blocks ! n \<notin> fst ` set (log_copies start blocks (view dev s) n)"
        using n log_block_inside(2) ll by (force simp: log_copies_def log_list_def)
    qed
    obtain u where u: "?f n t = Inr u" "cache_inv dev u (set blocks) {}"
      "view dev u = (view dev t)(log_block start n := view dev t (blocks ! n))"
      "disk u = (disk t)(log_block start n := view dev t (blocks ! n))"
      "disk_writes u = disk_writes t @ [(log_block start n, view dev t (blocks ! n))]"
      using cache.copy_pinned [OF t(2) lb card n(1)] by (auto simp: rbind_Inr_iff)
    have "rfold ?f [0..<Suc n] s = Inr u" using t(1) u(1) by (simp add: rfold_append)
    moreover have "log_copies start blocks (view dev s) (Suc n) =
        log_copies start blocks (view dev s) n @ [(log_block start n, view dev s (blocks ! n))]" by (simp add: log_copies_def)
    ultimately show ?case using u(2-5) t(3-5) v by (simp only: put_blocks_snoc fst_conv snd_conv append.assoc) blast
  qed
  then show ?thesis unfolding write_log_def by blast
qed

text \<open>The header block.\<close>

definition header :: "uint list \<Rightarrow> block \<Rightarrow> block" where
  "header blocks d = wr32s 4 blocks (wr32 0 (of_nat (length blocks)) d)"

lemma header_read:
  assumes "length d = BSIZE" "length blocks \<le> LOGSIZE"
  shows "sint (rd32 (header blocks d) 0) = int (length blocks)"
    "map (\<lambda>i. rd32 (header blocks d) (4 + 4 * i)) [0..<length blocks] = blocks" "length (header blocks d) = BSIZE"
proof -
  have "rd32 (header blocks d) 0 = of_nat (length blocks)"
    using assms by (simp add: header_def rd32_wr32s_before rd32_wr32 BSIZE_def)
  then show "sint (rd32 (header blocks d) 0) = int (length blocks)"
    using assms(2) by (simp add: signed_of_nat LOGSIZE_def signed_take_bit_int_eq_self_iff)
  show "map (\<lambda>i. rd32 (header blocks d) (4 + 4 * i)) [0..<length blocks] = blocks"
    by (rule nth_equalityI) (use assms in \<open>simp_all add: header_def rd32_wr32s BSIZE_def LOGSIZE_def\<close>)
  show "length (header blocks d) = BSIZE" using assms(1) by (simp add: header_def)
qed

lemma write_head_ok:
  assumes "cache_inv dev s P {}" "card P < NBUF" "h = header blocks (view dev s start)"
  shows "\<exists>t. write_head dev start blocks s = Inr t \<and> cache_inv dev t P {} \<and>
    view dev t = (view dev s)(start := h) \<and> disk t = (disk s)(start := h) \<and> disk_writes t = disk_writes s @ [(start, h)]"
proof -
  obtain b t u v where "bread dev start s = Inr (b, t)" "buf_data (bufs t b) = view dev s start"
    "bwrite b (set_data b h t) = Inr u" "brelse b u = Inr v" "cache_inv dev v P {}"
    "view dev v = (view dev s)(start := h)" "disk v = (disk s)(start := h)" "disk_writes v = disk_writes s @ [(start, h)]"
    using cache.write_through [OF assms(1), of start h] assms(2) by auto
  then show ?thesis using assms(3) by (auto simp: write_head_def header_def Let_def)
qed

lemma install_trans_ok:
  assumes inv: "cache_inv dev s (if recovering then {} else set blocks) {}" and ll: "log_list start blocks"
    and c: "recovering \<or> distinct blocks \<and> length blocks < NBUF"
    and same: "\<And>i. i < length blocks \<Longrightarrow> view dev s (log_block start i) = disk s (log_block start i)"
  defines "W \<equiv> home_copies blocks (\<lambda>i. disk s (log_block start i))"
  shows "\<exists>t. install_trans recovering dev start blocks s = Inr t \<and> cache_inv dev t {} {} \<and>
    view dev t = put_blocks (W (length blocks)) (view dev s) \<and> disk t = put_blocks (W (length blocks)) (disk s) \<and>
    disk_writes t = disk_writes s @ W (length blocks)"
proof -
  let ?f = "\<lambda>tail s.
      rbind (bread dev (log_block start tail) s) (\<lambda>(lbuf, s1).
      rbind (bread dev (blocks ! tail) s1) (\<lambda>(dbuf, s2).
      rbind (bwrite dbuf (set_data dbuf (buf_data (bufs s2 lbuf)) s2)) (\<lambda>s3.
      rbind (brelse lbuf (if recovering then s3 else bunpin dbuf s3)) (\<lambda>s4. brelse dbuf s4))))"
  let ?P = "\<lambda>n. if recovering then {} else set (drop n blocks)"
  have outside: "\<And>bn. bn \<in> set blocks \<Longrightarrow> outside_log start bn" "length blocks < LOGSIZE" using ll by (auto simp: log_list_def)
  have "n \<le> length blocks \<Longrightarrow> \<exists>t. rfold ?f [0..<n] s = Inr t \<and> cache_inv dev t (?P n) {} \<and>
    view dev t = put_blocks (W n) (view dev s) \<and> disk t = put_blocks (W n) (disk s) \<and> disk_writes t = disk_writes s @ W n" for n
  proof (induction n)
    case 0
    then show ?case using inv by (cases recovering) (simp_all add: W_def home_copies_def)
  next
    case (Suc n)
    then obtain t where t: "rfold ?f [0..<n] s = Inr t" "cache_inv dev t (?P n) {}" "view dev t = put_blocks (W n) (view dev s)"
      "disk t = put_blocks (W n) (disk s)" "disk_writes t = disk_writes s @ W n" by auto
    have n: "n < length blocks" "Suc n < LOGSIZE" using Suc.prems outside(2) by simp_all
    let ?l = "log_block start n" and ?d = "blocks ! n"
    have lo: "\<not> outside_log start ?l" "outside_log start ?d" using log_block_inside(2) n outside(1) by auto
    then have ne: "?l \<noteq> ?d" by auto
    have "?l \<notin> fst ` set (W n)" using lo(1) outside(1) n by (auto simp: W_def home_copies_def)
    then have lt: "view dev t ?l = disk s ?l" "disk t ?l = disk s ?l" using t(3,4) same [OF n(1)] by (simp_all add: put_blocks_other)
    have lP: "?l \<notin> ?P n" using lo(1) outside(1) set_drop_subset [of n blocks] by auto
    have dP: "recovering \<or> ?d \<in> ?P n" using n(1) by (auto simp: Cons_nth_drop_Suc [symmetric])
    have card: "card (?P n) < NBUF" "?d \<in> ?P n \<or> card (?P n) + 1 < NBUF"
      using c dP card_length [of "drop n blocks"] by (auto simp: NBUF_def)
    have P': "(if recovering then ?P n else ?P n - {?d}) = ?P (Suc n)"
      using c n(1) distinct_drop [of blocks n] by (auto simp: Cons_nth_drop_Suc [symmetric])
    have eq: "view dev t ?l = disk t ?l" using lt by simp
    obtain u where u: "?f n t = Inr u" "cache_inv dev u (?P (Suc n)) {}" "view dev u = (view dev t)(?d := view dev t ?l)"
      "disk u = (disk t)(?d := view dev t ?l)" "disk_writes u = disk_writes t @ [(?d, view dev t ?l)]"
      using cache.copy_home [OF t(2) lP eq ne card dP] unfolding P' by (auto simp: rbind_Inr_iff)
    have "rfold ?f [0..<Suc n] s = Inr u" using t(1) u(1) by (simp add: rfold_append)
    moreover have "W (Suc n) = W n @ [(?d, disk s ?l)]" by (simp add: W_def home_copies_def)
    ultimately show ?case using u(2-5) t(3-5) lt(1) by (simp only: put_blocks_snoc fst_conv snd_conv append.assoc) blast
  qed
  from this [OF order_refl] show ?thesis unfolding install_trans_def by (cases recovering) auto
qed

section \<open>Recovery\<close>

text \<open>The transaction that a disk's log says is committed, and the disk that recovery makes of it.\<close>

definition logged :: "uint \<Rightarrow> (uint \<Rightarrow> block) \<Rightarrow> uint list" where
  "logged start d = map (\<lambda>i. rd32 (d start) (4 + 4 * i)) [0..<nat (sint (rd32 (d start) 0))]"

definition recovered :: "uint \<Rightarrow> (uint \<Rightarrow> block) \<Rightarrow> uint \<Rightarrow> block" where
  "recovered start d =
    (put_blocks (home_copies (logged start d) (\<lambda>i. d (log_block start i)) (length (logged start d))) d)
      (start := header [] (d start))"

lemma boot_inv: "dev \<noteq> 0 \<Longrightarrow> cache_inv dev (binit (boot_cache pid d)) {} {}"
proof -
  assume dev: "dev \<noteq> 0"
  let ?s = "binit (boot_cache pid d)"
  have "\<not> sl_locked (buf_lock (bufs ?s b))" for b
    by (rule binit_fields(8)) (simp add: boot_cache_def zero_buf_def)
  moreover have "buf_refcnt (bufs ?s b) = 0" "\<not> buf_valid (bufs ?s b)" for b
    by (simp_all add: binit_fields boot_cache_def zero_buf_def)
  ultimately show ?thesis using dev boot_cache_ok(1) [of pid d] by (auto simp: cache_inv_def)
qed

lemma recover_ok:
  assumes dev: "dev \<noteq> 0" and ll: "log_list start (logged start d)"
  shows "\<exists>t. recover_from_log dev start (binit (boot_cache pid d)) = Inr t \<and> disk t = recovered start d \<and>
    disk_writes t = home_copies (logged start d) (\<lambda>i. d (log_block start i)) (length (logged start d)) @
      [(start, header [] (d start))]"
proof -
  let ?s = "binit (boot_cache pid d)" and ?n = "sint (rd32 (d start) 0)" and ?W = "home_copies (logged start d) (\<lambda>i. d (log_block start i)) (length (logged start d))"
  have s: "view dev ?s = d" "disk ?s = d" "disk_writes ?s = []"
    using boot_cache_ok(4) by (simp_all add: binit_fields boot_cache_def)
  obtain b t u where t: "bread dev start ?s = Inr (b, t)" "buf_data (bufs t b) = d start" "brelse b t = Inr u"
    "cache_inv dev u {} {}" "view dev u = d" "disk u = d" "disk_writes u = []"
    using cache.read_put [OF boot_inv [OF dev, of pid d], of start] s by (auto simp: NBUF_def)
  have "length (logged start d) = nat ?n" by (simp add: logged_def)
  then have "\<not> ?n > int LOGSIZE" using ll unfolding log_list_def by linarith
  then have rh: "read_head dev start ?s = Inr (logged start d, u)"
    using t(1-3) by (simp add: read_head_def Let_def logged_def)
  obtain v where v: "install_trans True dev start (logged start d) u = Inr v" "cache_inv dev v {} {}"
    "view dev v = put_blocks ?W d" "disk v = put_blocks ?W d" "disk_writes v = ?W"
    using install_trans_ok [of dev u True "logged start d" start] t(4-7) ll by auto
  have "start \<notin> fst ` set ?W"
    using ll log_block_inside(3) [of 0 start] home_copies_fst [OF order_refl] by (auto simp: log_list_def LOGSIZE_def)
  then have "view dev v start = d start" unfolding v(3) by (rule put_blocks_other)
  then obtain w where w: "write_head dev start [] v = Inr w" "disk w = (put_blocks ?W d)(start := header [] (d start))"
    "disk_writes w = ?W @ [(start, header [] (d start))]"
    using write_head_ok [OF v(2) _ refl, where blocks = "[]" and start = start] v(4,5) by (auto simp: NBUF_def)
  then show ?thesis using rh v(1) by (simp add: recover_from_log_def recovered_def)
qed

section \<open>Commit\<close>

lemma clean_view:
  assumes inv: "cache_inv dev s P {}" and bn: "bn \<notin> P"
  shows "view dev s bn = disk s bn"
proof (cases "\<exists>b < NBUF. holds s dev bn b \<and> buf_valid (bufs s b)")
  case True
  then obtain b where b: "b < NBUF" "holds s dev bn b" "buf_valid (bufs s b)" by blast
  obtain xs where xs: "bcache_ok s xs" and dev: "dev \<noteq> 0" using inv by (auto simp: cache_inv_def)
  have "buf_refcnt (bufs s b) = 0" using cache_invD(3) [OF inv b(1,2)] bn by simp
  then show ?thesis
    using view_cached [OF xs dev b] bcache_okD(6) [OF xs b(1) _ b(3)] b(2) by (simp add: holds_def)
qed (auto intro: view_disk)

lemma put_log_copies:
  assumes "i < n" "n \<le> LOGSIZE"
  shows "put_blocks (log_copies start blocks c n) d (log_block start i) = c (blocks ! i)"
  using assms
proof (induction n)
  case (Suc n)
  have e: "log_copies start blocks c (Suc n) = log_copies start blocks c n @ [(log_block start n, c (blocks ! n))]"
    by (simp add: log_copies_def)
  show ?case
  proof (cases "i = n")
    case True
    then show ?thesis unfolding e put_blocks_snoc by simp
  next
    case False
    then have "log_block start i \<noteq> log_block start n" using log_block_eq [of i n start] Suc.prems by simp
    then show ?thesis unfolding e put_blocks_snoc using Suc False by simp
  qed
qed simp

lemma put_home_copies:
  assumes "m \<le> length blocks"
  shows "put_blocks (home_copies blocks (\<lambda>i. c (blocks ! i)) m) d bn = (if bn \<in> set (take m blocks) then c bn else d bn)"
  using assms
proof (induction m)
  case (Suc m)
  have e: "home_copies blocks (\<lambda>i. c (blocks ! i)) (Suc m) = home_copies blocks (\<lambda>i. c (blocks ! i)) m @ [(blocks ! m, c (blocks ! m))]"
    by (simp add: home_copies_def)
  have "set (take (Suc m) blocks) = insert (blocks ! m) (set (take m blocks))"
    using Suc.prems by (simp add: take_Suc_conv_app_nth)
  then show ?case using Suc unfolding e put_blocks_snoc by auto
qed (simp add: home_copies_def)

text \<open>The block writes of a commit, in order.\<close>

definition commit_writes :: "uint \<Rightarrow> uint list \<Rightarrow> (uint \<Rightarrow> block) \<Rightarrow> (uint \<times> block) list" where
  "commit_writes start blocks c =
    log_copies start blocks c (length blocks) @ [(start, header blocks (c start))] @
    home_copies blocks (\<lambda>i. c (blocks ! i)) (length blocks) @ [(start, header [] (header blocks (c start)))]"

definition can_commit :: "logst \<Rightarrow> bool" where
  "can_commit st \<longleftrightarrow> cache_inv (log_dev st) (bc st) (set (lh st)) {} \<and> distinct (lh st) \<and>
    log_list (log_start st) (lh st) \<and> length (lh st) < NBUF"

lemma commit_ok:
  assumes "can_commit st" "lh st \<noteq> []"
  defines "dev \<equiv> log_dev st" and "start \<equiv> log_start st" and "c \<equiv> view (log_dev st) (bc st)"
  shows "\<exists>t. commit st = Inr (st\<lparr>bc := t, lh := []\<rparr>) \<and> cache_inv dev t {} {} \<and>
    disk_writes t = disk_writes (bc st) @ commit_writes start (lh st) c \<and>
    (\<forall>bn. outside_log start bn \<longrightarrow> view dev t bn = c bn)"
proof -
  let ?b = "lh st" and ?n = "length (lh st)"
  have inv: "cache_inv dev (bc st) (set ?b) {}" and d: "distinct ?b" and ll: "log_list start ?b" and short: "?n < NBUF"
    using assms(1) by (simp_all add: can_commit_def dev_def start_def)
  have nl: "?n < LOGSIZE" and outs: "\<And>bn. bn \<in> set ?b \<Longrightarrow> outside_log start bn" using ll by (auto simp: log_list_def)
  let ?L = "log_copies start ?b c ?n"
  have s_out: "start \<notin> fst ` set ?L" "start \<notin> set ?b"
    using log_copies_not(1) [OF nl] outs start_inside by blast+
  have card: "card (set ?b) < NBUF" using card_length [of ?b] short by simp
  obtain s1 where 1: "write_log dev start ?b (bc st) = Inr s1" "cache_inv dev s1 (set ?b) {}" "view dev s1 = put_blocks ?L c"
    "disk s1 = put_blocks ?L (disk (bc st))" "disk_writes s1 = disk_writes (bc st) @ ?L"
    using write_log_ok [OF inv ll short] by (auto simp: c_def dev_def)
  have v1: "view dev s1 start = c start" unfolding 1(3) by (rule put_blocks_other [OF s_out(1)])
  let ?h = "header ?b (c start)"
  obtain s2 where 2: "write_head dev start ?b s1 = Inr s2" "cache_inv dev s2 (set ?b) {}" "view dev s2 = (view dev s1)(start := ?h)"
    "disk s2 = (disk s1)(start := ?h)" "disk_writes s2 = disk_writes s1 @ [(start, ?h)]"
    using write_head_ok [OF 1(2) card, where h = ?h and blocks = ?b and start = start] v1 by auto
  have lb: "view dev s2 (log_block start i) = c (?b ! i)" "disk s2 (log_block start i) = c (?b ! i)" if "i < ?n" for i
    using 2(3,4) 1(3,4) put_log_copies [OF that less_imp_le [OF nl]] log_block_inside(1) [of i start] that nl by auto
  then have hc: "home_copies ?b (\<lambda>i. disk s2 (log_block start i)) ?n = home_copies ?b (\<lambda>i. c (?b ! i)) ?n"
    by (simp add: home_copies_def)
  let ?H = "home_copies ?b (\<lambda>i. c (?b ! i)) ?n"
  obtain s3 where 3: "install_trans False dev start ?b s2 = Inr s3" "cache_inv dev s3 {} {}" "view dev s3 = put_blocks ?H (view dev s2)"
    "disk_writes s3 = disk_writes s2 @ ?H"
    using install_trans_ok [of dev s2 False ?b start] 2(2) ll d short lb unfolding hc by auto
  have v3: "view dev s3 start = ?h"
    unfolding 3(3) by (simp add: put_home_copies s_out(2) 2(3))
  obtain s4 where 4: "write_head dev start [] s3 = Inr s4" "cache_inv dev s4 {} {}" "view dev s4 = (view dev s3)(start := header [] ?h)"
    "disk_writes s4 = disk_writes s3 @ [(start, header [] ?h)]"
    using write_head_ok [OF 3(2) _ refl, where blocks = "[]" and start = start] v3 by (auto simp: NBUF_def)
  have "commit st = Inr (st\<lparr>bc := s4, lh := []\<rparr>)"
    using 1(1) 2(1) 3(1) 4(1) assms(2) by (simp add: commit_def dev_def start_def)
  moreover have "disk_writes s4 = disk_writes (bc st) @ commit_writes start ?b c"
    using 1(5) 2(5) 3(4) 4(4) by (simp add: commit_writes_def)
  moreover have "view dev s4 bn = c bn" if "outside_log start bn" for bn
  proof -
    have "bn \<noteq> start" "bn \<notin> fst ` set ?L" using that log_copies_not(2) [OF nl] start_inside by blast+
    then have "view dev s2 bn = c bn" using 2(3) 1(3) put_blocks_other by simp
    then show ?thesis using 4(3) 3(3) \<open>bn \<noteq> start\<close> by (simp add: put_home_copies)
  qed
  ultimately show ?thesis using 4(2) by blast
qed

section \<open>Crashes\<close>

lemma logged_header:
  assumes "d start = header blocks h" "length h = BSIZE" "length blocks \<le> LOGSIZE"
  shows "logged start d = blocks"
  using header_read [OF assms(2,3)] assms(1) by (simp add: logged_def)

lemma recovered_none:
  assumes "logged start d = []" "bn \<noteq> start"
  shows "recovered start d bn = d bn"
  using assms by (simp add: recovered_def home_copies_def)

text \<open>Recovery of a disk whose log holds the committed transaction \<open>blocks\<close> with contents \<open>c\<close>.\<close>

lemma recovered_some:
  assumes "logged start d = blocks" "bn \<noteq> start" "\<And>i. i < length blocks \<Longrightarrow> d (log_block start i) = c (blocks ! i)"
  shows "recovered start d bn = (if bn \<in> set blocks then c bn else d bn)"
proof -
  have "home_copies blocks (\<lambda>i. d (log_block start i)) (length blocks) = home_copies blocks (\<lambda>i. c (blocks ! i)) (length blocks)"
    using assms(3) by (simp add: home_copies_def)
  then show ?thesis using assms(1,2) by (simp add: recovered_def put_home_copies)
qed

lemma take_commit_writes:
  fixes start blocks c k
  defines "n \<equiv> length blocks" and "h \<equiv> header blocks (c start)"
  shows "take k (commit_writes start blocks c) =
    (if k \<le> n then take k (log_copies start blocks c n)
     else if k \<le> 2 * n + 1 then log_copies start blocks c n @ [(start, h)] @ home_copies blocks (\<lambda>i. c (blocks ! i)) (k - n - 1)
     else commit_writes start blocks c)"
proof -
  have l: "length (log_copies start blocks c n) = n" "length (home_copies blocks (\<lambda>i. c (blocks ! i)) n) = n"
    by (simp_all add: log_copies_def home_copies_def)
  have t: "take j (home_copies blocks (\<lambda>i. c (blocks ! i)) n) = home_copies blocks (\<lambda>i. c (blocks ! i)) j" if "j \<le> n" for j
    using that by (simp add: home_copies_def take_map)
  consider "k \<le> n" | j where "k = n + Suc j" "j \<le> n" | "2 * n + 1 < k"
  proof -
    assume a: "k \<le> n \<Longrightarrow> thesis" "\<And>j. k = n + Suc j \<Longrightarrow> j \<le> n \<Longrightarrow> thesis" "2 * n + 1 < k \<Longrightarrow> thesis"
    then show thesis using a(2) [of "k - n - 1"] by fastforce
  qed
  then show ?thesis
  proof cases
    case 1
    then show ?thesis by (simp add: commit_writes_def l n_def [symmetric])
  next
    case (2 j)
    then show ?thesis using t [of j] by (simp add: commit_writes_def l n_def [symmetric] h_def)
  next
    case 3
    then have "length (commit_writes start blocks c) \<le> k" by (simp add: commit_writes_def l n_def [symmetric])
    then show ?thesis using 3 by simp
  qed
qed

text \<open>The disk after the first \<open>k\<close> writes of a commit, and what recovery makes of it.\<close>

lemma crash_recovered:
  fixes k :: nat
  assumes ll: "log_list start blocks" and hdr: "logged start d = []" "c start = d start" "length (d start) = BSIZE"
    and other: "\<And>bn. outside_log start bn \<Longrightarrow> bn \<notin> set blocks \<Longrightarrow> c bn = d bn"
    and bn: "outside_log start bn"
  defines "D \<equiv> put_blocks (take k (commit_writes start blocks c)) d"
  shows "log_list start (logged start D) \<and>
    recovered start D bn = (if k \<le> length blocks then d bn else c bn)"
proof -
  let ?n = "length blocks" and ?h = "header blocks (c start)"
  let ?L = "log_copies start blocks c ?n"
  have nl: "?n < LOGSIZE" and outs: "\<And>bn. bn \<in> set blocks \<Longrightarrow> outside_log start bn" using ll by (auto simp: log_list_def)
  have ns: "bn \<noteq> start" "start \<notin> set blocks" using bn start_inside outs by auto
  have nil: "log_list start []" by (simp add: log_list_def LOGSIZE_def)
  note nle = less_imp_le [OF nl]
  have L: "put_blocks ?L d bn = d bn" "put_blocks ?L d start = d start"
    using log_copies_not [OF nl] bn by (simp_all add: put_blocks_other)
  have hl: "length (c start) = BSIZE" using hdr by simp
  consider "k \<le> ?n" | "\<not> k \<le> ?n" "k \<le> 2 * ?n + 1" | "2 * ?n + 1 < k" by linarith
  then show ?thesis
  proof cases
    case 1
    then have D: "D = put_blocks (take k ?L) d" by (simp add: D_def take_commit_writes)
    have "take k ?L = log_copies start blocks c k" using 1 by (simp add: log_copies_def take_map)
    then have k: "D bn = d bn" "D start = d start"
      using log_copies_not [of k] bn 1 nl unfolding D by (simp_all add: put_blocks_other)
    then have "logged start D = []" using hdr(1) by (simp add: logged_def)
    then show ?thesis using recovered_none ns(1) k(1) nil 1 by simp
  next
    case 2
    let ?H = "home_copies blocks (\<lambda>i. c (blocks ! i)) (k - ?n - 1)" and ?d = "(put_blocks ?L d)(start := ?h)"
    have "k - ?n - 1 \<le> ?n" using 2 by simp
    note H = put_home_copies [OF this, of c ?d]
    have D: "D bn' = (if bn' \<in> set (take (k - ?n - 1) blocks) then c bn' else ?d bn')" for bn'
      using 2 H unfolding D_def take_commit_writes by (simp add: put_blocks_append)
    have st: "set (take (k - ?n - 1) blocks) \<subseteq> set blocks" by (rule set_take_subset)
    have "D start = ?h" using D ns(2) st by auto
    then have lg: "logged start D = blocks" using logged_header [OF _ hl nle] by simp
    have lb: "D (log_block start i) = c (blocks ! i)" if i: "i < ?n" for i
    proof -
      have "log_block start i \<notin> set blocks" "log_block start i \<noteq> start"
        using log_block_inside [of i start] i nl outs by auto
      then show ?thesis using D put_log_copies [OF i nle] st by auto
    qed
    have "recovered start D bn = (if bn \<in> set blocks then c bn else D bn)"
      by (rule recovered_some [OF lg ns(1) lb])
    also have "\<dots> = c bn" using D L(1) other [OF bn] ns(1) by auto
    finally show ?thesis using lg ll 2 by simp
  next
    case 3
    let ?H = "home_copies blocks (\<lambda>i. c (blocks ! i)) ?n" and ?d = "(put_blocks ?L d)(start := ?h)"
    have tk: "take k (commit_writes start blocks c) = commit_writes start blocks c"
      using 3 take_commit_writes [of k start blocks c] by simp
    have cw: "commit_writes start blocks c = ((?L @ [(start, ?h)]) @ ?H) @ [(start, header [] ?h)]"
      by (simp add: commit_writes_def)
    have D: "D = (put_blocks ?H ?d)(start := header [] ?h)"
      unfolding D_def tk unfolding cw put_blocks_append by (simp only: put_blocks.simps fst_conv snd_conv)
    have "length ?h = BSIZE" by (rule header_read(3) [OF hl nle])
    then have lg: "logged start D = []" using logged_header [of D start "[]" ?h] D by simp
    have "D bn = c bn" using D ns(1) L(1) other [OF bn] by (auto simp: put_home_copies)
    then show ?thesis using recovered_none [OF lg ns(1)] lg nil 3 by simp
  qed
qed

section \<open>Blocks inside a transaction\<close>

text \<open>The file system's use of the cache: reading a block, changing it under the log, giving it back.\<close>

definition lread :: "uint \<Rightarrow> uint \<Rightarrow> logst \<Rightarrow> (nat \<times> logst) result" where
  "lread dev bn st = rbind (bread dev bn (bc st)) (\<lambda>(b, s). Inr (b, st\<lparr>bc := s\<rparr>))"

definition lrelse :: "nat \<Rightarrow> logst \<Rightarrow> logst result" where
  "lrelse b st = rbind (brelse b (bc st)) (\<lambda>s. Inr (st\<lparr>bc := s\<rparr>))"

definition ldata :: "nat \<Rightarrow> logst \<Rightarrow> block" where
  "ldata b st = buf_data (bufs (bc st) b)"

definition lset :: "nat \<Rightarrow> block \<Rightarrow> logst \<Rightarrow> logst" where
  "lset b d st = st\<lparr>bc := set_data b d (bc st)\<rparr>"

text \<open>The state inside a transaction, with the blocks \<open>H\<close> held.  The log of \<open>mkfs\<close> has \<open>LOGSIZE\<close> blocks.\<close>

definition log_inv :: "logst \<Rightarrow> uint set \<Rightarrow> bool" where
  "log_inv st H \<longleftrightarrow> cache_inv (log_dev st) (bc st) (set (lh st)) H \<and> distinct (lh st) \<and>
    (\<forall>bn \<in> set (lh st). outside_log (log_start st) bn) \<and> length (lh st) < LOGSIZE \<and>
    log_size st = int LOGSIZE \<and> 1 \<le> log_outstanding st \<and>
    (\<forall>bn. bn \<notin> set (lh st) \<longrightarrow> view (log_dev st) (bc st) bn = disk (bc st) bn)"

definition lview :: "logst \<Rightarrow> uint \<Rightarrow> block" where
  "lview st = view (log_dev st) (bc st)"

definition lhandle :: "logst \<Rightarrow> uint \<Rightarrow> nat \<Rightarrow> bool" where
  "lhandle st = buf_of (log_dev st) (bc st)"

text \<open>What these operations never change.\<close>

definition lsame :: "logst \<Rightarrow> logst \<Rightarrow> bool" where
  "lsame s t \<longleftrightarrow> log_start t = log_start s \<and> log_size t = log_size s \<and> log_outstanding t = log_outstanding s \<and>
    log_committing t = log_committing s \<and> log_dev t = log_dev s \<and> disk (bc t) = disk (bc s) \<and> disk_writes (bc t) = disk_writes (bc s)"

lemma lsame_refl [simp]: "lsame s s" by (simp add: lsame_def)

lemma lsame_trans: "lsame s t \<Longrightarrow> lsame t u \<Longrightarrow> lsame s u" by (simp add: lsame_def)

locale logged_disk =
  fixes get :: "uint \<Rightarrow> 's \<Rightarrow> ('b \<times> 's) result" and put :: "'b \<Rightarrow> 's \<Rightarrow> 's result"
    and data :: "'b \<Rightarrow> 's \<Rightarrow> block" and amend :: "'b \<Rightarrow> block \<Rightarrow> 's \<Rightarrow> 's result"
    and handle :: "'s \<Rightarrow> uint \<Rightarrow> 'b \<Rightarrow> bool" and contents :: "'s \<Rightarrow> uint \<Rightarrow> block"
    and inv :: "'s \<Rightarrow> uint set \<Rightarrow> bool" and used :: "'s \<Rightarrow> uint list" and same :: "'s \<Rightarrow> 's \<Rightarrow> bool"
    and writable :: "'s \<Rightarrow> uint \<Rightarrow> bool" and cap :: nat
  assumes get_law: "inv s H \<Longrightarrow> bn \<notin> H \<Longrightarrow> length (used s) + card H < cap \<Longrightarrow>
      \<exists>b t. get bn s = Inr (b, t) \<and> inv t (insert bn H) \<and> handle t bn b \<and> data b t = contents s bn \<and>
        contents t = contents s \<and> used t = used s \<and> same s t \<and> (\<forall>bn' \<in> H. \<forall>b'. handle s bn' b' \<longrightarrow> handle t bn' b')"
    and data_law: "inv s H \<Longrightarrow> bn \<in> H \<Longrightarrow> handle s bn b \<Longrightarrow> data b s = contents s bn"
    and amend_law: "inv s H \<Longrightarrow> bn \<in> H \<Longrightarrow> handle s bn b \<Longrightarrow> writable s bn \<Longrightarrow> length (used s) + 1 < cap \<Longrightarrow>
      \<exists>t. amend b d s = Inr t \<and> inv t H \<and> contents t = (contents s)(bn := d) \<and> handle t = handle s \<and> same s t \<and>
        used t = (if bn \<in> set (used s) then used s else used s @ [bn])"
    and put_law: "inv s H \<Longrightarrow> bn \<in> H \<Longrightarrow> handle s bn b \<Longrightarrow>
      \<exists>t. put b s = Inr t \<and> inv t (H - {bn}) \<and> contents t = contents s \<and> used t = used s \<and> handle t = handle s \<and> same s t"
    and same_law: "same s t \<Longrightarrow> same t u \<Longrightarrow> same s u"
    and writable_law: "same s t \<Longrightarrow> writable t = writable s"
begin

lemma read_block:
  assumes "inv s H" "bn \<notin> H" "length (used s) + card H < cap"
  shows "\<exists>b t u. get bn s = Inr (b, t) \<and> data b t = contents s bn \<and> put b t = Inr u \<and> inv u H \<and>
    contents u = contents s \<and> used u = used s \<and> same s u \<and> (\<forall>bn' \<in> H. \<forall>b'. handle s bn' b' \<longrightarrow> handle u bn' b')"
proof -
  obtain b t where t: "get bn s = Inr (b, t)" "inv t (insert bn H)" "handle t bn b" "data b t = contents s bn"
    "contents t = contents s" "used t = used s" "same s t" "\<forall>bn' \<in> H. \<forall>b'. handle s bn' b' \<longrightarrow> handle t bn' b'"
    using get_law [OF assms] by blast
  obtain u where u: "put b t = Inr u" "inv u (insert bn H - {bn})" "contents u = contents t" "used u = used t" "handle u = handle t" "same t u"
    using put_law [OF t(2) _ t(3)] by auto
  have "insert bn H - {bn} = H" using assms(2) by simp
  then show ?thesis using t u same_law [OF t(7) u(6)] by auto
qed

lemma modify_block:
  assumes "inv s H" "bn \<notin> H" "length (used s) + card H < cap" "length (used s) + 1 < cap" "writable s bn"
  shows "\<exists>b t u v. get bn s = Inr (b, t) \<and> data b t = contents s bn \<and> handle t bn b \<and> amend b d t = Inr u \<and> put b u = Inr v \<and> inv v H \<and>
    contents v = (contents s)(bn := d) \<and> used v = (if bn \<in> set (used s) then used s else used s @ [bn]) \<and> same s v \<and>
    (\<forall>bn' \<in> H. \<forall>b'. handle s bn' b' \<longrightarrow> handle v bn' b')"
proof -
  obtain b t where t: "get bn s = Inr (b, t)" "inv t (insert bn H)" "handle t bn b" "data b t = contents s bn"
    "contents t = contents s" "used t = used s" "same s t" "\<forall>bn' \<in> H. \<forall>b'. handle s bn' b' \<longrightarrow> handle t bn' b'"
    using get_law [OF assms(1-3)] by blast
  have "writable t bn" using writable_law [OF t(7)] assms(5) by simp
  then obtain u where u: "amend b d t = Inr u" "inv u (insert bn H)" "contents u = (contents t)(bn := d)" "handle u = handle t"
    "same t u" "used u = (if bn \<in> set (used t) then used t else used t @ [bn])"
    using amend_law [OF t(2) _ t(3), of d] assms(4) t(6) by auto
  have h: "handle u bn b" using u(4) t(3) by simp
  obtain v where v: "put b u = Inr v" "inv v (insert bn H - {bn})" "contents v = contents u" "used v = used u" "handle v = handle u" "same u v"
    using put_law [OF u(2) _ h] by auto
  have "insert bn H - {bn} = H" using assms(2) by simp
  moreover have "same s v" using same_law t(7) u(5) v(6) by blast
  ultimately show ?thesis using t u v by auto
qed

end

lemma log_invD:
  assumes "log_inv st H"
  shows "cache_inv (log_dev st) (bc st) (set (lh st)) H" "distinct (lh st)" "length (lh st) < NBUF"
    "bn \<notin> set (lh st) \<Longrightarrow> view (log_dev st) (bc st) bn = disk (bc st) bn"
  using assms by (simp_all add: log_inv_def LOGSIZE_def NBUF_def)

lemma tx_get:
  assumes "log_inv st H" "bn \<notin> H" "length (lh st) + card H < NBUF"
  shows "\<exists>b t. lread (log_dev st) bn st = Inr (b, t) \<and> log_inv t (insert bn H) \<and> lhandle t bn b \<and> ldata b t = lview st bn \<and>
    lview t = lview st \<and> lh t = lh st \<and> lsame st t \<and> (\<forall>bn' \<in> H. \<forall>b'. lhandle st bn' b' \<longrightarrow> lhandle t bn' b')"
proof -
  note inv = log_invD [OF assms(1)]
  have "card (set (lh st) \<union> H) < NBUF"
    using assms(3) card_Un_le [of "set (lh st)" H] card_length [of "lh st"] by simp
  then obtain b s where s: "bread (log_dev st) bn (bc st) = Inr (b, s)" "cache_inv (log_dev st) s (set (lh st)) (insert bn H)"
    "buf_of (log_dev st) s bn b" "view (log_dev st) s = view (log_dev st) (bc st)" "disk s = disk (bc st)" "disk_writes s = disk_writes (bc st)"
    "\<forall>bn' \<in> set (lh st) \<union> H. \<forall>b'. buf_of (log_dev st) (bc st) bn' b' \<longrightarrow> buf_of (log_dev st) s bn' b'"
    using cache.get_law [OF inv(1) assms(2)] by blast
  have d: "buf_data (bufs s b) = view (log_dev st) s bn" by (rule cache.data_law [OF s(2) _ s(3)]) simp
  show ?thesis
    using assms(1) s d by (intro exI [of _ b] exI [of _ "st\<lparr>bc := s\<rparr>"])
      (simp add: lread_def log_inv_def lhandle_def ldata_def lview_def lsame_def)
qed

lemma tx_put:
  assumes "log_inv st H" "bn \<in> H" "lhandle st bn b"
  shows "\<exists>t. lrelse b st = Inr t \<and> log_inv t (H - {bn}) \<and> lview t = lview st \<and> lh t = lh st \<and> lhandle t = lhandle st \<and> lsame st t"
proof -
  note inv = log_invD [OF assms(1)]
  have "bn \<in> set (lh st) \<or> view (log_dev st) (bc st) bn = disk (bc st) bn" using inv(4) by blast
  then obtain s where "brelse b (bc st) = Inr s" "cache_inv (log_dev st) s (set (lh st)) (H - {bn})"
    "view (log_dev st) s = view (log_dev st) (bc st)" "disk s = disk (bc st)" "disk_writes s = disk_writes (bc st)"
    "buf_of (log_dev st) s = buf_of (log_dev st) (bc st)"
    using cache.put_law [OF inv(1) assms(2) assms(3) [unfolded lhandle_def]] by blast
  then show ?thesis
    using assms(1) by (simp add: lrelse_def log_inv_def lhandle_def lview_def lsame_def)
qed

lemma tx_amend:
  assumes "log_inv st H" "bn \<in> H" "lhandle st bn b" "outside_log (log_start st) bn" "length (lh st) + 1 < NBUF"
  shows "\<exists>t. log_write b (lset b d st) = Inr t \<and> log_inv t H \<and> lview t = (lview st)(bn := d) \<and> lhandle t = lhandle st \<and> lsame st t \<and>
    lh t = (if bn \<in> set (lh st) then lh st else lh st @ [bn])"
proof -
  note inv = log_invD [OF assms(1)] and h = assms(3) [unfolded lhandle_def]
  note c = cache.change_law [OF inv(1) assms(2) h, of d]
  have h': "buf_of (log_dev st) (set_data b d (bc st)) bn b" using c h by simp
  have bn: "buf_blockno (bufs (set_data b d (bc st)) b) = bn" using h' by (simp add: buf_of_def holds_def)
  have ok: "\<not> int LOGSIZE \<le> int (length (lh st))" "\<not> log_size st - 1 \<le> int (length (lh st))" "\<not> log_outstanding st < 1"
    using assms(1,5) by (simp_all add: log_inv_def LOGSIZE_def NBUF_def)
  show ?thesis
  proof (cases "bn \<in> set (lh st)")
    case True
    then show ?thesis
      using assms(1) c ok bn by (simp add: log_write_def lset_def log_inv_def lhandle_def lview_def lsame_def)
  next
    case False
    note p = cache.pin_law [OF conjunct1 [OF c] assms(2) False h']
    show ?thesis
      using assms c p ok bn False
      by (simp add: log_write_def lset_def log_inv_def lhandle_def lview_def lsame_def LOGSIZE_def NBUF_def)
  qed
qed

interpretation tx: logged_disk "\<lambda>bn st. lread (log_dev st) bn st" lrelse ldata "\<lambda>b d st. log_write b (lset b d st)" lhandle lview log_inv lh lsame
  "\<lambda>st. outside_log (log_start st)" NBUF
proof unfold_locales
  show "log_inv s H \<Longrightarrow> bn \<in> H \<Longrightarrow> lhandle s bn b \<Longrightarrow> ldata b s = lview s bn" for s H bn b
    using cache.data_law [OF log_invD(1)] by (simp add: lhandle_def ldata_def lview_def)
  show "lsame s t \<Longrightarrow> outside_log (log_start t) = outside_log (log_start s)" for s t
    by (simp add: lsame_def)
qed (erule (2) tx_get tx_put | erule (4) tx_amend | erule (1) lsame_trans)+

lemma log_inv_can_commit: "log_inv st {} \<Longrightarrow> can_commit st"
  by (auto simp: log_inv_def can_commit_def log_list_def LOGSIZE_def NBUF_def)

text \<open>A machine that has just booted on a disk with an empty log, inside its first system call.\<close>

definition boot_log :: "int \<Rightarrow> uint \<Rightarrow> uint \<Rightarrow> (uint \<Rightarrow> block) \<Rightarrow> logst" where
  "boot_log pid dev start d = \<lparr>bc = binit (boot_cache pid d), log_start = start, log_size = int LOGSIZE, log_outstanding = 1,
    log_committing = False, log_dev = dev, lh = []\<rparr>"

lemma boot_log_inv:
  assumes "dev \<noteq> 0"
  shows "log_inv (boot_log pid dev start d) {}" "lview (boot_log pid dev start d) = d" "disk (bc (boot_log pid dev start d)) = d"
proof -
  note inv = boot_inv [OF assms, of pid d]
  have d: "disk (binit (boot_cache pid d)) = d" by (simp add: binit_fields boot_cache_def)
  have v: "view dev (binit (boot_cache pid d)) bn = d bn" for bn using clean_view [OF inv, of bn] d by simp
  show "log_inv (boot_log pid dev start d) {}"
    using inv v d by (simp add: boot_log_def log_inv_def LOGSIZE_def)
  show "lview (boot_log pid dev start d) = d" using v by (auto simp: boot_log_def lview_def)
  show "disk (bc (boot_log pid dev start d)) = d" using d by (simp add: boot_log_def)
qed

section \<open>Properties\<close>

text \<open>C24: Transactions are atomic across crashes.  Stop the machine after any number \<open>k\<close> of the block writes of a
  commit, boot, and let recovery run: it succeeds, and every block outside the log has either the contents it
  had on the disk before the transaction (when the header write, number \<open>length lh + 1\<close>, had not been made),
  or the contents the transaction gave it (when it had); never a mixture.\<close>

theorem crash_atomic:
  assumes "can_commit st" "lh st \<noteq> []" "logged (log_start st) (disk (bc st)) = []" "length (disk (bc st) (log_start st)) = BSIZE"
  shows "\<exists>t ws. commit st = Inr t \<and> disk_writes (bc t) = disk_writes (bc st) @ ws \<and>
    (\<forall>k. \<exists>r. recover_from_log (log_dev st) (log_start st)
        (binit (boot_cache pid (put_blocks (take k ws) (disk (bc st))))) = Inr r \<and>
      (\<forall>bn. outside_log (log_start st) bn \<longrightarrow>
        disk r bn = (if k \<le> length (lh st) then disk (bc st) bn else view (log_dev st) (bc st) bn)))"
proof -
  let ?dev = "log_dev st" and ?start = "log_start st" and ?c = "view (log_dev st) (bc st)" and ?d = "disk (bc st)"
  have inv: "cache_inv ?dev (bc st) (set (lh st)) {}" and ll: "log_list ?start (lh st)" and dev: "?dev \<noteq> 0"
    using assms(1) by (auto simp: can_commit_def cache_inv_def)
  obtain t where t: "commit st = Inr (st\<lparr>bc := t, lh := []\<rparr>)"
    "disk_writes t = disk_writes (bc st) @ commit_writes ?start (lh st) ?c"
    using commit_ok [OF assms(1,2)] by blast
  have "?start \<notin> set (lh st)" using ll start_inside by (auto simp: log_list_def)
  then have cs: "?c ?start = ?d ?start" by (rule clean_view [OF inv])
  have "\<exists>r. recover_from_log ?dev ?start (binit (boot_cache pid (put_blocks (take k (commit_writes ?start (lh st) ?c)) ?d))) = Inr r \<and>
      (\<forall>bn. outside_log ?start bn \<longrightarrow> disk r bn = (if k \<le> length (lh st) then ?d bn else ?c bn))" for k
  proof -
    let ?D = "put_blocks (take k (commit_writes ?start (lh st) ?c)) ?d"
    have cr: "log_list ?start (logged ?start ?D) \<and> recovered ?start ?D bn = (if k \<le> length (lh st) then ?d bn else ?c bn)"
      if "outside_log ?start bn" for bn
      by (rule crash_recovered [OF ll assms(3) cs assms(4) clean_view [OF inv] that])
    obtain bn where "outside_log ?start bn"
      using assms(2) ll by (cases "lh st") (auto simp: log_list_def)
    then have "log_list ?start (logged ?start ?D)" using cr by blast
    then obtain r where "recover_from_log ?dev ?start (binit (boot_cache pid ?D)) = Inr r" "disk r = recovered ?start ?D"
      using recover_ok [OF dev] by blast
    then show ?thesis using cr by auto
  qed
  then show ?thesis using t by fastforce
qed

theorem crash_atomic_witness:
  "\<exists>st t ws. view 1 (bc st) 50 = replicate BSIZE 7 \<and> disk (bc st) 50 = replicate BSIZE 0 \<and> commit st = Inr t \<and>
    disk_writes (bc t) = disk_writes (bc st) @ ws \<and>
    (\<forall>k. \<exists>r. recover_from_log 1 2 (binit (boot_cache 3 (put_blocks (take k ws) (disk (bc st))))) = Inr r \<and>
      disk r 50 = (if k \<le> 1 then replicate BSIZE 0 else replicate BSIZE 7))"
proof -
  let ?s = "boot_log 3 1 2 (\<lambda>_. replicate BSIZE 0)"
  note boot = boot_log_inv [of 1 3 2 "\<lambda>_. replicate BSIZE 0", simplified]
  have s: "log_start ?s = 2" "log_dev ?s = 1" "lh ?s = []" by (simp_all add: boot_log_def)
  have out: "outside_log 2 50" by (simp add: outside_log_def LOGSIZE_def)
  obtain st where st: "log_inv st {}" "lview st = (lview ?s)(50 := replicate BSIZE 7)" "lh st = [50]" "lsame ?s st"
    using tx.modify_block [OF boot(1), of 50 "replicate BSIZE 7"] s out by (auto simp: NBUF_def)
  have d: "log_start st = 2" "log_dev st = 1" "disk (bc st) = (\<lambda>_. replicate BSIZE 0)"
    using st(4) s boot(3) by (auto simp: lsame_def)
  have v: "view 1 (bc st) 50 = replicate BSIZE 7" using st(2) d by (simp add: lview_def)
  have l: "logged 2 (\<lambda>_. replicate BSIZE 0) = []" by (simp add: logged_def rd32_def BSIZE_def)
  have ne: "lh st \<noteq> []" and lg: "logged (log_start st) (disk (bc st)) = []" and len: "length (disk (bc st) (log_start st)) = BSIZE"
    using st(3) d l by simp_all
  obtain t ws where t: "commit st = Inr t" "disk_writes (bc t) = disk_writes (bc st) @ ws"
    "\<forall>k. \<exists>r. recover_from_log 1 2 (binit (boot_cache 3 (put_blocks (take k ws) (disk (bc st))))) = Inr r \<and>
      (\<forall>bn. outside_log 2 bn \<longrightarrow> disk r bn = (if k \<le> length (lh st) then disk (bc st) bn else view 1 (bc st) bn))"
    using crash_atomic [OF log_inv_can_commit [OF st(1)] ne lg len, of 3] unfolding d(1,2) by blast
  have "\<exists>r. recover_from_log 1 2 (binit (boot_cache 3 (put_blocks (take k ws) (disk (bc st))))) = Inr r \<and>
      disk r 50 = (if k \<le> 1 then replicate BSIZE 0 else replicate BSIZE 7)" for k
  proof -
    obtain r where r: "recover_from_log 1 2 (binit (boot_cache 3 (put_blocks (take k ws) (disk (bc st))))) = Inr r"
      "disk r 50 = (if k \<le> length (lh st) then disk (bc st) 50 else view 1 (bc st) 50)"
      using t(3) out by blast
    show ?thesis using r(2) v d(3) st(3) by (intro exI [of _ r] conjI r(1)) simp
  qed
  moreover have "disk (bc st) 50 = replicate BSIZE 0" using d(3) by simp
  ultimately show ?thesis using v t(1,2) by blast
qed

end
