(* ===== verification/Balloc.thy ===== *)
theory Balloc
  imports Log
begin

text \<open>The lowest layer of \<open>kernel/fs.c\<close>: the superblock, file system start-up, and the allocator of disk blocks
  (\<open>bzero\<close>, \<open>balloc\<close>, \<open>bfree\<close>) with its free bitmap.  The C \<open>int\<close> loop variables of \<open>balloc\<close> are natural
  numbers: they stay below the size of the disk.  The message \<open>balloc\<close> prints when the disk is full goes to
  the console, which is not part of the state here.\<close>

section \<open>The code\<close>

record superblock =
  sb_magic :: uint
  sb_size :: uint
  sb_nblocks :: uint
  sb_ninodes :: uint
  sb_nlog :: uint
  sb_logstart :: uint
  sb_inodestart :: uint
  sb_bmapstart :: uint

definition FSMAGIC :: uint where "FSMAGIC = 0x10203040"
definition BPB :: nat where "BPB = 8192"

definition BBLOCK :: "nat \<Rightarrow> superblock \<Rightarrow> uint" where
  "BBLOCK b sb = of_nat (b div BPB) + sb_bmapstart sb"

definition readsb :: "uint \<Rightarrow> bcache \<Rightarrow> (superblock \<times> bcache) result" where
  "readsb dev s =
    rbind (bread dev 1 s) (\<lambda>(bp, s1).
    let d = buf_data (bufs s1 bp);
        sb = \<lparr>sb_magic = rd32 d 0, sb_size = rd32 d 4, sb_nblocks = rd32 d 8, sb_ninodes = rd32 d 12,
          sb_nlog = rd32 d 16, sb_logstart = rd32 d 20, sb_inodestart = rd32 d 24, sb_bmapstart = rd32 d 28\<rparr>
    in rbind (brelse bp s1) (\<lambda>s2. Inr (sb, s2)))"

definition fsinit :: "uint \<Rightarrow> bcache \<Rightarrow> (superblock \<times> logst) result" where
  "fsinit dev s =
    rbind (readsb dev s) (\<lambda>(sb, s1).
    if sb_magic sb \<noteq> FSMAGIC then Inl (Panic ''invalid file system'')
    else rbind (initlog dev (sb_logstart sb) (sb_nlog sb) s1) (\<lambda>st. Inr (sb, st)))"

definition bzero :: "uint \<Rightarrow> uint \<Rightarrow> logst \<Rightarrow> logst result" where
  "bzero dev bno st =
    rbind (lread dev bno st) (\<lambda>(bp, st1).
    rbind (log_write bp (lset bp (replicate BSIZE 0) st1)) (\<lambda>st2.
    lrelse bp st2))"

definition bit_mask :: "nat \<Rightarrow> byte" where
  "bit_mask bi = push_bit (bi mod 8) 1"

definition bit_used :: "block \<Rightarrow> nat \<Rightarrow> bool" where
  "bit_used d bi \<longleftrightarrow> d ! (bi div 8) AND bit_mask bi \<noteq> 0"

fun balloc_loop :: "uint \<Rightarrow> superblock \<Rightarrow> nat list \<Rightarrow> logst \<Rightarrow> (uint \<times> logst) result" where
  "balloc_loop dev sb [] st = Inr (0, st)"
| "balloc_loop dev sb (b # bs) st =
    rbind (lread dev (BBLOCK b sb) st) (\<lambda>(bp, st1).
    let d = ldata bp st1
    in case find (\<lambda>bi. \<not> bit_used d bi) [0..<min BPB (unat (sb_size sb) - b)] of
         Some bi \<Rightarrow>
           rbind (log_write bp (lset bp (d[bi div 8 := d ! (bi div 8) OR bit_mask bi]) st1)) (\<lambda>st2.
           rbind (lrelse bp st2) (\<lambda>st3.
           rbind (bzero dev (of_nat (b + bi)) st3) (\<lambda>st4.
           Inr (of_nat (b + bi), st4))))
       | None \<Rightarrow> rbind (lrelse bp st1) (balloc_loop dev sb bs))"

text \<open>The values of \<open>b\<close> in \<open>for(b = 0; b < sb.size; b += BPB)\<close>.\<close>

definition balloc :: "uint \<Rightarrow> superblock \<Rightarrow> logst \<Rightarrow> (uint \<times> logst) result" where
  "balloc dev sb st = balloc_loop dev sb (map (\<lambda>i. i * BPB) [0..<(unat (sb_size sb) + BPB - 1) div BPB]) st"

definition bfree :: "uint \<Rightarrow> superblock \<Rightarrow> uint \<Rightarrow> logst \<Rightarrow> logst result" where
  "bfree dev sb b st =
    rbind (lread dev (BBLOCK (unat b) sb) st) (\<lambda>(bp, st1).
    let bi = unat b mod BPB;
        d = ldata bp st1
    in if \<not> bit_used d bi then Inl (Panic ''freeing free block'')
       else rbind (log_write bp (lset bp (d[bi div 8 := d ! (bi div 8) AND NOT (bit_mask bi)]) st1)) (\<lambda>st2.
            lrelse bp st2))"

section \<open>Bits of the map\<close>

lemma bit_used_bit: "bit_used d i \<longleftrightarrow> bit (d ! (i div 8)) (i mod 8)"
  by (simp add: bit_used_def bit_mask_def push_bit_of_1 and_exp_eq_0_iff_not_bit)

lemma byte_index: "i div 8 = j div 8 \<and> i mod 8 = j mod 8 \<longleftrightarrow> i = (j :: nat)"
  by (metis div_mult_mod_eq)

lemma bit_used_set:
  assumes "i div 8 < length d"
  shows "bit_used (d[i div 8 := d ! (i div 8) OR bit_mask i]) j \<longleftrightarrow> j = i \<or> bit_used d j"
proof (cases "j div 8 = i div 8")
  case True
  then show ?thesis
    using assms byte_index [of j i] by (auto simp: bit_used_bit bit_mask_def bit_simps)
qed (auto simp: bit_used_bit)

lemma bit_used_clear:
  assumes "i div 8 < length d"
  shows "bit_used (d[i div 8 := d ! (i div 8) AND NOT (bit_mask i)]) j \<longleftrightarrow> j \<noteq> i \<and> bit_used d j"
proof (cases "j div 8 = i div 8")
  case True
  have "j mod 8 < 8" by simp
  then show ?thesis
    using assms True byte_index [of j i] by (auto simp: bit_used_bit bit_mask_def bit_simps)
qed (auto simp: bit_used_bit)

section \<open>Steps inside a transaction\<close>

text \<open>From \<open>s\<close> to \<open>t\<close> only blocks of \<open>W\<close> change and only they may enter the log; the buffers held in \<open>H\<close> stay held.\<close>

definition ltouch :: "uint set \<Rightarrow> uint set \<Rightarrow> logst \<Rightarrow> logst \<Rightarrow> bool" where
  "ltouch H W s t \<longleftrightarrow> lsame s t \<and> set (lh t) \<subseteq> set (lh s) \<union> W \<and> set (lh s) \<subseteq> set (lh t) \<and>
    (\<forall>bn. bn \<notin> W \<longrightarrow> lview t bn = lview s bn) \<and> (\<forall>bn \<in> H. \<forall>b. lhandle s bn b \<longrightarrow> lhandle t bn b)"

lemma ltouch_refl: "ltouch H W s s"
  by (simp add: ltouch_def)

lemma ltouch_trans: "ltouch H V s t \<Longrightarrow> ltouch H W t u \<Longrightarrow> ltouch H (V \<union> W) s u"
  by (auto simp: ltouch_def intro: lsame_trans)

lemma ltouch_mono: "ltouch H V s t \<Longrightarrow> V \<subseteq> W \<Longrightarrow> ltouch H W s t"
  unfolding ltouch_def by blast

lemma ltouch_held: "ltouch H V s t \<Longrightarrow> G \<subseteq> H \<Longrightarrow> ltouch G V s t"
  unfolding ltouch_def by blast

text \<open>Reading a block, and changing one.\<close>

lemma lread_ok:
  assumes "log_inv st H" "bn \<notin> H" "length (lh st) + card H < NBUF" "dev = log_dev st"
  shows "\<exists>b t. lread dev bn st = Inr (b, t) \<and> log_inv t (insert bn H) \<and> lhandle t bn b \<and> ldata b t = lview st bn \<and>
    lview t = lview st \<and> lh t = lh st \<and> ltouch H {} st t"
  using tx.get_law [OF assms(1-3)] unfolding assms(4) ltouch_def by force

lemma lread_relse:
  assumes "log_inv st H" "bn \<notin> H" "length (lh st) + card H < NBUF" "dev = log_dev st"
  shows "\<exists>b t u. lread dev bn st = Inr (b, t) \<and> ldata b t = lview st bn \<and> lrelse b t = Inr u \<and> log_inv u H \<and>
    lview u = lview st \<and> lh u = lh st \<and> ltouch H {} st u"
  using tx.read_block [OF assms(1-3)] unfolding assms(4) ltouch_def by force

lemma lread_modify:
  assumes "log_inv st H" "bn \<notin> H" "length (lh st) + card H + 1 < NBUF" "dev = log_dev st" "outside_log (log_start st) bn"
  shows "\<exists>b t u v. lread dev bn st = Inr (b, t) \<and> ldata b t = lview st bn \<and>
    log_write b (lset b (f (lview st bn)) t) = Inr u \<and> lrelse b u = Inr v \<and> log_inv v H \<and>
    lview v = (lview st)(bn := f (lview st bn)) \<and> bn \<in> set (lh v) \<and> length (lh v) \<le> Suc (length (lh st)) \<and> ltouch H {bn} st v"
proof -
  obtain b t u v where v: "lread dev bn st = Inr (b, t)" "ldata b t = lview st bn"
    "log_write b (lset b (f (lview st bn)) t) = Inr u" "lrelse b u = Inr v" "log_inv v H"
    "lview v = (lview st)(bn := f (lview st bn))" "lh v = (if bn \<in> set (lh st) then lh st else lh st @ [bn])" "lsame st v"
    "\<forall>bn' \<in> H. \<forall>b'. lhandle st bn' b' \<longrightarrow> lhandle v bn' b'"
    using tx.modify_block [OF assms(1,2) _ _ assms(5), of "f (lview st bn)"] assms(3,4) by auto
  have "bn \<in> set (lh v)" "length (lh v) \<le> Suc (length (lh st))" "ltouch H {bn} st v"
    using v(6-9) by (auto simp: ltouch_def)
  then show ?thesis using v(1-6) by blast
qed

lemma bzero_ok:
  assumes "log_inv st H" "bn \<notin> H" "length (lh st) + card H + 1 < NBUF" "dev = log_dev st" "outside_log (log_start st) bn"
  shows "\<exists>t. bzero dev bn st = Inr t \<and> log_inv t H \<and> lview t = (lview st)(bn := replicate BSIZE 0) \<and>
    length (lh t) \<le> Suc (length (lh st)) \<and> bn \<in> set (lh t) \<and> ltouch H {bn} st t"
  using lread_modify [OF assms, of "\<lambda>_. replicate BSIZE 0"] by (auto simp: bzero_def)

section \<open>The allocator\<close>

definition IPB :: nat where "IPB = 16"

text \<open>A disk as \<open>mkfs\<close> lays it out, small enough for one block of bitmap: boot block, superblock, log, inodes,
  bitmap, data.  The blocks before the data blocks are marked in use.\<close>

definition fs_layout :: "superblock \<Rightarrow> uint \<Rightarrow> bool" where
  "fs_layout sb start \<longleftrightarrow> start = sb_logstart sb \<and> unat start + LOGSIZE \<le> unat (sb_inodestart sb) \<and>
    unat (sb_inodestart sb) + unat (sb_ninodes sb) div IPB < unat (sb_bmapstart sb) \<and>
    sb_bmapstart sb < sb_size sb \<and> unat (sb_size sb) \<le> BPB"

definition used :: "superblock \<Rightarrow> logst \<Rightarrow> uint \<Rightarrow> bool" where
  "used sb st b \<longleftrightarrow> bit_used (lview st (sb_bmapstart sb)) (unat b)"

definition data_block :: "superblock \<Rightarrow> uint \<Rightarrow> bool" where
  "data_block sb b \<longleftrightarrow> sb_bmapstart sb < b \<and> b < sb_size sb"

definition disk_ok :: "superblock \<Rightarrow> logst \<Rightarrow> bool" where
  "disk_ok sb st \<longleftrightarrow> fs_layout sb (log_start st) \<and> (\<forall>bn. length (lview st bn) = BSIZE) \<and>
    (\<forall>b \<le> sb_bmapstart sb. used sb st b)"

lemma outside_logI: "unat start + LOGSIZE \<le> unat bn \<Longrightarrow> outside_log start (bn :: uint)"
  by (simp add: outside_log_def unat_sub word_le_nat_alt)

lemma disk_okD:
  assumes "disk_ok sb st"
  shows "length (lview st bn) = BSIZE" "fs_layout sb (log_start st)" "b \<le> sb_bmapstart sb \<Longrightarrow> used sb st b"
    "sb_bmapstart sb \<le> b \<Longrightarrow> outside_log (log_start st) b" "unat (sb_size sb) \<le> BPB" "sb_bmapstart sb < sb_size sb"
  using assms by (auto simp: disk_ok_def fs_layout_def word_le_nat_alt intro!: outside_logI)

lemma data_block_facts:
  assumes "disk_ok sb st" "data_block sb b"
  shows "outside_log (log_start st) b" "b \<noteq> sb_bmapstart sb" "b \<noteq> 0"
  using disk_okD(4) [OF assms(1), of b] assms(2) by (auto simp: data_block_def)

lemma find_first:
  assumes "find P [0..<n] = Some i"
  shows "P i" "i < n"
  using assms by (auto simp: find_Some_iff)

lemma ltouch_disk_ok:
  assumes "disk_ok sb s" "ltouch H W s t" "\<And>b. used sb s b \<Longrightarrow> used sb t b" "\<And>bn. bn \<in> W \<Longrightarrow> length (lview t bn) = BSIZE"
  shows "disk_ok sb t"
proof -
  have "length (lview t bn) = BSIZE" for bn
    using assms(1,2,4) by (cases "bn \<in> W") (auto simp: disk_ok_def ltouch_def)
  then show ?thesis using assms(1-3) by (auto simp: disk_ok_def ltouch_def lsame_def)
qed

definition set_used :: "nat \<Rightarrow> block \<Rightarrow> block" where
  "set_used bi d = d[bi div 8 := d ! (bi div 8) OR bit_mask bi]"

text \<open>The blocks of the log that are taken once the bitmap block is in it.\<close>

definition lused :: "superblock \<Rightarrow> logst \<Rightarrow> nat" where
  "lused sb st = card (insert (sb_bmapstart sb) (set (lh st)))"

lemma lused_length:
  assumes "log_inv st H"
  shows "length (lh st) \<le> lused sb st" "sb_bmapstart sb \<in> set (lh st) \<Longrightarrow> length (lh st) = lused sb st"
proof -
  have l: "length (lh st) = card (set (lh st))" using log_invD(2) [OF assms] by (simp add: distinct_card)
  show "length (lh st) \<le> lused sb st" unfolding lused_def l by (rule card_insert_le)
  show "length (lh st) = lused sb st" if "sb_bmapstart sb \<in> set (lh st)"
    using that l by (simp add: lused_def insert_absorb)
qed

lemma ltouch_lused:
  assumes "ltouch H W st t" "finite W"
  shows "lused sb t \<le> lused sb st + card (W - {sb_bmapstart sb})"
proof -
  have "insert (sb_bmapstart sb) (set (lh t)) \<subseteq> insert (sb_bmapstart sb) (set (lh st)) \<union> (W - {sb_bmapstart sb})"
    using assms(1) by (auto simp: ltouch_def)
  then have "lused sb t \<le> card (insert (sb_bmapstart sb) (set (lh st)) \<union> (W - {sb_bmapstart sb}))"
    unfolding lused_def using assms(2) by (intro card_mono) auto
  also have "\<dots> \<le> lused sb st + card (W - {sb_bmapstart sb})" unfolding lused_def by (rule card_Un_le)
  finally show ?thesis .
qed

lemma balloc_ok:
  assumes inv: "log_inv st H" and ok: "disk_ok sb st" and H: "sb_bmapstart sb \<notin> H" "\<And>h. h \<in> H \<Longrightarrow> used sb st h"
    and room: "lused sb st + card H + 1 < NBUF" and dev: "dev = log_dev st"
  shows "\<exists>r t. balloc dev sb st = Inr (r, t) \<and> log_inv t H \<and> disk_ok sb t \<and>
    (r = 0 \<and> lview t = lview st \<and> lh t = lh st \<and> ltouch H {} st t \<and> (\<forall>b < sb_size sb. used sb st b) \<or>
     data_block sb r \<and> \<not> used sb st r \<and> (\<forall>b. used sb t b \<longleftrightarrow> b = r \<or> used sb st b) \<and> lview t r = replicate BSIZE 0 \<and>
       ltouch H {sb_bmapstart sb, r} st t \<and> {sb_bmapstart sb, r} \<subseteq> set (lh t))"
proof -
  let ?bm = "sb_bmapstart sb" and ?n = "unat (sb_size sb)"
  note L = disk_okD [OF ok] and lu = lused_length(1) [OF inv, of sb]
  have n: "0 < ?n" "?n \<le> BPB" using L(5,6) by (simp_all add: word_less_nat_alt)
  have one: "(?n + BPB - 1) div BPB = 1" using n by (simp add: BPB_def div_nat_eqI)
  have bm: "BBLOCK 0 sb = ?bm" by (simp add: BBLOCK_def)
  have eq: "balloc dev sb st = balloc_loop dev sb [0] st" unfolding balloc_def one by simp
  have mn: "min BPB ?n = ?n" using n by simp
  let ?d = "lview st ?bm"
  have out: "outside_log (log_start st) ?bm" by (rule L(4)) simp
  show ?thesis
  proof (cases "find (\<lambda>bi. \<not> bit_used ?d bi) [0..<?n]")
    case None
    obtain b t u where t: "lread dev ?bm st = Inr (b, t)" "ldata b t = ?d" "lrelse b t = Inr u" "log_inv u H"
      "lview u = lview st" "lh u = lh st" "ltouch H {} st u"
      using lread_relse [OF inv H(1) _ dev] room lu by auto
    have "disk_ok sb u" using ok t(5,7) by (simp add: disk_ok_def used_def ltouch_def lsame_def)
    moreover have "used sb st b" if "b < sb_size sb" for b
      using None that by (auto simp: find_None_iff used_def word_less_nat_alt)
    moreover have "balloc dev sb st = Inr (0, u)" using t(1-3) None unfolding eq by (simp add: bm mn Let_def)
    ultimately show ?thesis using t(4-7) by blast
  next
    case (Some i)
    have i: "\<not> bit_used ?d i" "i < ?n" using find_first [OF Some] by auto
    let ?r = "of_nat i :: uint"
    have ui: "unat ?r = i" using i(2) n by (simp add: unat_of_nat BPB_def)
    have r: "\<not> used sb st ?r" using i(1) by (simp add: used_def ui)
    then have "\<not> ?r \<le> ?bm" using L(3) by blast
    then have rd: "data_block sb ?r" "?r \<notin> H"
      using r i(2) H(2) ui by (auto simp: data_block_def not_le) (simp add: word_less_nat_alt)
    have ne: "?r \<noteq> ?bm" and outr: "outside_log (log_start st) ?r" using data_block_facts [OF ok rd(1)] by auto
    obtain b t u v where v: "lread dev ?bm st = Inr (b, t)" "ldata b t = ?d"
      "log_write b (lset b (set_used i ?d) t) = Inr u" "lrelse b u = Inr v" "log_inv v H"
      "lview v = (lview st)(?bm := set_used i ?d)" "?bm \<in> set (lh v)" "ltouch H {?bm} st v"
      using lread_modify [OF inv H(1) _ dev out, where f = "set_used i"] room lu by auto
    have "length (lh v) \<le> lused sb st" using ltouch_lused [OF v(8), of sb] lused_length(2) [OF v(5,7)] by simp
    moreover have "log_start v = log_start st" "log_dev v = log_dev st" using v(8) by (simp_all add: ltouch_def lsame_def)
    ultimately obtain w where w: "bzero dev ?r v = Inr w" "log_inv w H" "lview w = (lview v)(?r := replicate BSIZE 0)"
      "?r \<in> set (lh w)" "ltouch H {?r} v w"
      using bzero_ok [OF v(5) rd(2), of dev] room outr dev by auto
    have tch: "ltouch H {?bm, ?r} st w" by (rule ltouch_mono [OF ltouch_trans [OF v(8) w(5)]]) simp
    have "i div 8 < length ?d" using L(1) i(2) n by (simp add: BSIZE_def BPB_def less_mult_imp_div_less)
    then have us: "used sb w b \<longleftrightarrow> b = ?r \<or> used sb st b" for b
      using bit_used_set [of i ?d "unat b"] ne ui unfolding used_def w(3) v(6) by (auto simp: set_used_def word_unat_eq_iff)
    have "length (lview w bn) = BSIZE" for bn using L(1) unfolding w(3) v(6) by (simp add: set_used_def)
    then have "disk_ok sb w" using us by (intro ltouch_disk_ok [OF ok tch]) auto
    moreover have "balloc dev sb st = Inr (?r, w)"
      using Some v(1-4) w(1) unfolding eq by (simp add: bm mn set_used_def Let_def)
    moreover have "?bm \<in> set (lh w)" using v(7) w(5) by (auto simp: ltouch_def)
    ultimately show ?thesis using rd(1) r us w(2,3,4) tch by auto
  qed
qed

lemma bfree_ok:
  assumes inv: "log_inv st H" and ok: "disk_ok sb st" and H: "sb_bmapstart sb \<notin> H"
    and room: "length (lh st) + card H + 1 < NBUF" and dev: "dev = log_dev st" and b: "data_block sb b" "used sb st b"
  shows "\<exists>t. bfree dev sb b st = Inr t \<and> log_inv t H \<and> disk_ok sb t \<and> (\<forall>c. used sb t c \<longleftrightarrow> c \<noteq> b \<and> used sb st c) \<and>
    ltouch H {sb_bmapstart sb} st t \<and> sb_bmapstart sb \<in> set (lh t)"
proof -
  let ?bm = "sb_bmapstart sb" and ?i = "unat b"
  let ?d = "lview st ?bm" and ?f = "\<lambda>d. d[?i div 8 := d ! (?i div 8) AND NOT (bit_mask ?i)]"
  note L = disk_okD [OF ok]
  have i: "?i < BPB" using b(1) L(5) by (simp add: data_block_def word_less_nat_alt)
  have bm: "BBLOCK ?i sb = ?bm" "?i mod BPB = ?i" using i by (simp_all add: BBLOCK_def)
  have out: "outside_log (log_start st) ?bm" by (rule L(4)) simp
  obtain p t u v where v: "lread dev ?bm st = Inr (p, t)" "ldata p t = ?d" "log_write p (lset p (?f ?d) t) = Inr u" "lrelse p u = Inr v"
    "log_inv v H" "lview v = (lview st)(?bm := ?f ?d)" "?bm \<in> set (lh v)" "ltouch H {?bm} st v"
    using lread_modify [OF inv H _ dev out, where f = ?f] room by auto
  have "?i div 8 < length ?d" using L(1) i by (simp add: BSIZE_def BPB_def less_mult_imp_div_less)
  then have us: "used sb v c \<longleftrightarrow> c \<noteq> b \<and> used sb st c" for c
    using bit_used_clear [of ?i ?d "unat c"] unfolding used_def v(6) by (auto simp: word_unat_eq_iff)
  have "length (lview v bn) = BSIZE" for bn using L(1) unfolding v(6) by simp
  moreover have "used sb v c" if "c \<le> ?bm" for c
  proof -
    have "c \<noteq> b" using that b(1) by (auto simp: data_block_def)
    then show ?thesis unfolding us using L(3) [OF that] by blast
  qed
  ultimately have "disk_ok sb v" using ok v(8) by (simp add: disk_ok_def ltouch_def lsame_def)
  moreover have "bfree dev sb b st = Inr v" using b(2) v(1-4) by (simp add: bfree_def bm used_def Let_def)
  ultimately show ?thesis using us v(5,7,8) by blast
qed

end
