(* ===== verification/Inode.thy ===== *)
theory Inode
  imports Balloc
begin

text \<open>Inodes (\<open>kernel/fs.c\<close>, \<open>struct inode\<close> of \<open>kernel/file.h\<close>): their copies on disk, the table of inodes in
  memory with its reference counts, and the contents of a file.

  The functions that work on one inode take and return the structure their pointer designates; those that
  work on the table take its index.  \<open>readi\<close> and \<open>writei\<close> copy through \<open>either_copyout\<close> and \<open>either_copyin\<close>,
  which are parameters here: a user address space, or a variable on the kernel stack.  The first lines of
  \<open>readi\<close> and \<open>writei\<close> rule out wrap-around of \<open>off + n\<close>, so inside the loops offsets and counts are natural
  numbers.\<close>

section \<open>Inodes on disk\<close>

definition NDIRECT :: nat where "NDIRECT = 12"
definition NINDIRECT :: nat where "NINDIRECT = 256"
definition MAXFILE :: nat where "MAXFILE = NDIRECT + NINDIRECT"
definition NINODE :: nat where "NINODE = 50"
definition ROOTINO :: uint where "ROOTINO = 1"
definition ROOTDEV :: uint where "ROOTDEV = 1"
definition T_DIR :: uint16 where "T_DIR = 1"
definition T_FILE :: uint16 where "T_FILE = 2"
definition T_DEVICE :: uint16 where "T_DEVICE = 3"

record dinode =
  di_type :: uint16
  di_major :: uint16
  di_minor :: uint16
  di_nlink :: uint16
  di_size :: uint
  di_addrs :: "uint list"

definition IBLOCK :: "uint \<Rightarrow> superblock \<Rightarrow> uint" where
  "IBLOCK i sb = of_nat (unat i div IPB) + sb_inodestart sb"

definition inode_off :: "uint \<Rightarrow> nat" where
  "inode_off inum = 64 * (unat inum mod IPB)"

definition rd_dinode :: "block \<Rightarrow> nat \<Rightarrow> dinode" where
  "rd_dinode d i = \<lparr>di_type = rd16 d i, di_major = rd16 d (i + 2), di_minor = rd16 d (i + 4), di_nlink = rd16 d (i + 6),
    di_size = rd32 d (i + 8), di_addrs = map (\<lambda>k. rd32 d (i + 12 + 4 * k)) [0..<NDIRECT + 1]\<rparr>"

definition wr_dinode :: "nat \<Rightarrow> dinode \<Rightarrow> block \<Rightarrow> block" where
  "wr_dinode i di d =
    wr32s (i + 12) (di_addrs di) (wr32 (i + 8) (di_size di) (wr16 (i + 6) (di_nlink di) (wr16 (i + 4) (di_minor di)
      (wr16 (i + 2) (di_major di) (wr16 i (di_type di) d)))))"

section \<open>The table of inodes\<close>

record inode =
  i_dev :: uint
  i_inum :: uint
  i_ref :: int
  i_lock :: sleeplock
  i_valid :: bool
  din :: dinode

record fsst =
  fs_log :: logst
  fs_sb :: superblock
  itable :: "nat \<Rightarrow> inode"

definition iinit :: "(nat \<Rightarrow> inode) \<Rightarrow> nat \<Rightarrow> inode" where
  "iinit tab = (\<lambda>i. if i < NINODE then (tab i)\<lparr>i_lock := initsleeplock ''inode''\<rparr> else tab i)"

definition upd_inode :: "nat \<Rightarrow> (inode \<Rightarrow> inode) \<Rightarrow> fsst \<Rightarrow> fsst" where
  "upd_inode ip f fs = fs\<lparr>itable := (itable fs)(ip := f (itable fs ip))\<rparr>"

definition fs_pid :: "fsst \<Rightarrow> int" where
  "fs_pid fs = cur_pid (bc (fs_log fs))"

text \<open>One pass over the table: the entry that holds the inode, or else the first free entry.\<close>

fun iget_scan :: "uint \<Rightarrow> uint \<Rightarrow> (nat \<Rightarrow> inode) \<Rightarrow> nat list \<Rightarrow> nat option \<Rightarrow> nat + nat option" where
  "iget_scan dev inum tab [] emp = Inr emp"
| "iget_scan dev inum tab (i # is) emp =
    (if i_ref (tab i) > 0 \<and> i_dev (tab i) = dev \<and> i_inum (tab i) = inum then Inl i
     else iget_scan dev inum tab is (if emp = None \<and> i_ref (tab i) = 0 then Some i else emp))"

definition iget :: "uint \<Rightarrow> uint \<Rightarrow> fsst \<Rightarrow> (nat \<times> fsst) result" where
  "iget dev inum fs =
    (case iget_scan dev inum (itable fs) [0..<NINODE] None of
       Inl i \<Rightarrow> Inr (i, upd_inode i (\<lambda>x. x\<lparr>i_ref := i_ref x + 1\<rparr>) fs)
     | Inr None \<Rightarrow> Inl (Panic ''iget: no inodes'')
     | Inr (Some i) \<Rightarrow> Inr (i, upd_inode i (\<lambda>x. x\<lparr>i_dev := dev, i_inum := inum, i_ref := 1, i_valid := False\<rparr>) fs))"

definition idup :: "nat \<Rightarrow> fsst \<Rightarrow> nat \<times> fsst" where
  "idup ip fs = (ip, upd_inode ip (\<lambda>x. x\<lparr>i_ref := i_ref x + 1\<rparr>) fs)"

text \<open>\<open>ialloc\<close>: the loop over \<open>inum = 1 .. sb.ninodes - 1\<close>; the null pointer is \<open>None\<close>.\<close>

fun ialloc_loop :: "uint \<Rightarrow> uint16 \<Rightarrow> nat list \<Rightarrow> fsst \<Rightarrow> (nat option \<times> fsst) result" where
  "ialloc_loop dev type [] fs = Inr (None, fs)"
| "ialloc_loop dev type (inum # is) fs =
    rbind (lread dev (IBLOCK (of_nat inum) (fs_sb fs)) (fs_log fs)) (\<lambda>(bp, st1).
    let d = ldata bp st1;
        off = inode_off (of_nat inum)
    in if rd16 d off = 0 then
         rbind (log_write bp (lset bp (wr16 off type (take off d @ replicate 64 0 @ drop (off + 64) d)) st1)) (\<lambda>st2.
         rbind (lrelse bp st2) (\<lambda>st3.
         rbind (iget dev (of_nat inum) (fs\<lparr>fs_log := st3\<rparr>)) (\<lambda>(ip, fs1).
         Inr (Some ip, fs1))))
       else rbind (lrelse bp st1) (\<lambda>st2. ialloc_loop dev type is (fs\<lparr>fs_log := st2\<rparr>)))"

definition ialloc :: "uint \<Rightarrow> uint16 \<Rightarrow> fsst \<Rightarrow> (nat option \<times> fsst) result" where
  "ialloc dev type fs = ialloc_loop dev type [1..<unat (sb_ninodes (fs_sb fs))] fs"

definition iupdate :: "superblock \<Rightarrow> inode \<Rightarrow> logst \<Rightarrow> logst result" where
  "iupdate sb ip st =
    rbind (lread (i_dev ip) (IBLOCK (i_inum ip) sb) st) (\<lambda>(bp, st1).
    rbind (log_write bp (lset bp (wr_dinode (inode_off (i_inum ip)) (din ip) (ldata bp st1)) st1)) (\<lambda>st2.
    lrelse bp st2))"

definition ilock :: "nat \<Rightarrow> fsst \<Rightarrow> fsst result" where
  "ilock ip fs =
    (let x = itable fs ip
     in if i_ref x < 1 then Inl (Panic ''ilock'')
        else rbind (acquiresleep (fs_pid fs) (i_lock x)) (\<lambda>lk.
          if \<not> i_valid x then
            rbind (lread (i_dev x) (IBLOCK (i_inum x) (fs_sb fs)) (fs_log fs)) (\<lambda>(bp, st1).
            let di = rd_dinode (ldata bp st1) (inode_off (i_inum x))
            in rbind (lrelse bp st1) (\<lambda>st2.
               if di_type di = 0 then Inl (Panic ''ilock: no type'')
               else Inr (upd_inode ip (\<lambda>_. x\<lparr>i_lock := lk, din := di, i_valid := True\<rparr>) (fs\<lparr>fs_log := st2\<rparr>))))
          else Inr (upd_inode ip (\<lambda>_. x\<lparr>i_lock := lk\<rparr>) fs)))"

definition iunlock :: "nat \<Rightarrow> fsst \<Rightarrow> fsst result" where
  "iunlock ip fs =
    (let x = itable fs ip
     in if \<not> holdingsleep (fs_pid fs) (i_lock x) \<or> i_ref x < 1 then Inl (Panic ''iunlock'')
        else Inr (upd_inode ip (\<lambda>_. x\<lparr>i_lock := releasesleep (i_lock x)\<rparr>) fs))"

section \<open>Contents\<close>

definition set_addr :: "nat \<Rightarrow> uint \<Rightarrow> inode \<Rightarrow> inode" where
  "set_addr i a ip = ip\<lparr>din := (din ip)\<lparr>di_addrs := (di_addrs (din ip))[i := a]\<rparr>\<rparr>"

text \<open>The entry \<open>i\<close> of \<open>ip->addrs\<close>, allocating a block for it if it is empty: the direct blocks and the indirect
  block of \<open>bmap\<close>.\<close>

definition bmap_slot :: "superblock \<Rightarrow> inode \<Rightarrow> nat \<Rightarrow> logst \<Rightarrow> (uint \<times> inode \<times> logst) result" where
  "bmap_slot sb ip i st =
    (let addr = di_addrs (din ip) ! i
     in if addr = 0 then
          rbind (balloc (i_dev ip) sb st) (\<lambda>(addr, st1).
          if addr = 0 then Inr (0, ip, st1) else Inr (addr, set_addr i addr ip, st1))
        else Inr (addr, ip, st))"

text \<open>The entry \<open>bn\<close> of the indirect block \<open>addr\<close>.\<close>

definition bmap_entry :: "superblock \<Rightarrow> inode \<Rightarrow> uint \<Rightarrow> nat \<Rightarrow> logst \<Rightarrow> (uint \<times> logst) result" where
  "bmap_entry sb ip addr bn st =
    rbind (lread (i_dev ip) addr st) (\<lambda>(bp, st1).
    let a = rd32 (ldata bp st1) (4 * bn)
    in if a = 0 then
         rbind (balloc (i_dev ip) sb st1) (\<lambda>(addr, st2).
         rbind (if addr \<noteq> 0 then log_write bp (lset bp (wr32 (4 * bn) addr (ldata bp st2)) st2) else Inr st2) (\<lambda>st3.
         rbind (lrelse bp st3) (\<lambda>st4. Inr (addr, st4))))
       else rbind (lrelse bp st1) (\<lambda>st2. Inr (a, st2)))"

definition bmap :: "superblock \<Rightarrow> inode \<Rightarrow> nat \<Rightarrow> logst \<Rightarrow> (uint \<times> inode \<times> logst) result" where
  "bmap sb ip bn st =
    (if bn < NDIRECT then bmap_slot sb ip bn st
     else
       let bn = bn - NDIRECT
       in if bn < NINDIRECT then
            rbind (bmap_slot sb ip NDIRECT st) (\<lambda>(addr, ip, st).
            if addr = 0 then Inr (0, ip, st)
            else rbind (bmap_entry sb ip addr bn st) (\<lambda>(addr, st). Inr (addr, ip, st)))
          else Inl (Panic ''bmap: out of range''))"

text \<open>\<open>itrunc\<close>: its loop over the direct blocks, and the indirect block.\<close>

definition itrunc_dir :: "superblock \<Rightarrow> nat list \<Rightarrow> inode \<times> logst \<Rightarrow> (inode \<times> logst) result" where
  "itrunc_dir sb = rfold (\<lambda>i (ip, st).
    if di_addrs (din ip) ! i \<noteq> 0 then
      rbind (bfree (i_dev ip) sb (di_addrs (din ip) ! i) st) (\<lambda>st1. Inr (set_addr i 0 ip, st1))
    else Inr (ip, st))"

definition itrunc_entries :: "superblock \<Rightarrow> uint \<Rightarrow> nat \<Rightarrow> nat list \<Rightarrow> logst \<Rightarrow> logst result" where
  "itrunc_entries sb dev bp = rfold (\<lambda>j st.
    let a = rd32 (ldata bp st) (4 * j)
    in if a \<noteq> 0 then bfree dev sb a st else Inr st)"

definition itrunc_ind :: "superblock \<Rightarrow> inode \<Rightarrow> logst \<Rightarrow> (inode \<times> logst) result" where
  "itrunc_ind sb ip st =
    (let ind = di_addrs (din ip) ! NDIRECT
     in if ind \<noteq> 0 then
          rbind (lread (i_dev ip) ind st) (\<lambda>(bp, st2).
          rbind (itrunc_entries sb (i_dev ip) bp [0..<NINDIRECT] st2) (\<lambda>st3.
          rbind (lrelse bp st3) (\<lambda>st4.
          rbind (bfree (i_dev ip) sb ind st4) (\<lambda>st5.
          Inr (set_addr NDIRECT 0 ip, st5)))))
        else Inr (ip, st))"

definition itrunc :: "superblock \<Rightarrow> inode \<Rightarrow> logst \<Rightarrow> (inode \<times> logst) result" where
  "itrunc sb ip st =
    rbind (itrunc_dir sb [0..<NDIRECT] (ip, st)) (\<lambda>(ip1, st1).
    rbind (itrunc_ind sb ip1 st1) (\<lambda>(ip2, st2).
    let ip3 = ip2\<lparr>din := (din ip2)\<lparr>di_size := 0\<rparr>\<rparr>
    in rbind (iupdate sb ip3 st2) (\<lambda>st3. Inr (ip3, st3))))"

definition iput :: "nat \<Rightarrow> fsst \<Rightarrow> fsst result" where
  "iput ip fs =
    (let x = itable fs ip
     in rbind
       (if i_ref x = 1 \<and> i_valid x \<and> di_nlink (din x) = 0 then
          rbind (acquiresleep (fs_pid fs) (i_lock x)) (\<lambda>lk.
          rbind (itrunc (fs_sb fs) (x\<lparr>i_lock := lk\<rparr>) (fs_log fs)) (\<lambda>(x1, st1).
          let x2 = x1\<lparr>din := (din x1)\<lparr>di_type := 0\<rparr>\<rparr>
          in rbind (iupdate (fs_sb fs) x2 st1) (\<lambda>st2.
             Inr (upd_inode ip (\<lambda>_. x2\<lparr>i_valid := False, i_lock := releasesleep (i_lock x2)\<rparr>) (fs\<lparr>fs_log := st2\<rparr>)))))
        else Inr fs) (\<lambda>fs1.
     Inr (upd_inode ip (\<lambda>x. x\<lparr>i_ref := i_ref x - 1\<rparr>) fs1)))"

definition iunlockput :: "nat \<Rightarrow> fsst \<Rightarrow> fsst result" where
  "iunlockput ip fs = rbind (iunlock ip fs) (iput ip)"

record fstat =
  st_dev :: uint
  st_ino :: uint
  st_type :: uint16
  st_nlink :: uint16
  st_size :: uint64

definition stati :: "inode \<Rightarrow> fstat" where
  "stati ip = \<lparr>st_dev = i_dev ip, st_ino = i_inum ip, st_type = di_type (din ip), st_nlink = di_nlink (din ip),
    st_size = ucast (di_size (din ip))\<rparr>"

lemma chunk_pos: "0 < left \<Longrightarrow> 0 < min left (BSIZE - off mod BSIZE)"
  by (simp add: BSIZE_def)

function readi_loop :: "(uint64 \<Rightarrow> byte list \<Rightarrow> 'm \<Rightarrow> (int \<times> 'm) result) \<Rightarrow> superblock \<Rightarrow> nat \<Rightarrow> nat \<Rightarrow> uint64 \<Rightarrow> nat \<Rightarrow>
    inode \<Rightarrow> logst \<Rightarrow> 'm \<Rightarrow> (int \<times> inode \<times> logst \<times> 'm) result" where
  "readi_loop copy sb left off dst tot ip st m =
    (if left = 0 then Inr (int tot, ip, st, m)
     else rbind (bmap sb ip (off div BSIZE) st) (\<lambda>(addr, ip1, st1).
       if addr = 0 then Inr (int tot, ip1, st1, m)
       else rbind (lread (i_dev ip1) addr st1) (\<lambda>(bp, st2).
         let k = min left (BSIZE - off mod BSIZE)
         in rbind (copy dst (take k (drop (off mod BSIZE) (ldata bp st2))) m) (\<lambda>(r, m1).
            rbind (lrelse bp st2) (\<lambda>st3.
            if r = -1 then Inr (-1, ip1, st3, m1)
            else readi_loop copy sb (left - k) (off + k) (dst + of_nat k) (tot + k) ip1 st3 m1)))))"
  by pat_completeness auto
termination
  by (relation "measure (\<lambda>(_, _, left, _). left)") (auto simp: BSIZE_def)

declare readi_loop.simps [simp del]

definition readi :: "(uint64 \<Rightarrow> byte list \<Rightarrow> 'm \<Rightarrow> (int \<times> 'm) result) \<Rightarrow> superblock \<Rightarrow> inode \<Rightarrow> uint64 \<Rightarrow> uint \<Rightarrow> uint \<Rightarrow>
    logst \<Rightarrow> 'm \<Rightarrow> (int \<times> inode \<times> logst \<times> 'm) result" where
  "readi copy sb ip dst off n st m =
    (if off > di_size (din ip) \<or> off + n < off then Inr (0, ip, st, m)
     else let n = (if off + n > di_size (din ip) then di_size (din ip) - off else n)
          in readi_loop copy sb (unat n) (unat off) dst 0 ip st m)"

function writei_loop :: "(uint64 \<Rightarrow> nat \<Rightarrow> (int \<times> byte list) result) \<Rightarrow> superblock \<Rightarrow> nat \<Rightarrow> nat \<Rightarrow> uint64 \<Rightarrow> nat \<Rightarrow>
    inode \<Rightarrow> logst \<Rightarrow> (nat \<times> inode \<times> logst) result" where
  "writei_loop copy sb left off src tot ip st =
    (if left = 0 then Inr (tot, ip, st)
     else rbind (bmap sb ip (off div BSIZE) st) (\<lambda>(addr, ip1, st1).
       if addr = 0 then Inr (tot, ip1, st1)
       else rbind (lread (i_dev ip1) addr st1) (\<lambda>(bp, st2).
         let k = min left (BSIZE - off mod BSIZE)
         in rbind (copy src k) (\<lambda>(r, bs).
            let o' = off mod BSIZE;
                st3 = lset bp (take o' (ldata bp st2) @ bs @ drop (o' + length bs) (ldata bp st2)) st2
            in if r = -1 then rbind (lrelse bp st3) (\<lambda>st4. Inr (tot, ip1, st4))
               else rbind (log_write bp st3) (\<lambda>st4.
                    rbind (lrelse bp st4) (\<lambda>st5.
                    writei_loop copy sb (left - k) (off + k) (src + of_nat k) (tot + k) ip1 st5))))))"
  by pat_completeness auto
termination
  by (relation "measure (\<lambda>(_, _, left, _). left)") (auto simp: BSIZE_def)

declare writei_loop.simps [simp del]

definition writei :: "(uint64 \<Rightarrow> nat \<Rightarrow> (int \<times> byte list) result) \<Rightarrow> superblock \<Rightarrow> inode \<Rightarrow> uint64 \<Rightarrow> uint \<Rightarrow> uint \<Rightarrow>
    logst \<Rightarrow> (int \<times> inode \<times> logst) result" where
  "writei copy sb ip src off n st =
    (if off > di_size (din ip) \<or> off + n < off then Inr (-1, ip, st)
     else if off + n > of_nat (MAXFILE * BSIZE) then Inr (-1, ip, st)
     else rbind (writei_loop copy sb (unat n) (unat off) src 0 ip st) (\<lambda>(tot, ip1, st1).
          let off1 = off + of_nat tot;
              ip2 = (if off1 > di_size (din ip1) then ip1\<lparr>din := (din ip1)\<lparr>di_size := off1\<rparr>\<rparr> else ip1)
          in rbind (iupdate sb ip2 st1) (\<lambda>st2. Inr (int tot, ip2, st2))))"

end
