(* ===== verification/Content.thy ===== *)
theory Content
  imports Inode
begin

text \<open>What \<open>bmap\<close>, \<open>readi\<close>, \<open>writei\<close> and \<open>itrunc\<close> do to the contents of a file.  A file is seen as the map
  \<open>fblock\<close> from the index of a block in the file to its number on disk; \<open>Q\<close> is the set of data blocks in use
  elsewhere (other files, directories), which no operation on this file may change.\<close>

section \<open>The blocks of a file\<close>

definition fblock :: "logst \<Rightarrow> uint list \<Rightarrow> nat \<Rightarrow> uint" where
  "fblock st ad k =
    (if k < NDIRECT then ad ! k
     else if ad ! NDIRECT = 0 then 0 else rd32 (lview st (ad ! NDIRECT)) (4 * (k - NDIRECT)))"

definition fblocks :: "logst \<Rightarrow> uint list \<Rightarrow> uint set" where
  "fblocks st ad = {b. b \<noteq> 0 \<and> (b = ad ! NDIRECT \<or> (\<exists>k < MAXFILE. b = fblock st ad k))}"

definition file_ok :: "superblock \<Rightarrow> logst \<Rightarrow> uint list \<Rightarrow> uint set \<Rightarrow> bool" where
  "file_ok sb st ad Q \<longleftrightarrow> disk_ok sb st \<and> length ad = NDIRECT + 1 \<and>
    (\<forall>b \<in> fblocks st ad \<union> Q. data_block sb b \<and> used sb st b) \<and> fblocks st ad \<inter> Q = {} \<and>
    (\<forall>k < MAXFILE. fblock st ad k \<noteq> 0 \<longrightarrow> fblock st ad k \<noteq> ad ! NDIRECT) \<and>
    (\<forall>j < MAXFILE. \<forall>k < MAXFILE. fblock st ad j = fblock st ad k \<longrightarrow> fblock st ad j \<noteq> 0 \<longrightarrow> j = k)"

lemma file_okD:
  assumes "file_ok sb st ad Q"
  shows "disk_ok sb st" "length ad = NDIRECT + 1" "b \<in> fblocks st ad \<union> Q \<Longrightarrow> data_block sb b \<and> used sb st b"
    "b \<in> Q \<Longrightarrow> b \<notin> fblocks st ad" "k < MAXFILE \<Longrightarrow> fblock st ad k \<noteq> 0 \<Longrightarrow> fblock st ad k \<noteq> ad ! NDIRECT"
    "j < MAXFILE \<Longrightarrow> k < MAXFILE \<Longrightarrow> fblock st ad j = fblock st ad k \<Longrightarrow> fblock st ad j \<noteq> 0 \<Longrightarrow> j = k"
  using assms unfolding file_ok_def by blast+

lemma fblocksI:
  "k < MAXFILE \<Longrightarrow> fblock st ad k \<noteq> 0 \<Longrightarrow> fblock st ad k \<in> fblocks st ad"
  "ad ! NDIRECT \<noteq> 0 \<Longrightarrow> ad ! NDIRECT \<in> fblocks st ad"
  by (auto simp: fblocks_def)

text \<open>A change elsewhere on the disk.\<close>

lemma fblock_cong: "lview t (ad ! NDIRECT) = lview st (ad ! NDIRECT) \<Longrightarrow> fblock t ad = fblock st ad"
  by (rule ext) (simp add: fblock_def)

lemma fblocks_cong: "fblock t ad = fblock st ad \<Longrightarrow> fblocks t ad = fblocks st ad"
  by (simp add: fblocks_def)

lemma file_ok_cong:
  assumes "file_ok sb st ad Q" "disk_ok sb t" "fblock t ad = fblock st ad" "\<And>b. used sb st b \<Longrightarrow> used sb t b"
  shows "file_ok sb t ad Q"
  using assms unfolding file_ok_def fblocks_cong [OF assms(3)] by auto

text \<open>\<open>t\<close> is \<open>st\<close> with one more block \<open>r\<close> allocated, as \<open>balloc\<close> does it.\<close>

definition gained :: "superblock \<Rightarrow> logst \<Rightarrow> uint \<Rightarrow> logst \<Rightarrow> bool" where
  "gained sb st r t \<longleftrightarrow> data_block sb r \<and> \<not> used sb st r \<and> (\<forall>b. used sb t b \<longleftrightarrow> b = r \<or> used sb st b) \<and>
    lview t r = replicate BSIZE 0 \<and> (\<forall>bn. bn \<notin> {sb_bmapstart sb, r} \<longrightarrow> lview t bn = lview st bn) \<and> disk_ok sb t"

lemma gained_frame:
  assumes "file_ok sb st ad Q" "gained sb st r t"
  shows "b \<in> fblocks st ad \<union> Q \<Longrightarrow> lview t b = lview st b" "fblock t ad = fblock st ad" "file_ok sb t ad Q"
    "r \<notin> fblocks t ad" "r \<notin> Q" "data_block sb r" "used sb t r" "r \<noteq> 0"
proof -
  show v: "lview t b = lview st b" if "b \<in> fblocks st ad \<union> Q" for b
    using file_okD(3) [OF assms(1) that] data_block_facts(2) [OF file_okD(1) [OF assms(1)]] assms(2) unfolding gained_def by blast
  have d: "fblock t ad k = fblock st ad k" for k
  proof (cases "ad ! NDIRECT = 0")
    case False
    then show ?thesis using v fblocksI(2) by (simp add: fblock_def)
  qed (simp add: fblock_def)
  then show f: "fblock t ad = fblock st ad" by auto
  show "file_ok sb t ad Q"
    by (rule file_ok_cong [OF assms(1) _ f]) (use assms(2) in \<open>auto simp: gained_def\<close>)
  show "r \<notin> fblocks t ad" "r \<notin> Q"
    using file_okD(3) [OF assms(1), of r] assms(2) unfolding fblocks_cong [OF f] gained_def by blast+
  show "data_block sb r" "used sb t r" using assms(2) by (auto simp: gained_def)
  show "r \<noteq> 0" using data_block_facts(3) [of sb t r] assms(2) by (auto simp: gained_def)
qed

text \<open>Entering a new block \<open>r\<close> of the file in its map.\<close>

lemma file_ok_enter:
  assumes ok: "file_ok sb t ad Q" and r: "data_block sb r" "used sb t r" "r \<notin> fblocks t ad" "r \<notin> Q" "r \<noteq> 0"
    and u: "disk_ok sb u" "\<And>b. used sb u b = used sb t b" and k: "k < MAXFILE" "fblock t ad k = 0"
    and ad: "length ad' = NDIRECT + 1" "ad' ! NDIRECT = ad ! NDIRECT"
    and f: "\<And>j. j < MAXFILE \<Longrightarrow> fblock u ad' j = (if j = k then r else fblock t ad j)"
  shows "file_ok sb u ad' Q" "fblocks u ad' = insert r (fblocks t ad)"
proof -
  show fb: "fblocks u ad' = insert r (fblocks t ad)"
    using r(5) k f ad(2) unfolding fblocks_def by (auto split: if_splits)
  have rn: "fblock t ad j \<noteq> r" if "j < MAXFILE" for j using r(3,5) that by (auto simp: fblocks_def)
  have ri: "r \<noteq> ad ! NDIRECT" using r(3,5) by (auto simp: fblocks_def)
  show "file_ok sb u ad' Q"
    unfolding file_ok_def fb ad(2)
  proof (intro conjI allI impI ballI)
    show "data_block sb b" "used sb u b" if "b \<in> insert r (fblocks t ad) \<union> Q" for b
      using that r(1,2) u(2) file_okD(3) [OF ok, of b] by auto
    show "insert r (fblocks t ad) \<inter> Q = {}" using r(4) file_okD(4) [OF ok] by blast
    show "fblock u ad' j \<noteq> ad ! NDIRECT" if "j < MAXFILE" "fblock u ad' j \<noteq> 0" for j
      using that ri file_okD(5) [OF ok, of j] unfolding f [OF that(1)] by (auto split: if_splits)
    show "i = j" if "i < MAXFILE" "j < MAXFILE" "fblock u ad' i = fblock u ad' j" "fblock u ad' i \<noteq> 0" for i j
      using that(3,4) rn [OF that(1)] rn [OF that(2)] file_okD(6) [OF ok that(1,2)]
      unfolding f [OF that(1)] f [OF that(2)] by (auto split: if_splits)
  qed (use u(1) ad(1) in auto)
qed

text \<open>Giving the file an empty indirect block.\<close>

lemma rd32_zeros: "rd32 (replicate n 0) i = 0" if "i + 3 < n"
  using that by (simp add: rd32_def)

lemma file_ok_indirect:
  assumes ok: "file_ok sb t ad Q" and r: "data_block sb r" "used sb t r" "r \<notin> fblocks t ad" "r \<notin> Q" "r \<noteq> 0"
    and ad: "ad ! NDIRECT = 0" and z: "lview t r = replicate BSIZE 0"
  shows "file_ok sb t (ad[NDIRECT := r]) Q" "\<And>k. k < MAXFILE \<Longrightarrow> fblock t (ad[NDIRECT := r]) k = fblock t ad k"
    "fblocks t (ad[NDIRECT := r]) = insert r (fblocks t ad)"
proof -
  let ?ad = "ad[NDIRECT := r]"
  have len: "length ad = NDIRECT + 1" by (rule file_okD(2) [OF ok])
  then have n: "?ad ! NDIRECT = r" by simp
  show f: "fblock t ?ad k = fblock t ad k" if k: "k < MAXFILE" for k
  proof (cases "k < NDIRECT")
    case False
    then have "4 * (k - NDIRECT) + 3 < BSIZE" using k by (simp add: MAXFILE_def NDIRECT_def NINDIRECT_def BSIZE_def)
    then show ?thesis using False n ad r(5) z by (simp add: fblock_def rd32_zeros)
  qed (simp add: fblock_def)
  show fb: "fblocks t ?ad = insert r (fblocks t ad)"
    unfolding fblocks_def n ad using f r(5) by auto
  have rn: "fblock t ad j \<noteq> r" if "j < MAXFILE" for j using r(3,5) that by (auto simp: fblocks_def)
  show "file_ok sb t ?ad Q"
    unfolding file_ok_def fb n
  proof (intro conjI allI impI ballI)
    show "data_block sb b" "used sb t b" if "b \<in> insert r (fblocks t ad) \<union> Q" for b
      using that r(1,2) file_okD(3) [OF ok, of b] by auto
    show "insert r (fblocks t ad) \<inter> Q = {}" using r(4) file_okD(4) [OF ok] by blast
    show "fblock t ?ad j \<noteq> r" if "j < MAXFILE" "fblock t ?ad j \<noteq> 0" for j using rn that f by simp
    show "i = j" if "i < MAXFILE" "j < MAXFILE" "fblock t ?ad i = fblock t ?ad j" "fblock t ?ad i \<noteq> 0" for i j
      using that file_okD(6) [OF ok that(1,2)] f by simp
  qed (use file_okD(1) [OF ok] len in auto)
qed

section \<open>Finding and allocating the blocks of a file\<close>

lemma balloc_gained:
  assumes "log_inv st H" "disk_ok sb st" "sb_bmapstart sb \<notin> H" "\<And>h. h \<in> H \<Longrightarrow> used sb st h"
    "lused sb st + card H + 1 < NBUF" "dev = log_dev st"
  shows "\<exists>r t. balloc dev sb st = Inr (r, t) \<and> log_inv t H \<and> disk_ok sb t \<and> ltouch H ({sb_bmapstart sb, r} - {0}) st t \<and>
    (if r = 0 then lview t = lview st \<and> lh t = lh st \<and> (\<forall>b < sb_size sb. used sb t b) else gained sb st r t)"
proof -
  have bm: "sb_bmapstart sb \<noteq> 0" using assms(2) by (auto simp: disk_ok_def fs_layout_def)
  obtain r t where t: "balloc dev sb st = Inr (r, t)" "log_inv t H" "disk_ok sb t"
    "r = 0 \<and> lview t = lview st \<and> lh t = lh st \<and> ltouch H {} st t \<and> (\<forall>b < sb_size sb. used sb st b) \<or>
     data_block sb r \<and> \<not> used sb st r \<and> (\<forall>b. used sb t b \<longleftrightarrow> b = r \<or> used sb st b) \<and> lview t r = replicate BSIZE 0 \<and>
       ltouch H {sb_bmapstart sb, r} st t"
    using balloc_ok [OF assms] by blast
  show ?thesis
  proof (cases "r = 0")
    case True
    then have "lview t = lview st" "lh t = lh st" "ltouch H {} st t" "\<forall>b < sb_size sb. used sb st b"
      using t(4) data_block_facts(3) [OF assms(2)] by auto
    then show ?thesis using t(1-3) True ltouch_mono [of H "{}" st t] by (auto simp: used_def)
  next
    case False
    then have g: "gained sb st r t" and l: "ltouch H {sb_bmapstart sb, r} st t"
      using t(3,4) by (auto simp: gained_def ltouch_def)
    have "{sb_bmapstart sb, r} - {0} = {sb_bmapstart sb, r}" using False bm by auto
    then show ?thesis using t(1-3) False g l by auto
  qed
qed

text \<open>\<open>addrs\<close> of an inode, and an inode with other \<open>addrs\<close>.\<close>

abbreviation addrs_of :: "inode \<Rightarrow> uint list" where
  "addrs_of ip \<equiv> di_addrs (din ip)"

definition same_but_addrs :: "inode \<Rightarrow> inode \<Rightarrow> bool" where
  "same_but_addrs ip ip' \<longleftrightarrow> (\<exists>ad. ip' = ip\<lparr>din := (din ip)\<lparr>di_addrs := ad\<rparr>\<rparr>)"

lemma same_but_addrsD:
  assumes "same_but_addrs ip ip'"
  shows "i_dev ip' = i_dev ip" "i_inum ip' = i_inum ip" "i_ref ip' = i_ref ip" "i_lock ip' = i_lock ip" "i_valid ip' = i_valid ip"
    "di_size (din ip') = di_size (din ip)" "di_type (din ip') = di_type (din ip)" "di_nlink (din ip') = di_nlink (din ip)"
    "di_major (din ip') = di_major (din ip)" "di_minor (din ip') = di_minor (din ip)"
  using assms by (auto simp: same_but_addrs_def)

lemma same_but_addrs_refl [simp]: "same_but_addrs ip ip"
  unfolding same_but_addrs_def by (rule exI [of _ "addrs_of ip"]) simp

lemma same_but_addrs_set [simp]: "same_but_addrs ip (set_addr i a ip)"
  by (auto simp: same_but_addrs_def set_addr_def)

lemma same_but_addrs_trans: "same_but_addrs a b \<Longrightarrow> same_but_addrs b c \<Longrightarrow> same_but_addrs a c"
  by (auto simp: same_but_addrs_def)

lemma addrs_of_set [simp]: "addrs_of (set_addr i a ip) = (addrs_of ip)[i := a]"
  by (simp add: set_addr_def)

text \<open>What a block lookup may do: allocate block \<open>bn\<close>, and the indirect block, but change nothing that was there.\<close>

definition extends :: "superblock \<Rightarrow> uint set \<Rightarrow> nat set \<Rightarrow> inode \<times> logst \<Rightarrow> inode \<times> logst \<Rightarrow> bool" where
  "extends sb Q K = (\<lambda>(ip, st) (ip', st').
    log_inv st' {} \<and> file_ok sb st' (addrs_of ip') Q \<and> same_but_addrs ip ip' \<and>
    (\<forall>k < MAXFILE. k \<notin> K \<or> fblock st (addrs_of ip) k \<noteq> 0 \<longrightarrow> fblock st' (addrs_of ip') k = fblock st (addrs_of ip) k) \<and>
    (\<forall>b \<in> Q. lview st' b = lview st b) \<and>
    (\<forall>k < MAXFILE. fblock st (addrs_of ip) k \<noteq> 0 \<longrightarrow> lview st' (fblock st (addrs_of ip) k) = lview st (fblock st (addrs_of ip) k)) \<and>
    (addrs_of ip ! NDIRECT \<noteq> 0 \<longrightarrow> addrs_of ip' ! NDIRECT = addrs_of ip ! NDIRECT) \<and>
    ltouch {} ({sb_bmapstart sb, addrs_of ip' ! NDIRECT} \<union> fblock st' (addrs_of ip') ` K - {0}) st st')"

lemma extendsD:
  assumes "extends sb Q K (ip, st) (ip', st')"
  shows "log_inv st' {}" "file_ok sb st' (addrs_of ip') Q" "same_but_addrs ip ip'"
    "k < MAXFILE \<Longrightarrow> k \<notin> K \<or> fblock st (addrs_of ip) k \<noteq> 0 \<Longrightarrow> fblock st' (addrs_of ip') k = fblock st (addrs_of ip) k"
    "b \<in> Q \<Longrightarrow> lview st' b = lview st b"
    "k < MAXFILE \<Longrightarrow> fblock st (addrs_of ip) k \<noteq> 0 \<Longrightarrow> lview st' (fblock st (addrs_of ip) k) = lview st (fblock st (addrs_of ip) k)"
    "addrs_of ip ! NDIRECT \<noteq> 0 \<Longrightarrow> addrs_of ip' ! NDIRECT = addrs_of ip ! NDIRECT"
    "ltouch {} ({sb_bmapstart sb, addrs_of ip' ! NDIRECT} \<union> fblock st' (addrs_of ip') ` K - {0}) st st'"
  using assms unfolding extends_def by simp_all

lemma extends_trans:
  assumes "extends sb Q K (ip, st) (ip', st')" "extends sb Q L (ip', st') (ip'', st'')" "K \<subseteq> {..<MAXFILE}"
  shows "extends sb Q (K \<union> L) (ip, st) (ip'', st'')"
  unfolding extends_def split
proof (intro conjI allI impI ballI)
  note E = extendsD [OF assms(1)] and F = extendsD [OF assms(2)]
  show "log_inv st'' {}" "file_ok sb st'' (addrs_of ip'') Q" by (rule F)+
  show "same_but_addrs ip ip''" by (rule same_but_addrs_trans [OF E(3) F(3)])
  show "fblock st'' (addrs_of ip'') k = fblock st (addrs_of ip) k"
    if "k < MAXFILE" "k \<notin> K \<union> L \<or> fblock st (addrs_of ip) k \<noteq> 0" for k
    using E(4) [OF that(1)] F(4) [OF that(1)] that(2) by auto
  show "lview st'' b = lview st b" if "b \<in> Q" for b using E(5) F(5) that by simp
  show "lview st'' (fblock st (addrs_of ip) k) = lview st (fblock st (addrs_of ip) k)"
    if "k < MAXFILE" "fblock st (addrs_of ip) k \<noteq> 0" for k
    using E(4,6) [OF that(1)] F(6) [OF that(1)] that(2) by simp
  show "addrs_of ip'' ! NDIRECT = addrs_of ip ! NDIRECT" if "addrs_of ip ! NDIRECT \<noteq> 0"
    using E(7) F(7) that by simp
  have "{sb_bmapstart sb, addrs_of ip' ! NDIRECT} \<union> fblock st' (addrs_of ip') ` K - {0} \<subseteq>
    {sb_bmapstart sb, addrs_of ip'' ! NDIRECT} \<union> fblock st'' (addrs_of ip'') ` (K \<union> L) - {0}"
  proof
    fix b assume b: "b \<in> {sb_bmapstart sb, addrs_of ip' ! NDIRECT} \<union> fblock st' (addrs_of ip') ` K - {0}"
    then consider "b = sb_bmapstart sb" | "b = addrs_of ip' ! NDIRECT" "b \<noteq> 0" | k where "k \<in> K" "b = fblock st' (addrs_of ip') k" "b \<noteq> 0"
      by blast
    then show "b \<in> {sb_bmapstart sb, addrs_of ip'' ! NDIRECT} \<union> fblock st'' (addrs_of ip'') ` (K \<union> L) - {0}"
    proof cases
      case 3
      then have "k < MAXFILE" using assms(3) by auto
      then have "b = fblock st'' (addrs_of ip'') k" using F(4) 3 by simp
      then show ?thesis using 3 by auto
    qed (use b F(7) in auto)
  qed
  then show "ltouch {} ({sb_bmapstart sb, addrs_of ip'' ! NDIRECT} \<union> fblock st'' (addrs_of ip'') ` (K \<union> L) - {0}) st st''"
    by (intro ltouch_mono [OF ltouch_trans [OF E(8) F(8)]]) blast
qed

lemma extends_same:
  assumes "log_inv st' {}" "file_ok sb st (addrs_of ip) Q" "lview st' = lview st" "ltouch {} {} st st'"
  shows "extends sb Q K (ip, st) (ip, st')"
proof -
  have f: "fblock st' (addrs_of ip) = fblock st (addrs_of ip)" by (rule fblock_cong) (simp add: assms(3))
  have "disk_ok sb st'" using file_okD(1) [OF assms(2)] assms(3,4) by (simp add: disk_ok_def used_def ltouch_def lsame_def)
  then have "file_ok sb st' (addrs_of ip) Q"
    by (rule file_ok_cong [OF assms(2) _ f]) (simp add: used_def assms(3))
  then show ?thesis
    unfolding extends_def split f assms(3) using assms(1,4) by (auto intro: ltouch_mono)
qed

text \<open>A direct block.\<close>

lemma bmap_direct:
  assumes inv: "log_inv st {}" and ok: "file_ok sb st (addrs_of ip) Q" and i: "i < NDIRECT"
    and room: "lused sb st + 1 < NBUF" and dev: "i_dev ip = log_dev st"
  shows "\<exists>addr ip' st'. bmap_slot sb ip i st = Inr (addr, ip', st') \<and> extends sb Q {i} (ip, st) (ip', st') \<and>
    addr = fblock st' (addrs_of ip') i \<and>
    (fblock st (addrs_of ip) i \<noteq> 0 \<longrightarrow> ip' = ip \<and> st' = st) \<and>
    (fblock st (addrs_of ip) i = 0 \<longrightarrow> addr \<noteq> 0 \<longrightarrow> lview st' addr = replicate BSIZE 0) \<and>
    (addr = 0 \<longrightarrow> (\<forall>b < sb_size sb. used sb st' b))"
proof -
  let ?ad = "addrs_of ip"
  have len: "length ?ad = NDIRECT + 1" by (rule file_okD(2) [OF ok])
  have im: "i < MAXFILE" using i by (simp add: MAXFILE_def)
  have fi: "fblock t ?ad i = ?ad ! i" for t using i by (simp add: fblock_def)
  show ?thesis
  proof (cases "?ad ! i = 0")
    case False
    then show ?thesis using fi extends_same [OF inv ok refl ltouch_refl] by (auto simp: bmap_slot_def)
  next
    case True
    obtain r t where t: "balloc (i_dev ip) sb st = Inr (r, t)" "log_inv t {}" "disk_ok sb t" "ltouch {} ({sb_bmapstart sb, r} - {0}) st t"
      "if r = 0 then lview t = lview st \<and> lh t = lh st \<and> (\<forall>b < sb_size sb. used sb t b) else gained sb st r t"
      using balloc_gained [OF inv file_okD(1) [OF ok], of "i_dev ip"] room dev by auto
    show ?thesis
    proof (cases "r = 0")
      case r: True
      have "ltouch {} {} st t" using t(4,5) r by (auto simp: ltouch_def)
      then have "extends sb Q {i} (ip, st) (ip, t)" using r t(5) by (intro extends_same [OF t(2) ok]) auto
      then show ?thesis using r t(1,5) True fi by (auto simp: bmap_slot_def)
    next
      case r: False
      note g = gained_frame [OF ok, of r t]
      have gd: "gained sb st r t" using t(5) r by simp
      let ?ad' = "?ad[i := r]"
      have f: "fblock t ?ad' j = (if j = i then r else fblock st ?ad j)" for j
        unfolding g(2) [OF gd, symmetric] using i len by (simp add: fblock_def)
      have nd: "?ad' ! NDIRECT = ?ad ! NDIRECT" using i by simp
      have new: "file_ok sb t ?ad' Q"
        by (rule file_ok_enter(1) [OF g(3,6,7,4,5,8) [OF gd] t(3) refl im]) (use g(2) [OF gd] f fi True len nd in auto)
      have "extends sb Q {i} (ip, st) (set_addr i r ip, t)"
        unfolding extends_def split addrs_of_set
      proof (intro conjI allI impI ballI)
        show "lview t b = lview st b" if "b \<in> Q" for b using g(1) [OF gd] that by blast
        show "lview t (fblock st ?ad k) = lview st (fblock st ?ad k)" if "k < MAXFILE" "fblock st ?ad k \<noteq> 0" for k
          using g(1) [OF gd] fblocksI(1) [OF that] by blast
        show "ltouch {} ({sb_bmapstart sb, ?ad' ! NDIRECT} \<union> fblock t ?ad' ` {i} - {0}) st t"
          by (rule ltouch_mono [OF t(4)]) (auto simp: f)
      qed (use t(2) new f True fi nd in auto)
      then show ?thesis using r t(1) gd True fi f by (auto simp: bmap_slot_def gained_def)
    qed
  qed
qed

lemma card_pair_le: "card ({a, b} - C - {a}) \<le> 1"
proof -
  have "card ({a, b} - C - {a}) \<le> card {b}" by (rule card_mono) auto
  then show ?thesis by simp
qed

text \<open>The indirect block.\<close>

lemma bmap_indirect:
  assumes inv: "log_inv st {}" and ok: "file_ok sb st (addrs_of ip) Q"
    and room: "lused sb st + 1 < NBUF" and dev: "i_dev ip = log_dev st"
  shows "\<exists>addr ip' st'. bmap_slot sb ip NDIRECT st = Inr (addr, ip', st') \<and> extends sb Q {} (ip, st) (ip', st') \<and>
    addr = addrs_of ip' ! NDIRECT \<and> lused sb st' \<le> lused sb st + 1 \<and>
    (addrs_of ip ! NDIRECT \<noteq> 0 \<longrightarrow> ip' = ip \<and> st' = st) \<and> (addr = 0 \<longrightarrow> (\<forall>b < sb_size sb. used sb st' b))"
proof -
  let ?ad = "addrs_of ip"
  have len: "length ?ad = NDIRECT + 1" by (rule file_okD(2) [OF ok])
  show ?thesis
  proof (cases "?ad ! NDIRECT = 0")
    case False
    then show ?thesis using extends_same [OF inv ok refl ltouch_refl] by (auto simp: bmap_slot_def)
  next
    case True
    obtain r t where t: "balloc (i_dev ip) sb st = Inr (r, t)" "log_inv t {}" "disk_ok sb t" "ltouch {} ({sb_bmapstart sb, r} - {0}) st t"
      "if r = 0 then lview t = lview st \<and> lh t = lh st \<and> (\<forall>b < sb_size sb. used sb t b) else gained sb st r t"
      using balloc_gained [OF inv file_okD(1) [OF ok], of "i_dev ip"] room dev by auto
    have l: "lused sb t \<le> lused sb st + 1"
      using ltouch_lused [OF t(4)] card_pair_le [of "sb_bmapstart sb" r "{0}"] by (meson add_left_mono finite.intros finite_Diff order_trans)
    show ?thesis
    proof (cases "r = 0")
      case r: True
      have "ltouch {} {} st t" using t(4,5) r by (auto simp: ltouch_def)
      then have "extends sb Q {} (ip, st) (ip, t)" using r t(5) by (intro extends_same [OF t(2) ok]) auto
      then show ?thesis using r t(1,5) True l by (auto simp: bmap_slot_def)
    next
      case r: False
      have gd: "gained sb st r t" using t(5) r by simp
      note g = gained_frame [OF ok gd]
      let ?ad' = "?ad[NDIRECT := r]"
      have z: "lview t r = replicate BSIZE 0" using gd by (simp add: gained_def)
      note I = file_ok_indirect [OF g(3,6,7,4,5,8) True z]
      have "extends sb Q {} (ip, st) (set_addr NDIRECT r ip, t)"
        unfolding extends_def split addrs_of_set
      proof (intro conjI allI impI ballI)
        show "fblock t ?ad' k = fblock st ?ad k" if "k < MAXFILE" for k using I(2) [OF that] g(2) by simp
        show "lview t b = lview st b" if "b \<in> Q" for b using g(1) that by blast
        show "lview t (fblock st ?ad k) = lview st (fblock st ?ad k)" if "k < MAXFILE" "fblock st ?ad k \<noteq> 0" for k
          using g(1) fblocksI(1) [OF that] by blast
        show "ltouch {} ({sb_bmapstart sb, ?ad' ! NDIRECT} \<union> fblock t ?ad' ` {} - {0}) st t"
          by (rule ltouch_mono [OF t(4)]) (use len in auto)
      qed (use t(2) I(1) True in auto)
      then show ?thesis using r t(1) True l len by (auto simp: bmap_slot_def)
    qed
  qed
qed

text \<open>An entry of the indirect block.\<close>

lemma file_ok_entry:
  assumes ok: "file_ok sb u ad Q" and ad: "ad ! NDIRECT \<noteq> 0" and j: "j < NINDIRECT" "fblock u ad (NDIRECT + j) = 0"
    and r: "data_block sb r" "used sb u r" "r \<notin> fblocks u ad" "r \<notin> Q" "r \<noteq> 0"
    and w: "lview w = (lview u)(ad ! NDIRECT := wr32 (4 * j) r (lview u (ad ! NDIRECT)))" "lsame u w"
  shows "file_ok sb w ad Q" "\<And>i. i < MAXFILE \<Longrightarrow> fblock w ad i = (if i = NDIRECT + j then r else fblock u ad i)"
proof -
  let ?ind = "ad ! NDIRECT" and ?k = "NDIRECT + j"
  have km: "?k < MAXFILE" using j by (simp add: MAXFILE_def)
  note dk = file_okD(1) [OF ok]
  have "data_block sb ?ind" using file_okD(3) [OF ok] fblocksI(2) [OF ad] by blast
  then have indb: "?ind \<noteq> sb_bmapstart sb" using data_block_facts [OF dk] by blast
  have usw: "used sb w b = used sb u b" for b unfolding used_def w(1) using indb by auto
  have dkw: "disk_ok sb w" using dk w usw by (simp add: disk_ok_def lsame_def)
  have l4: "4 * j + 3 < length (lview u ?ind)" using j disk_okD(1) [OF dk] by (simp add: NINDIRECT_def BSIZE_def)
  show f: "fblock w ad i = (if i = ?k then r else fblock u ad i)" if i: "i < MAXFILE" for i
  proof (cases "i < NDIRECT")
    case ge: False
    have "rd32 (wr32 (4 * j) r (lview u ?ind)) (4 * (i - NDIRECT)) = (if i = ?k then r else rd32 (lview u ?ind) (4 * (i - NDIRECT)))"
    proof (cases "i = ?k")
      case False
      then have "4 * (i - NDIRECT) + 4 \<le> 4 * j \<or> 4 * j + 4 \<le> 4 * (i - NDIRECT)" using ge by auto
      then show ?thesis using False by (simp add: rd32_wr32_other)
    qed (use l4 in \<open>simp add: rd32_wr32\<close>)
    then show ?thesis using ge ad w(1) by (simp add: fblock_def)
  qed (auto simp: fblock_def)
  show "file_ok sb w ad Q"
    by (rule file_ok_enter(1) [OF ok r dkw usw km]) (use f j(2) file_okD(2) [OF ok] in auto)
qed

text \<open>An empty entry that gets the block \<open>r\<close> while the buffer of the indirect block is held.\<close>

lemma bmap_entry_new:
  assumes ok: "file_ok sb st ad Q" and ad: "ad ! NDIRECT \<noteq> 0" and j: "j < NINDIRECT" "fblock st ad (NDIRECT + j) = 0"
    and room: "length (lh u) + 1 < NBUF" and u: "log_inv u {ad ! NDIRECT}" "lhandle u (ad ! NDIRECT) bp" "gained sb st r u"
    and tch: "ltouch {} {sb_bmapstart sb, r} st u"
  shows "\<exists>v w. log_write bp (lset bp (wr32 (4 * j) r (ldata bp u)) u) = Inr v \<and> lrelse bp v = Inr w \<and> log_inv w {} \<and>
    file_ok sb w ad Q \<and> (\<forall>i < MAXFILE. fblock w ad i = (if i = NDIRECT + j then r else fblock st ad i)) \<and>
    (\<forall>b. b \<in> fblocks st ad \<union> Q \<longrightarrow> b \<noteq> ad ! NDIRECT \<longrightarrow> lview w b = lview st b) \<and> lview w r = replicate BSIZE 0 \<and>
    ltouch {} {sb_bmapstart sb, ad ! NDIRECT, r} st w"
proof -
  let ?ind = "ad ! NDIRECT"
  note g = gained_frame [OF ok u(3)]
  let ?d = "wr32 (4 * j) r (ldata bp u)"
  have "data_block sb ?ind" and ui: "used sb st ?ind" using file_okD(3) [OF ok] fblocksI(2) [OF ad] by blast+
  then have indb: "outside_log (log_start u) ?ind" using data_block_facts [of sb u ?ind] u(3) by (auto simp: gained_def)
  have du: "ldata bp u = lview u ?ind" by (rule tx.data_law [OF u(1) _ u(2)]) simp
  obtain v where v: "log_write bp (lset bp ?d u) = Inr v" "log_inv v {?ind}" "lview v = (lview u)(?ind := ?d)" "lhandle v = lhandle u"
    "lsame u v" "lh v = (if ?ind \<in> set (lh u) then lh u else lh u @ [?ind])"
    using tx.amend_law [OF u(1) _ u(2) indb room, of ?d] by auto
  have hv: "lhandle v ?ind bp" using v(4) u(2) by simp
  obtain w where w: "lrelse bp v = Inr w" "log_inv w {}" "lview w = lview v" "lh w = lh v" "lsame v w"
    using tx.put_law [OF v(2) _ hv] by auto
  have lvw: "lview w = (lview u)(?ind := wr32 (4 * j) r (lview u ?ind))" using w(3) v(3) du by simp
  have ju: "fblock u ad (NDIRECT + j) = 0" using j(2) g(2) by simp
  note E = file_ok_entry [OF g(3) ad j(1) ju g(6,7,4,5,8) lvw lsame_trans [OF v(5) w(5)]]
  have rn: "r \<noteq> ?ind" using u(3) ui by (auto simp: gained_def)
  have "ltouch {} {sb_bmapstart sb, ?ind, r} st w"
    unfolding ltouch_def
  proof (intro conjI)
    show "lsame st w" using tch v(5) w(5) by (auto simp: ltouch_def intro: lsame_trans)
    show "set (lh w) \<subseteq> set (lh st) \<union> {sb_bmapstart sb, ?ind, r}" "set (lh st) \<subseteq> set (lh w)"
      using tch w(4) v(6) unfolding ltouch_def by (auto split: if_splits)
    show "\<forall>bn. bn \<notin> {sb_bmapstart sb, ?ind, r} \<longrightarrow> lview w bn = lview st bn" using tch lvw by (auto simp: ltouch_def)
  qed simp
  moreover have "lview w r = replicate BSIZE 0" using lvw rn u(3) by (simp add: gained_def)
  moreover have "lview w b = lview st b" if "b \<in> fblocks st ad \<union> Q" "b \<noteq> ?ind" for b using that g(1) [of b] lvw by simp
  ultimately show ?thesis using v(1) w(1,2) E g(2) by auto
qed

lemma bmap_entry_ok:
  assumes inv: "log_inv st {}" and ok: "file_ok sb st ad Q" and ad: "ad = addrs_of ip" "ad ! NDIRECT \<noteq> 0"
    and j: "j < NINDIRECT" and room: "lused sb st + 2 < NBUF" and dev: "i_dev ip = log_dev st"
  defines "k \<equiv> NDIRECT + j" and "ind \<equiv> ad ! NDIRECT"
  shows "\<exists>a st'. bmap_entry sb ip ind j st = Inr (a, st') \<and> extends sb Q {k} (ip, st) (ip, st') \<and> a = fblock st' ad k \<and>
    (fblock st ad k \<noteq> 0 \<longrightarrow> lview st' = lview st \<and> lh st' = lh st) \<and>
    (fblock st ad k = 0 \<longrightarrow> a \<noteq> 0 \<longrightarrow> lview st' a = replicate BSIZE 0) \<and> (a = 0 \<longrightarrow> (\<forall>b < sb_size sb. used sb st' b))"
proof -
  have km: "k < MAXFILE" "\<not> k < NDIRECT" "k - NDIRECT = j" using j by (simp_all add: k_def MAXFILE_def)
  have in0: "ind \<noteq> 0" using ad(2) by (simp add: ind_def)
  have indf: "ind \<in> fblocks st ad" using fblocksI(2) [OF ad(2)] by (simp add: ind_def)
  note dk = file_okD(1) [OF ok]
  have ind: "ind \<noteq> sb_bmapstart sb" "used sb st ind" using file_okD(3) [OF ok] indf data_block_facts(2) [OF dk] by blast+
  have fk: "fblock t ad k = rd32 (lview t ind) (4 * j)" for t using km(2,3) in0 by (simp add: fblock_def ind_def)
  obtain bp t where t: "lread (i_dev ip) ind st = Inr (bp, t)" "log_inv t {ind}" "lhandle t ind bp" "ldata bp t = lview st ind"
    "lview t = lview st" "lh t = lh st" "ltouch {} {} st t"
    using lread_ok [OF inv, of ind "i_dev ip"] room dev lused_length(1) [OF inv, of sb] by auto
  have lt: "lused sb t = lused sb st" by (simp add: lused_def t(6))
  have ust: "used sb t b = used sb st b" for b by (simp add: used_def t(5))
  have dkt: "disk_ok sb t" using dk t(5,7) by (simp add: disk_ok_def ust ltouch_def lsame_def)
  have lst: "log_dev t = log_dev st" using t(7) by (auto simp: ltouch_def lsame_def)
  have put: "\<exists>v. lrelse bp u = Inr v \<and> extends sb Q {k} (ip, st) (ip, v) \<and> lview v = lview u \<and> lh v = lh u"
    if u: "log_inv u {ind}" "lhandle u ind bp" "lview u = lview st" "lh u = lh st" "lsame t u" for u
  proof -
    obtain v where v: "lrelse bp u = Inr v" "log_inv v {}" "lview v = lview u" "lh v = lh u" "lsame u v"
      using tx.put_law [OF u(1) _ u(2)] by auto
    have "ltouch {} {} st v" using u(3-5) v(3-5) t(7) by (auto simp: ltouch_def intro: lsame_trans)
    then show ?thesis using v u(3) ok ad(1) by (intro exI [of _ v] conjI extends_same) auto
  qed
  show ?thesis
  proof (cases "fblock st ad k = 0")
    case False
    then show ?thesis using put [OF t(2,3,5,6) lsame_refl] t(1,4-6) fk by (auto simp: bmap_entry_def Let_def)
  next
    case True
    obtain r u where u: "balloc (i_dev ip) sb t = Inr (r, u)" "log_inv u {ind}" "disk_ok sb u"
      "ltouch {ind} ({sb_bmapstart sb, r} - {0}) t u"
      "if r = 0 then lview u = lview t \<and> lh u = lh t \<and> (\<forall>b < sb_size sb. used sb u b) else gained sb t r u"
      using balloc_gained [OF t(2) dkt, of "i_dev ip"] ind room dev lst lt by (auto simp: ust)
    have hu: "lhandle u ind bp" and su: "lsame t u" using u(4) t(3) by (simp_all add: ltouch_def)
    have a0: "rd32 (ldata bp t) (4 * j) = 0" using True fk t(4) by simp
    show ?thesis
    proof (cases "r = 0")
      case r: True
      then obtain v where v: "lrelse bp u = Inr v" "extends sb Q {k} (ip, st) (ip, v)" "lview v = lview u" "lh v = lh u"
        using put [OF u(2) hu _ _ su] u(5) t(5,6) by auto
      have "\<forall>b < sb_size sb. used sb v b" using u(5) r by (auto simp: used_def v(3))
      then show ?thesis using True r t(1,5,6) a0 u(1,5) v fk by (simp add: bmap_entry_def Let_def)
    next
      case r: False
      have gd: "gained sb st r u" using u(5) r t(5) by (simp add: gained_def ust)
      have tch: "ltouch {} {sb_bmapstart sb, r} st u"
        by (rule ltouch_mono [OF ltouch_trans [OF t(7) ltouch_held [OF u(4)]]]) auto
      have "length (lh u) + 1 < NBUF"
        using ltouch_lused [OF u(4), of sb] card_pair_le [of "sb_bmapstart sb" r "{0}"] room lt lused_length(1) [OF u(2), of sb] by simp
      then obtain v w where w: "log_write bp (lset bp (wr32 (4 * j) r (ldata bp u)) u) = Inr v" "lrelse bp v = Inr w" "log_inv w {}"
        "file_ok sb w ad Q" "\<forall>i < MAXFILE. fblock w ad i = (if i = k then r else fblock st ad i)"
        "\<forall>b. b \<in> fblocks st ad \<union> Q \<longrightarrow> b \<noteq> ind \<longrightarrow> lview w b = lview st b" "lview w r = replicate BSIZE 0"
        "ltouch {} {sb_bmapstart sb, ind, r} st w"
        using bmap_entry_new [OF ok ad(2) j True [unfolded k_def] _ u(2) [unfolded ind_def] hu [unfolded ind_def] gd tch]
        unfolding k_def ind_def by blast
      have "extends sb Q {k} (ip, st) (ip, w)"
        unfolding extends_def split ad(1) [symmetric]
      proof (intro conjI allI impI ballI)
        show "lview w b = lview st b" if "b \<in> Q" for b using w(6) that file_okD(4) [OF ok that] indf by auto
        show "lview w (fblock st ad i) = lview st (fblock st ad i)" if "i < MAXFILE" "fblock st ad i \<noteq> 0" for i
          using w(6) fblocksI(1) [OF that] file_okD(5) [OF ok that] by (simp add: ind_def)
        have bm: "sb_bmapstart sb \<noteq> 0" using dk by (auto simp: disk_ok_def fs_layout_def)
        show "ltouch {} ({sb_bmapstart sb, ad ! NDIRECT} \<union> fblock w ad ` {k} - {0}) st w"
          by (rule ltouch_mono [OF w(8)]) (use w(5) km(1) ad(2) bm r ind_def in auto)
        show "fblock w ad i = fblock st ad i" if "i < MAXFILE" "i \<notin> {k} \<or> fblock st ad i \<noteq> 0" for i
          using w(5) that True by auto
      qed (use w(3,4) in auto)
      then show ?thesis using True r t(1) a0 u(1) w(1,2,5,7) km(1) by (simp add: bmap_entry_def Let_def)
    qed
  qed
qed

lemma bmap_ok:
  assumes inv: "log_inv st {}" and ok: "file_ok sb st (addrs_of ip) Q" and k: "k < MAXFILE"
    and room: "lused sb st + 3 < NBUF" and dev: "i_dev ip = log_dev st"
  shows "\<exists>addr ip' st'. bmap sb ip k st = Inr (addr, ip', st') \<and> extends sb Q {k} (ip, st) (ip', st') \<and>
    addr = fblock st' (addrs_of ip') k \<and>
    (fblock st (addrs_of ip) k \<noteq> 0 \<longrightarrow> ip' = ip \<and> lview st' = lview st \<and> lh st' = lh st) \<and>
    (fblock st (addrs_of ip) k = 0 \<longrightarrow> addr \<noteq> 0 \<longrightarrow> lview st' addr = replicate BSIZE 0) \<and>
    (addr = 0 \<longrightarrow> (\<forall>b < sb_size sb. used sb st' b))"
proof (cases "k < NDIRECT")
  case True
  then show ?thesis using bmap_direct [OF inv ok True _ dev] room by (fastforce simp: bmap_def)
next
  case False
  let ?j = "k - NDIRECT"
  have j: "?j < NINDIRECT" "NDIRECT + ?j = k" using False k by (simp_all add: MAXFILE_def)
  obtain ind ip1 st1 where 1: "bmap_slot sb ip NDIRECT st = Inr (ind, ip1, st1)" "extends sb Q {} (ip, st) (ip1, st1)"
    "ind = addrs_of ip1 ! NDIRECT" "lused sb st1 \<le> lused sb st + 1" "addrs_of ip ! NDIRECT \<noteq> 0 \<longrightarrow> ip1 = ip \<and> st1 = st"
    "ind = 0 \<longrightarrow> (\<forall>b < sb_size sb. used sb st1 b)"
    using bmap_indirect [OF inv ok _ dev] room by auto
  note E = extendsD [OF 1(2)]
  have f: "fblock st1 (addrs_of ip1) k = fblock st (addrs_of ip) k" using E(4) [OF k] by simp
  show ?thesis
  proof (cases "ind = 0")
    case True
    then have z: "fblock st1 (addrs_of ip1) k = 0" using False 1(3) by (simp add: fblock_def)
    have "extends sb Q {k} (ip, st) (ip1, st1)"
      using 1(2) z by (auto simp: extends_def intro: ltouch_mono)
    then show ?thesis using True False j(1) 1(1,6) f z by (simp add: bmap_def)
  next
    case ne: False
    have ne': "addrs_of ip1 ! NDIRECT \<noteq> 0" using ne 1(3) by simp
    have "lused sb st1 + 2 < NBUF" "i_dev ip1 = log_dev st1"
      using 1(4) room dev same_but_addrsD(1) [OF E(3)] E(8) by (simp_all add: ltouch_def lsame_def)
    then obtain a st2 where 2: "bmap_entry sb ip1 ind ?j st1 = Inr (a, st2)" "extends sb Q {k} (ip1, st1) (ip1, st2)"
      "a = fblock st2 (addrs_of ip1) k" "fblock st1 (addrs_of ip1) k \<noteq> 0 \<longrightarrow> lview st2 = lview st1 \<and> lh st2 = lh st1"
      "fblock st1 (addrs_of ip1) k = 0 \<longrightarrow> a \<noteq> 0 \<longrightarrow> lview st2 a = replicate BSIZE 0" "a = 0 \<longrightarrow> (\<forall>b < sb_size sb. used sb st2 b)"
      using bmap_entry_ok [OF E(1,2) refl ne' j(1)] unfolding j(2) 1(3) by blast
    have "extends sb Q {k} (ip, st) (ip1, st2)" using extends_trans [OF 1(2) 2(2)] by simp
    moreover have "ip1 = ip \<and> st1 = st" if "fblock st (addrs_of ip) k \<noteq> 0"
      using that 1(5) False by (auto simp: fblock_def split: if_splits)
    ultimately show ?thesis using ne False j(1) 1(1) 2 f by (auto simp: bmap_def)
  qed
qed

section \<open>Bytes\<close>

definition fbyte :: "logst \<Rightarrow> uint list \<Rightarrow> nat \<Rightarrow> byte" where
  "fbyte st ad i = (if fblock st ad (i div BSIZE) = 0 then 0 else lview st (fblock st ad (i div BSIZE)) ! (i mod BSIZE))"

text \<open>The contents of a file, and that every block of it is there.\<close>

definition contents :: "logst \<Rightarrow> inode \<Rightarrow> byte list" where
  "contents st ip = map (fbyte st (addrs_of ip)) [0..<unat (di_size (din ip))]"

definition no_holes :: "logst \<Rightarrow> inode \<Rightarrow> bool" where
  "no_holes st ip \<longleftrightarrow> unat (di_size (din ip)) \<le> MAXFILE * BSIZE \<and>
    (\<forall>i < unat (di_size (din ip)). fblock st (addrs_of ip) (i div BSIZE) \<noteq> 0)"

lemma BSIZE_pos [simp]: "0 < BSIZE"
  by (simp add: BSIZE_def)

lemma block_index: "i < MAXFILE * BSIZE \<Longrightarrow> i div BSIZE < MAXFILE"
  by (simp add: less_mult_imp_div_less)

lemma chunk_div: "j < BSIZE - off mod BSIZE \<Longrightarrow> (off + j) div BSIZE = off div BSIZE \<and> (off + j) mod BSIZE = off mod BSIZE + j"
proof -
  assume j: "j < BSIZE - off mod BSIZE"
  then have lt: "off mod BSIZE + j < BSIZE" by linarith
  have eq: "off + j = off div BSIZE * BSIZE + (off mod BSIZE + j)" by simp
  then have "(off + j) div BSIZE = off div BSIZE" "(off + j) mod BSIZE = off mod BSIZE + j"
    using lt by (metis BSIZE_pos add_0_right div_less div_mult_self3 less_numeral_extra(3)) (metis eq lt mod_less mod_mult_self3)
  then show ?thesis by simp
qed

text \<open>A part of one block of a file.\<close>

lemma chunk_contents:
  assumes "k \<le> BSIZE - off mod BSIZE" "off + k \<le> unat (di_size (din ip))" "length (lview st (fblock st (addrs_of ip) (off div BSIZE))) = BSIZE"
    "fblock st (addrs_of ip) (off div BSIZE) \<noteq> 0"
  shows "take k (drop (off mod BSIZE) (lview st (fblock st (addrs_of ip) (off div BSIZE)))) = take k (drop off (contents st ip))"
proof (rule nth_equalityI)
  have m: "off mod BSIZE + k \<le> BSIZE" using assms(1) mod_less_divisor [of BSIZE off] by (simp add: BSIZE_def)
  then show "length (take k (drop (off mod BSIZE) (lview st (fblock st (addrs_of ip) (off div BSIZE))))) = length (take k (drop off (contents st ip)))"
    using assms by (simp add: contents_def)
  fix i assume "i < length (take k (drop (off mod BSIZE) (lview st (fblock st (addrs_of ip) (off div BSIZE)))))"
  then have i: "i < k" by simp
  then have "i < BSIZE - off mod BSIZE" using assms(1) by simp
  then have "fbyte st (addrs_of ip) (off + i) = lview st (fblock st (addrs_of ip) (off div BSIZE)) ! (off mod BSIZE + i)"
    using chunk_div [of i off] assms(4) by (simp add: fbyte_def)
  then show "take k (drop (off mod BSIZE) (lview st (fblock st (addrs_of ip) (off div BSIZE)))) ! i = take k (drop off (contents st ip)) ! i"
    using i assms m by (simp add: contents_def)
qed

end
