(* ===== verification/Fileio.thy ===== *)
theory Fileio
  imports Content
begin

text \<open>Reading, writing and truncating files: \<open>readi\<close>, \<open>writei\<close> and \<open>itrunc\<close> of \<open>kernel/fs.c\<close> on the contents
  of a file.\<close>

section \<open>Reading\<close>

lemma bmap_present:
  assumes "log_inv st {}" "file_ok sb st (addrs_of ip) Q" "k < MAXFILE" "lused sb st + 3 < NBUF" "i_dev ip = log_dev st"
    and nz: "fblock st (addrs_of ip) k \<noteq> 0"
  obtains st' where "bmap sb ip k st = Inr (fblock st (addrs_of ip) k, ip, st')" "log_inv st' {}" "lview st' = lview st" "lh st' = lh st"
    "lsame st st'"
proof -
  obtain addr ip' st' where 1: "bmap sb ip k st = Inr (addr, ip', st')" "extends sb Q {k} (ip, st) (ip', st')"
    "addr = fblock st' (addrs_of ip') k" "ip' = ip" "lview st' = lview st" "lh st' = lh st"
    using bmap_ok [OF assms(1-5)] nz by blast
  have "fblock st' (addrs_of ip) = fblock st (addrs_of ip)" by (rule fblock_cong) (simp add: 1(5))
  then show ?thesis using that 1 extendsD(1,8) [OF 1(2)] by (simp add: ltouch_def)
qed

text \<open>The bytes of the file reach the destination in order, in chunks; \<open>J i\<close> describes it after \<open>i\<close> bytes.\<close>

lemma readi_loop_ok:
  assumes "log_inv st {}" "file_ok sb st (addrs_of ip) Q" "no_holes st ip" "lused sb st + 3 < NBUF" "i_dev ip = log_dev st"
    and "off + left \<le> unat (di_size (din ip))" and "J tot m"
    and "\<And>i k m. J i m \<Longrightarrow> tot \<le> i \<Longrightarrow> i + k \<le> tot + left \<Longrightarrow>
      \<exists>m'. copy (dst + of_nat (i - tot)) (take k (drop (off + (i - tot)) (contents st ip))) m = Inr (0, m') \<and> J (i + k) m'"
  shows "\<exists>st' m'. readi_loop copy sb left off dst tot ip st m = Inr (int (tot + left), ip, st', m') \<and> log_inv st' {} \<and>
    lview st' = lview st \<and> lh st' = lh st \<and> ltouch {} {} st st' \<and> J (tot + left) m'"
  using assms
proof (induction left arbitrary: off dst tot st m rule: less_induct)
  case (less left)
  show ?case
  proof (cases "left = 0")
    case True
    then show ?thesis using less.prems by (simp add: readi_loop.simps ltouch_refl)
  next
    case False
    let ?k = "min left (BSIZE - off mod BSIZE)" and ?ad = "addrs_of ip" and ?b = "off div BSIZE"
    have k: "0 < ?k" "?k \<le> left" "?k \<le> BSIZE - off mod BSIZE" using False chunk_pos [of left off] by auto
    have off: "off < unat (di_size (din ip))" using less.prems(6) False by simp
    then have nz: "fblock st ?ad ?b \<noteq> 0" and bm: "?b < MAXFILE"
      using less.prems(3) block_index [of off] by (auto simp: no_holes_def)
    obtain st1 where 1: "bmap sb ip ?b st = Inr (fblock st ?ad ?b, ip, st1)" "log_inv st1 {}" "lview st1 = lview st" "lh st1 = lh st"
      "lsame st st1"
      by (rule bmap_present [OF less.prems(1,2) bm less.prems(4,5) nz])
    have dev: "i_dev ip = log_dev st1" using 1(5) less.prems(5) by (simp add: lsame_def)
    have "length (lh st1) < NBUF" using less.prems(4) 1(4) lused_length(1) [OF less.prems(1), of sb] by simp
    then obtain bp t u where 2: "lread (i_dev ip) (fblock st ?ad ?b) st1 = Inr (bp, t)" "ldata bp t = lview st1 (fblock st ?ad ?b)"
      "lrelse bp t = Inr u" "log_inv u {}" "lview u = lview st1" "lh u = lh st1" "lsame st1 u"
      using lread_relse [OF 1(2) _ _ dev, of "fblock st ?ad ?b"] by (auto simp: ltouch_def)
    have len: "length (lview st (fblock st ?ad ?b)) = BSIZE" by (rule disk_okD(1) [OF file_okD(1) [OF less.prems(2)]])
    have chunk: "take ?k (drop (off mod BSIZE) (ldata bp t)) = take ?k (drop off (contents st ip))"
      unfolding 2(2) 1(3) using k less.prems(6) by (intro chunk_contents len nz) auto
    obtain m1 where m1: "copy dst (take ?k (drop off (contents st ip))) m = Inr (0, m1)" "J (tot + ?k) m1"
      using less.prems(8) [OF less.prems(7) order_refl, of ?k] k(2) by auto
    have vu: "lview u = lview st" and lu: "lh u = lh st" and su: "lsame st u" using 1 2 by (auto intro: lsame_trans)
    have fu: "fblock u ?ad = fblock st ?ad" by (rule fblock_cong) (simp add: vu)
    have "disk_ok sb u" using file_okD(1) [OF less.prems(2)] vu su by (simp add: disk_ok_def used_def lsame_def)
    then have oku: "file_ok sb u ?ad Q" by (rule file_ok_cong [OF less.prems(2) _ fu]) (simp add: used_def vu)
    have cu: "contents u ip = contents st ip" by (simp add: contents_def fbyte_def fu vu)
    have step: "\<exists>m'. copy (dst + of_nat ?k + of_nat (i - (tot + ?k))) (take k' (drop (off + ?k + (i - (tot + ?k))) (contents u ip))) m = Inr (0, m') \<and> J (i + k') m'"
      if "J i m" "tot + ?k \<le> i" "i + k' \<le> tot + ?k + (left - ?k)" for i k' m
    proof -
      have "i - tot = ?k + (i - (tot + ?k))" using that(2) by linarith
      then have "dst + of_nat ?k + of_nat (i - (tot + ?k)) = dst + of_nat (i - tot)" by (metis add.assoc of_nat_add)
      moreover have "off + ?k + (i - (tot + ?k)) = off + (i - tot)" using that(2) by simp
      ultimately show ?thesis using less.prems(8) [OF that(1), of k'] that(2,3) k(2) cu by simp
    qed
    obtain st' m' where r: "readi_loop copy sb (left - ?k) (off + ?k) (dst + of_nat ?k) (tot + ?k) ip u m1 = Inr (int (tot + ?k + (left - ?k)), ip, st', m')"
      "log_inv st' {}" "lview st' = lview u" "lh st' = lh u" "ltouch {} {} u st'" "J (tot + ?k + (left - ?k)) m'"
    proof -
      have "left - ?k < left" using k(1,2) by linarith
      moreover have "no_holes u ip" using less.prems(3) by (simp add: no_holes_def fu)
      moreover have "lused sb u + 3 < NBUF" using less.prems(4) by (simp add: lused_def lu)
      moreover have "i_dev ip = log_dev u" using less.prems(5) su by (simp add: lsame_def)
      moreover have "off + ?k + (left - ?k) \<le> unat (di_size (din ip))" using less.prems(6) k(2) by simp
      ultimately have "\<exists>st' m'. readi_loop copy sb (left - ?k) (off + ?k) (dst + of_nat ?k) (tot + ?k) ip u m1 = Inr (int (tot + ?k + (left - ?k)), ip, st', m') \<and>
          log_inv st' {} \<and> lview st' = lview u \<and> lh st' = lh u \<and> ltouch {} {} u st' \<and> J (tot + ?k + (left - ?k)) m'"
        using less.IH [OF _ 2(4) oku _ _ _ _ m1(2) step] by blast
      then show ?thesis using that by blast
    qed
    have "readi_loop copy sb left off dst tot ip st m = Inr (int (tot + left), ip, st', m')"
      using False nz 1(1) 2(1,3) m1(1) chunk r(1) k(2) by (subst readi_loop.simps) (simp add: Let_def)
    moreover have "ltouch {} {} st st'" using r(5) su lu vu by (auto simp: ltouch_def intro: lsame_trans)
    ultimately show ?thesis using r(2-4,6) vu lu k(2) by auto
  qed
qed

section \<open>Writing\<close>

text \<open>The file may get the blocks \<open>K\<close>, and the bytes in them may change.\<close>

definition grows :: "superblock \<Rightarrow> uint set \<Rightarrow> nat set \<Rightarrow> inode \<times> logst \<Rightarrow> inode \<times> logst \<Rightarrow> bool" where
  "grows sb Q K = (\<lambda>(ip, st) (ip', st').
    log_inv st' {} \<and> file_ok sb st' (addrs_of ip') Q \<and> same_but_addrs ip ip' \<and>
    (\<forall>k < MAXFILE. fblock st (addrs_of ip) k \<noteq> 0 \<longrightarrow> fblock st' (addrs_of ip') k = fblock st (addrs_of ip) k) \<and>
    (\<forall>b \<in> Q. lview st' b = lview st b) \<and>
    (addrs_of ip ! NDIRECT \<noteq> 0 \<longrightarrow> addrs_of ip' ! NDIRECT = addrs_of ip ! NDIRECT) \<and>
    ltouch {} ({sb_bmapstart sb, addrs_of ip' ! NDIRECT} \<union> fblock st' (addrs_of ip') ` K - {0}) st st')"

lemma growsD:
  assumes "grows sb Q K (ip, st) (ip', st')"
  shows "log_inv st' {}" "file_ok sb st' (addrs_of ip') Q" "same_but_addrs ip ip'"
    "k < MAXFILE \<Longrightarrow> fblock st (addrs_of ip) k \<noteq> 0 \<Longrightarrow> fblock st' (addrs_of ip') k = fblock st (addrs_of ip) k"
    "b \<in> Q \<Longrightarrow> lview st' b = lview st b"
    "addrs_of ip ! NDIRECT \<noteq> 0 \<Longrightarrow> addrs_of ip' ! NDIRECT = addrs_of ip ! NDIRECT"
    "ltouch {} ({sb_bmapstart sb, addrs_of ip' ! NDIRECT} \<union> fblock st' (addrs_of ip') ` K - {0}) st st'"
  using assms unfolding grows_def by simp_all

lemma extends_grows: "extends sb Q K (ip, st) (ip', st') \<Longrightarrow> grows sb Q K (ip, st) (ip', st')"
  by (simp add: extends_def grows_def)

lemma grows_mono:
  assumes "grows sb Q L (ip, st) (ip', st')" "L \<subseteq> K"
  shows "grows sb Q K (ip, st) (ip', st')"
proof -
  have "ltouch {} ({sb_bmapstart sb, addrs_of ip' ! NDIRECT} \<union> fblock st' (addrs_of ip') ` K - {0}) st st'"
    by (rule ltouch_mono [OF growsD(7) [OF assms(1)]]) (use assms(2) in blast)
  then show ?thesis using assms(1) by (simp add: grows_def)
qed

lemma grows_refl: "log_inv st {} \<Longrightarrow> file_ok sb st (addrs_of ip) Q \<Longrightarrow> grows sb Q K (ip, st) (ip, st)"
  by (simp add: grows_def ltouch_refl)

lemma grows_trans:
  assumes "grows sb Q K (ip, st) (ip', st')" "grows sb Q L (ip', st') (ip'', st'')" "K \<subseteq> {..<MAXFILE}"
  shows "grows sb Q (K \<union> L) (ip, st) (ip'', st'')"
proof -
  note E = growsD [OF assms(1)] and F = growsD [OF assms(2)]
  have "{sb_bmapstart sb, addrs_of ip' ! NDIRECT} \<union> fblock st' (addrs_of ip') ` K - {0} \<subseteq>
    {sb_bmapstart sb, addrs_of ip'' ! NDIRECT} \<union> fblock st'' (addrs_of ip'') ` (K \<union> L) - {0}"
  proof
    fix b assume b: "b \<in> {sb_bmapstart sb, addrs_of ip' ! NDIRECT} \<union> fblock st' (addrs_of ip') ` K - {0}"
    then consider "b = sb_bmapstart sb" | "b = addrs_of ip' ! NDIRECT" "b \<noteq> 0" | k where "k \<in> K" "b = fblock st' (addrs_of ip') k" "b \<noteq> 0"
      by blast
    then show "b \<in> {sb_bmapstart sb, addrs_of ip'' ! NDIRECT} \<union> fblock st'' (addrs_of ip'') ` (K \<union> L) - {0}"
    proof cases
      case 3
      then have "k < MAXFILE" using assms(3) by auto
      then have "b = fblock st'' (addrs_of ip'') k" using F(4) 3 by simp
      then show ?thesis using 3 by auto
    qed (use b F(6) in auto)
  qed
  then have t: "ltouch {} ({sb_bmapstart sb, addrs_of ip'' ! NDIRECT} \<union> fblock st'' (addrs_of ip'') ` (K \<union> L) - {0}) st st''"
    by (intro ltouch_mono [OF ltouch_trans [OF E(7) F(7)]]) blast
  have f: "\<forall>k < MAXFILE. fblock st (addrs_of ip) k \<noteq> 0 \<longrightarrow> fblock st'' (addrs_of ip'') k = fblock st (addrs_of ip) k"
    using E(4) F(4) by simp
  have q: "\<forall>b \<in> Q. lview st'' b = lview st b" using E(5) F(5) by simp
  show ?thesis
    unfolding grows_def split using t f q E(6) F(1,2,6) same_but_addrs_trans [OF E(3) F(3)] by simp
qed

lemma grows_lused:
  assumes "grows sb Q K (ip, st) (ip', st')" "finite K"
  shows "lused sb st' \<le> lused sb st + 1 + card K"
proof -
  let ?W = "{sb_bmapstart sb, addrs_of ip' ! NDIRECT} \<union> fblock st' (addrs_of ip') ` K - {0}"
  have "?W - {sb_bmapstart sb} \<subseteq> insert (addrs_of ip' ! NDIRECT) (fblock st' (addrs_of ip') ` K)" by auto
  then have "card (?W - {sb_bmapstart sb}) \<le> card (insert (addrs_of ip' ! NDIRECT) (fblock st' (addrs_of ip') ` K))"
    using assms(2) by (intro card_mono) auto
  also have "\<dots> \<le> 1 + card K"
    using card_insert_le_m1 [of "1 + card K" "fblock st' (addrs_of ip') ` K" "addrs_of ip' ! NDIRECT"] card_image_le [OF assms(2), of "fblock st' (addrs_of ip')"] by simp
  finally show ?thesis using ltouch_lused [OF growsD(7) [OF assms(1)], of sb] assms(2) by simp
qed

text \<open>Looking up a block does not change the contents: a new block is zero.\<close>

lemma bmap_bytes:
  assumes inv: "log_inv st {}" and ok: "file_ok sb st (addrs_of ip) Q" and k: "k < MAXFILE"
    and room: "lused sb st + 3 < NBUF" and dev: "i_dev ip = log_dev st"
  shows "\<exists>addr ip' st'. bmap sb ip k st = Inr (addr, ip', st') \<and> grows sb Q {k} (ip, st) (ip', st') \<and>
    addr = fblock st' (addrs_of ip') k \<and> (\<forall>i < MAXFILE * BSIZE. fbyte st' (addrs_of ip') i = fbyte st (addrs_of ip) i) \<and>
    (addr = 0 \<longrightarrow> (\<forall>b < sb_size sb. used sb st' b))"
proof -
  obtain addr ip' st' where 1: "bmap sb ip k st = Inr (addr, ip', st')" "extends sb Q {k} (ip, st) (ip', st')"
    "addr = fblock st' (addrs_of ip') k"
    "fblock st (addrs_of ip) k = 0 \<longrightarrow> addr \<noteq> 0 \<longrightarrow> lview st' addr = replicate BSIZE 0" "addr = 0 \<longrightarrow> (\<forall>b < sb_size sb. used sb st' b)"
    using bmap_ok [OF assms] by blast
  note E = extendsD [OF 1(2)]
  have "fbyte st' (addrs_of ip') i = fbyte st (addrs_of ip) i" if i: "i < MAXFILE * BSIZE" for i
  proof (cases "fblock st (addrs_of ip) (i div BSIZE) = 0 \<and> i div BSIZE = k")
    case True
    then show ?thesis using 1(3,4) by (auto simp: fbyte_def)
  next
    case False
    then have "fblock st' (addrs_of ip') (i div BSIZE) = fblock st (addrs_of ip) (i div BSIZE)"
      using E(4) [OF block_index [OF i]] by auto
    then show ?thesis using E(6) [OF block_index [OF i]] by (simp add: fbyte_def)
  qed
  then show ?thesis using 1 extends_grows by blast
qed

text \<open>Writing part of a block of the file.\<close>

definition patch :: "nat \<Rightarrow> byte list \<Rightarrow> block \<Rightarrow> block" where
  "patch i bs d = take i d @ bs @ drop (i + length bs) d"

lemma length_patch: "i + length bs \<le> length d \<Longrightarrow> length (patch i bs d) = length d"
  by (simp add: patch_def)

lemma nth_patch:
  "i + length bs \<le> length d \<Longrightarrow> j < length d \<Longrightarrow> patch i bs d ! j = (if i \<le> j \<and> j < i + length bs then bs ! (j - i) else d ! j)"
  by (auto simp: patch_def nth_append)

lemma patch_block:
  assumes inv: "log_inv st {}" and ok: "file_ok sb st (addrs_of ip) Q" and room: "length (lh st) + 1 < NBUF"
    and dev: "i_dev ip = log_dev st" and off: "off div BSIZE < MAXFILE" "fblock st (addrs_of ip) (off div BSIZE) = a" "a \<noteq> 0"
    and bs: "off mod BSIZE + length bs \<le> BSIZE"
  shows "\<exists>bp t u v. lread (i_dev ip) a st = Inr (bp, t) \<and> ldata bp t = lview st a \<and>
    log_write bp (lset bp (patch (off mod BSIZE) bs (ldata bp t)) t) = Inr u \<and> lrelse bp u = Inr v \<and>
    grows sb Q {off div BSIZE} (ip, st) (ip, v) \<and> fblock v (addrs_of ip) = fblock st (addrs_of ip) \<and>
    (\<forall>b. used sb v b = used sb st b) \<and>
    (\<forall>i < MAXFILE * BSIZE. fbyte v (addrs_of ip) i = (if off \<le> i \<and> i < off + length bs then bs ! (i - off) else fbyte st (addrs_of ip) i))"
proof -
  let ?ad = "addrs_of ip" and ?k = "off div BSIZE" and ?o = "off mod BSIZE"
  have af: "a \<in> fblocks st ?ad" using fblocksI(1) off by blast
  then have da: "data_block sb a" using file_okD(3) [OF ok] by blast
  note dk = file_okD(1) [OF ok]
  note ab = data_block_facts [OF dk da]
  have ai: "a \<noteq> ?ad ! NDIRECT" using file_okD(5) [OF ok off(1)] off(2,3) by simp
  have len: "length (lview st a) = BSIZE" by (rule disk_okD(1) [OF dk])
  obtain bp t u v where v: "lread (i_dev ip) a st = Inr (bp, t)" "ldata bp t = lview st a"
    "log_write bp (lset bp (patch ?o bs (lview st a)) t) = Inr u" "lrelse bp u = Inr v" "log_inv v {}"
    "lview v = (lview st)(a := patch ?o bs (lview st a))" "ltouch {} {a} st v"
    using lread_modify [OF inv _ _ dev ab(1), where f = "patch ?o bs"] room by auto
  have fv: "fblock v ?ad = fblock st ?ad" using ai by (intro fblock_cong) (simp add: v(6))
  have us: "used sb v b = used sb st b" for b using ab(2) by (simp add: used_def v(6))
  have lp: "length (patch ?o bs (lview st a)) = BSIZE" using bs len by (simp add: length_patch)
  have "disk_ok sb v" by (rule ltouch_disk_ok [OF dk v(7)]) (use us lp v(6) in auto)
  then have okv: "file_ok sb v ?ad Q" by (rule file_ok_cong [OF ok _ fv]) (simp add: us)
  have q: "lview v b = lview st b" if "b \<in> Q" for b using file_okD(4) [OF ok that] af v(6) by auto
  have "ltouch {} ({sb_bmapstart sb, ?ad ! NDIRECT} \<union> fblock v ?ad ` {?k} - {0}) st v"
    by (rule ltouch_mono [OF v(7)]) (use off fv in auto)
  then have g: "grows sb Q {?k} (ip, st) (ip, v)" unfolding grows_def split using v(5) okv fv q by simp
  have "fbyte v ?ad i = (if off \<le> i \<and> i < off + length bs then bs ! (i - off) else fbyte st ?ad i)" if i: "i < MAXFILE * BSIZE" for i
  proof (cases "i div BSIZE = ?k")
    case True
    have "off = ?k * BSIZE + ?o" "i = ?k * BSIZE + i mod BSIZE" using True by (metis div_mult_mod_eq)+
    then have c: "off \<le> i \<and> i < off + length bs \<longleftrightarrow> ?o \<le> i mod BSIZE \<and> i mod BSIZE < ?o + length bs" "i - off = i mod BSIZE - ?o"
      by linarith+
    have "fbyte v ?ad i = patch ?o bs (lview st a) ! (i mod BSIZE)" using True off fv v(6) by (simp add: fbyte_def)
    also have "\<dots> = (if ?o \<le> i mod BSIZE \<and> i mod BSIZE < ?o + length bs then bs ! (i mod BSIZE - ?o) else lview st a ! (i mod BSIZE))"
      using bs len by (intro nth_patch) auto
    finally show ?thesis using c True off by (simp add: fbyte_def)
  next
    case False
    have "fblock st ?ad (i div BSIZE) \<noteq> a \<or> fblock st ?ad (i div BSIZE) = 0"
      using file_okD(6) [OF ok block_index [OF i] off(1)] False off(2) by auto
    then have "fbyte v ?ad i = fbyte st ?ad i" using fv v(6) off(3) by (auto simp: fbyte_def)
    moreover have "\<not> (off \<le> i \<and> i < off + length bs)"
    proof
      assume h: "off \<le> i \<and> i < off + length bs"
      have "?o < BSIZE" by simp
      then have "i - off < BSIZE - ?o" using h bs by linarith
      then show False using chunk_div [of "i - off" off] h False by simp
    qed
    ultimately show ?thesis by auto
  qed
  then show ?thesis using v(1-4) g fv us by auto
qed

text \<open>The blocks a range of bytes lies in.\<close>

definition span :: "nat \<Rightarrow> nat \<Rightarrow> nat set" where
  "span off n = (\<lambda>i. i div BSIZE) ` {off..<off + n}"

lemma finite_span [simp]: "finite (span off n)"
  by (simp add: span_def)

lemma span_MAXFILE: "off + n \<le> MAXFILE * BSIZE \<Longrightarrow> span off n \<subseteq> {..<MAXFILE}"
  by (auto simp: span_def intro!: block_index)

lemma span_first: "0 < n \<Longrightarrow> off div BSIZE \<in> span off n"
  by (auto simp: span_def)

lemma span_sub: "k \<le> n \<Longrightarrow> span (off + k) (n - k) \<subseteq> span off n"
  by (auto simp: span_def)

lemma span_split:
  assumes "k \<le> BSIZE - off mod BSIZE" "j \<in> span off (k + n)"
  shows "j = off div BSIZE \<or> j \<in> span (off + k) n"
proof -
  obtain i where i: "off \<le> i" "i < off + (k + n)" "j = i div BSIZE" using assms(2) by (auto simp: span_def)
  show ?thesis
  proof (cases "i < off + k")
    case True
    then have "i - off < BSIZE - off mod BSIZE" using i(1) assms(1) by simp
    then show ?thesis using chunk_div [of "i - off" off] i by simp
  qed (use i in \<open>auto simp: span_def\<close>)
qed

lemma card_span:
  assumes "0 < n"
  shows "card (span off n) \<le> (n + BSIZE - 2) div BSIZE + 1"
proof -
  let ?m = "(n + BSIZE - 2) div BSIZE + 1"
  have "span off n \<subseteq> {off div BSIZE..<off div BSIZE + ?m}"
  proof
    fix k assume "k \<in> span off n"
    then obtain i where i: "off \<le> i" "i < off + n" "k = i div BSIZE" by (auto simp: span_def)
    have "i \<le> off div BSIZE * BSIZE + (n + BSIZE - 2)"
      using i(2) assms mod_less_divisor [OF BSIZE_pos, of off] div_mult_mod_eq [of off BSIZE] by linarith
    then have "i div BSIZE \<le> (off div BSIZE * BSIZE + (n + BSIZE - 2)) div BSIZE" by (rule div_le_mono)
    also have "\<dots> = off div BSIZE + (n + BSIZE - 2) div BSIZE" by simp
    finally show "k \<in> {off div BSIZE..<off div BSIZE + ?m}" using i div_le_mono [OF i(1), of BSIZE] by auto
  qed
  then have "card (span off n) \<le> card {off div BSIZE..<off div BSIZE + ?m}" by (intro card_mono) auto
  then show ?thesis by simp
qed

lemma lset_same [simp]: "lset bp (ldata bp st) st = st"
  by (simp add: lset_def ldata_def set_data_def upd_buf_def)

text \<open>A chunk that is not copied leaves its block as it is.\<close>

lemma read_block_grows:
  assumes "log_inv st {}" "file_ok sb st (addrs_of ip) Q" "length (lh st) < NBUF" "i_dev ip = log_dev st"
  shows "\<exists>bp t u. lread (i_dev ip) a st = Inr (bp, t) \<and> lrelse bp t = Inr u \<and> grows sb Q K (ip, st) (ip, u) \<and>
    fblock u (addrs_of ip) = fblock st (addrs_of ip) \<and> fbyte u (addrs_of ip) = fbyte st (addrs_of ip)"
proof -
  obtain bp t u where 1: "lread (i_dev ip) a st = Inr (bp, t)" "lrelse bp t = Inr u" "log_inv u {}" "lview u = lview st" "ltouch {} {} st u"
    using lread_relse [OF assms(1) _ _ assms(4), of a] assms(3) by auto
  have "grows sb Q K (ip, st) (ip, u)" by (rule extends_grows [OF extends_same [OF 1(3) assms(2) 1(4,5)]])
  moreover have f: "fblock u (addrs_of ip) = fblock st (addrs_of ip)" by (rule fblock_cong) (simp add: 1(4))
  moreover have "fbyte u (addrs_of ip) = fbyte st (addrs_of ip)" by (rule ext) (simp add: fbyte_def f 1(4))
  ultimately show ?thesis using 1(1,2) by blast
qed

lemma writei_loop_ok:
  assumes "grows sb Q L (ip0, st0) (ip, st)" "L \<subseteq> K" "K \<subseteq> {..<MAXFILE}" "lused sb st0 + card K + 4 < NBUF" "i_dev ip0 = log_dev st0"
    and "span off left \<subseteq> K" "off + left \<le> MAXFILE * BSIZE" "length bs = left"
    and "\<And>i k. i + k \<le> left \<Longrightarrow> copy (src + of_nat i) k \<in> {Inr (0, take k (drop i bs)), Inr (-1, [])}"
  shows "\<exists>n ip' st'. writei_loop copy sb left off src tot ip st = Inr (tot + n, ip', st') \<and> n \<le> left \<and>
    grows sb Q K (ip0, st0) (ip', st') \<and>
    (\<forall>i < MAXFILE * BSIZE. fbyte st' (addrs_of ip') i = (if off \<le> i \<and> i < off + n then bs ! (i - off) else fbyte st (addrs_of ip) i)) \<and>
    (\<forall>k < MAXFILE. fblock st (addrs_of ip) k \<noteq> 0 \<or> k \<in> span off n \<longrightarrow> fblock st' (addrs_of ip') k \<noteq> 0) \<and>
    (n < left \<longrightarrow> (\<forall>b < sb_size sb. used sb st' b) \<or> (\<exists>k. copy (src + of_nat n) k = Inr (-1, [])))"
  using assms
proof (induction left arbitrary: off src tot ip st bs L rule: less_induct)
  case (less left)
  have finK: "finite K" using less.prems(3) finite_subset by blast
  have up: "grows sb Q K (ip0, st0) (ip', st')" if "grows sb Q M (ip0, st0) (ip', st')" "M \<subseteq> K" for M ip' st'
    by (rule grows_mono [OF that])
  show ?case
  proof (cases "left = 0")
    case True
    then show ?thesis using up [OF less.prems(1,2)] by (auto simp: writei_loop.simps span_def)
  next
    case False
    let ?k = "min left (BSIZE - off mod BSIZE)" and ?ad = "addrs_of ip" and ?b = "off div BSIZE"
    note G = growsD [OF less.prems(1)]
    have k: "0 < ?k" "?k \<le> left" "off mod BSIZE + ?k \<le> BSIZE" using False chunk_pos [of left off] mod_less_divisor [OF BSIZE_pos, of off] by linarith+
    have bm: "?b < MAXFILE" and bK: "?b \<in> K" using less.prems(6,7) False block_index [of off] span_first [of left off] by auto
    have "lused sb st + 3 < NBUF"
      using grows_lused [OF less.prems(1)] card_mono [OF finK less.prems(2)] less.prems(4) finite_subset [OF less.prems(2) finK] by simp
    moreover have dev: "i_dev ip = log_dev st"
      using less.prems(5) same_but_addrsD(1) [OF G(3)] G(7) by (simp add: ltouch_def lsame_def)
    ultimately obtain a ip1 st1 where 1: "bmap sb ip ?b st = Inr (a, ip1, st1)" "grows sb Q {?b} (ip, st) (ip1, st1)"
      "a = fblock st1 (addrs_of ip1) ?b" "\<forall>i < MAXFILE * BSIZE. fbyte st1 (addrs_of ip1) i = fbyte st ?ad i"
      "a = 0 \<longrightarrow> (\<forall>b < sb_size sb. used sb st1 b)"
      using bmap_bytes [OF G(1,2) bm] by blast
    note E = growsD [OF 1(2)]
    have g1: "grows sb Q (insert ?b L) (ip0, st0) (ip1, st1)" using grows_trans [OF less.prems(1) 1(2)] less.prems(2,3) by auto
    have L1: "insert ?b L \<subseteq> K" using bK less.prems(2) by blast
    show ?thesis
    proof (cases "a = 0")
      case True
      then show ?thesis using False 1(1,4,5) up [OF g1 L1]
        by (intro exI [of _ 0] exI [of _ ip1] exI [of _ st1]) (auto simp: writei_loop.simps E(4) span_def)
    next
      case a: False
      have dev1: "i_dev ip1 = log_dev st1" using dev same_but_addrsD(1) [OF E(3)] E(7) by (simp add: ltouch_def lsame_def)
      have room: "length (lh st1) + 1 < NBUF"
        using grows_lused [OF g1] card_mono [OF finK L1] less.prems(4) finite_subset [OF L1 finK] lused_length(1) [OF E(1), of sb] by simp
      show ?thesis
      proof (cases "copy src ?k = Inr (-1, [])")
        case True
        obtain bp t u where 2: "lread (i_dev ip1) a st1 = Inr (bp, t)" "lrelse bp t = Inr u" "grows sb Q {?b} (ip1, st1) (ip1, u)"
          "fblock u (addrs_of ip1) = fblock st1 (addrs_of ip1)" "fbyte u (addrs_of ip1) = fbyte st1 (addrs_of ip1)"
          using read_block_grows [OF E(1,2) _ dev1, of a "{?b}"] room by auto
        have "grows sb Q (insert ?b L) (ip0, st0) (ip1, u)" using grows_trans [OF g1 2(3)] L1 less.prems(3) by auto
        note g2 = up [OF this L1]
        have "\<forall>i < MAXFILE * BSIZE. fbyte u (addrs_of ip1) i = fbyte st ?ad i" using 1(4) 2(5) by simp
        moreover have "writei_loop copy sb left off src tot ip st = Inr (tot, ip1, u)"
          using False a 1(1) 2(1,2) True by (subst writei_loop.simps) (simp add: Let_def)
        ultimately show ?thesis using g2 True E(4) 2(4) by (intro exI [of _ 0] exI [of _ ip1] exI [of _ u]) (auto simp: span_def)
      next
        case ok: False
        obtain bp t u v where 2: "lread (i_dev ip1) a st1 = Inr (bp, t)"
          "log_write bp (lset bp (patch (off mod BSIZE) (take ?k bs) (ldata bp t)) t) = Inr u" "lrelse bp u = Inr v"
          "grows sb Q {?b} (ip1, st1) (ip1, v)" "fblock v (addrs_of ip1) = fblock st1 (addrs_of ip1)"
          "\<forall>i < MAXFILE * BSIZE. fbyte v (addrs_of ip1) i = (if off \<le> i \<and> i < off + ?k then take ?k bs ! (i - off) else fbyte st1 (addrs_of ip1) i)"
          using patch_block [OF E(1,2) _ dev1 bm 1(3) [symmetric] a, of "take ?k bs"] k(2,3) less.prems(8) room by auto
        have g2: "grows sb Q (insert ?b L) (ip0, st0) (ip1, v)" using grows_trans [OF g1 2(4)] L1 less.prems(3) by auto
        have cp: "copy (src + of_nat ?k + of_nat i) k' \<in> {Inr (0, take k' (drop i (drop ?k bs))), Inr (-1, [])}" if "i + k' \<le> left - ?k" for i k'
        proof -
          have "?k + i + k' \<le> left" using that k(2) by linarith
          then show ?thesis using less.prems(9) [of "?k + i" k'] by (simp add: algebra_simps)
        qed
        have "left - ?k < left" "span (off + ?k) (left - ?k) \<subseteq> K" "off + ?k + (left - ?k) \<le> MAXFILE * BSIZE" "length (drop ?k bs) = left - ?k"
          using k span_sub [OF k(2), of off] less.prems(6-8) by auto
        then obtain n ip' st' where 3: "writei_loop copy sb (left - ?k) (off + ?k) (src + of_nat ?k) (tot + ?k) ip1 v = Inr (tot + ?k + n, ip', st')"
          "n \<le> left - ?k" "grows sb Q K (ip0, st0) (ip', st')"
          "\<forall>i < MAXFILE * BSIZE. fbyte st' (addrs_of ip') i = (if off + ?k \<le> i \<and> i < off + ?k + n then drop ?k bs ! (i - (off + ?k)) else fbyte v (addrs_of ip1) i)"
          "\<forall>k < MAXFILE. fblock v (addrs_of ip1) k \<noteq> 0 \<or> k \<in> span (off + ?k) n \<longrightarrow> fblock st' (addrs_of ip') k \<noteq> 0"
          "n < left - ?k \<longrightarrow> (\<forall>b < sb_size sb. used sb st' b) \<or> (\<exists>k. copy (src + of_nat ?k + of_nat n) k = Inr (-1, []))"
          using less.IH [OF _ g2 L1 less.prems(3-5), where bs = "drop ?k bs" and src = "src + of_nat ?k"] cp by blast
        have "writei_loop copy sb left off src tot ip st = Inr (tot + (?k + n), ip', st')"
          using False a 1(1) 2(1-3) 3(1) less.prems(9) [of 0 ?k] k(2) ok
          by (subst writei_loop.simps) (simp add: Let_def patch_def min.absorb1 less.prems(8) add.assoc)
        moreover have "fbyte st' (addrs_of ip') i = (if off \<le> i \<and> i < off + (?k + n) then bs ! (i - off) else fbyte st ?ad i)"
          if i: "i < MAXFILE * BSIZE" for i
        proof -
          have "drop ?k bs ! (i - (off + ?k)) = bs ! (i - off)" if "off + ?k \<le> i"
            using that k(2) less.prems(8) by (subst nth_drop) auto
          moreover have "take ?k bs ! (i - off) = bs ! (i - off)" if "off \<le> i" "i < off + ?k" using that by (intro nth_take) linarith
          ultimately show ?thesis
            using 3(4) [rule_format, OF i] 2(6) [rule_format, OF i] 1(4) [rule_format, OF i] k(1) by (auto split: if_splits)
        qed
        moreover have "fblock st' (addrs_of ip') j \<noteq> 0" if "j < MAXFILE" "fblock st ?ad j \<noteq> 0 \<or> j \<in> span off (?k + n)" for j
          using that 3(5) 2(5) a 1(3) E(4) [OF that(1)] span_split [of ?k off j n] by auto
        moreover have "?k + n \<le> left" using 3(2) k(2) by linarith
        moreover have "(\<forall>b < sb_size sb. used sb st' b) \<or> (\<exists>k. copy (src + of_nat (?k + n)) k = Inr (-1, []))" if "?k + n < left"
        proof -
          have "src + of_nat (?k + n) = src + of_nat ?k + of_nat n" unfolding of_nat_add by (rule add.assoc [symmetric])
          moreover have "n < left - ?k" using that k(2) by linarith
          ultimately show ?thesis using 3(6) by metis
        qed
        ultimately show ?thesis using 3(3) by (intro exI [of _ "?k + n"] exI [of _ ip'] exI [of _ st']) auto
      qed
    qed
  qed
qed

section \<open>The inode on disk\<close>

lemma rd16_wr32s_before: "j + 2 \<le> i \<Longrightarrow> rd16 (wr32s i vs d) j = rd16 d j"
  by (induction vs arbitrary: i d) (simp_all add: rd16_wr32_other)

lemma nth_wr32s: "k < i \<or> i + 4 * length vs \<le> k \<Longrightarrow> wr32s i vs d ! k = d ! k"
  by (induction vs arbitrary: i d) (auto simp: nth_wr32)

lemma length_wr_dinode [simp]: "length (wr_dinode i di d) = length d"
  by (simp add: wr_dinode_def)

lemma rd_wr_dinode:
  assumes "length (di_addrs di) = NDIRECT + 1" "i + 64 \<le> length d"
  shows "rd_dinode (wr_dinode i di d) i = di"
proof -
  have "map (\<lambda>k. rd32 (wr_dinode i di d) (i + 12 + 4 * k)) [0..<NDIRECT + 1] = di_addrs di"
  proof (rule nth_equalityI)
    fix k assume "k < length (map (\<lambda>k. rd32 (wr_dinode i di d) (i + 12 + 4 * k)) [0..<NDIRECT + 1])"
    then have k: "k < length (di_addrs di)" using assms(1) by simp
    then show "map (\<lambda>k. rd32 (wr_dinode i di d) (i + 12 + 4 * k)) [0..<NDIRECT + 1] ! k = di_addrs di ! k"
      using assms rd32_wr32s [OF k, of "i + 12"] by (simp add: wr_dinode_def NDIRECT_def del: upt_Suc)
  qed (use assms(1) in simp)
  moreover have "rd16 (wr_dinode i di d) i = di_type di" "rd16 (wr_dinode i di d) (i + 2) = di_major di"
    "rd16 (wr_dinode i di d) (i + 4) = di_minor di" "rd16 (wr_dinode i di d) (i + 6) = di_nlink di" "rd32 (wr_dinode i di d) (i + 8) = di_size di"
    using assms(2) by (simp_all add: wr_dinode_def rd_wr rd16_wr32s_before rd32_wr32s_before)
  ultimately show ?thesis by (simp add: rd_dinode_def)
qed

lemma nth_wr_dinode:
  assumes "length (di_addrs di) = NDIRECT + 1" "k < i \<or> i + 64 \<le> k"
  shows "wr_dinode i di d ! k = d ! k"
  using assms by (auto simp: wr_dinode_def nth_wr32s nth_wr32 nth_wr16 NDIRECT_def)

lemma rd_dinode_cong: "(\<And>k. i \<le> k \<Longrightarrow> k < i + 64 \<Longrightarrow> d ! k = e ! k) \<Longrightarrow> rd_dinode d i = rd_dinode e i"
  by (simp add: rd_dinode_def rd16_def rd32_def NDIRECT_def)

lemma rd_wr_dinode_other:
  assumes "length (di_addrs di) = NDIRECT + 1" "j + 64 \<le> i \<or> i + 64 \<le> j"
  shows "rd_dinode (wr_dinode i di d) j = rd_dinode d j"
  using assms by (intro rd_dinode_cong nth_wr_dinode) auto

lemma inode_block:
  assumes "disk_ok sb st" "inum < sb_ninodes sb"
  shows "outside_log (log_start st) (IBLOCK inum sb)" "IBLOCK inum sb < sb_bmapstart sb" "IBLOCK inum sb \<noteq> sb_bmapstart sb"
    "data_block sb b \<Longrightarrow> b \<noteq> IBLOCK inum sb" "unat (IBLOCK inum sb) = unat (sb_inodestart sb) + unat inum div IPB"
proof -
  have L: "unat (log_start st) + LOGSIZE \<le> unat (sb_inodestart sb)" "unat (sb_inodestart sb) + unat (sb_ninodes sb) div IPB < unat (sb_bmapstart sb)"
    using disk_okD(2) [OF assms(1)] by (auto simp: fs_layout_def)
  have d: "unat inum div IPB \<le> unat (sb_ninodes sb) div IPB" using assms(2) by (intro div_le_mono) (simp add: word_less_nat_alt less_imp_le)
  have b: "unat (sb_bmapstart sb) < 2 ^ 32" using unsigned_less [of "sb_bmapstart sb", where ?'a = nat] by simp
  have q: "unat (of_nat (unat inum div IPB) :: uint) = unat inum div IPB" using d L(2) b by (simp add: unat_of_nat)
  show u: "unat (IBLOCK inum sb) = unat (sb_inodestart sb) + unat inum div IPB"
    using q d L(2) b by (simp add: IBLOCK_def unat_word_ariths)
  show "outside_log (log_start st) (IBLOCK inum sb)" using u L(1) by (intro outside_logI) simp
  show "IBLOCK inum sb < sb_bmapstart sb" using u d L(2) by (simp add: word_less_nat_alt)
  then show "IBLOCK inum sb \<noteq> sb_bmapstart sb" "data_block sb b \<Longrightarrow> b \<noteq> IBLOCK inum sb" by (auto simp: data_block_def)
qed

lemma inode_off_bound: "inode_off inum + 64 \<le> BSIZE"
  by (simp add: inode_off_def BSIZE_def IPB_def)

lemma iupdate_ok:
  assumes inv: "log_inv st H" "IBLOCK (i_inum ip) sb \<notin> H" and dk: "disk_ok sb st" and inum: "i_inum ip < sb_ninodes sb" and room: "length (lh st) + card H + 1 < NBUF"
    and dev: "i_dev ip = log_dev st" and ad: "length (addrs_of ip) = NDIRECT + 1"
  defines "b \<equiv> IBLOCK (i_inum ip) sb"
  shows "\<exists>t. iupdate sb ip st = Inr t \<and> log_inv t H \<and> lview t = (lview st)(b := wr_dinode (inode_off (i_inum ip)) (din ip) (lview st b)) \<and>
    disk_ok sb t \<and> (\<forall>c. used sb t c = used sb st c) \<and> ltouch H {b} st t \<and> length (lh t) \<le> Suc (length (lh st)) \<and>
    rd_dinode (lview t b) (inode_off (i_inum ip)) = din ip"
proof -
  note B = inode_block [OF dk inum]
  have len: "length (lview st b) = BSIZE" by (rule disk_okD(1) [OF dk])
  obtain bp t u v where v: "lread (i_dev ip) b st = Inr (bp, t)" "ldata bp t = lview st b"
    "log_write bp (lset bp (wr_dinode (inode_off (i_inum ip)) (din ip) (lview st b)) t) = Inr u" "lrelse bp u = Inr v" "log_inv v H"
    "lview v = (lview st)(b := wr_dinode (inode_off (i_inum ip)) (din ip) (lview st b))" "length (lh v) \<le> Suc (length (lh st))" "ltouch H {b} st v"
    using lread_modify [OF inv room dev B(1), where f = "wr_dinode (inode_off (i_inum ip)) (din ip)"] unfolding b_def by blast
  have us: "used sb v c = used sb st c" for c using B(3) by (simp add: used_def v(6) b_def)
  moreover have "disk_ok sb v" by (rule ltouch_disk_ok [OF dk v(8)]) (use us v(6) len in auto)
  moreover have "rd_dinode (lview v b) (inode_off (i_inum ip)) = din ip"
    using inode_off_bound len ad by (simp add: v(6) rd_wr_dinode)
  moreover have "iupdate sb ip st = Inr v" using v(1-4) by (simp add: iupdate_def b_def)
  ultimately show ?thesis using v(5-8) by blast
qed

end
