(* ===== verification/Filedata.thy ===== *)
theory Filedata
  imports Fileio
begin

text \<open>Whole requests: what \<open>readi\<close> delivers, what \<open>writei\<close> makes of the contents of a file, and which blocks
  \<open>itrunc\<close> gives back.\<close>

section \<open>Reading and writing a whole request\<close>

text \<open>An inode in use: locked by the caller, its copy on disk known, its blocks its own.\<close>

definition open_file :: "superblock \<Rightarrow> uint set \<Rightarrow> inode \<Rightarrow> logst \<Rightarrow> bool" where
  "open_file sb Q ip st \<longleftrightarrow> log_inv st {} \<and> file_ok sb st (addrs_of ip) Q \<and> no_holes st ip \<and> i_dev ip = log_dev st \<and>
    i_inum ip < sb_ninodes sb"

lemma open_fileD:
  assumes "open_file sb Q ip st"
  shows "log_inv st {}" "file_ok sb st (addrs_of ip) Q" "no_holes st ip" "i_dev ip = log_dev st" "i_inum ip < sb_ninodes sb"
    "unat (di_size (din ip)) \<le> MAXFILE * BSIZE" "length (contents st ip) = unat (di_size (din ip))"
  using assms by (simp_all add: open_file_def no_holes_def contents_def)

lemma uint_add:
  fixes a b :: uint
  assumes "unat a + unat b < 2 ^ 32"
  shows "unat (a + b) = unat a + unat b" "\<not> a + b < a"
proof -
  show u: "unat (a + b) = unat a + unat b" using assms by (simp add: unat_word_ariths)
  show "\<not> a + b < a" by (simp add: word_less_nat_alt u)
qed

lemma readi_ok:
  assumes "open_file sb Q ip st" "lused sb st + 3 < NBUF" "off \<le> di_size (din ip)" "unat off + unat n < 2 ^ 32"
  defines "c \<equiv> take (unat n) (drop (unat off) (contents st ip))"
  assumes "J 0 m" and "\<And>i k m. J i m \<Longrightarrow> i + k \<le> length c \<Longrightarrow>
      \<exists>m'. copy (dst + of_nat i) (take k (drop i c)) m = Inr (0, m') \<and> J (i + k) m'"
  shows "\<exists>st' m'. readi copy sb ip dst off n st m = Inr (int (length c), ip, st', m') \<and> open_file sb Q ip st' \<and>
    lview st' = lview st \<and> lh st' = lh st \<and> ltouch {} {} st st' \<and> J (length c) m'"
proof -
  note O = open_fileD [OF assms(1)]
  let ?sz = "unat (di_size (din ip))" and ?n = "if off + n > di_size (din ip) then di_size (din ip) - off else n"
  have off: "unat off \<le> ?sz" using assms(3) by (simp add: word_le_nat_alt)
  note w = uint_add [OF assms(4)]
  have sub: "unat (di_size (din ip) - off) = ?sz - unat off" using assms(3) by (rule unat_sub)
  have un: "unat ?n = min (unat n) (?sz - unat off)" using w sub by (auto simp: word_less_nat_alt)
  have lc: "length c = unat ?n" using O(7) by (simp add: c_def un)
  have le: "unat off + unat ?n \<le> ?sz" using un off by linarith
  have step: "\<exists>m'. copy (dst + of_nat (i - 0)) (take k (drop (unat off + (i - 0)) (contents st ip))) m = Inr (0, m') \<and> J (i + k) m'"
    if "J i m" "0 \<le> i" "i + k \<le> 0 + unat ?n" for i k m
  proof -
    have "take k (drop (unat off + i) (contents st ip)) = take k (drop i c)"
    proof -
      have "k \<le> unat n - i" using that(3) unfolding un by linarith
      then show ?thesis by (simp add: c_def drop_take min.absorb1 add.commute)
    qed
    then show ?thesis using assms(7) [OF that(1), of k] that(3) lc by simp
  qed
  have "\<exists>st' m'. readi_loop copy sb (unat ?n) (unat off) dst 0 ip st m = Inr (int (0 + unat ?n), ip, st', m') \<and> log_inv st' {} \<and>
    lview st' = lview st \<and> lh st' = lh st \<and> ltouch {} {} st st' \<and> J (0 + unat ?n) m'"
    by (rule readi_loop_ok [where J = J, OF O(1-3) assms(2) O(4) le assms(6) step])
  then obtain st' m' where r: "readi_loop copy sb (unat ?n) (unat off) dst 0 ip st m = Inr (int (0 + unat ?n), ip, st', m')" "log_inv st' {}"
    "lview st' = lview st" "lh st' = lh st" "ltouch {} {} st st'" "J (0 + unat ?n) m'" by blast
  have f: "fblock st' (addrs_of ip) = fblock st (addrs_of ip)" by (rule fblock_cong) (simp add: r(3))
  have "open_file sb Q ip st'"
    using extendsD(2) [OF extends_same [OF r(2) O(2) r(3,5)]] r(2,5) O(3-5) f
    by (auto simp: open_file_def no_holes_def ltouch_def lsame_def)
  moreover have ng: "\<not> (off > di_size (din ip) \<or> off + n < off)" using assms(3) w(2) by (simp add: not_less)
  have "readi copy sb ip dst off n st m = Inr (int (length c), ip, st', m')"
    unfolding readi_def if_not_P [OF ng] Let_def r(1) lc by simp
  ultimately show ?thesis using r(3-6) lc by auto
qed

lemma write_contents:
  assumes "unat (di_size (din ip')) = max (unat (di_size (din ip))) (off + t)" "off \<le> unat (di_size (din ip))" "t \<le> length bs"
    and "\<And>i. i < unat (di_size (din ip')) \<Longrightarrow>
      fbyte st' (addrs_of ip') i = (if off \<le> i \<and> i < off + t then bs ! (i - off) else fbyte st (addrs_of ip) i)"
  shows "contents st' ip' = take off (contents st ip) @ take t bs @ drop (off + t) (contents st ip)"
proof (rule nth_equalityI)
  show "length (contents st' ip') = length (take off (contents st ip) @ take t bs @ drop (off + t) (contents st ip))"
    using assms(1-3) by (simp add: contents_def)
  fix i assume "i < length (contents st' ip')"
  then have i: "i < unat (di_size (din ip'))" by (simp add: contents_def)
  then show "contents st' ip' ! i = (take off (contents st ip) @ take t bs @ drop (off + t) (contents st ip)) ! i"
  proof (cases "i < off + t")
    case True
    then show ?thesis using assms(2,3) assms(4) [OF i] i by (auto simp: contents_def nth_append)
  next
    case False
    then have "i < unat (di_size (din ip))" using i assms(1) by linarith
    then show ?thesis using False assms(2,3) assms(4) [OF i] i by (auto simp: contents_def nth_append)
  qed
qed

lemma writei_ok:
  assumes "open_file sb Q ip st" "lused sb st + card (span (unat off) (unat n)) + 4 < NBUF"
    and off: "off \<le> di_size (din ip)" "unat off + unat n \<le> MAXFILE * BSIZE" and bs: "length bs = unat n"
    and copy: "\<And>i k. i + k \<le> unat n \<Longrightarrow> copy (src + of_nat i) k \<in> {Inr (0, take k (drop i bs)), Inr (-1, [])}"
  shows "\<exists>t ip' st'. writei copy sb ip src off n st = Inr (int t, ip', st') \<and> t \<le> unat n \<and> open_file sb Q ip' st' \<and>
    contents st' ip' = take (unat off) (contents st ip) @ take t bs @ drop (unat off + t) (contents st ip) \<and>
    (\<forall>b \<in> Q. lview st' b = lview st b) \<and>
    rd_dinode (lview st' (IBLOCK (i_inum ip) sb)) (inode_off (i_inum ip)) = din ip' \<and>
    (t < unat n \<longrightarrow> (\<forall>b < sb_size sb. used sb st' b) \<or> (\<exists>k. copy (src + of_nat t) k = Inr (-1, []))) \<and>
    length (lh st') \<le> length (lh st) + card (span (unat off) (unat n)) + 3"
proof -
  note O = open_fileD [OF assms(1)]
  let ?K = "span (unat off) (unat n)" and ?M = "MAXFILE * BSIZE" and ?sz = "unat (di_size (din ip))"
  have M: "?M = 274432" by (simp add: MAXFILE_def NDIRECT_def NINDIRECT_def BSIZE_def)
  have w: "unat off + unat n < 2 ^ 32" using off(2) M by simp
  note g = grows_refl [OF O(1,2), of "{}"]
  obtain t ip1 st1 where 1: "writei_loop copy sb (unat n) (unat off) src 0 ip st = Inr (0 + t, ip1, st1)" "t \<le> unat n"
    "grows sb Q ?K (ip, st) (ip1, st1)"
    "\<forall>i < ?M. fbyte st1 (addrs_of ip1) i = (if unat off \<le> i \<and> i < unat off + t then bs ! (i - unat off) else fbyte st (addrs_of ip) i)"
    "\<forall>k < MAXFILE. fblock st (addrs_of ip) k \<noteq> 0 \<or> k \<in> span (unat off) t \<longrightarrow> fblock st1 (addrs_of ip1) k \<noteq> 0"
    "t < unat n \<longrightarrow> (\<forall>b < sb_size sb. used sb st1 b) \<or> (\<exists>k. copy (src + of_nat t) k = Inr (-1, []))"
    using writei_loop_ok [OF g empty_subsetI span_MAXFILE [OF off(2)] assms(2) O(4) order_refl off(2) bs copy] by blast
  note G = growsD [OF 1(3)] and S = same_but_addrsD [OF growsD(3) [OF 1(3)]]
  let ?off1 = "off + of_nat t" and ?sz1 = "max ?sz (unat off + t)"
  define ip2 where "ip2 = (if ?off1 > di_size (din ip1) then ip1\<lparr>din := (din ip1)\<lparr>di_size := ?off1\<rparr>\<rparr> else ip1)"
  have "unat (of_nat t :: uint) = t" using 1(2) w by (simp add: unat_of_nat)
  then have o1: "unat ?off1 = unat off + t" using uint_add(1) [of off "of_nat t"] w 1(2) by simp
  have ip2: "addrs_of ip2 = addrs_of ip1" "i_inum ip2 = i_inum ip" "i_dev ip2 = i_dev ip" "unat (di_size (din ip2)) = ?sz1"
    using S o1 by (auto simp: ip2_def word_less_nat_alt max_def)
  have "length (lh st1) + 1 < NBUF"
    using grows_lused [OF 1(3)] assms(2) lused_length(1) [OF G(1), of sb] by simp
  then obtain st2 where 2: "iupdate sb ip2 st1 = Inr st2" "log_inv st2 {}" "disk_ok sb st2" "\<forall>c. used sb st2 c = used sb st1 c"
    "ltouch {} {IBLOCK (i_inum ip) sb} st1 st2" "length (lh st2) \<le> Suc (length (lh st1))"
    "rd_dinode (lview st2 (IBLOCK (i_inum ip) sb)) (inode_off (i_inum ip)) = din ip2"
    using iupdate_ok [OF G(1) _ file_okD(1) [OF G(2)], of ip2] O(4,5) ip2 file_okD(2) [OF G(2)] G(7) by (auto simp: ltouch_def lsame_def)
  have db: "lview st2 b = lview st1 b" if "data_block sb b" for b
    using 2(5) inode_block(4) [OF file_okD(1) [OF O(2)] O(5) that] by (auto simp: ltouch_def)
  have fk: "fblock st2 (addrs_of ip1) = fblock st1 (addrs_of ip1)"
    using file_okD(3) [OF G(2)] fblocksI(2) [of "addrs_of ip1" st1] db by (intro ext) (auto simp: fblock_def)
  have ok2: "file_ok sb st2 (addrs_of ip2) Q" unfolding ip2(1) by (rule file_ok_cong [OF G(2) 2(3) fk]) (simp add: 2(4))
  have bt: "fbyte st2 (addrs_of ip2) i = (if unat off \<le> i \<and> i < unat off + t then bs ! (i - unat off) else fbyte st (addrs_of ip) i)" if "i < ?M" for i
    using 1(4) that db file_okD(3) [OF G(2)] fblocksI(1) [OF block_index [OF that]] by (auto simp: fbyte_def fk ip2(1))
  have szM: "?sz1 \<le> ?M" using O(6) off(2) 1(2) by simp
  have "no_holes st2 ip2"
    unfolding no_holes_def ip2(4)
  proof (intro conjI allI impI szM)
    fix i assume i: "i < ?sz1"
    have "i div BSIZE \<in> span (unat off) t" if "\<not> i < ?sz" using that i off(1) by (auto simp: span_def word_le_nat_alt)
    moreover have "i div BSIZE < MAXFILE" using i szM by (intro block_index) linarith
    moreover have "fblock st (addrs_of ip) (i div BSIZE) \<noteq> 0" if "i < ?sz" using O(3) that by (simp add: no_holes_def)
    ultimately show "fblock st2 (addrs_of ip2) (i div BSIZE) \<noteq> 0" using 1(5) unfolding ip2(1) fk by blast
  qed
  then have opn: "open_file sb Q ip2 st2"
    using 2(2,5) ok2 O(4,5) ip2 G(7) by (simp add: open_file_def ltouch_def lsame_def)
  have con: "contents st2 ip2 = take (unat off) (contents st ip) @ take t bs @ drop (unat off + t) (contents st ip)"
  proof (rule write_contents [OF ip2(4) _ _ bt])
    show "i < ?M" if "i < unat (di_size (din ip2))" for i using that szM unfolding ip2(4) by linarith
  qed (use off(1) 1(2) bs in \<open>auto simp: word_le_nat_alt\<close>)
  have "length (lh st1) \<le> length (lh st) + card ?K + 2"
    using grows_lused [OF 1(3)] lused_length(1) [OF G(1), of sb] card_insert_le_m1 [of "Suc (length (lh st))" "set (lh st)" "sb_bmapstart sb"] card_length [of "lh st"]
    by (simp add: lused_def)
  moreover have "\<forall>b \<in> Q. lview st2 b = lview st b" using G(5) db file_okD(3) [OF G(2)] by simp
  moreover have "writei copy sb ip src off n st = Inr (int t, ip2, st2)"
    using 1(1) 2(1) off(1) uint_add [OF w] off(2) M by (simp add: writei_def Let_def ip2_def not_less word_le_nat_alt)
  ultimately show ?thesis using 1(2,6) 2(4,6,7) opn con by auto
qed

section \<open>Truncating\<close>

lemma ltouch_bitmap_room: "ltouch H {sb_bmapstart sb} st t \<Longrightarrow> lused sb t = lused sb st"
  unfolding lused_def ltouch_def by (metis (no_types, lifting) Un_insert_right insert_absorb2 insert_mono subset_antisym sup_bot_right)

text \<open>The loop over the direct blocks.\<close>

lemma itrunc_dir_ok:
  assumes inv: "log_inv st {}" and ok: "file_ok sb st (addrs_of ip) Q" and room: "lused sb st + 1 < NBUF" and dev: "i_dev ip = log_dev st"
  shows "n \<le> NDIRECT \<Longrightarrow> \<exists>ip' st'. itrunc_dir sb [0..<n] (ip, st) = Inr (ip', st') \<and> same_but_addrs ip ip' \<and>
    addrs_of ip' = replicate n 0 @ drop n (addrs_of ip) \<and> log_inv st' {} \<and> disk_ok sb st' \<and> ltouch {} {sb_bmapstart sb} st st' \<and>
    (\<forall>c. used sb st' c \<longleftrightarrow> used sb st c \<and> (c = 0 \<or> c \<notin> set (take n (addrs_of ip))))"
proof (induction n)
  case 0
  then show ?case using inv file_okD(1) [OF ok] by (simp add: itrunc_dir_def ltouch_refl)
next
  case (Suc n)
  let ?ad = "addrs_of ip"
  have len: "length ?ad = NDIRECT + 1" by (rule file_okD(2) [OF ok])
  obtain ip1 st1 where 1: "itrunc_dir sb [0..<n] (ip, st) = Inr (ip1, st1)" "same_but_addrs ip ip1" "addrs_of ip1 = replicate n 0 @ drop n ?ad"
    "log_inv st1 {}" "disk_ok sb st1" "ltouch {} {sb_bmapstart sb} st st1"
    "\<forall>c. used sb st1 c \<longleftrightarrow> used sb st c \<and> (c = 0 \<or> c \<notin> set (take n ?ad))"
    using Suc by auto
  have n: "n < NDIRECT" "n < MAXFILE" using Suc.prems by (simp_all add: MAXFILE_def)
  have an: "addrs_of ip1 ! n = ?ad ! n" "fblock st ?ad n = ?ad ! n" using n len by (simp_all add: 1(3) nth_append fblock_def)
  have tk: "take (Suc n) ?ad = take n ?ad @ [?ad ! n]" using n len by (simp add: take_Suc_conv_app_nth)
  have dr: "drop n ?ad = ?ad ! n # drop (Suc n) ?ad" using n len by (simp add: Cons_nth_drop_Suc)
  have rf: "itrunc_dir sb [0..<Suc n] (ip, st) = itrunc_dir sb [n] (ip1, st1)" using 1(1) by (simp add: itrunc_dir_def rfold_append)
  show ?case
  proof (cases "?ad ! n = 0")
    case True
    then show ?thesis using 1 an tk dr rf by (auto simp: itrunc_dir_def replicate_append_same)
  next
    case False
    have d: "data_block sb (?ad ! n)" "used sb st (?ad ! n)" using file_okD(3) [OF ok] fblocksI(1) [OF n(2), of st ?ad] an(2) False by auto
    have "?ad ! n \<notin> set (take n ?ad)"
    proof
      assume "?ad ! n \<in> set (take n ?ad)"
      then obtain j where j: "j < n" "?ad ! j = ?ad ! n" using len n by (auto simp: in_set_conv_nth)
      then have "fblock st ?ad j = fblock st ?ad n" "j < MAXFILE" using an(2) n by (simp_all add: fblock_def)
      then show False using file_okD(6) [OF ok _ n(2)] False an(2) j(1) by auto
    qed
    then have u: "used sb st1 (?ad ! n)" using 1(7) d(2) by blast
    have "length (lh st1) + card ({} :: uint set) + 1 < NBUF" using lused_length(1) [OF 1(4), of sb] room ltouch_bitmap_room [OF 1(6)] by simp
    moreover have "i_dev ip1 = log_dev st1" using dev same_but_addrsD(1) [OF 1(2)] 1(6) by (simp add: ltouch_def lsame_def)
    ultimately obtain st2 where 2: "bfree (i_dev ip1) sb (?ad ! n) st1 = Inr st2" "log_inv st2 {}" "disk_ok sb st2"
      "\<forall>c. used sb st2 c \<longleftrightarrow> c \<noteq> ?ad ! n \<and> used sb st1 c" "ltouch {} {sb_bmapstart sb} st1 st2"
      using bfree_ok [OF 1(4,5) _ _ _ d(1) u, of "i_dev ip1"] by blast
    have "itrunc_dir sb [n] (ip1, st1) = Inr (set_addr n 0 ip1, st2)" using False an(1) 2(1) by (simp add: itrunc_dir_def)
    moreover have "addrs_of (set_addr n 0 ip1) = replicate (Suc n) 0 @ drop (Suc n) ?ad"
      by (simp add: 1(3) dr list_update_append replicate_append_same [symmetric])
    moreover have "same_but_addrs ip (set_addr n 0 ip1)" using same_but_addrs_trans [OF 1(2)] by simp
    moreover have "ltouch {} {sb_bmapstart sb} st st2" using ltouch_trans [OF 1(6) 2(5)] by simp
    moreover have "used sb st2 c \<longleftrightarrow> used sb st c \<and> (c = 0 \<or> c \<notin> set (take (Suc n) ?ad))" for c
      using 2(4) 1(7) False tk by auto
    ultimately show ?thesis using rf 2(2,3) by auto
  qed
qed

text \<open>The loop over the entries of the indirect block, whose buffer is held.\<close>

lemma itrunc_entries_ok:
  assumes inv: "log_inv st {ind}" and h: "lhandle st ind bp" and dk: "disk_ok sb st" and room: "lused sb st + 2 < NBUF" and dev: "dev = log_dev st"
    and ind: "ind \<noteq> sb_bmapstart sb"
    and e: "\<And>j. j < NINDIRECT \<Longrightarrow> e j = rd32 (lview st ind) (4 * j)" "\<And>j. j < NINDIRECT \<Longrightarrow> e j \<noteq> 0 \<Longrightarrow> data_block sb (e j) \<and> used sb st (e j)"
    "\<And>i j. i < NINDIRECT \<Longrightarrow> j < NINDIRECT \<Longrightarrow> e i = e j \<Longrightarrow> e i \<noteq> 0 \<Longrightarrow> i = j"
  shows "n \<le> NINDIRECT \<Longrightarrow> \<exists>st'. itrunc_entries sb dev bp [0..<n] st = Inr st' \<and> log_inv st' {ind} \<and> lhandle st' ind bp \<and> disk_ok sb st' \<and>
    ltouch {ind} {sb_bmapstart sb} st st' \<and> (\<forall>c. used sb st' c \<longleftrightarrow> used sb st c \<and> (c = 0 \<or> (\<forall>j < n. c \<noteq> e j)))"
proof (induction n)
  case 0
  then show ?case using inv h dk by (simp add: itrunc_entries_def ltouch_refl)
next
  case (Suc n)
  obtain st1 where 1: "itrunc_entries sb dev bp [0..<n] st = Inr st1" "log_inv st1 {ind}" "lhandle st1 ind bp" "disk_ok sb st1"
    "ltouch {ind} {sb_bmapstart sb} st st1" "\<forall>c. used sb st1 c \<longleftrightarrow> used sb st c \<and> (c = 0 \<or> (\<forall>j < n. c \<noteq> e j))"
    using Suc by auto
  have "ldata bp st1 = lview st1 ind" by (rule tx.data_law [OF 1(2) _ 1(3)]) simp
  then have a: "rd32 (ldata bp st1) (4 * n) = e n" using 1(5) ind e(1) Suc.prems by (simp add: ltouch_def)
  have rf: "itrunc_entries sb dev bp [0..<Suc n] st = itrunc_entries sb dev bp [n] st1" using 1(1) by (simp add: itrunc_entries_def rfold_append)
  show ?case
  proof (cases "e n = 0")
    case True
    then show ?thesis using 1 rf a by (auto simp: itrunc_entries_def less_Suc_eq)
  next
    case False
    have d: "data_block sb (e n)" "used sb st (e n)" using e(2) False Suc.prems by simp_all
    have "e n \<noteq> e j" if "j < n" for j using e(3) [of n j] that False Suc.prems by auto
    then have u: "used sb st1 (e n)" using 1(6) d(2) by auto
    have "length (lh st1) + card {ind} + 1 < NBUF" using lused_length(1) [OF 1(2), of sb] room ltouch_bitmap_room [OF 1(5)] by simp
    moreover have "dev = log_dev st1" using dev 1(5) by (simp add: ltouch_def lsame_def)
    ultimately obtain st2 where 2: "bfree dev sb (e n) st1 = Inr st2" "log_inv st2 {ind}" "disk_ok sb st2"
      "\<forall>c. used sb st2 c \<longleftrightarrow> c \<noteq> e n \<and> used sb st1 c" "ltouch {ind} {sb_bmapstart sb} st1 st2"
      using bfree_ok [OF 1(2,4) _ _ _ d(1) u, of dev] ind by auto
    have "itrunc_entries sb dev bp [n] st1 = Inr st2" using False a 2(1) by (simp add: itrunc_entries_def Let_def)
    moreover have "lhandle st2 ind bp" using 2(5) 1(3) by (simp add: ltouch_def)
    moreover have "ltouch {ind} {sb_bmapstart sb} st st2" using ltouch_trans [OF 1(5) 2(5)] by simp
    moreover have "used sb st2 c \<longleftrightarrow> used sb st c \<and> (c = 0 \<or> (\<forall>j < Suc n. c \<noteq> e j))" for c
      using 2(4) 1(6) False by (auto simp: less_Suc_eq)
    ultimately show ?thesis using rf 2(2,3) by auto
  qed
qed

lemma itrunc_ind_ok:
  assumes inv: "log_inv st {}" and dk: "disk_ok sb st" and room: "lused sb st + 2 < NBUF" and dev: "i_dev ip = log_dev st"
    and ind: "addrs_of ip ! NDIRECT = ind" "ind \<noteq> 0" "data_block sb ind" "used sb st ind"
    and e: "\<And>j. j < NINDIRECT \<Longrightarrow> e j = rd32 (lview st ind) (4 * j)" "\<And>j. j < NINDIRECT \<Longrightarrow> e j \<noteq> 0 \<Longrightarrow> data_block sb (e j) \<and> used sb st (e j) \<and> e j \<noteq> ind"
    "\<And>i j. i < NINDIRECT \<Longrightarrow> j < NINDIRECT \<Longrightarrow> e i = e j \<Longrightarrow> e i \<noteq> 0 \<Longrightarrow> i = j"
  shows "\<exists>st'. itrunc_ind sb ip st = Inr (set_addr NDIRECT 0 ip, st') \<and>
    log_inv st' {} \<and> disk_ok sb st' \<and> ltouch {} {sb_bmapstart sb} st st' \<and>
    (\<forall>c. used sb st' c \<longleftrightarrow> used sb st c \<and> c \<noteq> ind \<and> (c = 0 \<or> (\<forall>j < NINDIRECT. c \<noteq> e j)))"
proof -
  let ?bm = "sb_bmapstart sb"
  note db = data_block_facts [OF dk ind(3)]
  obtain bp t where t: "lread (i_dev ip) ind st = Inr (bp, t)" "log_inv t {ind}" "lhandle t ind bp" "lview t = lview st" "lh t = lh st" "ltouch {} {} st t"
    using lread_ok [OF inv _ _ dev, of ind] room lused_length(1) [OF inv, of sb] by auto
  have us: "used sb t c = used sb st c" for c by (simp add: used_def t(4))
  have dkt: "disk_ok sb t" using dk t(4,6) by (simp add: disk_ok_def us ltouch_def lsame_def)
  have lt: "lused sb t = lused sb st" by (simp add: lused_def t(5))
  have devt: "i_dev ip = log_dev t" using dev t(6) by (simp add: ltouch_def lsame_def)
  have et: "\<And>j. j < NINDIRECT \<Longrightarrow> e j = rd32 (lview t ind) (4 * j)"
    "\<And>j. j < NINDIRECT \<Longrightarrow> e j \<noteq> 0 \<Longrightarrow> data_block sb (e j) \<and> used sb t (e j)" using e(1,2) t(4) us by simp_all
  obtain u where u: "itrunc_entries sb (i_dev ip) bp [0..<NINDIRECT] t = Inr u"
    "log_inv u {ind}" "lhandle u ind bp" "disk_ok sb u" "ltouch {ind} {?bm} t u"
    "\<forall>c. used sb u c \<longleftrightarrow> used sb t c \<and> (c = 0 \<or> (\<forall>j < NINDIRECT. c \<noteq> e j))"
    using itrunc_entries_ok [where n = NINDIRECT and e = e, OF t(2,3) dkt room [folded lt] devt db(2) et e(3) order_refl] by blast
  obtain v where v: "lrelse bp u = Inr v" "log_inv v {}" "lview v = lview u" "lh v = lh u" "lsame u v"
    using tx.put_law [OF u(2) _ u(3)] by auto
  have uv: "used sb v c = used sb u c" for c by (simp add: used_def v(3))
  have dkv: "disk_ok sb v" using u(4) v(3,5) by (simp add: disk_ok_def uv lsame_def)
  have "ind \<noteq> e j" if "j < NINDIRECT" for j using e(2) [OF that] ind(2) by auto
  then have uu: "used sb v ind" unfolding uv using u(6) us ind(4) by blast
  have tv: "ltouch {} {?bm} st v" using t(4-6) u(5) v(3-5) by (auto simp: ltouch_def intro: lsame_trans)
  have "length (lh v) + card ({} :: uint set) + 1 < NBUF"
    using lused_length(1) [OF v(2), of sb] ltouch_bitmap_room [OF tv] room by simp
  moreover have "i_dev ip = log_dev v" using dev tv by (simp add: ltouch_def lsame_def)
  ultimately obtain w where w: "bfree (i_dev ip) sb ind v = Inr w" "log_inv w {}" "disk_ok sb w" "\<forall>c. used sb w c \<longleftrightarrow> c \<noteq> ind \<and> used sb v c"
    "ltouch {} {?bm} v w"
    using bfree_ok [OF v(2) dkv _ _ _ ind(3) uu, of "i_dev ip"] by blast
  have "ltouch {} {?bm} st w" using ltouch_trans [OF tv w(5)] by simp
  moreover have "used sb w c \<longleftrightarrow> used sb st c \<and> c \<noteq> ind \<and> (c = 0 \<or> (\<forall>j < NINDIRECT. c \<noteq> e j))" for c
    using w(4) uv u(6) us by blast
  moreover have "itrunc_ind sb ip st = Inr (set_addr NDIRECT 0 ip, w)"
    using t(1) u(1) v(1) w(1) ind(1,2) by (simp add: itrunc_ind_def)
  ultimately show ?thesis using w(2,3) by blast
qed

text \<open>Both parts together.\<close>

lemma ex_less_add: "(\<exists>k < a + b. P k) \<longleftrightarrow> (\<exists>k < a. P k) \<or> (\<exists>j < b. P (a + j))" for a b :: nat
proof
  assume "\<exists>k < a + b. P k"
  then obtain k where k: "k < a + b" "P k" by blast
  show "(\<exists>k < a. P k) \<or> (\<exists>j < b. P (a + j))"
  proof (cases "k < a")
    case False
    then have "k - a < b" "P (a + (k - a))" using k by auto
    then show ?thesis by blast
  qed (use k in blast)
qed (metis add_less_cancel_left trans_less_add1)

lemma itrunc_blocks:
  assumes "open_file sb Q ip st" "lused sb st + 3 < NBUF"
  shows "\<exists>ip1 st1 ip2 st2. itrunc_dir sb [0..<NDIRECT] (ip, st) = Inr (ip1, st1) \<and> itrunc_ind sb ip1 st1 = Inr (ip2, st2) \<and>
    same_but_addrs ip ip2 \<and> addrs_of ip2 = replicate (NDIRECT + 1) 0 \<and> log_inv st2 {} \<and> disk_ok sb st2 \<and>
    ltouch {} {sb_bmapstart sb} st st2 \<and> (\<forall>c. used sb st2 c \<longleftrightarrow> used sb st c \<and> c \<notin> fblocks st (addrs_of ip))"
proof -
  note O = open_fileD [OF assms(1)]
  let ?ad = "addrs_of ip" and ?bm = "sb_bmapstart sb"
  have len: "length ?ad = NDIRECT + 1" by (rule file_okD(2) [OF O(2)])
  have r0: "lused sb st + 1 < NBUF" using assms(2) by simp
  obtain ip1 st1 where 1: "itrunc_dir sb [0..<NDIRECT] (ip, st) = Inr (ip1, st1)" "same_but_addrs ip ip1"
    "addrs_of ip1 = replicate NDIRECT 0 @ drop NDIRECT ?ad" "log_inv st1 {}" "disk_ok sb st1" "ltouch {} {?bm} st st1"
    "\<forall>c. used sb st1 c \<longleftrightarrow> used sb st c \<and> (c = 0 \<or> c \<notin> set (take NDIRECT ?ad))"
    using itrunc_dir_ok [OF O(1,2) r0 O(4) order_refl] by blast
  define ind where "ind = ?ad ! NDIRECT"
  let ?e = "\<lambda>j. fblock st ?ad (NDIRECT + j)"
  have dr: "drop NDIRECT ?ad = [ind]" using len by (simp add: ind_def Cons_nth_drop_Suc [symmetric])
  have ai: "addrs_of ip1 ! NDIRECT = ind" by (simp add: 1(3) dr nth_append)
  have dirs: "c \<in> set (take NDIRECT ?ad) \<longleftrightarrow> (\<exists>k < NDIRECT. c = fblock st ?ad k)" for c
  proof -
    have "set (take NDIRECT ?ad) = (!) ?ad ` {0..<NDIRECT}" using len by (simp add: nth_image)
    moreover have "fblock st ?ad k = ?ad ! k" if "k < NDIRECT" for k using that by (simp add: fblock_def)
    ultimately show ?thesis by auto
  qed
  have fbs: "c \<in> fblocks st ?ad \<longleftrightarrow> c \<noteq> 0 \<and> (c = ind \<or> c \<in> set (take NDIRECT ?ad) \<or> (\<exists>j < NINDIRECT. c = ?e j))" for c
  proof -
    have "(\<exists>k < MAXFILE. c = fblock st ?ad k) \<longleftrightarrow> (\<exists>k < NDIRECT. c = fblock st ?ad k) \<or> (\<exists>j < NINDIRECT. c = ?e j)"
      unfolding MAXFILE_def by (rule ex_less_add)
    then show ?thesis unfolding fblocks_def dirs ind_def by blast
  qed
  show ?thesis
  proof (cases "ind = 0")
    case True
    then have "?e j = 0" for j using ind_def by (simp add: fblock_def)
    then have "used sb st1 c \<longleftrightarrow> used sb st c \<and> c \<notin> fblocks st ?ad" for c using 1(7) True unfolding fbs by auto
    moreover have "itrunc_ind sb ip1 st1 = Inr (ip1, st1)" using True ai by (simp add: itrunc_ind_def)
    moreover have "addrs_of ip1 = replicate (NDIRECT + 1) 0" using 1(3) dr True by (simp add: replicate_append_same)
    ultimately show ?thesis using 1(1,2,4-6)
      by (intro exI [of _ ip1] exI [of _ st1] exI [of _ ip1] exI [of _ st1] conjI allI)
  next
    case False
    have indf: "ind \<in> fblocks st ?ad" using fblocksI(2) [of ?ad st] False by (simp add: ind_def)
    have ne: "ind \<noteq> fblock st ?ad k" if "k < MAXFILE" for k using file_okD(5) [OF O(2) that] False by (auto simp: ind_def)
    have di: "ind \<notin> set (take NDIRECT ?ad)" unfolding dirs using ne by (auto simp: MAXFILE_def)
    have de: "?e j \<notin> set (take NDIRECT ?ad)" if "j < NINDIRECT" "?e j \<noteq> 0" for j
    proof
      assume "?e j \<in> set (take NDIRECT ?ad)"
      then obtain k where k: "k < NDIRECT" "?e j = fblock st ?ad k" unfolding dirs by blast
      then have "NDIRECT + j = k" using that k(1) by (intro file_okD(6) [OF O(2) _ _ k(2)]) (simp_all add: MAXFILE_def)
      then show False using k(1) by simp
    qed
    have d1: "data_block sb ind" "used sb st1 ind" using file_okD(3) [OF O(2)] indf 1(7) di by blast+
    have d2: "?e j = rd32 (lview st1 ind) (4 * j)" if "j < NINDIRECT" for j
      using 1(6) data_block_facts(2) [OF 1(5) d1(1)] False by (simp add: fblock_def ind_def ltouch_def)
    have d3: "data_block sb (?e j) \<and> used sb st1 (?e j) \<and> ?e j \<noteq> ind" if "j < NINDIRECT" "?e j \<noteq> 0" for j
    proof -
      have "?e j \<in> fblocks st ?ad" using fblocksI(1) that by (simp add: MAXFILE_def)
      then have "data_block sb (?e j) \<and> used sb st (?e j)" using file_okD(3) [OF O(2)] by blast
      moreover have "?e j \<noteq> ind" using ne [of "NDIRECT + j"] that(1) by (simp add: MAXFILE_def)
      ultimately show ?thesis using 1(7) de [OF that] by blast
    qed
    have d4: "i = j" if "i < NINDIRECT" "j < NINDIRECT" "?e i = ?e j" "?e i \<noteq> 0" for i j
      using file_okD(6) [OF O(2) _ _ that(3,4)] that(1,2) by (simp add: MAXFILE_def)
    have d5: "lused sb st1 + 2 < NBUF" using ltouch_bitmap_room [OF 1(6)] assms(2) by simp
    have d6: "i_dev ip1 = log_dev st1" using O(4) same_but_addrsD(1) [OF 1(2)] 1(6) by (simp add: ltouch_def lsame_def)
    obtain st2 where 2: "itrunc_ind sb ip1 st1 = Inr (set_addr NDIRECT 0 ip1, st2)" "log_inv st2 {}" "disk_ok sb st2"
      "ltouch {} {?bm} st1 st2" "\<forall>c. used sb st2 c \<longleftrightarrow> used sb st1 c \<and> c \<noteq> ind \<and> (c = 0 \<or> (\<forall>j < NINDIRECT. c \<noteq> ?e j))"
      using itrunc_ind_ok [where e = ?e, OF 1(4,5) d5 d6 ai False d1 d2 d3 d4] by blast
    have "ltouch {} {?bm} st st2" using ltouch_trans [OF 1(6) 2(4)] by simp
    moreover have "addrs_of (set_addr NDIRECT 0 ip1) = replicate (NDIRECT + 1) 0"
      by (simp add: 1(3) dr list_update_append replicate_append_same)
    moreover have "used sb st2 c \<longleftrightarrow> used sb st c \<and> c \<notin> fblocks st ?ad" for c
      using 2(5) 1(7) False unfolding fbs by blast
    moreover have "same_but_addrs ip (set_addr NDIRECT 0 ip1)" using same_but_addrs_trans [OF 1(2)] by simp
    ultimately show ?thesis using 1(1) 2(1-3)
      by (intro exI [of _ ip1] exI [of _ st1] exI [of _ "set_addr NDIRECT 0 ip1"] exI [of _ st2] conjI allI)
  qed
qed

lemma itrunc_ok:
  assumes "open_file sb Q ip st" "lused sb st + 3 < NBUF"
  shows "\<exists>ip' st'. itrunc sb ip st = Inr (ip', st') \<and> log_inv st' {} \<and> disk_ok sb st' \<and>
    ip' = ip\<lparr>din := (din ip)\<lparr>di_size := 0, di_addrs := replicate (NDIRECT + 1) 0\<rparr>\<rparr> \<and>
    (\<forall>c. used sb st' c \<longleftrightarrow> used sb st c \<and> c \<notin> fblocks st (addrs_of ip)) \<and>
    ltouch {} {sb_bmapstart sb, IBLOCK (i_inum ip) sb} st st' \<and>
    rd_dinode (lview st' (IBLOCK (i_inum ip) sb)) (inode_off (i_inum ip)) = din ip'"
proof -
  note O = open_fileD [OF assms(1)]
  obtain ip1 st1 ip2 st2 where 2: "itrunc_dir sb [0..<NDIRECT] (ip, st) = Inr (ip1, st1)" "itrunc_ind sb ip1 st1 = Inr (ip2, st2)"
    "same_but_addrs ip ip2" "addrs_of ip2 = replicate (NDIRECT + 1) 0" "log_inv st2 {}" "disk_ok sb st2" "ltouch {} {sb_bmapstart sb} st st2"
    "\<forall>c. used sb st2 c \<longleftrightarrow> used sb st c \<and> c \<notin> fblocks st (addrs_of ip)"
    using itrunc_blocks [OF assms] by blast
  define ip3 where "ip3 = ip2\<lparr>din := (din ip2)\<lparr>di_size := 0\<rparr>\<rparr>"
  have ip3: "ip3 = ip\<lparr>din := (din ip)\<lparr>di_size := 0, di_addrs := replicate (NDIRECT + 1) 0\<rparr>\<rparr>"
    using 2(3,4) by (auto simp: ip3_def same_but_addrs_def)
  have "length (lh st2) + card ({} :: uint set) + 1 < NBUF"
    using lused_length(1) [OF 2(5), of sb] ltouch_bitmap_room [OF 2(7)] assms(2) by simp
  moreover have "i_dev ip3 = log_dev st2" using O(4) ip3 2(7) by (simp add: ltouch_def lsame_def)
  ultimately obtain st3 where 3: "iupdate sb ip3 st2 = Inr st3" "log_inv st3 {}" "disk_ok sb st3" "\<forall>c. used sb st3 c = used sb st2 c"
    "ltouch {} {IBLOCK (i_inum ip) sb} st2 st3" "rd_dinode (lview st3 (IBLOCK (i_inum ip) sb)) (inode_off (i_inum ip)) = din ip3"
    using iupdate_ok [OF 2(5) _ 2(6), of ip3] O(5) ip3 by auto
  have "itrunc sb ip st = Inr (ip3, st3)" using 2(1,2) 3(1) by (simp add: itrunc_def Let_def ip3_def)
  moreover have "ltouch {} {sb_bmapstart sb, IBLOCK (i_inum ip) sb} st st3"
    by (rule ltouch_mono [OF ltouch_trans [OF 2(7) 3(5)]]) simp
  moreover have "\<forall>c. used sb st3 c \<longleftrightarrow> used sb st c \<and> c \<notin> fblocks st (addrs_of ip)" using 3(4) 2(8) by simp
  ultimately show ?thesis using 3(2,3,6) ip3 by (intro exI [of _ ip3] exI [of _ st3] conjI)
qed

section \<open>Variables on the kernel stack\<close>

text \<open>A local variable as source or destination of \<open>either_copyin\<close> and \<open>either_copyout\<close>: its bytes, addressed from 0.\<close>

definition from_buf :: "byte list \<Rightarrow> uint64 \<Rightarrow> nat \<Rightarrow> (int \<times> byte list) result" where
  "from_buf bs src k = Inr (0, take k (drop (unat src) bs))"

definition to_buf :: "uint64 \<Rightarrow> byte list \<Rightarrow> byte list \<Rightarrow> (int \<times> byte list) result" where
  "to_buf dst bs m = Inr (0, patch (unat dst) bs m)"

lemma from_buf_ok: "length bs < 2 ^ 32 \<Longrightarrow> i + k \<le> length bs \<Longrightarrow> from_buf bs (0 + of_nat i) k = Inr (0, take k (drop i bs))"
  by (simp add: from_buf_def unat_of_nat)

text \<open>Reading a range that lies inside the file into a variable of that size.\<close>

lemma readi_buf:
  assumes "open_file sb Q ip st" "lused sb st + 3 < NBUF" "unat off + unat n \<le> unat (di_size (din ip))" "length buf = unat n"
  shows "\<exists>st'. readi to_buf sb ip 0 off n st buf = Inr (int (unat n), ip, st', take (unat n) (drop (unat off) (contents st ip))) \<and>
    open_file sb Q ip st' \<and> lview st' = lview st \<and> lh st' = lh st \<and> ltouch {} {} st st'"
proof -
  define c where "c = take (unat n) (drop (unat off) (contents st ip))"
  let ?J = "\<lambda>i m. length m = unat n \<and> take i m = take i c"
  note O = open_fileD [OF assms(1)]
  have M: "MAXFILE * BSIZE = 274432" by (simp add: MAXFILE_def NDIRECT_def NINDIRECT_def BSIZE_def)
  have lc: "length c = unat n" using assms(3) O(7) by (simp add: c_def)
  have off: "off \<le> di_size (din ip)" "unat off + unat n < 2 ^ 32" using assms(3) O(6) M by (simp_all add: word_le_nat_alt)
  have step: "\<exists>m'. to_buf (0 + of_nat i) (take k (drop i c)) m = Inr (0, m') \<and> ?J (i + k) m'" if J: "?J i m" and ik: "i + k \<le> length c" for i k m
  proof -
    have i: "unat (of_nat i :: uint64) = i" using ik lc off(2) by (intro unat_of_nat64) simp
    have lk: "length (take k (drop i c)) = k" using ik by simp
    let ?m = "patch i (take k (drop i c)) m"
    have lm: "length ?m = unat n" using J ik lc lk by (simp add: length_patch)
    have "take (i + k) ?m = take (i + k) c"
    proof (rule nth_equalityI)
      fix j assume "j < length (take (i + k) ?m)"
      then have j: "j < i + k" "j < unat n" using lm by simp_all
      have "?m ! j = (if i \<le> j \<and> j < i + k then take k (drop i c) ! (j - i) else m ! j)"
        using nth_patch [of i "take k (drop i c)" m j] lk J ik lc j by simp
      moreover have "m ! j = c ! j" if h: "j < i"
      proof -
        have "take i m ! j = take i c ! j" using J by simp
        then show ?thesis using h by simp
      qed
      ultimately show "take (i + k) ?m ! j = take (i + k) c ! j" using j ik by auto
    qed (use lm lc in simp)
    then show ?thesis using lm i by (simp add: to_buf_def)
  qed
  obtain st' m' where r: "readi to_buf sb ip 0 off n st buf = Inr (int (length c), ip, st', m')" "open_file sb Q ip st'"
    "lview st' = lview st" "lh st' = lh st" "ltouch {} {} st st'" "?J (length c) m'"
    using readi_ok [where J = ?J and copy = to_buf and dst = 0 and m = buf, OF assms(1,2) off, folded c_def, OF _ step] assms(4) by auto
  then have "m' = c" using lc by auto
  then show ?thesis using r lc by (auto simp: c_def)
qed

end
