(* ===== verification/Filesys.thy ===== *)
theory Filesys
  imports Filedata
begin

text \<open>The block allocator and the contents of files: the properties.  They are stated for a disk laid out as
  \<open>mkfs/mkfs.c\<close> does it, inside a transaction.\<close>

section \<open>A small disk\<close>

definition demo_sb :: superblock where
  "demo_sb = \<lparr>sb_magic = FSMAGIC, sb_size = 2000, sb_nblocks = 1954, sb_ninodes = 200, sb_nlog = 30, sb_logstart = 2,
    sb_inodestart = 32, sb_bmapstart = 45\<rparr>"

definition demo_disk :: "uint \<Rightarrow> block" where
  "demo_disk bn = (if bn = 45 then replicate 5 255 @ [63] @ replicate 1018 0 else replicate BSIZE 0)"

definition demo_log :: logst where
  "demo_log = boot_log 1 1 2 demo_disk"

definition demo_file :: inode where
  "demo_file = \<lparr>i_dev = 1, i_inum = 7, i_ref = 1, i_lock = initsleeplock ''inode'', i_valid = True,
    din = \<lparr>di_type = T_FILE, di_major = 0, di_minor = 0, di_nlink = 1, di_size = 0, di_addrs = replicate 13 0\<rparr>\<rparr>"

lemma demo_log_inv:
  "log_inv demo_log {}" "lview demo_log = demo_disk" "lh demo_log = []" "log_dev demo_log = 1" "log_start demo_log = 2"
  using boot_log_inv [of 1 1 2 demo_disk] by (simp_all add: demo_log_def boot_log_def)

lemma demo_used: "used demo_sb demo_log b \<longleftrightarrow> unat b < 46" if "unat b < BPB"
proof -
  have bits: "bit (255 :: byte) k \<longleftrightarrow> k < 8" "bit (63 :: byte) k \<longleftrightarrow> k < 6" for k
  proof -
    have m: "(255 :: byte) = mask 8" "(63 :: byte) = mask 6" by (simp_all add: mask_eq_exp_minus_1)
    show "bit (255 :: byte) k \<longleftrightarrow> k < 8" by (subst m(1), subst bit_mask_iff) simp
    show "bit (63 :: byte) k \<longleftrightarrow> k < 6" by (subst m(2), subst bit_mask_iff) auto
  qed
  let ?d = "replicate 5 255 @ [63] @ replicate 1018 (0 :: byte)" and ?i = "unat b"
  have "used demo_sb demo_log b \<longleftrightarrow> bit (?d ! (?i div 8)) (?i mod 8)"
    by (simp add: used_def bit_used_bit demo_log_inv demo_sb_def demo_disk_def)
  also have "\<dots> \<longleftrightarrow> ?i < 46"
  proof (cases "?i < 40")
    case True
    then have "?i div 8 < 5" by (simp add: less_mult_imp_div_less)
    then have "?d ! (?i div 8) = 255" by (simp only: nth_append length_replicate nth_replicate if_True)
    then show ?thesis using True bits(1) [of "?i mod 8"] by simp
  next
    case False
    show ?thesis
    proof (cases "?i < 48")
      case True
      then have "?i div 8 = 5" using False by linarith
      moreover from this have "?i mod 8 = ?i - 40" using div_mult_mod_eq [of ?i 8] by linarith
      ultimately show ?thesis using bits(2) False by (simp add: nth_append) linarith
    next
      case g: False
      then have "6 \<le> ?i div 8" "?i div 8 < 1024" using that by (simp_all add: BPB_def less_mult_imp_div_less)
      then have "?d ! (?i div 8) = 0" by (auto simp: nth_append nth_Cons split: nat.split)
      then show ?thesis using g by simp
    qed
  qed
  finally show ?thesis .
qed

lemma demo_disk_ok: "disk_ok demo_sb demo_log"
proof -
  have "used demo_sb demo_log b" if "b \<le> 45" for b
    using demo_used [of b] that by (simp add: word_le_nat_alt BPB_def)
  then show ?thesis
    by (simp add: disk_ok_def fs_layout_def demo_log_inv demo_disk_def)
      (simp add: demo_sb_def LOGSIZE_def IPB_def BPB_def BSIZE_def)
qed

lemma demo_lused: "lused demo_sb demo_log = 1"
  by (simp add: lused_def demo_log_inv)

lemma lused_Suc: "lused sb st \<le> Suc (length (lh st))"
  using card_insert_le_m1 [of "Suc (length (lh st))" "set (lh st)" "sb_bmapstart sb"] card_length [of "lh st"] by (simp add: lused_def)

lemma demo_open: "open_file demo_sb {} demo_file demo_log"
proof -
  have f: "fblock demo_log (addrs_of demo_file) k = 0" for k by (simp add: fblock_def demo_file_def NDIRECT_def)
  have "addrs_of demo_file ! NDIRECT = 0" "length (addrs_of demo_file) = NDIRECT + 1" by (simp_all add: demo_file_def NDIRECT_def)
  then have "file_ok demo_sb demo_log (addrs_of demo_file) {}" using f demo_disk_ok by (auto simp: file_ok_def fblocks_def)
  then show ?thesis by (simp add: open_file_def demo_log_inv no_holes_def) (simp add: demo_file_def demo_sb_def)
qed

section \<open>Properties\<close>

lemma bfree_twice:
  assumes "log_inv st {}" "disk_ok sb st" "length (lh st) < NBUF" "dev = log_dev st" "data_block sb b" "\<not> used sb st b"
  shows "bfree dev sb b st = Inl (Panic ''freeing free block'')"
proof -
  have i: "unat b < BPB" using assms(5) disk_okD(5) [OF assms(2)] by (simp add: data_block_def word_less_nat_alt)
  obtain p t where "lread dev (sb_bmapstart sb) st = Inr (p, t)" "ldata p t = lview st (sb_bmapstart sb)"
    using lread_ok [OF assms(1) _ _ assms(4), of "sb_bmapstart sb"] assms(3) by auto
  then show ?thesis using i assms(6) by (simp add: bfree_def BBLOCK_def used_def Let_def)
qed

text \<open>C25: The block allocator.  \<open>balloc\<close> returns 0 exactly when every block of the disk is in use; otherwise it
  returns a data block that was free, now marked in use and zeroed.  \<open>bfree\<close> of that block restores the map of
  free blocks, and freeing it once more panics.\<close>

theorem balloc_bfree:
  assumes "log_inv st {}" "disk_ok sb st" "lused sb st + 2 < NBUF" "dev = log_dev st"
  shows "\<exists>r t. balloc dev sb st = Inr (r, t) \<and> (r = 0 \<longleftrightarrow> (\<forall>b < sb_size sb. used sb st b)) \<and>
    (r \<noteq> 0 \<longrightarrow> data_block sb r \<and> \<not> used sb st r \<and> lview t r = replicate BSIZE 0 \<and> (\<forall>b. used sb t b \<longleftrightarrow> b = r \<or> used sb st b) \<and>
      (\<exists>u. bfree dev sb r t = Inr u \<and> (\<forall>b. used sb u b = used sb st b) \<and> bfree dev sb r u = Inl (Panic ''freeing free block'')))"
proof -
  let ?bm = "sb_bmapstart sb"
  have r1: "lused sb st + card ({} :: uint set) + 1 < NBUF" using assms(3) by simp
  obtain r t where t: "balloc dev sb st = Inr (r, t)" "log_inv t {}" "disk_ok sb t" "ltouch {} ({?bm, r} - {0}) st t"
    "if r = 0 then lview t = lview st \<and> lh t = lh st \<and> (\<forall>b < sb_size sb. used sb t b) else gained sb st r t"
    using balloc_gained [OF assms(1,2) _ _ r1 assms(4)] by auto
  show ?thesis
  proof (cases "r = 0")
    case True
    then have "\<forall>b < sb_size sb. used sb st b" using t(5) by (auto simp: used_def)
    then show ?thesis using t(1) True by auto
  next
    case False
    then have g: "data_block sb r" "\<not> used sb st r" "\<And>b. used sb t b \<longleftrightarrow> b = r \<or> used sb st b" "lview t r = replicate BSIZE 0"
      using t(5) by (auto simp: gained_def)
    have "lused sb t \<le> lused sb st + 1"
      using ltouch_lused [OF t(4), of sb] card_pair_le [of ?bm r "{0}"] by simp
    then have room: "length (lh t) + card ({} :: uint set) + 1 < NBUF" using lused_length(1) [OF t(2), of sb] assms(3) by simp
    have dev: "dev = log_dev t" using t(4) assms(4) by (simp add: ltouch_def lsame_def)
    obtain u where u: "bfree dev sb r t = Inr u" "log_inv u {}" "disk_ok sb u" "\<forall>c. used sb u c \<longleftrightarrow> c \<noteq> r \<and> used sb t c" "ltouch {} {?bm} t u"
      using bfree_ok [OF t(2,3) _ room dev g(1)] g(3) by blast
    have us: "used sb u b = used sb st b" for b using u(4) g(2,3) by blast
    have "lused sb u = lused sb t" by (rule ltouch_bitmap_room [OF u(5)])
    then have "length (lh u) < NBUF" using lused_length(1) [OF u(2), of sb] \<open>lused sb t \<le> lused sb st + 1\<close> assms(3) by simp
    then have "bfree dev sb r u = Inl (Panic ''freeing free block'')"
      using dev u(5) us g(1,2) by (intro bfree_twice [OF u(2,3)]) (auto simp: ltouch_def lsame_def)
    moreover have "\<exists>b < sb_size sb. \<not> used sb st b" using g(1,2) by (auto simp: data_block_def)
    ultimately show ?thesis using t(1) False g u(1) us by auto
  qed
qed

theorem balloc_bfree_witness:
  "\<exists>r t u. balloc 1 demo_sb demo_log = Inr (r, t) \<and> r \<noteq> 0 \<and> lview t r = replicate BSIZE 0 \<and> bfree 1 demo_sb r t = Inr u \<and>
    bfree 1 demo_sb r u = Inl (Panic ''freeing free block'')"
proof -
  have "\<not> used demo_sb demo_log 46" "46 < sb_size demo_sb" using demo_used [of 46] by (simp_all add: BPB_def demo_sb_def)
  then have "\<not> (\<forall>b < sb_size demo_sb. used demo_sb demo_log b)" by blast
  then show ?thesis
    using balloc_bfree [OF demo_log_inv(1) demo_disk_ok, of 1] by (auto simp: demo_lused demo_log_inv NBUF_def)
qed

text \<open>C26: \<open>writei\<close> writes exactly the requested bytes, or the first of them.  For a request inside the maximal file size, starting at or before
  the end of the file, on a file whose blocks are its own, where the copy of each piece of the source either succeeds or fails
  without having copied a byte, it returns the number \<open>t\<close> of bytes written; the contents are then the old ones with
  the first \<open>t\<close> source bytes put at \<open>off\<close> (the file grows if they reach past its end), the disk inode is up to
  date, every block \<open>Q\<close> in use elsewhere is unchanged and still not shared, and fewer bytes than requested are
  written only if the disk is full or the copy of the bytes from \<open>t\<close> on failed.\<close>

theorem writei_contents:
  assumes "open_file sb Q ip st" "lused sb st + card (span (unat off) (unat n)) + 4 < NBUF"
    and "off \<le> di_size (din ip)" "unat off + unat n \<le> MAXFILE * BSIZE" "length bs = unat n"
    and "\<And>i k. i + k \<le> unat n \<Longrightarrow> copy (src + of_nat i) k \<in> {Inr (0, take k (drop i bs)), Inr (-1, [])}"
  shows "\<exists>t ip' st'. writei copy sb ip src off n st = Inr (int t, ip', st') \<and> t \<le> unat n \<and> open_file sb Q ip' st' \<and>
    contents st' ip' = take (unat off) (contents st ip) @ take t bs @ drop (unat off + t) (contents st ip) \<and>
    (\<forall>b \<in> Q. lview st' b = lview st b) \<and>
    rd_dinode (lview st' (IBLOCK (i_inum ip) sb)) (inode_off (i_inum ip)) = din ip' \<and>
    (t < unat n \<longrightarrow> (\<forall>b < sb_size sb. used sb st' b) \<or> (\<exists>k. copy (src + of_nat t) k = Inr (-1, [])))"
  using writei_ok [OF assms] by blast

lemma demo_span: "card (span 0 5) = 1"
proof -
  have "(\<lambda>i. i div BSIZE) ` {0..<5} = {0}" by (auto simp: BSIZE_def intro!: image_eqI [of _ _ 0])
  then show ?thesis by (simp add: span_def)
qed

theorem writei_contents_witness:
  "\<exists>t ip' st'. writei (from_buf [1, 2, 3, 4, 5]) demo_sb demo_file 0 0 5 demo_log = Inr (int t, ip', st') \<and>
    contents st' ip' = take t [1, 2, 3, 4, 5]"
proof -
  have z: "contents demo_log demo_file = []" by (simp add: contents_def demo_file_def)
  have sz: "di_size (din demo_file) = 0" by (simp add: demo_file_def)
  have c: "from_buf [1, 2, 3, 4, 5] (0 + of_nat i) k \<in> {Inr (0, take k (drop i [1, 2, 3, 4, 5])), Inr (-1, [])}" if "i + k \<le> unat (5 :: uint)" for i k
    using from_buf_ok [of "[1, 2, 3, 4, 5]" i k] that by simp
  show ?thesis
    using writei_contents [OF demo_open, of 0 5 "[1, 2, 3, 4, 5]" "from_buf [1, 2, 3, 4, 5]" 0, OF _ _ _ _ c] demo_span demo_lused z sz
    by (auto simp: NBUF_def MAXFILE_def NDIRECT_def NINDIRECT_def BSIZE_def)
qed

text \<open>C27: What \<open>writei\<close> has written, \<open>readi\<close> reads back: when the write of the bytes \<open>bs\<close> at \<open>off\<close> has returned \<open>t\<close>, reading \<open>t\<close>
  bytes at \<open>off\<close> into a buffer of that size returns \<open>t\<close> and fills it with the first \<open>t\<close> bytes of \<open>bs\<close>; \<open>t\<close> is the
  whole request unless the disk is full.\<close>

theorem write_read_roundtrip:
  assumes "open_file sb Q ip st" "length (lh st) + card (span (unat off) (unat n)) + 7 < NBUF"
    and "off \<le> di_size (din ip)" "unat off + unat n \<le> MAXFILE * BSIZE" "length bs = unat n"
  shows "\<exists>t ip' st'. writei (from_buf bs) sb ip 0 off n st = Inr (int t, ip', st') \<and> t \<le> unat n \<and>
    (t < unat n \<longrightarrow> (\<forall>b < sb_size sb. used sb st' b)) \<and>
    (\<forall>buf. length buf = t \<longrightarrow> (\<exists>st''. readi to_buf sb ip' 0 off (of_nat t) st' buf = Inr (int t, ip', st'', take t bs)))"
proof -
  have M: "MAXFILE * BSIZE = 274432" by (simp add: MAXFILE_def NDIRECT_def NINDIRECT_def BSIZE_def)
  have l: "length bs < 2 ^ 32" using assms(4,5) M by simp
  have c: "from_buf bs (0 + of_nat i) k \<in> {Inr (0, take k (drop i bs)), Inr (-1, [])}" if "i + k \<le> unat n" for i k
    using from_buf_ok [OF l] that assms(5) by simp
  have nf: "\<not> (\<exists>k. from_buf bs (0 + of_nat i) k = Inr (-1, []))" for i by (simp add: from_buf_def)
  have r: "lused sb st + card (span (unat off) (unat n)) + 4 < NBUF" using assms(2) lused_Suc [of sb st] by linarith
  obtain t ip' st' where w: "writei (from_buf bs) sb ip 0 off n st = Inr (int t, ip', st')" "t \<le> unat n" "open_file sb Q ip' st'"
    "contents st' ip' = take (unat off) (contents st ip) @ take t bs @ drop (unat off + t) (contents st ip)"
    "t < unat n \<longrightarrow> (\<forall>b < sb_size sb. used sb st' b)" "length (lh st') \<le> length (lh st) + card (span (unat off) (unat n)) + 3"
    using writei_ok [OF assms(1) r assms(3-5) c] nf by blast
  note O = open_fileD [OF assms(1)] and O' = open_fileD [OF w(3)]
  have off: "unat off \<le> length (contents st ip)" using assms(3) O(7) by (simp add: word_le_nat_alt)
  have t: "unat (of_nat t :: uint) = t" using w(2) assms(4) M by (simp add: unat_of_nat)
  have sz: "unat off + unat (of_nat t :: uint) \<le> unat (di_size (din ip'))"
    using arg_cong [OF w(4), of length] off assms(5) O'(7) w(2) t by simp
  have room: "lused sb st' + 3 < NBUF" using w(6) assms(2) lused_Suc [of sb st'] by linarith
  have rd: "take t (drop (unat off) (contents st' ip')) = take t bs" using w(2,4) off assms(5) by simp
  have "\<exists>st''. readi to_buf sb ip' 0 off (of_nat t) st' buf = Inr (int t, ip', st'', take t bs)" if "length buf = t" for buf
    using readi_buf [OF w(3) room sz, of buf] that t rd by auto
  then show ?thesis using w(1,2,5) by blast
qed

theorem write_read_roundtrip_witness:
  "\<exists>t ip' st'. writei (from_buf [1, 2, 3, 4, 5]) demo_sb demo_file 0 0 5 demo_log = Inr (int t, ip', st') \<and>
    (\<exists>st''. readi to_buf demo_sb ip' 0 0 (of_nat t) st' (replicate t 0) = Inr (int t, ip', st'', take t [1, 2, 3, 4, 5]))"
proof -
  have "di_size (din demo_file) = 0" by (simp add: demo_file_def)
  then show ?thesis
    using write_read_roundtrip [OF demo_open, of 0 5 "[1, 2, 3, 4, 5]"] demo_span demo_log_inv(3)
    by (auto simp: NBUF_def MAXFILE_def NDIRECT_def NINDIRECT_def BSIZE_def)
qed

text \<open>C28: A system call's part of the log is enough for one chunk of \<open>filewrite\<close>.  A chunk has at most
  \<open>((MAXOPBLOCKS-1-1-2) / 2) * BSIZE\<close> bytes; if \<open>begin_op\<close> admitted the call when the log held \<open>length (lh st)\<close>
  blocks, \<open>writei\<close> of the chunk does not panic and puts at most \<open>MAXOPBLOCKS - 3\<close> blocks into the log, whatever
  the alignment, however many blocks it allocates, and whether or not the copy of a piece fails.\<close>

theorem write_chunk_fits:
  assumes "open_file sb Q ip st" "length (lh st) + MAXOPBLOCKS \<le> LOGSIZE"
    and "off \<le> di_size (din ip)" "unat off + unat n \<le> MAXFILE * BSIZE" "unat n \<le> ((MAXOPBLOCKS - 1 - 1 - 2) div 2) * BSIZE" "length bs = unat n"
    and "\<And>i k. i + k \<le> unat n \<Longrightarrow> copy (src + of_nat i) k \<in> {Inr (0, take k (drop i bs)), Inr (-1, [])}"
  shows "\<exists>t ip' st'. writei copy sb ip src off n st = Inr (int t, ip', st') \<and> length (lh st') + 3 \<le> length (lh st) + MAXOPBLOCKS"
proof -
  have "card (span (unat off) (unat n)) \<le> 4"
  proof (cases "unat n = 0")
    case False
    have "(unat n + BSIZE - 2) div BSIZE \<le> (3 * BSIZE + BSIZE - 2) div BSIZE"
      using assms(5) by (intro div_le_mono) (simp add: MAXOPBLOCKS_def)
    then show ?thesis using card_span [of "unat n" "unat off"] False by (simp add: BSIZE_def)
  qed (simp add: span_def)
  moreover have "lused sb st + 8 < NBUF" using lused_Suc [of sb st] assms(2) by (simp add: LOGSIZE_def MAXOPBLOCKS_def NBUF_def)
  ultimately have "lused sb st + card (span (unat off) (unat n)) + 4 < NBUF" by linarith
  then obtain t ip' st' where w: "writei copy sb ip src off n st = Inr (int t, ip', st')"
    "length (lh st') \<le> length (lh st) + card (span (unat off) (unat n)) + 3"
    using writei_ok [OF assms(1) _ assms(3,4,6,7)] by blast
  then show ?thesis using \<open>card (span (unat off) (unat n)) \<le> 4\<close> by (auto simp: MAXOPBLOCKS_def)
qed

theorem write_chunk_fits_witness:
  "\<exists>t ip' st'. writei (from_buf [1, 2, 3, 4, 5]) demo_sb demo_file 0 0 5 demo_log = Inr (int t, ip', st') \<and> length (lh st') \<le> 7"
proof -
  have c: "from_buf [1, 2, 3, 4, 5] (0 + of_nat i) k \<in> {Inr (0, take k (drop i [1, 2, 3, 4, 5])), Inr (-1, [])}" if "i + k \<le> unat (5 :: uint)" for i k
    using from_buf_ok [of "[1, 2, 3, 4, 5]" i k] that by simp
  have "di_size (din demo_file) = 0" by (simp add: demo_file_def)
  then show ?thesis
    using write_chunk_fits [OF demo_open, of 0 5 "[1, 2, 3, 4, 5]" "from_buf [1, 2, 3, 4, 5]" 0, OF _ _ _ _ _ c] demo_log_inv(3)
    by (auto simp: NBUF_def MAXFILE_def NDIRECT_def NINDIRECT_def BSIZE_def LOGSIZE_def MAXOPBLOCKS_def)
qed

text \<open>C29: \<open>itrunc\<close> gives back exactly the blocks of the file: afterwards the blocks in use are those in use before that do not
  belong to the file (its direct, indirect and indirectly addressed blocks), the inode is empty, in memory and on
  disk, and no block but the bitmap and the inode's block has changed.\<close>

theorem itrunc_frees:
  assumes "open_file sb Q ip st" "lused sb st + 3 < NBUF"
  shows "\<exists>ip' st'. itrunc sb ip st = Inr (ip', st') \<and> (\<forall>c. used sb st' c \<longleftrightarrow> used sb st c \<and> c \<notin> fblocks st (addrs_of ip)) \<and>
    ip' = ip\<lparr>din := (din ip)\<lparr>di_size := 0, di_addrs := replicate (NDIRECT + 1) 0\<rparr>\<rparr> \<and>
    rd_dinode (lview st' (IBLOCK (i_inum ip) sb)) (inode_off (i_inum ip)) = din ip' \<and>
    (\<forall>b. b \<noteq> sb_bmapstart sb \<and> b \<noteq> IBLOCK (i_inum ip) sb \<longrightarrow> lview st' b = lview st b)"
  using itrunc_ok [OF assms] by (auto simp: ltouch_def)

theorem itrunc_frees_witness:
  "\<exists>t ip' st' ip'' st''. writei (from_buf [1, 2, 3, 4, 5]) demo_sb demo_file 0 0 5 demo_log = Inr (int t, ip', st') \<and>
    itrunc demo_sb ip' st' = Inr (ip'', st'') \<and> di_size (din ip'') = 0 \<and> (\<forall>c \<in> fblocks st' (addrs_of ip'). \<not> used demo_sb st'' c)"
proof -
  have c: "from_buf [1, 2, 3, 4, 5] (0 + of_nat i) k \<in> {Inr (0, take k (drop i [1, 2, 3, 4, 5])), Inr (-1, [])}" if "i + k \<le> unat (5 :: uint)" for i k
    using from_buf_ok [of "[1, 2, 3, 4, 5]" i k] that by simp
  have h: "lused demo_sb demo_log + card (span (unat 0) (unat (5 :: uint))) + 4 < NBUF" using demo_span by (simp add: demo_lused NBUF_def)
  have "0 \<le> di_size (din demo_file)" "unat (0 :: uint) + unat (5 :: uint) \<le> MAXFILE * BSIZE" "length [1, 2, 3, 4, 5 :: byte] = unat (5 :: uint)"
    by (simp_all add: MAXFILE_def NDIRECT_def NINDIRECT_def BSIZE_def)
  then obtain t ip' st' where w: "writei (from_buf [1, 2, 3, 4, 5]) demo_sb demo_file 0 0 5 demo_log = Inr (int t, ip', st')"
    "open_file demo_sb {} ip' st'" "length (lh st') \<le> length (lh demo_log) + card (span (unat (0 :: uint)) (unat (5 :: uint))) + 3"
    using writei_ok [OF demo_open h _ _ _ c] by blast
  have "lused demo_sb st' + 3 < NBUF" using w(3) lused_Suc [of demo_sb st'] demo_span demo_log_inv(3) by (simp add: NBUF_def)
  then show ?thesis using itrunc_frees [OF w(2)] w(1) by fastforce
qed

lemma brelse_dirty:
  assumes "holdingsleep (cur_pid s) (buf_lock (bufs s b))"
  shows "\<exists>t. brelse b s = Inr t \<and> view dev t = view dev s \<and> disk t = disk s"
proof -
  define u where "u = upd_buf b (\<lambda>x. x\<lparr>buf_refcnt := buf_refcnt x - 1\<rparr>) (upd_buf b (\<lambda>x. x\<lparr>buf_lock := releasesleep (buf_lock x)\<rparr>) s)"
  obtain t where t: "brelse b s = Inr t" "t = link_front b (unlink_buf b u) \<or> t = u"
    using assms by (auto simp: brelse_def Let_def u_def)
  have c: "core (bufs t c) = core (bufs u c)" "disk t = disk u" for c using t(2) by auto
  have "view dev t = view dev u" by (rule view_cong) (use core_fields [OF c(1)] c(2) in auto)
  also have "\<dots> = view dev s" by (rule view_cong) (auto simp: u_def)
  finally show ?thesis using t(1) c(2) by (simp add: u_def upd_buf_def)
qed

text \<open>C39: A failed copy can leave the file changed.  When \<open>either_copyin\<close> fails after it has copied the bytes \<open>p\<close> of a piece into the buffer of an
  existing block, the loop of \<open>writei\<close> releases the buffer and reports no byte of the piece as written; but the
  kernel now sees \<open>p\<close> in the block, with the list of logged blocks and the disk as before.  If the block was not in
  the log, readers now get bytes that the commit does not put on the disk.\<close>

theorem writei_partial_copy:
  assumes "open_file sb Q ip st" "lused sb st + 4 < NBUF" "off < unat (di_size (din ip))" "0 < n"
    and "copy src (min n (BSIZE - off mod BSIZE)) = Inr (-1, p)"
  shows "\<exists>st'. writei_loop copy sb n off src tot ip st = Inr (tot, ip, st') \<and>
    lview st' (fblock st (addrs_of ip) (off div BSIZE)) = patch (off mod BSIZE) p (lview st (fblock st (addrs_of ip) (off div BSIZE))) \<and>
    lh st' = lh st \<and> disk (bc st') = disk (bc st)"
proof -
  note O = open_fileD [OF assms(1)]
  let ?a = "fblock st (addrs_of ip) (off div BSIZE)" and ?d = "patch (off mod BSIZE) p (lview st (fblock st (addrs_of ip) (off div BSIZE)))"
  have nz: "?a \<noteq> 0" and bm: "off div BSIZE < MAXFILE" using O(3) assms(3) block_index [of off] by (auto simp: no_holes_def)
  obtain st1 where 1: "bmap sb ip (off div BSIZE) st = Inr (?a, ip, st1)" "log_inv st1 {}" "lview st1 = lview st" "lh st1 = lh st" "lsame st st1"
    by (rule bmap_present [OF O(1,2) bm _ O(4) nz]) (use assms(2) in simp)
  have dev: "i_dev ip = log_dev st1" using 1(5) O(4) by (simp add: lsame_def)
  have room: "length (lh st1) < NBUF" using assms(2) 1(4) lused_length(1) [OF O(1), of sb] by simp
  obtain bp t where 2: "lread (i_dev ip) ?a st1 = Inr (bp, t)" "log_inv t {?a}" "lhandle t ?a bp" "ldata bp t = lview st ?a" "lview t = lview st"
    "lh t = lh st" "ltouch {} {} st1 t"
    using lread_ok [OF 1(2) _ _ dev, of ?a] room 1(3,4) by auto
  note inv = log_invD(1) [OF 2(2)] and h = 2(3) [unfolded lhandle_def]
  have ch: "view (log_dev t) (set_data bp ?d (bc t)) = (view (log_dev t) (bc t))(?a := ?d)" "disk (set_data bp ?d (bc t)) = disk (bc t)"
    using cache.change_law [OF inv _ h, of ?d] by auto
  have "bp < NBUF" "holds (bc t) (log_dev t) ?a bp" using h by (simp_all add: buf_of_def)
  then have "holdingsleep (cur_pid (bc t)) (buf_lock (bufs (bc t) bp))" using cache_invD(5) [OF inv] by blast
  then have "holdingsleep (cur_pid (set_data bp ?d (bc t))) (buf_lock (bufs (set_data bp ?d (bc t)) bp))" by (simp add: set_data_def upd_buf_def)
  then obtain u where u: "brelse bp (set_data bp ?d (bc t)) = Inr u" "view (log_dev t) u = view (log_dev t) (set_data bp ?d (bc t))"
    "disk u = disk (set_data bp ?d (bc t))" using brelse_dirty by blast
  have "lrelse bp (lset bp ?d t) = Inr (t\<lparr>bc := u\<rparr>)" using u(1) by (simp add: lrelse_def lset_def)
  then have "writei_loop copy sb n off src tot ip st = Inr (tot, ip, t\<lparr>bc := u\<rparr>)"
    using assms(4,5) nz 1(1) 2(1,4) by (subst writei_loop.simps) (simp add: Let_def patch_def)
  moreover have "lview (t\<lparr>bc := u\<rparr>) ?a = ?d" using u(2) ch(1) by (simp add: lview_def)
  moreover have "disk u = disk (bc st)" using u(3) ch(2) 1(5) 2(7) by (simp add: lsame_def ltouch_def)
  ultimately show ?thesis using 2(6) by (intro exI [of _ "t\<lparr>bc := u\<rparr>"]) simp
qed

lemma demo_stored:
  "\<exists>r t. r \<noteq> 0 \<and> lview t r = replicate BSIZE 0 \<and> lused demo_sb t \<le> 3 \<and>
    open_file demo_sb {} (demo_file\<lparr>din := (din demo_file)\<lparr>di_size := 5, di_addrs := r # replicate 12 0\<rparr>\<rparr>) t"
proof -
  have "\<not> used demo_sb demo_log 46" "46 < sb_size demo_sb" using demo_used [of 46] by (simp_all add: BPB_def demo_sb_def)
  then have nf: "\<not> (\<forall>b < sb_size demo_sb. used demo_sb demo_log b)" by blast
  have r1: "lused demo_sb demo_log + card ({} :: uint set) + 1 < NBUF" by (simp add: demo_lused NBUF_def)
  obtain r t where t: "log_inv t {}" "disk_ok demo_sb t" "ltouch {} ({sb_bmapstart demo_sb, r} - {0}) demo_log t"
    "if r = 0 then lview t = lview demo_log \<and> lh t = lh demo_log \<and> (\<forall>b < sb_size demo_sb. used demo_sb t b) else gained demo_sb demo_log r t"
    using balloc_gained [OF demo_log_inv(1) demo_disk_ok _ _ r1 refl] by auto
  have r: "r \<noteq> 0" using t(4) nf by (auto simp: used_def)
  then have g: "data_block demo_sb r" "used demo_sb t r" "lview t r = replicate BSIZE 0" using t(4) by (auto simp: gained_def)
  let ?ip = "demo_file\<lparr>din := (din demo_file)\<lparr>di_size := 5, di_addrs := r # replicate 12 0\<rparr>\<rparr>"
  have f: "fblock t (addrs_of ?ip) k = (if k = 0 then r else 0)" for k
    by (auto simp: fblock_def NDIRECT_def nth_Cons split: nat.split)
  have nd: "addrs_of ?ip ! NDIRECT = 0" "length (addrs_of ?ip) = NDIRECT + 1" by (simp_all add: NDIRECT_def)
  have "fblocks t (addrs_of ?ip) = {r}" using f nd r by (auto simp: fblocks_def MAXFILE_def NDIRECT_def)
  then have "file_ok demo_sb t (addrs_of ?ip) {}" using f nd t(2) g r by (simp add: file_ok_def)
  moreover have "no_holes t ?ip" using f r by (auto simp: no_holes_def MAXFILE_def NDIRECT_def NINDIRECT_def BSIZE_def)
  moreover have "i_dev ?ip = log_dev t" using t(3) by (simp add: ltouch_def lsame_def demo_file_def demo_log_inv)
  moreover have "lused demo_sb t \<le> 3"
    using ltouch_lused [OF t(3), of demo_sb] card_pair_le [of "sb_bmapstart demo_sb" r "{0}"] demo_lused by simp
  ultimately show ?thesis using r g(3) t(1) by (intro exI [of _ r] exI [of _ t]) (simp add: open_file_def demo_file_def demo_sb_def)
qed

theorem writei_partial_copy_witness:
  "\<exists>r t st'. r \<noteq> 0 \<and> lview t r = replicate BSIZE 0 \<and>
    writei_loop (\<lambda>_ _. Inr (-1, [9])) demo_sb 4 0 0 0 (demo_file\<lparr>din := (din demo_file)\<lparr>di_size := 5, di_addrs := r # replicate 12 0\<rparr>\<rparr>) t =
      Inr (0, demo_file\<lparr>din := (din demo_file)\<lparr>di_size := 5, di_addrs := r # replicate 12 0\<rparr>\<rparr>, st') \<and>
    lview st' r = 9 # replicate 1023 0 \<and> lh st' = lh t"
proof -
  obtain r t where r: "r \<noteq> 0" "lview t r = replicate BSIZE 0" "lused demo_sb t \<le> 3"
    "open_file demo_sb {} (demo_file\<lparr>din := (din demo_file)\<lparr>di_size := 5, di_addrs := r # replicate 12 0\<rparr>\<rparr>) t"
    using demo_stored by blast
  have p: "patch 0 [9] (replicate BSIZE 0) = 9 # replicate 1023 (0 :: byte)"
    by (simp add: patch_def BSIZE_def drop_replicate)
  show ?thesis
    using writei_partial_copy [OF r(4), of 0 4 "\<lambda>_ _. Inr (-1, [9])" 0 "[9]" 0] r(1-3) p
    by (auto simp: NBUF_def fblock_def NDIRECT_def)
qed

end
