(* ===== verification/Dir.thy ===== *)
theory Dir
  imports Filesys Kstring
begin

text \<open>Directories and path names (\<open>kernel/fs.c\<close>): \<open>namecmp\<close>, \<open>dirlookup\<close>, \<open>dirlink\<close>, \<open>skipelem\<close>, \<open>namex\<close>.  Paths are the
  bytes of a C string without its terminating zero; a name is an array of \<open>DIRSIZ\<close> bytes; the local
  \<open>struct dirent\<close> is its 16 bytes.\<close>

section \<open>The code\<close>

definition DIRSIZ :: nat where "DIRSIZ = 14"

text \<open>The two arguments of a string routine as two objects in memory.\<close>

definition two_strings :: "byte list \<Rightarrow> byte list \<Rightarrow> memory" where
  "two_strings s t = (\<lambda>a. if unat a < length s then s ! unat a
    else if 4096 \<le> unat a \<and> unat a - 4096 < length t then t ! (unat a - 4096) else 0)"

definition namecmp :: "byte list \<Rightarrow> byte list \<Rightarrow> int" where
  "namecmp s t = strncmp (two_strings s t) 0 4096 (of_nat DIRSIZ)"

text \<open>\<open>readi\<close> and \<open>writei\<close> on an entry of the inode table.\<close>

definition readi_at :: "(uint64 \<Rightarrow> byte list \<Rightarrow> 'm \<Rightarrow> (int \<times> 'm) result) \<Rightarrow> nat \<Rightarrow> uint64 \<Rightarrow> uint \<Rightarrow> uint \<Rightarrow> fsst \<Rightarrow> 'm \<Rightarrow> (int \<times> fsst \<times> 'm) result" where
  "readi_at copy ip dst off n fs m =
    rbind (readi copy (fs_sb fs) (itable fs ip) dst off n (fs_log fs) m) (\<lambda>(r, x, st, m1).
    Inr (r, upd_inode ip (\<lambda>_. x) (fs\<lparr>fs_log := st\<rparr>), m1))"

definition writei_at :: "(uint64 \<Rightarrow> nat \<Rightarrow> (int \<times> byte list) result) \<Rightarrow> nat \<Rightarrow> uint64 \<Rightarrow> uint \<Rightarrow> uint \<Rightarrow> fsst \<Rightarrow> (int \<times> fsst) result" where
  "writei_at copy ip src off n fs =
    rbind (writei copy (fs_sb fs) (itable fs ip) src off n (fs_log fs)) (\<lambda>(r, x, st).
    Inr (r, upd_inode ip (\<lambda>_. x) (fs\<lparr>fs_log := st\<rparr>)))"

text \<open>The loops over a directory advance by the size of an entry and end at its size, a 32-bit number.\<close>

lemma next_dirent: "off < unat (x :: uint) \<Longrightarrow> 4294967280 - off < 4294967296 - off"
  using unsigned_less [of x, where ?'a = nat] by simp

function dirlookup_loop :: "nat \<Rightarrow> byte list \<Rightarrow> nat \<Rightarrow> fsst \<Rightarrow> ((nat \<times> nat) option \<times> fsst) result" where
  "dirlookup_loop dp name off fs =
    (if off < unat (di_size (din (itable fs dp))) then
       rbind (readi_at to_buf dp 0 (of_nat off) 16 fs (replicate 16 0)) (\<lambda>(r, fs1, de).
       if r \<noteq> 16 then Inl (Panic ''dirlookup read'')
       else if rd16 de 0 = 0 then dirlookup_loop dp name (off + 16) fs1
       else if namecmp name (drop 2 de) = 0 then
         rbind (iget (i_dev (itable fs1 dp)) (ucast (rd16 de 0)) fs1) (\<lambda>(ip, fs2). Inr (Some (ip, off), fs2))
       else dirlookup_loop dp name (off + 16) fs1)
     else Inr (None, fs))"
  by pat_completeness auto
termination
  by (relation "measure (\<lambda>(_, _, off, _). 4294967296 - off)") (auto dest: next_dirent)


declare dirlookup_loop.simps [simp del]

definition dirlookup :: "nat \<Rightarrow> byte list \<Rightarrow> fsst \<Rightarrow> ((nat \<times> nat) option \<times> fsst) result" where
  "dirlookup dp name fs =
    (if di_type (din (itable fs dp)) \<noteq> T_DIR then Inl (Panic ''dirlookup not DIR'') else dirlookup_loop dp name 0 fs)"

text \<open>The loop of \<open>dirlink\<close> that looks for an empty entry gives the offset at which it stops.\<close>

function dirlink_loop :: "nat \<Rightarrow> nat \<Rightarrow> fsst \<Rightarrow> (nat \<times> fsst) result" where
  "dirlink_loop dp off fs =
    (if off < unat (di_size (din (itable fs dp))) then
       rbind (readi_at to_buf dp 0 (of_nat off) 16 fs (replicate 16 0)) (\<lambda>(r, fs1, de).
       if r \<noteq> 16 then Inl (Panic ''dirlink read'')
       else if rd16 de 0 = 0 then Inr (off, fs1)
       else dirlink_loop dp (off + 16) fs1)
     else Inr (off, fs))"
  by pat_completeness auto
termination
  by (relation "measure (\<lambda>(_, off, _). 4294967296 - off)") (auto dest: next_dirent)

declare dirlink_loop.simps [simp del]

text \<open>\<open>strncpy(de.name, name, DIRSIZ)\<close>.\<close>

definition dirent_name :: "byte list \<Rightarrow> byte list" where
  "dirent_name name = map (\<lambda>i. strncpy (two_strings (replicate DIRSIZ 0) name) 0 4096 (int DIRSIZ) (of_nat i)) [0..<DIRSIZ]"

definition dirlink :: "nat \<Rightarrow> byte list \<Rightarrow> uint \<Rightarrow> fsst \<Rightarrow> (int \<times> fsst) result" where
  "dirlink dp name inum fs =
    rbind (dirlookup dp name fs) (\<lambda>(found, fs1).
    case found of
      Some (ip, _) \<Rightarrow> rbind (iput ip fs1) (\<lambda>fs2. Inr (-1, fs2))
    | None \<Rightarrow>
        rbind (dirlink_loop dp 0 fs1) (\<lambda>(off, fs2).
        let de = wr16 0 (ucast inum) (replicate 2 0 @ dirent_name name)
        in rbind (writei_at (from_buf de) dp 0 (of_nat off) 16 fs2) (\<lambda>(r, fs3).
           Inr (if r \<noteq> 16 then -1 else 0, fs3))))"

text \<open>\<open>skipelem\<close> gives the rest of the path and the new contents of \<open>name\<close>.\<close>

definition skipelem :: "byte list \<Rightarrow> byte list \<Rightarrow> (byte list \<times> byte list) option" where
  "skipelem pth name =
    (let pth = dropWhile (\<lambda>c. c = 47) pth
     in if pth = [] then None
        else let s = takeWhile (\<lambda>c. c \<noteq> 47) pth;
                 pth = dropWhile (\<lambda>c. c \<noteq> 47) pth;
                 len = length s;
                 name = (if len \<ge> DIRSIZ then take DIRSIZ s @ drop DIRSIZ name else s @ [0] @ drop (len + 1) name)
             in Some (dropWhile (\<lambda>c. c = 47) pth, name))"

lemma skipelem_shorter: "skipelem pth name = Some (pth', name') \<Longrightarrow> length pth' < length pth"
proof -
  assume h: "skipelem pth name = Some (pth', name')"
  let ?p = "dropWhile (\<lambda>c. c = 47) pth"
  have ne: "?p \<noteq> []" and p': "pth' = dropWhile (\<lambda>c. c = 47) (dropWhile (\<lambda>c. c \<noteq> 47) ?p)"
    using h by (auto simp: skipelem_def Let_def split: if_splits)
  have "hd ?p \<noteq> 47" using hd_dropWhile [OF ne] by simp
  then have "dropWhile (\<lambda>c. c \<noteq> 47) ?p = dropWhile (\<lambda>c. c \<noteq> 47) (tl ?p)" using ne by (cases ?p) auto
  then have "length pth' \<le> length (tl ?p)"
    unfolding p' using length_dropWhile_le [of "\<lambda>c. c = 47" "dropWhile (\<lambda>c. c \<noteq> 47) (tl ?p)"] length_dropWhile_le [of "\<lambda>c. c \<noteq> 47" "tl ?p"] by simp
  also have "\<dots> < length ?p" using ne by simp
  also have "\<dots> \<le> length pth" by (rule length_dropWhile_le)
  finally show ?thesis .
qed

text \<open>\<open>namex\<close>: the inode table index, if any, and the contents of \<open>name\<close>.\<close>

function namex_loop :: "nat \<Rightarrow> bool \<Rightarrow> byte list \<Rightarrow> byte list \<Rightarrow> fsst \<Rightarrow> (nat option \<times> byte list \<times> fsst) result" where
  "namex_loop ip nameiparent pth name fs =
    (case skipelem pth name of
       Some (pth1, name1) \<Rightarrow>
         rbind (ilock ip fs) (\<lambda>fs1.
         if di_type (din (itable fs1 ip)) \<noteq> T_DIR then rbind (iunlockput ip fs1) (\<lambda>fs2. Inr (None, name1, fs2))
         else if nameiparent \<and> pth1 = [] then rbind (iunlock ip fs1) (\<lambda>fs2. Inr (Some ip, name1, fs2))
         else rbind (dirlookup ip name1 fs1) (\<lambda>(found, fs2).
              case found of
                None \<Rightarrow> rbind (iunlockput ip fs2) (\<lambda>fs3. Inr (None, name1, fs3))
              | Some (next_ip, _) \<Rightarrow> rbind (iunlockput ip fs2) (\<lambda>fs3. namex_loop next_ip nameiparent pth1 name1 fs3)))
     | None \<Rightarrow>
         if nameiparent then rbind (iput ip fs) (\<lambda>fs1. Inr (None, name, fs1)) else Inr (Some ip, name, fs))"
  by pat_completeness auto
termination
  by (relation "measure (\<lambda>(_, _, pth, _, _). length pth)") (auto dest: skipelem_shorter)

declare namex_loop.simps [simp del]

definition namex :: "nat \<Rightarrow> byte list \<Rightarrow> bool \<Rightarrow> byte list \<Rightarrow> fsst \<Rightarrow> (nat option \<times> byte list \<times> fsst) result" where
  "namex cwd pth nameiparent name fs =
    rbind (if pth \<noteq> [] \<and> hd pth = 47 then iget ROOTDEV ROOTINO fs else Inr (idup cwd fs)) (\<lambda>(ip, fs1).
    namex_loop ip nameiparent pth name fs1)"

definition namei :: "nat \<Rightarrow> byte list \<Rightarrow> fsst \<Rightarrow> (nat option \<times> fsst) result" where
  "namei cwd pth fs =
    rbind (namex cwd pth False (replicate DIRSIZ 0) fs) (\<lambda>(ip, _, fs1). Inr (ip, fs1))"

definition nameiparent :: "nat \<Rightarrow> byte list \<Rightarrow> byte list \<Rightarrow> fsst \<Rightarrow> (nat option \<times> byte list \<times> fsst) result" where
  "nameiparent cwd pth name fs = namex cwd pth True name fs"

section \<open>Names\<close>

text \<open>A name array as a string: up to the first zero, at most \<open>DIRSIZ\<close> bytes.\<close>

definition cname :: "byte list \<Rightarrow> byte list" where
  "cname nm = takeWhile (\<lambda>c. c \<noteq> 0) (take DIRSIZ nm)"

lemma cbytes_list:
  assumes "\<And>i. i < k \<Longrightarrow> m (p + of_nat i) = (if i < length xs then xs ! i else 0)"
  shows "cbytes k m p = takeWhile (\<lambda>c. c \<noteq> 0) (take k xs)"
  using assms
proof (induction k arbitrary: p xs)
  case (Suc k)
  have z: "m p = (if 0 < length xs then xs ! 0 else 0)" using Suc.prems [of 0] by simp
  have "cbytes k m (p + 1) = takeWhile (\<lambda>c. c \<noteq> 0) (take k (tl xs))"
  proof (rule Suc.IH)
    fix i assume "i < k"
    then show "m (p + 1 + of_nat i) = (if i < length (tl xs) then tl xs ! i else 0)"
      using Suc.prems [of "Suc i"] by (auto simp: nth_tl add.assoc)
  qed
  then show ?case using z by (cases xs) auto
qed simp

lemma namecmp_0_iff:
  assumes "length s \<le> 4096" "length t \<le> 4096"
  shows "namecmp s t = 0 \<longleftrightarrow> cname s = cname t"
proof -
  have "cbytes DIRSIZ (two_strings s t) 0 = cname s"
    unfolding cname_def by (rule cbytes_list) (auto simp: two_strings_def DIRSIZ_def unat_of_nat64)
  moreover have "cbytes DIRSIZ (two_strings s t) 4096 = cname t"
    unfolding cname_def
  proof (rule cbytes_list)
    fix i assume i: "i < DIRSIZ"
    then have "unat (4096 + of_nat i :: addr) = 4096 + i"
      by (subst unat_add_lem64) (simp_all add: DIRSIZ_def unat_of_nat64)
    then show "two_strings s t (4096 + of_nat i) = (if i < length t then t ! i else 0)" using assms(1) by (simp add: two_strings_def)
  qed
  ultimately show ?thesis by (simp add: namecmp_def strncmp_def strncmp_loop_0_iff DIRSIZ_def)
qed

end
