(* ===== verification/Proc.thy ===== *)
theory Proc
  imports Dir Pipe Printf
begin

text \<open>Processes (\<open>kernel/proc.c\<close>, \<open>kernel/proc.h\<close>) and the state of the kernel the system calls work on: the process
  table, the file table of \<open>kernel/file.h\<close>, pipes, console, file system and memory.  A process, a file and an
  inode are their indices in the tables.  The locks \<open>p->lock\<close>, \<open>wait_lock\<close> and \<open>pid_lock\<close> are taken with the
  operations of theory \<open>Spinlock\<close> on the executing CPU; \<open>swtch\<close> is a parameter of the functions that call \<open>sched\<close>:
  what happens between switching away from a process and switching back to it.\<close>

section \<open>State\<close>

datatype procstate = UNUSED | USED | SLEEPING | RUNNABLE | RUNNING | ZOMBIE

text \<open>The addresses processes sleep on: the process itself in \<open>wait\<close>, \<open>ticks\<close>, the two counters of a pipe, and
  those of the log, the console, the transmit buffer, the disk and the sleep locks.\<close>

datatype chan = ProcChan nat | TicksChan | NreadChan addr | NwriteChan addr | OtherChan nat

record kcontext =
  ctx_ra :: uint64
  ctx_sp :: uint64
  ctx_s :: "uint64 list"

record proc =
  p_lock :: spinlock
  p_state :: procstate
  p_chan :: "chan option"
  p_killed :: bool
  p_xstate :: int
  p_pid :: int
  p_parent :: "nat option"
  p_kstack :: uint64
  p_sz :: uint64
  p_pagetable :: addr
  p_trapframe :: addr
  p_context :: kcontext
  p_ofile :: "nat option list"
  p_cwd :: "nat option"
  p_name :: "byte list"

datatype file_type = FD_NONE | FD_PIPE | FD_INODE | FD_DEVICE

record filest =
  f_type :: file_type
  f_ref :: int
  f_readable :: bool
  f_writable :: bool
  f_pipe :: addr
  f_ip :: nat
  f_off :: uint
  f_major :: uint16

text \<open>\<open>cur\<close> is \<open>mycpu()->proc\<close>; the CPU itself is \<open>kcpu\<close> of the memory state.  \<open>pipes\<close> are the pages that hold a
  \<open>struct pipe\<close>.  The last fields are the registers the code reads, what other CPUs do
  meanwhile (\<open>kill_seen i\<close>: whether one of them has set \<open>killed\<close> of the running process by the time it has written \<open>i\<close> bytes to a
  pipe), and the link-time addresses it uses.\<close>

record sys =
  kst :: kstate
  fsys :: fsst
  ftable :: "nat \<Rightarrow> filest"
  pipes :: "addr \<Rightarrow> pipe"
  cons_st :: cons
  uart_st :: uart
  procs :: "nat \<Rightarrow> proc"
  wait_lock :: spinlock
  pid_lock :: spinlock
  initproc :: "nat option"
  nextpid :: int
  cur :: "nat option"
  ticks :: uint
  tickslock :: spinlock
  first_ret :: bool
  panicked :: bool
  scause :: uint64
  tx_idle :: "nat \<Rightarrow> bool"
  kill_seen :: "int \<Rightarrow> bool"
  forkret_pc :: uint64
  trampoline :: addr

definition NOFILE :: nat where "NOFILE = 16"

definition in_mem :: "(kstate \<Rightarrow> kstate result) \<Rightarrow> sys \<Rightarrow> sys result" where
  "in_mem f s = rbind (f (kst s)) (\<lambda>k. Inr (s\<lparr>kst := k\<rparr>))"

definition in_memr :: "(kstate \<Rightarrow> ('a \<times> kstate) result) \<Rightarrow> sys \<Rightarrow> ('a \<times> sys) result" where
  "in_memr f s = rbind (f (kst s)) (\<lambda>(r, k). Inr (r, s\<lparr>kst := k\<rparr>))"

definition in_fs :: "(fsst \<Rightarrow> fsst result) \<Rightarrow> sys \<Rightarrow> sys result" where
  "in_fs f s = rbind (f (fsys s)) (\<lambda>x. Inr (s\<lparr>fsys := x\<rparr>))"

definition in_fsr :: "(fsst \<Rightarrow> ('a \<times> fsst) result) \<Rightarrow> sys \<Rightarrow> ('a \<times> sys) result" where
  "in_fsr f s = rbind (f (fsys s)) (\<lambda>(r, x). Inr (r, s\<lparr>fsys := x\<rparr>))"

definition in_log :: "(logst \<Rightarrow> logst result) \<Rightarrow> sys \<Rightarrow> sys result" where
  "in_log f = in_fs (\<lambda>x. rbind (f (fs_log x)) (\<lambda>l. Inr (x\<lparr>fs_log := l\<rparr>)))"

definition upd_proc :: "nat \<Rightarrow> (proc \<Rightarrow> proc) \<Rightarrow> sys \<Rightarrow> sys" where
  "upd_proc i f s = s\<lparr>procs := (procs s)(i := f (procs s i))\<rparr>"

definition set_cpu :: "cpu \<Rightarrow> sys \<Rightarrow> sys" where
  "set_cpu c s = s\<lparr>kst := (kst s)\<lparr>kcpu := c\<rparr>\<rparr>"

definition acquire_p :: "nat \<Rightarrow> sys \<Rightarrow> sys result" where
  "acquire_p i s = rbind (acquire (p_lock (procs s i)) (kcpu (kst s))) (\<lambda>(lk, c). Inr (upd_proc i (p_lock_update (\<lambda>_. lk)) (set_cpu c s)))"

definition release_p :: "nat \<Rightarrow> sys \<Rightarrow> sys result" where
  "release_p i s = rbind (release (p_lock (procs s i)) (kcpu (kst s))) (\<lambda>(lk, c). Inr (upd_proc i (p_lock_update (\<lambda>_. lk)) (set_cpu c s)))"

definition acquire_wait :: "sys \<Rightarrow> sys result" where
  "acquire_wait s = rbind (acquire (wait_lock s) (kcpu (kst s))) (\<lambda>(lk, c). Inr (set_cpu c (s\<lparr>wait_lock := lk\<rparr>)))"

definition release_wait :: "sys \<Rightarrow> sys result" where
  "release_wait s = rbind (release (wait_lock s) (kcpu (kst s))) (\<lambda>(lk, c). Inr (set_cpu c (s\<lparr>wait_lock := lk\<rparr>)))"

definition acquire_pid :: "sys \<Rightarrow> sys result" where
  "acquire_pid s = rbind (acquire (pid_lock s) (kcpu (kst s))) (\<lambda>(lk, c). Inr (set_cpu c (s\<lparr>pid_lock := lk\<rparr>)))"

definition release_pid :: "sys \<Rightarrow> sys result" where
  "release_pid s = rbind (release (pid_lock s) (kcpu (kst s))) (\<lambda>(lk, c). Inr (set_cpu c (s\<lparr>pid_lock := lk\<rparr>)))"

text \<open>\<open>myproc()\<close> where the code dereferences it.\<close>

definition myproc :: "sys \<Rightarrow> nat result" where
  "myproc s = (case cur s of None \<Rightarrow> Inl WildAccess | Some i \<Rightarrow> Inr i)"

text \<open>Setting \<open>c->proc\<close>; the sleep locks see the process by its \<open>pid\<close>.\<close>

definition set_cur :: "nat option \<Rightarrow> sys \<Rightarrow> sys" where
  "set_cur i s =
    (let pid = (case i of None \<Rightarrow> 0 | Some j \<Rightarrow> p_pid (procs s j));
         l = fs_log (fsys s)
     in s\<lparr>cur := i, fsys := (fsys s)\<lparr>fs_log := l\<lparr>bc := (bc l)\<lparr>cur_pid := pid\<rparr>\<rparr>\<rparr>\<rparr>)"

section \<open>The process table\<close>

definition procinit :: "sys \<Rightarrow> sys" where
  "procinit s = s\<lparr>pid_lock := initlock ''nextpid'', wait_lock := initlock ''wait_lock'',
    procs := (\<lambda>i. if i < NPROC then (procs s i)\<lparr>p_lock := initlock ''proc'', p_state := UNUSED, p_kstack := KSTACK i\<rparr> else procs s i)\<rparr>"

definition allocpid :: "sys \<Rightarrow> (int \<times> sys) result" where
  "allocpid s =
    rbind (acquire_pid s) (\<lambda>s1.
    let pid = nextpid s1; s2 = s1\<lparr>nextpid := nextpid s1 + 1\<rparr>
    in rbind (release_pid s2) (\<lambda>s3. Inr (pid, s3)))"

definition proc_pagetable :: "nat \<Rightarrow> sys \<Rightarrow> (addr \<times> sys) result" where
  "proc_pagetable p s =
    rbind (in_memr uvmcreate s) (\<lambda>(pagetable, s1).
    if pagetable = 0 then Inr (0, s1)
    else rbind (in_memr (mappages pagetable TRAMPOLINE PGSIZE (trampoline s1) (PTE_R OR PTE_X)) s1) (\<lambda>(r, s2).
      if r < 0 then rbind (in_mem (uvmfree pagetable 0) s2) (\<lambda>s3. Inr (0, s3))
      else rbind (in_memr (mappages pagetable TRAPFRAME PGSIZE (p_trapframe (procs s2 p)) (PTE_R OR PTE_W)) s2) (\<lambda>(r, s3).
        if r < 0 then
          rbind (in_mem (uvmunmap pagetable TRAMPOLINE 1 False) s3) (\<lambda>s4.
          rbind (in_mem (uvmfree pagetable 0) s4) (\<lambda>s5. Inr (0, s5)))
        else Inr (pagetable, s3))))"

definition proc_freepagetable :: "addr \<Rightarrow> uint64 \<Rightarrow> sys \<Rightarrow> sys result" where
  "proc_freepagetable pagetable sz s =
    rbind (in_mem (uvmunmap pagetable TRAMPOLINE 1 False) s) (\<lambda>s1.
    rbind (in_mem (uvmunmap pagetable TRAPFRAME 1 False) s1) (\<lambda>s2.
    in_mem (uvmfree pagetable sz) s2))"

definition freeproc :: "nat \<Rightarrow> sys \<Rightarrow> sys result" where
  "freeproc i s =
    rbind (if p_trapframe (procs s i) \<noteq> 0 then in_mem (kfree (p_trapframe (procs s i))) s else Inr s) (\<lambda>s1.
    let s2 = upd_proc i (p_trapframe_update (\<lambda>_. 0)) s1
    in rbind (if p_pagetable (procs s2 i) \<noteq> 0 then proc_freepagetable (p_pagetable (procs s2 i)) (p_sz (procs s2 i)) s2 else Inr s2) (\<lambda>s3.
       Inr (upd_proc i (\<lambda>p. p\<lparr>p_pagetable := 0, p_sz := 0, p_pid := 0, p_parent := None, p_name := (p_name p)[0 := 0], p_chan := None,
         p_killed := False, p_xstate := 0, p_state := UNUSED\<rparr>) s3)))"

text \<open>The loop of \<open>allocproc\<close> returns with the lock of the entry it found held.\<close>

fun allocproc_loop :: "nat list \<Rightarrow> sys \<Rightarrow> (nat option \<times> sys) result" where
  "allocproc_loop [] s = Inr (None, s)"
| "allocproc_loop (i # is) s =
    rbind (acquire_p i s) (\<lambda>s1.
    if p_state (procs s1 i) = UNUSED then Inr (Some i, s1)
    else rbind (release_p i s1) (allocproc_loop is))"

definition allocproc :: "sys \<Rightarrow> (nat option \<times> sys) result" where
  "allocproc s =
    rbind (allocproc_loop [0..<NPROC] s) (\<lambda>(found, s1).
    case found of
      None \<Rightarrow> Inr (None, s1)
    | Some p \<Rightarrow>
        rbind (allocpid s1) (\<lambda>(pid, s2).
        let s3 = upd_proc p (\<lambda>x. x\<lparr>p_pid := pid, p_state := USED\<rparr>) s2;
            give_up = (\<lambda>s. rbind (freeproc p s) (\<lambda>s. rbind (release_p p s) (\<lambda>s. Inr (None, s))))
        in rbind (in_memr kalloc s3) (\<lambda>(tf, s4).
           let s5 = upd_proc p (p_trapframe_update (\<lambda>_. tf)) s4
           in if tf = 0 then give_up s5
              else rbind (proc_pagetable p s5) (\<lambda>(pt, s6).
                let s7 = upd_proc p (p_pagetable_update (\<lambda>_. pt)) s6
                in if pt = 0 then give_up s7
                   else Inr (Some p, upd_proc p (\<lambda>x. x\<lparr>p_context :=
                     \<lparr>ctx_ra = forkret_pc s7, ctx_sp = p_kstack x + PGSIZE, ctx_s = replicate 12 0\<rparr>\<rparr>) s7)))))"

definition growproc :: "int \<Rightarrow> sys \<Rightarrow> (int \<times> sys) result" where
  "growproc n s =
    rbind (myproc s) (\<lambda>i.
    let p = procs s i; sz = p_sz p
    in if n > 0 then
         rbind (in_memr (uvmalloc (p_pagetable p) sz (sz + of_int n) PTE_W) s) (\<lambda>(sz1, s1).
         if sz1 = 0 then Inr (-1, s1) else Inr (0, upd_proc i (p_sz_update (\<lambda>_. sz1)) s1))
       else if n < 0 then
         rbind (in_memr (uvmdealloc (p_pagetable p) sz (sz + of_int n)) s) (\<lambda>(sz1, s1).
         Inr (0, upd_proc i (p_sz_update (\<lambda>_. sz1)) s1))
       else Inr (0, upd_proc i (p_sz_update (\<lambda>_. sz)) s))"

section \<open>Sleeping, waking and scheduling\<close>

definition wakeup :: "chan option \<Rightarrow> sys \<Rightarrow> sys result" where
  "wakeup ch = rfold (\<lambda>i s.
    if cur s \<noteq> Some i then
      rbind (acquire_p i s) (\<lambda>s1.
      release_p i (if p_state (procs s1 i) = SLEEPING \<and> p_chan (procs s1 i) = ch
        then upd_proc i (p_state_update (\<lambda>_. RUNNABLE)) s1 else s1))
    else Inr s) [0..<NPROC]"

fun kill_loop :: "int \<Rightarrow> nat list \<Rightarrow> sys \<Rightarrow> (int \<times> sys) result" where
  "kill_loop pid [] s = Inr (-1, s)"
| "kill_loop pid (i # is) s =
    rbind (acquire_p i s) (\<lambda>s1.
    if p_pid (procs s1 i) = pid then
      let s2 = upd_proc i (\<lambda>p. p\<lparr>p_killed := True, p_state := (if p_state p = SLEEPING then RUNNABLE else p_state p)\<rparr>) s1
      in rbind (release_p i s2) (\<lambda>s3. Inr (0, s3))
    else rbind (release_p i s1) (kill_loop pid is))"

definition kill :: "int \<Rightarrow> sys \<Rightarrow> (int \<times> sys) result" where
  "kill pid s = kill_loop pid [0..<NPROC] s"

definition setkilled :: "nat \<Rightarrow> sys \<Rightarrow> sys result" where
  "setkilled i s = rbind (acquire_p i s) (\<lambda>s1. release_p i (upd_proc i (p_killed_update (\<lambda>_. True)) s1))"

definition killed :: "nat \<Rightarrow> sys \<Rightarrow> (bool \<times> sys) result" where
  "killed i s = rbind (acquire_p i s) (\<lambda>s1. rbind (release_p i s1) (\<lambda>s2. Inr (p_killed (procs s1 i), s2)))"

definition sched :: "(sys \<Rightarrow> sys result) \<Rightarrow> sys \<Rightarrow> sys result" where
  "sched swtch s =
    rbind (myproc s) (\<lambda>i.
    let p = procs s i; c = kcpu (kst s)
    in if \<not> holding (p_lock p) c then Inl (Panic ''sched p->lock'')
       else if noff c \<noteq> 1 then Inl (Panic ''sched locks'')
       else if p_state p = RUNNING then Inl (Panic ''sched running'')
       else if intr c then Inl (Panic ''sched interruptible'')
       else rbind (swtch s) (\<lambda>s1. Inr (set_cpu ((kcpu (kst s1))\<lparr>intena := intena c\<rparr>) s1)))"

definition yield :: "(sys \<Rightarrow> sys result) \<Rightarrow> sys \<Rightarrow> sys result" where
  "yield swtch s =
    rbind (myproc s) (\<lambda>i.
    rbind (acquire_p i s) (\<lambda>s1.
    rbind (sched swtch (upd_proc i (p_state_update (\<lambda>_. RUNNABLE)) s1)) (release_p i)))"

text \<open>\<open>sleep(chan, lk)\<close>: \<open>rel\<close> and \<open>acq\<close> release and acquire \<open>lk\<close>.\<close>

definition sleep :: "(sys \<Rightarrow> sys result) \<Rightarrow> chan \<Rightarrow> (sys \<Rightarrow> sys result) \<Rightarrow> (sys \<Rightarrow> sys result) \<Rightarrow> sys \<Rightarrow> sys result" where
  "sleep swtch ch rel acq s =
    rbind (myproc s) (\<lambda>i.
    rbind (acquire_p i s) (\<lambda>s1.
    rbind (rel s1) (\<lambda>s2.
    rbind (sched swtch (upd_proc i (\<lambda>p. p\<lparr>p_chan := Some ch, p_state := SLEEPING\<rparr>) s2)) (\<lambda>s3.
    rbind (release_p i (upd_proc i (p_chan_update (\<lambda>_. None)) s3)) acq))))"

text \<open>One round of \<open>scheduler\<close> over the table: \<open>run i\<close> is process \<open>i\<close> from \<open>swtch\<close> until it switches back.  Gives
  whether a process ran.\<close>

definition intr_on :: "sys \<Rightarrow> sys" where
  "intr_on s = set_cpu ((kcpu (kst s))\<lparr>intr := True\<rparr>) s"

fun scheduler_loop :: "(nat \<Rightarrow> sys \<Rightarrow> sys result) \<Rightarrow> nat list \<Rightarrow> bool \<Rightarrow> sys \<Rightarrow> (bool \<times> sys) result" where
  "scheduler_loop run [] found s = Inr (found, s)"
| "scheduler_loop run (i # is) found s =
    rbind (acquire_p i s) (\<lambda>s1.
    if p_state (procs s1 i) = RUNNABLE then
      rbind (run i (set_cur (Some i) (upd_proc i (p_state_update (\<lambda>_. RUNNING)) s1))) (\<lambda>s2.
      rbind (release_p i (set_cur None s2)) (scheduler_loop run is True))
    else rbind (release_p i s1) (scheduler_loop run is found))"

primrec scheduler :: "(nat \<Rightarrow> sys \<Rightarrow> sys result) \<Rightarrow> nat \<Rightarrow> sys \<Rightarrow> sys result" where
  "scheduler run 0 s = Inr s"
| "scheduler run (Suc n) s =
    rbind (scheduler_loop run [0..<NPROC] False (intr_on s)) (\<lambda>(found, s1).
    scheduler run n (if \<not> found then intr_on s1 else s1))"

definition scheduler_init :: "sys \<Rightarrow> sys" where
  "scheduler_init s = set_cur None s"

text \<open>\<open>forkret\<close> up to \<open>usertrapret\<close>.\<close>

definition forkret :: "sys \<Rightarrow> sys result" where
  "forkret s =
    rbind (myproc s) (\<lambda>i.
    rbind (release_p i s) (\<lambda>s1.
    if first_ret s1 then
      rbind (fsinit ROOTDEV (bc (fs_log (fsys s1)))) (\<lambda>(sb, l).
      Inr (s1\<lparr>fsys := (fsys s1)\<lparr>fs_sb := sb, fs_log := l\<rparr>, first_ret := False\<rparr>))
    else Inr s1))"

text \<open>\<open>procdump\<close>, called from the console interrupt.\<close>

definition ascii :: "string \<Rightarrow> byte list" where
  "ascii = map (\<lambda>c. of_nat (of_char c))"

fun state_name :: "procstate \<Rightarrow> string" where
  "state_name UNUSED = ''unused''"
| "state_name USED = ''used''"
| "state_name SLEEPING = ''sleep ''"
| "state_name RUNNABLE = ''runble''"
| "state_name RUNNING = ''run   ''"
| "state_name ZOMBIE = ''zombie''"

definition procdump :: "sys \<Rightarrow> uart \<times> cpu \<Rightarrow> (uart \<times> cpu) result" where
  "procdump s uc =
    rbind (printf (tx_idle s) (panicked s) [10] [] uc) (rfold (\<lambda>i uc.
      if p_state (procs s i) = UNUSED then Inr uc
      else rbind (printf (tx_idle s) (panicked s) (ascii ''%d %s %s'') [VInt (p_pid (procs s i)),
          VStr (Some (ascii (state_name (p_state (procs s i))))), VStr (Some (takeWhile (\<lambda>c. c \<noteq> 0) (p_name (procs s i))))] uc)
        (\<lambda>uc1. printf (tx_idle s) (panicked s) [10] [] uc1)) [0..<NPROC])"

end
