(* ===== verification/File.thy ===== *)
theory File
  imports Proc
begin

text \<open>Open files (\<open>kernel/file.c\<close>), and the parts of \<open>kernel/pipe.c\<close> that work on files: \<open>pipealloc\<close> and the call of
  \<open>pipeclose\<close>.  A call that sleeps in a pipe or on the console ends in \<open>Wait i\<close>, with \<open>i\<close> bytes done; it
  continues with the same arguments and that \<open>i\<close>.\<close>

section \<open>The code\<close>

definition NFILE :: nat where "NFILE = 100"
definition NDEV :: nat where "NDEV = 10"
definition CONSOLE :: uint16 where "CONSOLE = 1"

definition upd_file :: "nat \<Rightarrow> (filest \<Rightarrow> filest) \<Rightarrow> sys \<Rightarrow> sys" where
  "upd_file f g s = s\<lparr>ftable := (ftable s)(f := g (ftable s f))\<rparr>"

fun filealloc_loop :: "nat list \<Rightarrow> sys \<Rightarrow> nat option \<times> sys" where
  "filealloc_loop [] s = (None, s)"
| "filealloc_loop (f # fs) s =
    (if f_ref (ftable s f) = 0 then (Some f, upd_file f (f_ref_update (\<lambda>_. 1)) s) else filealloc_loop fs s)"

definition filealloc :: "sys \<Rightarrow> nat option \<times> sys" where
  "filealloc s = filealloc_loop [0..<NFILE] s"

definition filedup :: "nat \<Rightarrow> sys \<Rightarrow> (nat \<times> sys) result" where
  "filedup f s =
    (if f_ref (ftable s f) < 1 then Inl (Panic ''filedup'')
     else Inr (f, upd_file f (\<lambda>x. x\<lparr>f_ref := f_ref x + 1\<rparr>) s))"

text \<open>Wakes the channels a pipe operation gives.\<close>

definition wake_pipe :: "addr \<Rightarrow> pipe_chan list \<Rightarrow> sys \<Rightarrow> sys result" where
  "wake_pipe pi = rfold (\<lambda>ch. wakeup (Some (case ch of ChanRead \<Rightarrow> NreadChan pi | ChanWrite \<Rightarrow> NwriteChan pi)))"

definition close_pipe :: "addr \<Rightarrow> bool \<Rightarrow> sys \<Rightarrow> sys result" where
  "close_pipe pi is_writable s =
    (let (ch, freed, x) = pipeclose is_writable (pipes s pi)
     in rbind (wake_pipe pi [ch] (s\<lparr>pipes := (pipes s)(pi := x)\<rparr>)) (\<lambda>s1.
        if freed then in_mem (kfree pi) s1 else Inr s1))"

definition fileclose :: "nat \<Rightarrow> sys \<Rightarrow> sys result" where
  "fileclose f s =
    (let ff = ftable s f; r = f_ref ff - 1
     in if f_ref ff < 1 then Inl (Panic ''fileclose'')
        else if r > 0 then Inr (upd_file f (f_ref_update (\<lambda>_. r)) s)
        else
          let s1 = upd_file f (\<lambda>x. x\<lparr>f_ref := 0, f_type := FD_NONE\<rparr>) s
          in case f_type ff of
               FD_PIPE \<Rightarrow> close_pipe (f_pipe ff) (f_writable ff) s1
             | FD_NONE \<Rightarrow> Inr s1
             | _ \<Rightarrow> rbind (in_log begin_op s1) (\<lambda>s2. rbind (in_fs (iput (f_ip ff)) s2) (in_log end_op)))"

text \<open>The bytes of a \<open>struct stat\<close>; \<open>pad\<close> is the padding before \<open>size\<close>, whatever is on the kernel stack.\<close>

definition stat_bytes :: "byte list \<Rightarrow> fstat \<Rightarrow> byte list" where
  "stat_bytes pad st = wr32 0 (st_dev st) (replicate 4 0) @ wr32 0 (st_ino st) (replicate 4 0) @ wr16 0 (st_type st) (replicate 2 0) @
    wr16 0 (st_nlink st) (replicate 2 0) @ pad @ wr32 0 (ucast (st_size st)) (replicate 4 0) @ wr32 0 (ucast (drop_bit 32 (st_size st))) (replicate 4 0)"

definition filestat :: "byte list \<Rightarrow> nat \<Rightarrow> uint64 \<Rightarrow> sys \<Rightarrow> (int \<times> sys) result" where
  "filestat pad f ad s =
    rbind (myproc s) (\<lambda>me.
    let x = ftable s f
    in if f_type x = FD_INODE \<or> f_type x = FD_DEVICE then
         rbind (in_fs (ilock (f_ip x)) s) (\<lambda>s1.
         let st = stati (itable (fsys s1) (f_ip x))
         in rbind (in_fs (iunlock (f_ip x)) s1) (\<lambda>s2.
            rbind (in_memr (copyout (scause s2) (p_pagetable (procs s2 me)) ad (stat_bytes pad st)) s2) (\<lambda>(r, s3).
            Inr (if r < 0 then -1 else 0, s3))))
       else Inr (-1, s))"

text \<open>\<open>devsw[major].read\<close> and \<open>write\<close>: the console is the only device with an entry.\<close>

definition devsw :: "uint16 \<Rightarrow> bool" where
  "devsw major \<longleftrightarrow> major = CONSOLE"

definition bad_major :: "uint16 \<Rightarrow> bool" where
  "bad_major major \<longleftrightarrow> sint major < 0 \<or> sint major \<ge> int NDEV"

definition read_inode :: "nat \<Rightarrow> addr \<Rightarrow> nat \<Rightarrow> uint64 \<Rightarrow> uint \<Rightarrow> uint \<Rightarrow> sys \<Rightarrow> (int \<times> sys) result" where
  "read_inode me pt ip ad off n s =
    rbind (readi_at (either_copyout (scause s) pt True) ip ad off n (fsys s) (kst s)) (\<lambda>(r, fs, ks).
    Inr (r, s\<lparr>fsys := fs, kst := ks\<rparr>))"

definition fileread :: "nat \<Rightarrow> uint64 \<Rightarrow> int \<Rightarrow> int \<Rightarrow> sys \<Rightarrow> (pipe_out \<times> sys) result" where
  "fileread f ad n i s =
    rbind (myproc s) (\<lambda>me.
    let x = ftable s f; pt = p_pagetable (procs s me); k = p_killed (procs s me)
    in if \<not> f_readable x then Inr (Done (-1), s)
       else case f_type x of
         FD_PIPE \<Rightarrow>
           rbind (piperead (scause s) pt ad n k (pipes s (f_pipe x)) (kst s)) (\<lambda>(out, chs, pi, ks).
           rbind (wake_pipe (f_pipe x) chs (s\<lparr>pipes := (pipes s)(f_pipe x := pi), kst := ks\<rparr>)) (\<lambda>s1. Inr (out, s1)))
       | FD_DEVICE \<Rightarrow>
           if bad_major (f_major x) \<or> \<not> devsw (f_major x) then Inr (Done (-1), s)
           else rbind (consoleread (scause s) pt True n k (n - i) (ad + of_int i) (cons_st s) (kst s)) (\<lambda>(out, cs, ks).
             Inr (case out of Returned r \<Rightarrow> Done r | Sleeping n1 _ \<Rightarrow> Wait (n - n1), s\<lparr>cons_st := cs, kst := ks\<rparr>))
       | FD_INODE \<Rightarrow>
           rbind (in_fs (ilock (f_ip x)) s) (\<lambda>s1.
           rbind (read_inode me pt (f_ip x) ad (f_off x) (of_int n) s1) (\<lambda>(r, s2).
           let s3 = (if r > 0 then upd_file f (\<lambda>x. x\<lparr>f_off := f_off x + of_int r\<rparr>) s2 else s2)
           in rbind (in_fs (iunlock (f_ip x)) s3) (\<lambda>s4. Inr (Done r, s4))))
       | FD_NONE \<Rightarrow> Inl (Panic ''fileread''))"

definition write_max :: int where
  "write_max = (int MAXOPBLOCKS - 1 - 1 - 2) div 2 * int BSIZE"

text \<open>The body of the loop of \<open>filewrite\<close>: one transaction.\<close>

definition write_inode :: "addr \<Rightarrow> nat \<Rightarrow> uint64 \<Rightarrow> int \<Rightarrow> sys \<Rightarrow> (int \<times> sys) result" where
  "write_inode pt f ad n1 s =
    (let ip = f_ip (ftable s f)
     in rbind (in_log begin_op s) (\<lambda>s1.
        rbind (in_fs (ilock ip) s1) (\<lambda>s2.
        rbind (in_fsr (writei_at (\<lambda>src k. either_copyin pt True src k (kst s2)) ip ad (f_off (ftable s2 f)) (of_int n1)) s2) (\<lambda>(r, s3).
        let s4 = (if r > 0 then upd_file f (\<lambda>x. x\<lparr>f_off := f_off x + of_int r\<rparr>) s3 else s3)
        in rbind (in_fs (iunlock ip) s4) (\<lambda>s5.
           rbind (in_log end_op s5) (\<lambda>s6. Inr (r, s6)))))))"

function filewrite_loop :: "addr \<Rightarrow> nat \<Rightarrow> uint64 \<Rightarrow> int \<Rightarrow> int \<Rightarrow> sys \<Rightarrow> (int \<times> sys) result" where
  "filewrite_loop pt f ad n i s =
    (if i < n then
       let n1 = min (n - i) write_max
       in rbind (write_inode pt f (ad + of_int i) n1 s) (\<lambda>(r, s1).
          if r \<noteq> n1 then Inr (i, s1) else filewrite_loop pt f ad n (i + n1) s1)
     else Inr (i, s))"
  by pat_completeness auto
termination
  by (relation "measure (\<lambda>(_, _, _, n, i, _). nat (n - i))") (auto simp: write_max_def MAXOPBLOCKS_def BSIZE_def)

declare filewrite_loop.simps [simp del]

definition filewrite :: "nat \<Rightarrow> uint64 \<Rightarrow> int \<Rightarrow> int \<Rightarrow> sys \<Rightarrow> (pipe_out \<times> sys) result" where
  "filewrite f ad n i s =
    rbind (myproc s) (\<lambda>me.
    let x = ftable s f; pt = p_pagetable (procs s me); k = p_killed (procs s me)
    in if \<not> f_writable x then Inr (Done (-1), s)
       else case f_type x of
         FD_PIPE \<Rightarrow>
           rbind (pipewrite pt ad n (\<lambda>j. k \<or> kill_seen s j) (kst s) i (pipes s (f_pipe x))) (\<lambda>(out, chs, pi).
           rbind (wake_pipe (f_pipe x) chs (s\<lparr>pipes := (pipes s)(f_pipe x := pi)\<rparr>)) (\<lambda>s1. Inr (out, s1)))
       | FD_DEVICE \<Rightarrow>
           if bad_major (f_major x) \<or> \<not> devsw (f_major x) then Inr (Done (-1), s)
           else rbind (consolewrite (tx_idle s) (panicked s) pt True ad n (kst s) 0 (uart_st s)) (\<lambda>(r, u).
             Inr (Done r, s\<lparr>uart_st := u\<rparr>))
       | FD_INODE \<Rightarrow> rbind (filewrite_loop pt f ad n 0 s) (\<lambda>(i, s1). Inr (Done (if i = n then n else -1), s1))
       | FD_NONE \<Rightarrow> Inl (Panic ''filewrite''))"

text \<open>\<open>pipealloc\<close>: the two files, or \<open>None\<close>.  The \<open>data\<close> array starts after the 24 bytes of the spin lock.\<close>

definition pipe_page :: "addr \<Rightarrow> kstate \<Rightarrow> byte list" where
  "pipe_page pi ks = read_bytes (pi + 24) PIPESIZE (mem ks)"

definition pipealloc :: "sys \<Rightarrow> ((nat \<times> nat) option \<times> sys) result" where
  "pipealloc s =
    (let (f0, s1) = filealloc s
     in case f0 of None \<Rightarrow> Inr (None, s1)
        | Some f0 \<Rightarrow>
          let (f1, s2) = filealloc s1
          in case f1 of None \<Rightarrow> rbind (fileclose f0 s2) (\<lambda>s3. Inr (None, s3))
             | Some f1 \<Rightarrow>
               rbind (in_memr kalloc s2) (\<lambda>(pi, s3).
               if pi = 0 then rbind (fileclose f0 s3) (\<lambda>s4. rbind (fileclose f1 s4) (\<lambda>s5. Inr (None, s5)))
               else
                 let s4 = s3\<lparr>pipes := (pipes s3)(pi := pipe_init (pipe_page pi (kst s3)))\<rparr>;
                     s5 = upd_file f0 (\<lambda>x. x\<lparr>f_type := FD_PIPE, f_readable := True, f_writable := False, f_pipe := pi\<rparr>) s4;
                     s6 = upd_file f1 (\<lambda>x. x\<lparr>f_type := FD_PIPE, f_readable := False, f_writable := True, f_pipe := pi\<rparr>) s5
                 in Inr (Some (f0, f1), s6)))"

end
