(* ===== verification/Process.thy ===== *)
theory Process
  imports File
begin

text \<open>The life of a process (\<open>kernel/proc.c\<close>): \<open>userinit\<close>, \<open>fork\<close>, \<open>reparent\<close>, \<open>exit\<close> and \<open>wait\<close>.\<close>

section \<open>The code\<close>

text \<open>The word at an offset of a trap frame, and \<open>safestrcpy\<close> into the 16 bytes of \<open>p->name\<close>.\<close>

definition tf_epc :: addr where "tf_epc = 24"
definition tf_sp :: addr where "tf_sp = 48"
definition tf_a :: "nat \<Rightarrow> addr" where "tf_a n = 112 + 8 * of_nat n"
definition tf_size :: uint where "tf_size = 288"

definition tf_set :: "nat \<Rightarrow> addr \<Rightarrow> uint64 \<Rightarrow> sys \<Rightarrow> sys result" where
  "tf_set i off v s = in_mem (st64 (p_trapframe (procs s i) + off) v) s"

definition tf_get :: "nat \<Rightarrow> addr \<Rightarrow> sys \<Rightarrow> uint64 result" where
  "tf_get i off s = ld64 (p_trapframe (procs s i) + off) (kst s)"

definition name_copy :: "byte list \<Rightarrow> byte list \<Rightarrow> byte list" where
  "name_copy dst src = map (\<lambda>i. safestrcpy (two_strings dst src) 0 4096 16 (of_nat i)) [0..<16]"

text \<open>Path lookups start at \<open>myproc()->cwd\<close> unless the path is absolute.\<close>

definition in_cwd :: "byte list \<Rightarrow> (nat \<Rightarrow> fsst \<Rightarrow> ('a \<times> fsst) result) \<Rightarrow> sys \<Rightarrow> ('a \<times> sys) result" where
  "in_cwd pth f s =
    (if pth \<noteq> [] \<and> hd pth = 47 then in_fsr (f 0) s
     else rbind (myproc s) (\<lambda>me.
       case p_cwd (procs s me) of None \<Rightarrow> Inl WildAccess | Some cwd \<Rightarrow> in_fsr (f cwd) s))"

definition lookup :: "byte list \<Rightarrow> sys \<Rightarrow> (nat option \<times> sys) result" where
  "lookup pth = in_cwd pth (\<lambda>cwd. namei cwd pth)"

definition initcode :: "byte list" where
  "initcode = [0x17, 0x05, 0x00, 0x00, 0x13, 0x05, 0x45, 0x02,
  0x97, 0x05, 0x00, 0x00, 0x93, 0x85, 0x35, 0x02,
  0x93, 0x08, 0x70, 0x00, 0x73, 0x00, 0x00, 0x00,
  0x93, 0x08, 0x20, 0x00, 0x73, 0x00, 0x00, 0x00,
  0xef, 0xf0, 0x9f, 0xff, 0x2f, 0x69, 0x6e, 0x69,
  0x74, 0x00, 0x00, 0x24, 0x00, 0x00, 0x00, 0x00,
  0x00, 0x00, 0x00, 0x00]"

definition userinit :: "sys \<Rightarrow> sys result" where
  "userinit s =
    rbind (allocproc s) (\<lambda>(found, s1).
    case found of None \<Rightarrow> Inl WildAccess
    | Some p \<Rightarrow>
      rbind (in_mem (uvmfirst (p_pagetable (procs s1 p)) initcode) (s1\<lparr>initproc := Some p\<rparr>)) (\<lambda>s2.
      let s3 = upd_proc p (p_sz_update (\<lambda>_. PGSIZE)) s2
      in rbind (tf_set p tf_epc 0 s3) (\<lambda>s4.
         rbind (tf_set p tf_sp PGSIZE s4) (\<lambda>s5.
         let s6 = upd_proc p (\<lambda>x. x\<lparr>p_name := name_copy (p_name x) (ascii ''initcode'')\<rparr>) s5
         in rbind (lookup [47] s6) (\<lambda>(cwd, s7).
            release_p p (upd_proc p (\<lambda>x. x\<lparr>p_cwd := cwd, p_state := RUNNABLE\<rparr>) s7))))))"

definition dup_files :: "nat \<Rightarrow> nat \<Rightarrow> sys \<Rightarrow> sys result" where
  "dup_files p np = rfold (\<lambda>i s.
    case p_ofile (procs s p) ! i of None \<Rightarrow> Inr s
    | Some f \<Rightarrow> rbind (filedup f s) (\<lambda>(f, s1). Inr (upd_proc np (\<lambda>x. x\<lparr>p_ofile := (p_ofile x)[i := Some f]\<rparr>) s1))) [0..<NOFILE]"

definition fork :: "sys \<Rightarrow> (int \<times> sys) result" where
  "fork s =
    rbind (myproc s) (\<lambda>p.
    rbind (allocproc s) (\<lambda>(found, s1).
    case found of None \<Rightarrow> Inr (-1, s1)
    | Some np \<Rightarrow>
      rbind (in_memr (uvmcopy (p_pagetable (procs s1 p)) (p_pagetable (procs s1 np)) (p_sz (procs s1 p))) s1) (\<lambda>(r, s2).
      if r < 0 then rbind (freeproc np s2) (\<lambda>s3. rbind (release_p np s3) (\<lambda>s4. Inr (-1, s4)))
      else
        let s3 = upd_proc np (p_sz_update (\<lambda>_. p_sz (procs s2 p))) s2
        in rbind (in_mem (memmove_ram (p_trapframe (procs s3 np)) (p_trapframe (procs s3 p)) tf_size) s3) (\<lambda>s4.
           rbind (tf_set np (tf_a 0) 0 s4) (\<lambda>s5.
           rbind (dup_files p np s5) (\<lambda>s6.
           case p_cwd (procs s6 p) of None \<Rightarrow> Inl WildAccess
           | Some cwd \<Rightarrow>
             let (cwd1, fs) = idup cwd (fsys s6);
                 s7 = upd_proc np (\<lambda>x. x\<lparr>p_cwd := Some cwd1, p_name := name_copy (p_name x) (p_name (procs s6 p))\<rparr>) (s6\<lparr>fsys := fs\<rparr>);
                 pid = p_pid (procs s7 np)
             in rbind (release_p np s7) (\<lambda>s8.
                rbind (acquire_wait s8) (\<lambda>s9.
                rbind (release_wait (upd_proc np (p_parent_update (\<lambda>_. Some p)) s9)) (\<lambda>s10.
                rbind (acquire_p np s10) (\<lambda>s11.
                rbind (release_p np (upd_proc np (p_state_update (\<lambda>_. RUNNABLE)) s11)) (\<lambda>s12. Inr (pid, s12))))))))))))"

definition reparent :: "nat \<Rightarrow> sys \<Rightarrow> sys result" where
  "reparent p = rfold (\<lambda>pp s.
    if p_parent (procs s pp) = Some p then
      let s1 = upd_proc pp (p_parent_update (\<lambda>_. initproc s)) s
      in wakeup (map_option ProcChan (initproc s1)) s1
    else Inr s) [0..<NPROC]"

definition close_files :: "nat \<Rightarrow> sys \<Rightarrow> sys result" where
  "close_files p = rfold (\<lambda>fd s.
    case p_ofile (procs s p) ! fd of None \<Rightarrow> Inr s
    | Some f \<Rightarrow> rbind (fileclose f s) (\<lambda>s1. Inr (upd_proc p (\<lambda>x. x\<lparr>p_ofile := (p_ofile x)[fd := None]\<rparr>) s1))) [0..<NOFILE]"

text \<open>\<open>exit\<close> up to the call of \<open>sched\<close>, and \<open>exit\<close>, which does not return.\<close>

definition exit_body :: "int \<Rightarrow> nat \<Rightarrow> sys \<Rightarrow> sys result" where
  "exit_body status p s =
    (if initproc s = Some p then Inl (Panic ''init exiting'')
     else rbind (close_files p s) (\<lambda>s1.
       rbind (in_log begin_op s1) (\<lambda>s2.
       case p_cwd (procs s2 p) of None \<Rightarrow> Inl WildAccess
       | Some cwd \<Rightarrow>
         rbind (in_fs (iput cwd) s2) (\<lambda>s3.
         rbind (in_log end_op s3) (\<lambda>s4.
         rbind (acquire_wait (upd_proc p (p_cwd_update (\<lambda>_. None)) s4)) (\<lambda>s5.
         rbind (reparent p s5) (\<lambda>s6.
         rbind (wakeup (map_option ProcChan (p_parent (procs s6 p))) s6) (\<lambda>s7.
         rbind (acquire_p p s7) (\<lambda>s8.
         release_wait (upd_proc p (\<lambda>x. x\<lparr>p_xstate := status, p_state := ZOMBIE\<rparr>) s8))))))))))"

definition exit :: "(sys \<Rightarrow> sys result) \<Rightarrow> int \<Rightarrow> sys \<Rightarrow> sys result" where
  "exit swtch status s =
    rbind (myproc s) (\<lambda>p.
    rbind (exit_body status p s) (\<lambda>s1.
    rbind (sched swtch s1) (\<lambda>_. Inl (Panic ''zombie exit''))))"

text \<open>The scan of \<open>wait\<close>: \<open>Some r\<close> when \<open>wait\<close> returns \<open>r\<close>, otherwise whether there are children.\<close>

definition int_bytes :: "int \<Rightarrow> byte list" where
  "int_bytes x = wr32 0 (of_int x) (replicate 4 0)"

fun wait_scan :: "nat \<Rightarrow> uint64 \<Rightarrow> nat list \<Rightarrow> bool \<Rightarrow> sys \<Rightarrow> (int option \<times> bool \<times> sys) result" where
  "wait_scan p ad [] havekids s = Inr (None, havekids, s)"
| "wait_scan p ad (pp # pps) havekids s =
    (if p_parent (procs s pp) = Some p then
       rbind (acquire_p pp s) (\<lambda>s1.
       if p_state (procs s1 pp) = ZOMBIE then
         let pid = p_pid (procs s1 pp)
         in rbind (if ad \<noteq> 0 then in_memr (copyout (scause s1) (p_pagetable (procs s1 p)) ad (int_bytes (p_xstate (procs s1 pp)))) s1
                   else Inr (0, s1)) (\<lambda>(r, s2).
            if r < 0 then
              rbind (release_p pp s2) (\<lambda>s3. rbind (release_wait s3) (\<lambda>s4. Inr (Some (-1), True, s4)))
            else
              rbind (freeproc pp s2) (\<lambda>s3.
              rbind (release_p pp s3) (\<lambda>s4. rbind (release_wait s4) (\<lambda>s5. Inr (Some pid, True, s5)))))
       else rbind (release_p pp s1) (wait_scan p ad pps True))
     else wait_scan p ad pps havekids s)"

text \<open>The loop of \<open>wait\<close>, woken up at most \<open>n\<close> times; \<open>None\<close> when it is still asleep.\<close>

primrec wait_loop :: "(sys \<Rightarrow> sys result) \<Rightarrow> nat \<Rightarrow> nat \<Rightarrow> uint64 \<Rightarrow> sys \<Rightarrow> (int option \<times> sys) result" where
  "wait_loop swtch 0 p ad s = Inr (None, s)"
| "wait_loop swtch (Suc n) p ad s =
    rbind (wait_scan p ad [0..<NPROC] False s) (\<lambda>(r, havekids, s1).
    case r of Some r \<Rightarrow> Inr (Some r, s1)
    | None \<Rightarrow>
      rbind (if havekids then killed p s1 else Inr (True, s1)) (\<lambda>(k, s2).
      if k then rbind (release_wait s2) (\<lambda>s3. Inr (Some (-1), s3))
      else rbind (sleep swtch (ProcChan p) release_wait acquire_wait s2) (wait_loop swtch n p ad)))"

definition wait :: "(sys \<Rightarrow> sys result) \<Rightarrow> nat \<Rightarrow> uint64 \<Rightarrow> sys \<Rightarrow> (int option \<times> sys) result" where
  "wait swtch n ad s = rbind (myproc s) (\<lambda>p. rbind (acquire_wait s) (wait_loop swtch n p ad))"

end
