(* ===== verification/Syscall.thy ===== *)
theory Syscall
  imports Process
begin

text \<open>System call arguments (\<open>kernel/syscall.c\<close>) and the system calls of \<open>kernel/sysproc.c\<close>.  A system call gives its
  return value, or \<open>None\<close> when the process is still asleep after the given number of wakeups.\<close>

section \<open>Arguments\<close>

definition rd64 :: "byte list \<Rightarrow> nat \<Rightarrow> uint64" where
  "rd64 bs i = ucast (rd32 bs i) OR push_bit 32 (ucast (rd32 bs (i + 4)))"

definition u64_bytes :: "uint64 \<Rightarrow> byte list" where
  "u64_bytes x = wr32 0 (ucast x) (replicate 4 0) @ wr32 0 (ucast (drop_bit 32 x)) (replicate 4 0)"

definition fetchaddr :: "uint64 \<Rightarrow> sys \<Rightarrow> uint64 option result" where
  "fetchaddr ad s =
    rbind (myproc s) (\<lambda>p.
    let sz = p_sz (procs s p)
    in if ad \<ge> sz \<or> ad + 8 > sz then Inr None
       else rbind (copyin (p_pagetable (procs s p)) ad 8 (kst s)) (\<lambda>(r, bs).
         Inr (if r \<noteq> 0 then None else Some (rd64 bs 0))))"

text \<open>The string read, without its nul; its length is what \<open>fetchstr\<close> returns.\<close>

definition fetchstr :: "uint64 \<Rightarrow> nat \<Rightarrow> sys \<Rightarrow> byte list option result" where
  "fetchstr ad max_n s =
    rbind (myproc s) (\<lambda>p.
    rbind (copyinstr (p_pagetable (procs s p)) ad max_n (kst s)) (\<lambda>(r, bs).
    Inr (if r < 0 then None else Some (takeWhile (\<lambda>c. c \<noteq> 0) bs))))"

definition argraw :: "nat \<Rightarrow> sys \<Rightarrow> uint64 result" where
  "argraw n s = rbind (myproc s) (\<lambda>p. if n \<le> 5 then tf_get p (tf_a n) s else Inl (Panic ''argraw''))"

definition argint :: "nat \<Rightarrow> sys \<Rightarrow> int result" where
  "argint n s = rbind (argraw n s) (\<lambda>x. Inr (sint (ucast x :: uint)))"

definition argaddr :: "nat \<Rightarrow> sys \<Rightarrow> uint64 result" where
  "argaddr n s = argraw n s"

definition argstr :: "nat \<Rightarrow> nat \<Rightarrow> sys \<Rightarrow> byte list option result" where
  "argstr n max_n s = rbind (argaddr n s) (\<lambda>ad. fetchstr ad max_n s)"

section \<open>Processes and time\<close>

type_synonym sysret = "(uint64 option \<times> sys) result"

definition ret :: "int \<Rightarrow> sys \<Rightarrow> sysret" where
  "ret r s = Inr (Some (of_int r), s)"

definition sys_exit :: "(sys \<Rightarrow> sys result) \<Rightarrow> sys \<Rightarrow> sysret" where
  "sys_exit swtch s = rbind (argint 0 s) (\<lambda>n. rbind (exit swtch n s) (ret 0))"

definition sys_getpid :: "sys \<Rightarrow> sysret" where
  "sys_getpid s = rbind (myproc s) (\<lambda>p. ret (p_pid (procs s p)) s)"

definition sys_fork :: "sys \<Rightarrow> sysret" where
  "sys_fork s = rbind (fork s) (\<lambda>(r, s1). ret r s1)"

definition sys_wait :: "(sys \<Rightarrow> sys result) \<Rightarrow> nat \<Rightarrow> sys \<Rightarrow> sysret" where
  "sys_wait swtch n s =
    rbind (argaddr 0 s) (\<lambda>ad.
    rbind (wait swtch n ad s) (\<lambda>(r, s1). Inr (map_option of_int r, s1)))"

definition sys_sbrk :: "sys \<Rightarrow> sysret" where
  "sys_sbrk s =
    rbind (argint 0 s) (\<lambda>n.
    rbind (myproc s) (\<lambda>p.
    let ad = p_sz (procs s p)
    in rbind (growproc n s) (\<lambda>(r, s1). if r < 0 then ret (-1) s1 else Inr (Some ad, s1))))"

definition acquire_ticks :: "sys \<Rightarrow> sys result" where
  "acquire_ticks s = rbind (acquire (tickslock s) (kcpu (kst s))) (\<lambda>(lk, c). Inr (set_cpu c (s\<lparr>tickslock := lk\<rparr>)))"

definition release_ticks :: "sys \<Rightarrow> sys result" where
  "release_ticks s = rbind (release (tickslock s) (kcpu (kst s))) (\<lambda>(lk, c). Inr (set_cpu c (s\<lparr>tickslock := lk\<rparr>)))"

text \<open>The loop of \<open>sys_sleep\<close>; \<open>ticks - ticks0 < n\<close> compares unsigned numbers.\<close>

primrec sleep_loop :: "(sys \<Rightarrow> sys result) \<Rightarrow> nat \<Rightarrow> uint \<Rightarrow> int \<Rightarrow> sys \<Rightarrow> sysret" where
  "sleep_loop swtch 0 ticks0 n s = Inr (None, s)"
| "sleep_loop swtch (Suc k) ticks0 n s =
    (if ticks s - ticks0 < of_int n then
       rbind (myproc s) (\<lambda>p.
       rbind (killed p s) (\<lambda>(dead, s1).
       if dead then rbind (release_ticks s1) (ret (-1))
       else rbind (sleep swtch TicksChan release_ticks acquire_ticks s1) (sleep_loop swtch k ticks0 n)))
     else rbind (release_ticks s) (ret 0))"

definition sys_sleep :: "(sys \<Rightarrow> sys result) \<Rightarrow> nat \<Rightarrow> sys \<Rightarrow> sysret" where
  "sys_sleep swtch k s =
    rbind (argint 0 s) (\<lambda>n.
    rbind (acquire_ticks s) (\<lambda>s1. sleep_loop swtch k (ticks s1) (if n < 0 then 0 else n) s1))"

definition sys_kill :: "sys \<Rightarrow> sysret" where
  "sys_kill s = rbind (argint 0 s) (\<lambda>pid. rbind (kill pid s) (\<lambda>(r, s1). ret r s1))"

definition sys_uptime :: "sys \<Rightarrow> sysret" where
  "sys_uptime s =
    rbind (acquire_ticks s) (\<lambda>s1.
    let xticks = ticks s1 in rbind (release_ticks s1) (\<lambda>s2. Inr (Some (ucast xticks), s2)))"

end
