(* ===== verification/Exec.thy ===== *)
theory Exec
  imports Syscall
begin

text \<open>Loading a program (\<open>kernel/exec.c\<close>, \<open>kernel/elf.h\<close>).  The strings \<open>argv[i]\<close> points to are byte lists without
  the nul; \<open>ustack\<close> is the part of the array written so far.\<close>

section \<open>The code\<close>

definition MAXARG :: nat where "MAXARG = 32"
definition USERSTACK :: uint64 where "USERSTACK = 1"
definition ELF_MAGIC :: uint where "ELF_MAGIC = 0x464C457F"
definition ELF_PROG_LOAD :: uint where "ELF_PROG_LOAD = 1"

record elfhdr =
  elf_magic :: uint
  elf_entry :: uint64
  elf_phoff :: uint64
  elf_phnum :: uint16

definition rd_elfhdr :: "byte list \<Rightarrow> elfhdr" where
  "rd_elfhdr bs = \<lparr>elf_magic = rd32 bs 0, elf_entry = rd64 bs 24, elf_phoff = rd64 bs 32, elf_phnum = rd16 bs 56\<rparr>"

record proghdr =
  ph_type :: uint
  ph_flags :: uint
  ph_off :: uint64
  ph_vaddr :: uint64
  ph_filesz :: uint64
  ph_memsz :: uint64

definition rd_proghdr :: "byte list \<Rightarrow> proghdr" where
  "rd_proghdr bs = \<lparr>ph_type = rd32 bs 0, ph_flags = rd32 bs 4, ph_off = rd64 bs 8, ph_vaddr = rd64 bs 16, ph_filesz = rd64 bs 32, ph_memsz = rd64 bs 40\<rparr>"

definition flags2perm :: "uint \<Rightarrow> uint64" where
  "flags2perm flags =
    (let perm = (if flags AND 1 \<noteq> 0 then PTE_X else 0)
     in if flags AND 2 \<noteq> 0 then perm OR PTE_W else perm)"

text \<open>\<open>readi\<close> into a variable on the kernel stack, and to a physical address.\<close>

definition read_var :: "nat \<Rightarrow> uint \<Rightarrow> nat \<Rightarrow> sys \<Rightarrow> (int \<times> byte list \<times> sys) result" where
  "read_var ip off n s =
    rbind (readi_at to_buf ip 0 off (of_nat n) (fsys s) (replicate n 0)) (\<lambda>(r, fs, bs). Inr (r, bs, s\<lparr>fsys := fs\<rparr>))"

definition read_phys :: "nat \<Rightarrow> addr \<Rightarrow> uint \<Rightarrow> nat \<Rightarrow> sys \<Rightarrow> (int \<times> sys) result" where
  "read_phys ip pa off n s =
    rbind (readi_at (either_copyout (scause s) 0 False) ip pa off (of_nat n) (fsys s) (kst s)) (\<lambda>(r, fs, ks). Inr (r, s\<lparr>fsys := fs, kst := ks\<rparr>))"

function loadseg :: "addr \<Rightarrow> uint64 \<Rightarrow> nat \<Rightarrow> uint \<Rightarrow> uint \<Rightarrow> nat \<Rightarrow> sys \<Rightarrow> (int \<times> sys) result" where
  "loadseg pagetable va ip offset sz i s =
    (if i < unat sz then
       rbind (walkaddr pagetable (va + of_nat i) (kst s)) (\<lambda>pa.
       if pa = 0 then Inl (Panic ''loadseg: address should exist'')
       else
         let n = (if unat sz - i < 4096 then unat sz - i else 4096)
         in rbind (read_phys ip pa (offset + of_nat i) n s) (\<lambda>(r, s1).
            if r \<noteq> int n then Inr (-1, s1) else loadseg pagetable va ip offset sz (i + 4096) s1))
     else Inr (0, s))"
  by pat_completeness auto
termination
  by (relation "measure (\<lambda>(_, _, _, _, sz, i, _). unat sz - i)") auto

declare loadseg.simps [simp del]

text \<open>The loop over the program headers; \<open>False\<close> stands for \<open>goto bad\<close>.  \<open>off\<close> is an \<open>int\<close>.\<close>

fun load_program :: "addr \<Rightarrow> nat \<Rightarrow> nat list \<Rightarrow> uint \<Rightarrow> uint64 \<Rightarrow> sys \<Rightarrow> (bool \<times> uint64 \<times> sys) result" where
  "load_program pagetable ip [] off sz s = Inr (True, sz, s)"
| "load_program pagetable ip (i # is) off sz s =
    rbind (read_var ip off 56 s) (\<lambda>(r, bs, s1).
    let ph = rd_proghdr bs
    in if r \<noteq> 56 then Inr (False, sz, s1)
       else if ph_type ph \<noteq> ELF_PROG_LOAD then load_program pagetable ip is (off + 56) sz s1
       else if ph_memsz ph < ph_filesz ph then Inr (False, sz, s1)
       else if ph_vaddr ph + ph_memsz ph < ph_vaddr ph then Inr (False, sz, s1)
       else if ph_vaddr ph mod PGSIZE \<noteq> 0 then Inr (False, sz, s1)
       else rbind (in_memr (uvmalloc pagetable sz (ph_vaddr ph + ph_memsz ph) (flags2perm (ph_flags ph))) s1) (\<lambda>(sz1, s2).
         if sz1 = 0 then Inr (False, sz, s2)
         else rbind (loadseg pagetable (ph_vaddr ph) ip (ucast (ph_off ph)) (ucast (ph_filesz ph)) 0 s2) (\<lambda>(r, s3).
           if r < 0 then Inr (False, sz1, s3) else load_program pagetable ip is (off + 56) sz1 s3)))"

text \<open>The loop that pushes the argument strings.\<close>

definition align16 :: "uint64 \<Rightarrow> uint64" where
  "align16 sp = sp - sp mod 16"

fun push_args :: "addr \<Rightarrow> uint64 \<Rightarrow> byte list list \<Rightarrow> uint64 \<Rightarrow> uint64 list \<Rightarrow> sys \<Rightarrow> (bool \<times> uint64 \<times> uint64 list \<times> sys) result" where
  "push_args pagetable stackbase [] sp ustack s = Inr (True, sp, ustack, s)"
| "push_args pagetable stackbase (arg # args) sp ustack s =
    (if length ustack \<ge> MAXARG then Inr (False, sp, ustack, s)
     else
       let sp1 = align16 (sp - of_nat (length arg + 1))
       in if sp1 < stackbase then Inr (False, sp1, ustack, s)
          else rbind (in_memr (copyout (scause s) pagetable sp1 (arg @ [0])) s) (\<lambda>(r, s1).
            if r < 0 then Inr (False, sp1, ustack, s1)
            else push_args pagetable stackbase args sp1 (ustack @ [sp1]) s1))"

definition exec_bad :: "addr \<Rightarrow> uint64 \<Rightarrow> nat option \<Rightarrow> sys \<Rightarrow> (int \<times> sys) result" where
  "exec_bad pagetable sz ip s =
    rbind (if pagetable \<noteq> 0 then proc_freepagetable pagetable sz s else Inr s) (\<lambda>s1.
    rbind (case ip of None \<Rightarrow> Inr s1 | Some ip \<Rightarrow> rbind (in_fs (iunlockput ip) s1) (in_log end_op)) (\<lambda>s2.
    Inr (-1, s2)))"

text \<open>Committing to the new image.\<close>

definition exec_commit :: "byte list \<Rightarrow> nat \<Rightarrow> addr \<Rightarrow> uint64 \<Rightarrow> uint64 \<Rightarrow> uint64 \<Rightarrow> uint64 \<Rightarrow> nat \<Rightarrow> sys \<Rightarrow> (int \<times> sys) result" where
  "exec_commit pth p pagetable sz oldsz epc sp argc s =
    rbind (tf_set p (tf_a 1) sp s) (\<lambda>s1.
    let lst = rev (takeWhile (\<lambda>c. c \<noteq> 47) (rev pth));
        oldpagetable = p_pagetable (procs s1 p);
        s2 = upd_proc p (\<lambda>x. x\<lparr>p_name := name_copy (p_name x) lst, p_pagetable := pagetable, p_sz := sz\<rparr>) s1
    in rbind (tf_set p tf_epc epc s2) (\<lambda>s3.
       rbind (tf_set p tf_sp sp s3) (\<lambda>s4.
       rbind (proc_freepagetable oldpagetable oldsz s4) (\<lambda>s5. Inr (int argc, s5)))))"

text \<open>The second half of \<open>exec\<close>, after the program has been loaded: stack, arguments, commit.\<close>

definition exec_stack :: "byte list \<Rightarrow> byte list list \<Rightarrow> nat \<Rightarrow> addr \<Rightarrow> uint64 \<Rightarrow> uint64 \<Rightarrow> sys \<Rightarrow> (int \<times> sys) result" where
  "exec_stack pth argv p pagetable sz epc s =
    (let oldsz = p_sz (procs s p); sz = PGROUNDUP sz
     in rbind (in_memr (uvmalloc pagetable sz (sz + (USERSTACK + 1) * PGSIZE) PTE_W) s) (\<lambda>(sz1, s1).
        if sz1 = 0 then exec_bad pagetable sz None s1
        else
          let sz = sz1
          in rbind (in_mem (uvmclear pagetable (sz - (USERSTACK + 1) * PGSIZE)) s1) (\<lambda>s2.
             let stackbase = sz - USERSTACK * PGSIZE
             in rbind (push_args pagetable stackbase argv sz [] s2) (\<lambda>(ok, sp, ustack, s3).
                if \<not> ok then exec_bad pagetable sz None s3
                else if length ustack \<ge> MAXARG then Inl WildAccess
                else
                  let sp1 = align16 (sp - of_nat ((length ustack + 1) * 8))
                  in if sp1 < stackbase then exec_bad pagetable sz None s3
                     else rbind (in_memr (copyout (scause s3) pagetable sp1 (concat (map u64_bytes (ustack @ [0])))) s3) (\<lambda>(r, s4).
                       if r < 0 then exec_bad pagetable sz None s4
                       else exec_commit pth p pagetable sz oldsz epc sp1 (length ustack) s4)))))"

definition exec :: "byte list \<Rightarrow> byte list list \<Rightarrow> sys \<Rightarrow> (int \<times> sys) result" where
  "exec pth argv s =
    rbind (myproc s) (\<lambda>p.
    rbind (in_log begin_op s) (\<lambda>s1.
    rbind (lookup pth s1) (\<lambda>(ip, s2).
    case ip of None \<Rightarrow> rbind (in_log end_op s2) (\<lambda>s3. Inr (-1, s3))
    | Some ip \<Rightarrow>
      rbind (in_fs (ilock ip) s2) (\<lambda>s3.
      rbind (read_var ip 0 64 s3) (\<lambda>(r, bs, s4).
      let elf = rd_elfhdr bs
      in if r \<noteq> 64 then exec_bad 0 0 (Some ip) s4
         else if elf_magic elf \<noteq> ELF_MAGIC then exec_bad 0 0 (Some ip) s4
         else rbind (proc_pagetable p s4) (\<lambda>(pagetable, s5).
           if pagetable = 0 then exec_bad 0 0 (Some ip) s5
           else rbind (load_program pagetable ip [0..<unat (elf_phnum elf)] (ucast (elf_phoff elf)) 0 s5) (\<lambda>(ok, sz, s6).
             if \<not> ok then exec_bad pagetable sz (Some ip) s6
             else rbind (in_fs (iunlockput ip) s6) (\<lambda>s7.
               rbind (in_log end_op s7) (\<lambda>s8.
               exec_stack pth argv p pagetable sz (elf_entry elf) s8)))))))))"

end
