(* ===== verification/Sysfile.thy ===== *)
theory Sysfile
  imports Exec
begin

text \<open>The system calls on files (\<open>kernel/sysfile.c\<close>).\<close>

section \<open>Descriptors\<close>

definition MAXPATH :: nat where "MAXPATH = 128"
definition O_RDONLY :: uint where "O_RDONLY = 0"
definition O_WRONLY :: uint where "O_WRONLY = 1"
definition O_RDWR :: uint where "O_RDWR = 2"
definition O_CREATE :: uint where "O_CREATE = 0x200"
definition O_TRUNC :: uint where "O_TRUNC = 0x400"

definition argfd :: "nat \<Rightarrow> sys \<Rightarrow> (nat \<times> nat) option result" where
  "argfd n s =
    rbind (argint n s) (\<lambda>fd.
    rbind (myproc s) (\<lambda>p.
    Inr (if fd < 0 \<or> fd \<ge> int NOFILE then None
         else map_option (\<lambda>f. (nat fd, f)) (p_ofile (procs s p) ! nat fd))))"

fun free_fd :: "nat option list \<Rightarrow> nat list \<Rightarrow> nat option" where
  "free_fd ofile [] = None"
| "free_fd ofile (fd # fds) = (if ofile ! fd = None then Some fd else free_fd ofile fds)"

definition set_ofile :: "nat \<Rightarrow> nat \<Rightarrow> nat option \<Rightarrow> sys \<Rightarrow> sys" where
  "set_ofile p fd f s = upd_proc p (\<lambda>x. x\<lparr>p_ofile := (p_ofile x)[fd := f]\<rparr>) s"

definition fdalloc :: "nat \<Rightarrow> sys \<Rightarrow> (nat option \<times> sys) result" where
  "fdalloc f s =
    rbind (myproc s) (\<lambda>p.
    case free_fd (p_ofile (procs s p)) [0..<NOFILE] of
      None \<Rightarrow> Inr (None, s)
    | Some fd \<Rightarrow> Inr (Some fd, set_ofile p fd (Some f) s))"

definition sys_dup :: "sys \<Rightarrow> sysret" where
  "sys_dup s =
    rbind (argfd 0 s) (\<lambda>a.
    case a of None \<Rightarrow> ret (-1) s
    | Some (_, f) \<Rightarrow>
      rbind (fdalloc f s) (\<lambda>(fd, s1).
      case fd of None \<Rightarrow> ret (-1) s1
      | Some fd \<Rightarrow> rbind (filedup f s1) (\<lambda>(_, s2). ret (int fd) s2)))"

text \<open>A read or write that sleeps goes on when woken, at most \<open>n\<close> times.\<close>

definition file_chan :: "bool \<Rightarrow> filest \<Rightarrow> chan" where
  "file_chan writing x =
    (if f_type x = FD_PIPE then if writing then NwriteChan (f_pipe x) else NreadChan (f_pipe x) else OtherChan 0)"

primrec file_io :: "(int \<Rightarrow> sys \<Rightarrow> (pipe_out \<times> sys) result) \<Rightarrow> chan \<Rightarrow> (sys \<Rightarrow> sys result) \<Rightarrow> nat \<Rightarrow> int \<Rightarrow> sys \<Rightarrow> sysret" where
  "file_io rw ch swtch 0 i s = Inr (None, s)"
| "file_io rw ch swtch (Suc n) i s =
    rbind (rw i s) (\<lambda>(out, s1).
    case out of Done r \<Rightarrow> ret r s1
    | Wait i1 \<Rightarrow> rbind (sleep swtch ch Inr Inr s1) (file_io rw ch swtch n i1))"

definition sys_read :: "(sys \<Rightarrow> sys result) \<Rightarrow> nat \<Rightarrow> sys \<Rightarrow> sysret" where
  "sys_read swtch k s =
    rbind (argaddr 1 s) (\<lambda>p.
    rbind (argint 2 s) (\<lambda>n.
    rbind (argfd 0 s) (\<lambda>a.
    case a of None \<Rightarrow> ret (-1) s
    | Some (_, f) \<Rightarrow> file_io (fileread f p n) (file_chan False (ftable s f)) swtch k 0 s)))"

definition sys_write :: "(sys \<Rightarrow> sys result) \<Rightarrow> nat \<Rightarrow> sys \<Rightarrow> sysret" where
  "sys_write swtch k s =
    rbind (argaddr 1 s) (\<lambda>p.
    rbind (argint 2 s) (\<lambda>n.
    rbind (argfd 0 s) (\<lambda>a.
    case a of None \<Rightarrow> ret (-1) s
    | Some (_, f) \<Rightarrow> file_io (filewrite f p n) (file_chan True (ftable s f)) swtch k 0 s)))"

definition sys_close :: "sys \<Rightarrow> sysret" where
  "sys_close s =
    rbind (argfd 0 s) (\<lambda>a.
    case a of None \<Rightarrow> ret (-1) s
    | Some (fd, f) \<Rightarrow> rbind (myproc s) (\<lambda>p. rbind (fileclose f (set_ofile p fd None s)) (ret 0)))"

definition sys_fstat :: "byte list \<Rightarrow> sys \<Rightarrow> sysret" where
  "sys_fstat pad s =
    rbind (argaddr 1 s) (\<lambda>st.
    rbind (argfd 0 s) (\<lambda>a.
    case a of None \<Rightarrow> ret (-1) s
    | Some (_, f) \<Rightarrow> rbind (filestat pad f st s) (\<lambda>(r, s1). ret r s1)))"

section \<open>Directories\<close>

definition upd_din :: "nat \<Rightarrow> (dinode \<Rightarrow> dinode) \<Rightarrow> fsst \<Rightarrow> fsst" where
  "upd_din ip f = upd_inode ip (\<lambda>x. x\<lparr>din := f (din x)\<rparr>)"

definition iupdate_at :: "nat \<Rightarrow> fsst \<Rightarrow> fsst result" where
  "iupdate_at ip fs = rbind (iupdate (fs_sb fs) (itable fs ip) (fs_log fs)) (\<lambda>l. Inr (fs\<lparr>fs_log := l\<rparr>))"

abbreviation i_type :: "fsst \<Rightarrow> nat \<Rightarrow> uint16" where
  "i_type fs ip \<equiv> di_type (din (itable fs ip))"

text \<open>\<open>end_op(); return r;\<close>\<close>

definition end_ret :: "int \<Rightarrow> sys \<Rightarrow> sysret" where
  "end_ret r s = rbind (in_log end_op s) (ret r)"

definition link_bad :: "nat \<Rightarrow> fsst \<Rightarrow> fsst result" where
  "link_bad ip fs =
    rbind (ilock ip fs) (\<lambda>fs1.
    rbind (iupdate_at ip (upd_din ip (\<lambda>d. d\<lparr>di_nlink := di_nlink d - 1\<rparr>) fs1)) (iunlockput ip))"

text \<open>\<open>sys_link\<close> after the arguments: linking the inode \<open>ip\<close> under the path \<open>new\<close>.\<close>

definition link_new :: "byte list \<Rightarrow> nat \<Rightarrow> nat \<Rightarrow> fsst \<Rightarrow> (int \<times> fsst) result" where
  "link_new new ip cwd fs =
    (let bad = (\<lambda>fs. rbind (link_bad ip fs) (\<lambda>fs1. Inr (-1, fs1)))
     in rbind (nameiparent cwd new (replicate DIRSIZ 0) fs) (\<lambda>(dp, name, fs1).
        case dp of None \<Rightarrow> bad fs1
        | Some dp \<Rightarrow>
          rbind (ilock dp fs1) (\<lambda>fs2.
          rbind (if i_dev (itable fs2 dp) \<noteq> i_dev (itable fs2 ip) then Inr (-1, fs2)
                 else dirlink dp name (i_inum (itable fs2 ip)) fs2) (\<lambda>(r, fs3).
          rbind (iunlockput dp fs3) (\<lambda>fs4.
          if r < 0 then bad fs4 else rbind (iput ip fs4) (\<lambda>fs5. Inr (0, fs5)))))))"

definition sys_link :: "sys \<Rightarrow> sysret" where
  "sys_link s =
    rbind (argstr 0 MAXPATH s) (\<lambda>old.
    case old of None \<Rightarrow> ret (-1) s
    | Some old \<Rightarrow>
      rbind (argstr 1 MAXPATH s) (\<lambda>new.
      case new of None \<Rightarrow> ret (-1) s
      | Some new \<Rightarrow>
        rbind (in_log begin_op s) (\<lambda>s1.
        rbind (lookup old s1) (\<lambda>(ip, s2).
        case ip of None \<Rightarrow> end_ret (-1) s2
        | Some ip \<Rightarrow>
          rbind (in_fs (ilock ip) s2) (\<lambda>s3.
          if i_type (fsys s3) ip = T_DIR then rbind (in_fs (iunlockput ip) s3) (end_ret (-1))
          else
            rbind (in_fs (iupdate_at ip) (s3\<lparr>fsys := upd_din ip (\<lambda>d. d\<lparr>di_nlink := di_nlink d + 1\<rparr>) (fsys s3)\<rparr>)) (\<lambda>s4.
            rbind (in_fs (iunlock ip) s4) (\<lambda>s5.
            rbind (in_cwd new (link_new new ip) s5) (\<lambda>(r, s6). end_ret r s6))))))))"

function isdirempty_loop :: "nat \<Rightarrow> nat \<Rightarrow> fsst \<Rightarrow> (bool \<times> fsst) result" where
  "isdirempty_loop dp off fs =
    (if off < unat (di_size (din (itable fs dp))) then
       rbind (readi_at to_buf dp 0 (of_nat off) 16 fs (replicate 16 0)) (\<lambda>(r, fs1, de).
       if r \<noteq> 16 then Inl (Panic ''isdirempty: readi'')
       else if rd16 de 0 \<noteq> 0 then Inr (False, fs1)
       else isdirempty_loop dp (off + 16) fs1)
     else Inr (True, fs))"
  by pat_completeness auto
termination
  by (relation "measure (\<lambda>(_, off, _). 4294967296 - off)") (auto dest: next_dirent)

declare isdirempty_loop.simps [simp del]

definition isdirempty :: "nat \<Rightarrow> fsst \<Rightarrow> (bool \<times> fsst) result" where
  "isdirempty dp fs = isdirempty_loop dp 32 fs"

text \<open>\<open>sys_unlink\<close> between \<open>begin_op\<close> and \<open>end_op\<close>.\<close>

definition unlink :: "byte list \<Rightarrow> nat \<Rightarrow> fsst \<Rightarrow> (int \<times> fsst) result" where
  "unlink pth cwd fs =
    rbind (nameiparent cwd pth (replicate DIRSIZ 0) fs) (\<lambda>(dp, name, fs1).
    case dp of None \<Rightarrow> Inr (-1, fs1)
    | Some dp \<Rightarrow>
      let bad = (\<lambda>fs. rbind (iunlockput dp fs) (\<lambda>fs. Inr (-1, fs)))
      in rbind (ilock dp fs1) (\<lambda>fs2.
         if namecmp name [46] = 0 \<or> namecmp name [46, 46] = 0 then bad fs2
         else rbind (dirlookup dp name fs2) (\<lambda>(found, fs3).
           case found of None \<Rightarrow> bad fs3
           | Some (ip, off) \<Rightarrow>
             rbind (ilock ip fs3) (\<lambda>fs4.
             if sint (di_nlink (din (itable fs4 ip))) < 1 then Inl (Panic ''unlink: nlink < 1'')
             else rbind (if i_type fs4 ip = T_DIR then isdirempty ip fs4 else Inr (True, fs4)) (\<lambda>(ok, fs5).
               if \<not> ok then rbind (iunlockput ip fs5) bad
               else rbind (writei_at (from_buf (replicate 16 0)) dp 0 (of_nat off) 16 fs5) (\<lambda>(r, fs6).
                 if r \<noteq> 16 then Inl (Panic ''unlink: writei'')
                 else rbind (if i_type fs6 ip = T_DIR then iupdate_at dp (upd_din dp (\<lambda>d. d\<lparr>di_nlink := di_nlink d - 1\<rparr>) fs6) else Inr fs6) (\<lambda>fs7.
                   rbind (iunlockput dp fs7) (\<lambda>fs8.
                   rbind (iupdate_at ip (upd_din ip (\<lambda>d. d\<lparr>di_nlink := di_nlink d - 1\<rparr>) fs8)) (\<lambda>fs9.
                   rbind (iunlockput ip fs9) (\<lambda>fs10. Inr (0, fs10)))))))))))"

definition sys_unlink :: "sys \<Rightarrow> sysret" where
  "sys_unlink s =
    rbind (argstr 0 MAXPATH s) (\<lambda>pth.
    case pth of None \<Rightarrow> ret (-1) s
    | Some pth \<Rightarrow>
      rbind (in_log begin_op s) (\<lambda>s1.
      rbind (in_cwd pth (unlink pth) s1) (\<lambda>(r, s2). end_ret r s2)))"

section \<open>Creating and opening\<close>

definition create_dots :: "nat \<Rightarrow> nat \<Rightarrow> fsst \<Rightarrow> (int \<times> fsst) result" where
  "create_dots ip dp fs =
    rbind (dirlink ip [46] (i_inum (itable fs ip)) fs) (\<lambda>(r, fs1).
    if r < 0 then Inr (r, fs1) else dirlink ip [46, 46] (i_inum (itable fs1 dp)) fs1)"

definition create_fail :: "nat \<Rightarrow> nat \<Rightarrow> fsst \<Rightarrow> (nat option \<times> fsst) result" where
  "create_fail ip dp fs =
    rbind (iupdate_at ip (upd_din ip (\<lambda>d. d\<lparr>di_nlink := 0\<rparr>) fs)) (\<lambda>fs1.
    rbind (iunlockput ip fs1) (\<lambda>fs2.
    rbind (iunlockput dp fs2) (\<lambda>fs3. Inr (None, fs3))))"

text \<open>\<open>create\<close> when the name is not in the directory \<open>dp\<close>, which is locked.\<close>

definition create_new :: "nat \<Rightarrow> byte list \<Rightarrow> uint16 \<Rightarrow> uint16 \<Rightarrow> uint16 \<Rightarrow> fsst \<Rightarrow> (nat option \<times> fsst) result" where
  "create_new dp name type major minor fs =
    rbind (ialloc (i_dev (itable fs dp)) type fs) (\<lambda>(ip, fs1).
    case ip of None \<Rightarrow> rbind (iunlockput dp fs1) (\<lambda>fs2. Inr (None, fs2))
    | Some ip \<Rightarrow>
      rbind (ilock ip fs1) (\<lambda>fs2.
      rbind (iupdate_at ip (upd_din ip (\<lambda>d. d\<lparr>di_major := major, di_minor := minor, di_nlink := 1\<rparr>) fs2)) (\<lambda>fs3.
      rbind (if type = T_DIR then create_dots ip dp fs3 else Inr (0, fs3)) (\<lambda>(r, fs4).
      if r < 0 then create_fail ip dp fs4
      else rbind (dirlink dp name (i_inum (itable fs4 ip)) fs4) (\<lambda>(r, fs5).
        if r < 0 then create_fail ip dp fs5
        else rbind (if type = T_DIR then iupdate_at dp (upd_din dp (\<lambda>d. d\<lparr>di_nlink := di_nlink d + 1\<rparr>) fs5) else Inr fs5) (\<lambda>fs6.
          rbind (iunlockput dp fs6) (\<lambda>fs7. Inr (Some ip, fs7))))))))"

definition create :: "byte list \<Rightarrow> uint16 \<Rightarrow> uint16 \<Rightarrow> uint16 \<Rightarrow> nat \<Rightarrow> fsst \<Rightarrow> (nat option \<times> fsst) result" where
  "create pth type major minor cwd fs =
    rbind (nameiparent cwd pth (replicate DIRSIZ 0) fs) (\<lambda>(dp, name, fs1).
    case dp of None \<Rightarrow> Inr (None, fs1)
    | Some dp \<Rightarrow>
      rbind (ilock dp fs1) (\<lambda>fs2.
      rbind (dirlookup dp name fs2) (\<lambda>(found, fs3).
      case found of
        Some (ip, _) \<Rightarrow>
          rbind (iunlockput dp fs3) (\<lambda>fs4.
          rbind (ilock ip fs4) (\<lambda>fs5.
          if type = T_FILE \<and> (i_type fs5 ip = T_FILE \<or> i_type fs5 ip = T_DEVICE) then Inr (Some ip, fs5)
          else rbind (iunlockput ip fs5) (\<lambda>fs6. Inr (None, fs6))))
      | None \<Rightarrow> create_new dp name type major minor fs3)))"

text \<open>\<open>sys_open\<close> once the inode is found and locked.\<close>

definition open_file_fields :: "uint \<Rightarrow> nat \<Rightarrow> dinode \<Rightarrow> filest \<Rightarrow> filest" where
  "open_file_fields omode ip d f =
    (let g = (if di_type d = T_DEVICE then f\<lparr>f_type := FD_DEVICE, f_major := di_major d\<rparr> else f\<lparr>f_type := FD_INODE, f_off := 0\<rparr>)
     in g\<lparr>f_ip := ip, f_readable := (omode AND O_WRONLY = 0), f_writable := (omode AND O_WRONLY \<noteq> 0 \<or> omode AND O_RDWR \<noteq> 0)\<rparr>)"

definition open_inode :: "uint \<Rightarrow> nat \<Rightarrow> sys \<Rightarrow> sysret" where
  "open_inode omode ip s =
    (let bad = (\<lambda>s. rbind (in_fs (iunlockput ip) s) (end_ret (-1)));
         d = din (itable (fsys s) ip)
     in if di_type d = T_DEVICE \<and> bad_major (di_major d) then bad s
        else
          let (f, s1) = filealloc s
          in case f of None \<Rightarrow> bad s1
             | Some f \<Rightarrow>
               rbind (fdalloc f s1) (\<lambda>(fd, s2).
               case fd of None \<Rightarrow> rbind (fileclose f s2) bad
               | Some fd \<Rightarrow>
                 let s3 = upd_file f (open_file_fields omode ip d) s2
                 in rbind (if omode AND O_TRUNC \<noteq> 0 \<and> di_type d = T_FILE
                           then in_fs (\<lambda>fs. rbind (itrunc (fs_sb fs) (itable fs ip) (fs_log fs)) (\<lambda>(x, l). Inr (upd_inode ip (\<lambda>_. x) (fs\<lparr>fs_log := l\<rparr>)))) s3
                           else Inr s3) (\<lambda>s4.
                    rbind (in_fs (iunlock ip) s4) (end_ret (int fd)))))"

definition sys_open :: "sys \<Rightarrow> sysret" where
  "sys_open s =
    rbind (argint 1 s) (\<lambda>om.
    let omode = of_int om
    in rbind (argstr 0 MAXPATH s) (\<lambda>pth.
       case pth of None \<Rightarrow> ret (-1) s
       | Some pth \<Rightarrow>
         rbind (in_log begin_op s) (\<lambda>s1.
         if omode AND O_CREATE \<noteq> 0 then
           rbind (in_cwd pth (create pth T_FILE 0 0) s1) (\<lambda>(ip, s2).
           case ip of None \<Rightarrow> end_ret (-1) s2 | Some ip \<Rightarrow> open_inode omode ip s2)
         else
           rbind (lookup pth s1) (\<lambda>(ip, s2).
           case ip of None \<Rightarrow> end_ret (-1) s2
           | Some ip \<Rightarrow>
             rbind (in_fs (ilock ip) s2) (\<lambda>s3.
             if i_type (fsys s3) ip = T_DIR \<and> omode \<noteq> O_RDONLY then rbind (in_fs (iunlockput ip) s3) (end_ret (-1))
             else open_inode omode ip s3)))))"

text \<open>\<open>sys_mkdir\<close> and \<open>sys_mknod\<close> after \<open>begin_op\<close>.\<close>

definition make_node :: "uint16 \<Rightarrow> uint16 \<Rightarrow> uint16 \<Rightarrow> sys \<Rightarrow> sysret" where
  "make_node type major minor s =
    rbind (argstr 0 MAXPATH s) (\<lambda>pth.
    case pth of None \<Rightarrow> end_ret (-1) s
    | Some pth \<Rightarrow>
      rbind (in_cwd pth (create pth type major minor) s) (\<lambda>(ip, s1).
      case ip of None \<Rightarrow> end_ret (-1) s1
      | Some ip \<Rightarrow> rbind (in_fs (iunlockput ip) s1) (end_ret 0)))"

definition sys_mkdir :: "sys \<Rightarrow> sysret" where
  "sys_mkdir s = rbind (in_log begin_op s) (make_node T_DIR 0 0)"

definition sys_mknod :: "sys \<Rightarrow> sysret" where
  "sys_mknod s =
    rbind (in_log begin_op s) (\<lambda>s1.
    rbind (argint 1 s1) (\<lambda>major.
    rbind (argint 2 s1) (\<lambda>minor. make_node T_DEVICE (of_int major) (of_int minor) s1)))"

definition sys_chdir :: "sys \<Rightarrow> sysret" where
  "sys_chdir s =
    rbind (myproc s) (\<lambda>p.
    rbind (in_log begin_op s) (\<lambda>s1.
    rbind (argstr 0 MAXPATH s1) (\<lambda>pth.
    case pth of None \<Rightarrow> end_ret (-1) s1
    | Some pth \<Rightarrow>
      rbind (lookup pth s1) (\<lambda>(ip, s2).
      case ip of None \<Rightarrow> end_ret (-1) s2
      | Some ip \<Rightarrow>
        rbind (in_fs (ilock ip) s2) (\<lambda>s3.
        if i_type (fsys s3) ip \<noteq> T_DIR then rbind (in_fs (iunlockput ip) s3) (end_ret (-1))
        else rbind (in_fs (iunlock ip) s3) (\<lambda>s4.
          case p_cwd (procs s4 p) of None \<Rightarrow> Inl WildAccess
          | Some cwd \<Rightarrow>
            rbind (in_fs (iput cwd) s4) (\<lambda>s5.
            rbind (in_log end_op s5) (\<lambda>s6. ret 0 (upd_proc p (p_cwd_update (\<lambda>_. Some ip)) s6)))))))))"

section \<open>exec and pipe\<close>

text \<open>The loop of \<open>sys_exec\<close>: the pages \<open>argv[0..]\<close> and the strings in them, and whether the terminating null
  pointer was reached.\<close>

fun fetch_args :: "uint64 \<Rightarrow> nat list \<Rightarrow> (addr \<times> byte list) list \<Rightarrow> sys \<Rightarrow> (bool \<times> (addr \<times> byte list) list \<times> sys) result" where
  "fetch_args uargv [] argv s = Inr (False, argv, s)"
| "fetch_args uargv (i # is) argv s =
    rbind (fetchaddr (uargv + 8 * of_nat i) s) (\<lambda>uarg.
    case uarg of None \<Rightarrow> Inr (False, argv, s)
    | Some uarg \<Rightarrow>
      if uarg = 0 then Inr (True, argv, s)
      else rbind (in_memr kalloc s) (\<lambda>(pg, s1).
        if pg = 0 then Inr (False, argv, s1)
        else rbind (fetchstr uarg 4096 s1) (\<lambda>arg.
          case arg of None \<Rightarrow> Inr (False, argv @ [(pg, [])], s1)
          | Some arg \<Rightarrow> rbind (in_mem (memmove_in pg (arg @ [0])) s1) (fetch_args uargv is (argv @ [(pg, arg)])))))"

definition free_args :: "(addr \<times> byte list) list \<Rightarrow> sys \<Rightarrow> sys result" where
  "free_args = rfold (\<lambda>a. in_mem (kfree (fst a)))"

definition sys_exec :: "sys \<Rightarrow> sysret" where
  "sys_exec s =
    rbind (argaddr 1 s) (\<lambda>uargv.
    rbind (argstr 0 MAXPATH s) (\<lambda>pth.
    case pth of None \<Rightarrow> ret (-1) s
    | Some pth \<Rightarrow>
      rbind (fetch_args uargv [0..<MAXARG] [] s) (\<lambda>(ok, argv, s1).
      if \<not> ok then rbind (free_args argv s1) (ret (-1))
      else rbind (exec pth (map snd argv) s1) (\<lambda>(r, s2). rbind (free_args argv s2) (ret r)))))"

definition sys_pipe :: "sys \<Rightarrow> sysret" where
  "sys_pipe s =
    rbind (myproc s) (\<lambda>p.
    rbind (argaddr 0 s) (\<lambda>fdarray.
    rbind (pipealloc s) (\<lambda>(fs, s1).
    case fs of None \<Rightarrow> ret (-1) s1
    | Some (rfile, wfile) \<Rightarrow>
      let close = (\<lambda>s. rbind (fileclose rfile s) (\<lambda>s. rbind (fileclose wfile s) (ret (-1))))
      in rbind (fdalloc rfile s1) (\<lambda>(fd0, s2).
         case fd0 of None \<Rightarrow> close s2
         | Some fd0 \<Rightarrow>
           rbind (fdalloc wfile s2) (\<lambda>(fd1, s3).
           case fd1 of None \<Rightarrow> close (set_ofile p fd0 None s3)
           | Some fd1 \<Rightarrow>
             let bad = (\<lambda>s. close (set_ofile p fd1 None (set_ofile p fd0 None s)))
             in rbind (in_memr (copyout (scause s3) (p_pagetable (procs s3 p)) fdarray (int_bytes (int fd0))) s3) (\<lambda>(r, s4).
                if r < 0 then bad s4
                else rbind (in_memr (copyout (scause s4) (p_pagetable (procs s4 p)) (fdarray + 4) (int_bytes (int fd1))) s4) (\<lambda>(r, s5).
                  if r < 0 then bad s5 else ret 0 s5)))))))"

end
