(* ===== verification/Virtio.thy ===== *)
theory Virtio
  imports Bio Kalloc Ring
begin

text \<open>The virtio disk driver (\<open>kernel/virtio_disk.c\<close>, \<open>kernel/virtio.h\<close>): descriptors, the available and the used
  ring, requests and interrupts.  \<open>virtio_disk_rw\<close> is its two pieces, from the start to the wait for the
  device and from there to the return; the buffer is its index in the cache.  The channels that are
  woken are collected in \<open>wakes\<close>, the device registers written in \<open>regs\<close>.  The device itself acts on the shared rings
  between these pieces.\<close>

section \<open>The code\<close>

definition NUM :: nat where "NUM = 8"
definition VRING_DESC_F_NEXT :: uint16 where "VRING_DESC_F_NEXT = 1"
definition VRING_DESC_F_WRITE :: uint16 where "VRING_DESC_F_WRITE = 2"
definition VIRTIO_BLK_T_IN :: uint where "VIRTIO_BLK_T_IN = 0"
definition VIRTIO_BLK_T_OUT :: uint where "VIRTIO_BLK_T_OUT = 1"

text \<open>The objects a descriptor points to: \<open>&disk.ops[i]\<close>, \<open>b->data\<close>, \<open>&disk.info[i].status\<close>.\<close>

datatype dma = NoDma | OpsDma nat | DataDma nat | StatusDma nat

record virtq_desc =
  d_addr :: dma
  d_len :: uint
  d_flags :: uint16
  d_next :: uint16

record virtio_blk_req =
  req_type :: uint
  req_reserved :: uint
  req_sector :: uint64

record disk_info =
  info_b :: "nat option"
  info_status :: byte

datatype disk_chan = FreeChan | BufChan nat

record vdisk =
  vdesc :: "virtq_desc list"
  avail_idx :: uint16
  avail_ring :: "uint16 list"
  used_id :: "uint list"
  used_end :: uint16
  vfree :: "bool list"
  used_idx :: uint16
  vinfo :: "disk_info list"
  vops :: "virtio_blk_req list"
  buf_disk :: "nat \<Rightarrow> bool"
  wakes :: "disk_chan list"
  regs :: "(nat \<times> uint) list"

definition no_desc :: virtq_desc where
  "no_desc = \<lparr>d_addr = NoDma, d_len = 0, d_flags = 0, d_next = 0\<rparr>"

definition wreg :: "nat \<Rightarrow> uint \<Rightarrow> vdisk \<Rightarrow> vdisk" where
  "wreg r v d = d\<lparr>regs := regs d @ [(r, v)]\<rparr>"

fun alloc_desc_loop :: "nat list \<Rightarrow> vdisk \<Rightarrow> nat option \<times> vdisk" where
  "alloc_desc_loop [] d = (None, d)"
| "alloc_desc_loop (i # is) d =
    (if vfree d ! i then (Some i, d\<lparr>vfree := (vfree d)[i := False]\<rparr>) else alloc_desc_loop is d)"

definition alloc_desc :: "vdisk \<Rightarrow> nat option \<times> vdisk" where
  "alloc_desc d = alloc_desc_loop [0..<NUM] d"

definition free_desc :: "nat \<Rightarrow> vdisk \<Rightarrow> vdisk result" where
  "free_desc i d =
    (if i \<ge> NUM then Inl (Panic ''free_desc 1'')
     else if vfree d ! i then Inl (Panic ''free_desc 2'')
     else Inr (d\<lparr>vdesc := (vdesc d)[i := no_desc], vfree := (vfree d)[i := True], wakes := wakes d @ [FreeChan]\<rparr>))"

text \<open>The loop of \<open>free_chain\<close> ends because every round marks a descriptor free that was not.\<close>

definition busy :: "vdisk \<Rightarrow> nat" where
  "busy d = length (filter (\<lambda>i. \<not> vfree d ! i) [0..<NUM])"

lemma free_desc_busy:
  assumes "free_desc i d = Inr d'" "i < length (vfree d)"
  shows "busy d' < busy d"
proof -
  have i: "i < NUM" "\<not> vfree d ! i" and d': "vfree d' = (vfree d)[i := True]"
    using assms by (auto simp: free_desc_def split: if_splits)
  have "set (filter (\<lambda>j. \<not> vfree d' ! j) [0..<NUM]) \<subset> set (filter (\<lambda>j. \<not> vfree d ! j) [0..<NUM])"
    using i d' assms(2) by (auto simp: nth_list_update split: if_splits)
  then have "card (set (filter (\<lambda>j. \<not> vfree d' ! j) [0..<NUM])) < card (set (filter (\<lambda>j. \<not> vfree d ! j) [0..<NUM]))"
    by (intro psubset_card_mono) auto
  then show ?thesis unfolding busy_def by (metis distinct_card distinct_filter distinct_upt)
qed

function free_chain :: "nat \<Rightarrow> vdisk \<Rightarrow> vdisk result" where
  "free_chain i d =
    (if i \<ge> length (vdesc d) \<or> i \<ge> length (vfree d) then Inl (Panic ''free_desc 1'')
     else
       let flag = d_flags (vdesc d ! i); nxt = d_next (vdesc d ! i)
       in case free_desc i d of
            Inl e \<Rightarrow> Inl e
          | Inr d1 \<Rightarrow> if flag AND VRING_DESC_F_NEXT \<noteq> 0 then free_chain (unat nxt) d1 else Inr d1)"
  by pat_completeness auto
termination
  by (relation "measure (\<lambda>(_, d). busy d)") (auto dest: free_desc_busy)

declare free_chain.simps [simp del]

text \<open>\<open>alloc3_desc\<close>: the three indices, or \<open>None\<close> with what was allocated freed again.\<close>

primrec alloc_n :: "nat \<Rightarrow> nat list \<Rightarrow> vdisk \<Rightarrow> (nat list option \<times> vdisk) result" where
  "alloc_n 0 idx d = Inr (Some idx, d)"
| "alloc_n (Suc n) idx d =
    (case alloc_desc d of
       (Some i, d1) \<Rightarrow> alloc_n n (idx @ [i]) d1
     | (None, d1) \<Rightarrow> rbind (rfold free_desc idx d1) (\<lambda>d2. Inr (None, d2)))"

definition alloc3_desc :: "vdisk \<Rightarrow> (nat list option \<times> vdisk) result" where
  "alloc3_desc d = alloc_n 3 [] d"

text \<open>Formatting the three descriptors and notifying the device.\<close>

definition format_req :: "nat \<Rightarrow> uint \<Rightarrow> bool \<Rightarrow> nat \<Rightarrow> nat \<Rightarrow> nat \<Rightarrow> vdisk \<Rightarrow> vdisk" where
  "format_req b blockno is_write i0 i1 i2 d =
    (let sector = ucast (blockno * of_nat (BSIZE div 512));
         buf0 = \<lparr>req_type = (if is_write then VIRTIO_BLK_T_OUT else VIRTIO_BLK_T_IN), req_reserved = 0, req_sector = sector\<rparr>;
         d0 = \<lparr>d_addr = OpsDma i0, d_len = 16, d_flags = VRING_DESC_F_NEXT, d_next = of_nat i1\<rparr>;
         d1 = \<lparr>d_addr = DataDma b, d_len = of_nat BSIZE, d_flags = (if is_write then 0 else VRING_DESC_F_WRITE) OR VRING_DESC_F_NEXT, d_next = of_nat i2\<rparr>;
         d2 = \<lparr>d_addr = StatusDma i0, d_len = 1, d_flags = VRING_DESC_F_WRITE, d_next = 0\<rparr>
     in d\<lparr>vops := (vops d)[i0 := buf0], vdesc := (vdesc d)[i0 := d0, i1 := d1, i2 := d2],
          vinfo := (vinfo d)[i0 := \<lparr>info_b = Some b, info_status = 0xff\<rparr>], buf_disk := (buf_disk d)(b := True)\<rparr>)"

definition VIRTIO_MMIO_QUEUE_NOTIFY :: nat where "VIRTIO_MMIO_QUEUE_NOTIFY = 0x050"

definition notify :: "nat \<Rightarrow> vdisk \<Rightarrow> vdisk" where
  "notify i0 d =
    wreg VIRTIO_MMIO_QUEUE_NOTIFY 0
      (d\<lparr>avail_ring := (avail_ring d)[unat (avail_idx d) mod NUM := of_nat i0], avail_idx := avail_idx d + 1\<rparr>)"

text \<open>\<open>virtio_disk_rw\<close> up to the wait for the device: the head of the chain.\<close>

definition virtio_disk_submit :: "nat \<Rightarrow> uint \<Rightarrow> bool \<Rightarrow> vdisk \<Rightarrow> (nat \<times> vdisk) result" where
  "virtio_disk_submit b blockno is_write d =
    rbind (alloc3_desc d) (\<lambda>(idx, d1).
    case idx of Some [i0, i1, i2] \<Rightarrow> Inr (i0, notify i0 (format_req b blockno is_write i0 i1 i2 d1))
    | _ \<Rightarrow> Inl Sleep)"

text \<open>\<open>virtio_disk_rw\<close> from waking up in the wait for the device.\<close>

definition virtio_disk_finish :: "nat \<Rightarrow> nat \<Rightarrow> vdisk \<Rightarrow> vdisk result" where
  "virtio_disk_finish b i0 d =
    (if buf_disk d b then Inl Sleep
     else free_chain i0 (d\<lparr>vinfo := (vinfo d)[i0 := (vinfo d ! i0)\<lparr>info_b := None\<rparr>]\<rparr>))"

definition VIRTIO_MMIO_INTERRUPT_STATUS :: nat where "VIRTIO_MMIO_INTERRUPT_STATUS = 0x060"
definition VIRTIO_MMIO_INTERRUPT_ACK :: nat where "VIRTIO_MMIO_INTERRUPT_ACK = 0x064"

text \<open>The loop of \<open>virtio_disk_intr\<close>; an index outside \<open>disk.info\<close> or a null buffer is a wild access.\<close>

function disk_intr_loop :: "vdisk \<Rightarrow> vdisk result" where
  "disk_intr_loop d =
    (if used_idx d = used_end d then Inr d
     else
       let id = unat (used_id d ! (unat (used_idx d) mod NUM))
       in if id \<ge> NUM then Inl WildAccess
          else if info_status (vinfo d ! id) \<noteq> 0 then Inl (Panic ''virtio_disk_intr status'')
          else case info_b (vinfo d ! id) of
            None \<Rightarrow> Inl WildAccess
          | Some b \<Rightarrow> disk_intr_loop (d\<lparr>buf_disk := (buf_disk d)(b := False), wakes := wakes d @ [BufChan b], used_idx := used_idx d + 1\<rparr>))"
  by pat_completeness auto
termination
proof (relation "measure (\<lambda>d. unat (used_end d - used_idx d))", goal_cases)
  case (2 d id b)
  have "used_end d - used_idx d \<noteq> 0" using 2(1) by simp
  then have "unat (used_end d - used_idx d - 1) < unat (used_end d - used_idx d)"
    using unat_pred by fastforce
  then show ?case by (simp add: algebra_simps)
qed simp

declare disk_intr_loop.simps [simp del]

definition virtio_disk_intr :: "uint \<Rightarrow> vdisk \<Rightarrow> vdisk result" where
  "virtio_disk_intr status d = disk_intr_loop (wreg VIRTIO_MMIO_INTERRUPT_ACK (status AND 3) d)"

section \<open>Initialisation\<close>

text \<open>\<open>virtio_disk_init\<close>: \<open>R\<close> gives what the device registers read; each is read once.\<close>

definition VIRTIO_MMIO_MAGIC_VALUE :: nat where "VIRTIO_MMIO_MAGIC_VALUE = 0x000"
definition VIRTIO_MMIO_VERSION :: nat where "VIRTIO_MMIO_VERSION = 0x004"
definition VIRTIO_MMIO_DEVICE_ID :: nat where "VIRTIO_MMIO_DEVICE_ID = 0x008"
definition VIRTIO_MMIO_VENDOR_ID :: nat where "VIRTIO_MMIO_VENDOR_ID = 0x00c"
definition VIRTIO_MMIO_DEVICE_FEATURES :: nat where "VIRTIO_MMIO_DEVICE_FEATURES = 0x010"
definition VIRTIO_MMIO_DRIVER_FEATURES :: nat where "VIRTIO_MMIO_DRIVER_FEATURES = 0x020"
definition VIRTIO_MMIO_QUEUE_SEL :: nat where "VIRTIO_MMIO_QUEUE_SEL = 0x030"
definition VIRTIO_MMIO_QUEUE_NUM_MAX :: nat where "VIRTIO_MMIO_QUEUE_NUM_MAX = 0x034"
definition VIRTIO_MMIO_QUEUE_NUM :: nat where "VIRTIO_MMIO_QUEUE_NUM = 0x038"
definition VIRTIO_MMIO_QUEUE_READY :: nat where "VIRTIO_MMIO_QUEUE_READY = 0x044"
definition VIRTIO_MMIO_STATUS :: nat where "VIRTIO_MMIO_STATUS = 0x070"
definition VIRTIO_MMIO_QUEUE_DESC_LOW :: nat where "VIRTIO_MMIO_QUEUE_DESC_LOW = 0x080"
definition VIRTIO_MMIO_QUEUE_DESC_HIGH :: nat where "VIRTIO_MMIO_QUEUE_DESC_HIGH = 0x084"
definition VIRTIO_MMIO_DRIVER_DESC_LOW :: nat where "VIRTIO_MMIO_DRIVER_DESC_LOW = 0x090"
definition VIRTIO_MMIO_DRIVER_DESC_HIGH :: nat where "VIRTIO_MMIO_DRIVER_DESC_HIGH = 0x094"
definition VIRTIO_MMIO_DEVICE_DESC_LOW :: nat where "VIRTIO_MMIO_DEVICE_DESC_LOW = 0x0a0"
definition VIRTIO_MMIO_DEVICE_DESC_HIGH :: nat where "VIRTIO_MMIO_DEVICE_DESC_HIGH = 0x0a4"

definition driver_features :: "uint \<Rightarrow> uint" where
  "driver_features features = foldl (\<lambda>f i. f AND NOT (push_bit i 1)) features [5, 7, 11, 12, 27, 29, 28]"

text \<open>The three pages of the queue, zeroed.\<close>

definition queue_pages :: "kstate \<Rightarrow> ((addr \<times> addr \<times> addr) \<times> kstate) result" where
  "queue_pages s =
    rbind (kalloc s) (\<lambda>(p0, s1).
    rbind (kalloc s1) (\<lambda>(p1, s2).
    rbind (kalloc s2) (\<lambda>(p2, s3).
    if p0 = 0 \<or> p1 = 0 \<or> p2 = 0 then Inl (Panic ''virtio disk kalloc'')
    else rbind (memset_ram p0 0 4096 s3) (\<lambda>s4.
      rbind (memset_ram p1 0 4096 s4) (\<lambda>s5.
      rbind (memset_ram p2 0 4096 s5) (\<lambda>s6. Inr ((p0, p1, p2), s6)))))))"

definition zero_queue :: "vdisk \<Rightarrow> vdisk" where
  "zero_queue d = d\<lparr>vdesc := replicate NUM no_desc, avail_idx := 0, avail_ring := replicate NUM 0, used_id := replicate NUM 0, used_end := 0\<rparr>"

definition virtio_disk_init :: "(nat \<Rightarrow> uint) \<Rightarrow> vdisk \<Rightarrow> kstate \<Rightarrow> (vdisk \<times> kstate) result" where
  "virtio_disk_init R d s =
    (if R VIRTIO_MMIO_MAGIC_VALUE \<noteq> 0x74726976 \<or> R VIRTIO_MMIO_VERSION \<noteq> 2 \<or> R VIRTIO_MMIO_DEVICE_ID \<noteq> 2 \<or>
        R VIRTIO_MMIO_VENDOR_ID \<noteq> 0x554d4551 then Inl (Panic ''could not find virtio disk'')
     else
       let d1 = wreg VIRTIO_MMIO_STATUS 11 (wreg VIRTIO_MMIO_DRIVER_FEATURES (driver_features (R VIRTIO_MMIO_DEVICE_FEATURES))
             (wreg VIRTIO_MMIO_STATUS 3 (wreg VIRTIO_MMIO_STATUS 1 (wreg VIRTIO_MMIO_STATUS 0 d))));
           status = R VIRTIO_MMIO_STATUS
       in if status AND 8 = 0 then Inl (Panic ''virtio disk FEATURES_OK unset'')
          else
            let d2 = wreg VIRTIO_MMIO_QUEUE_SEL 0 d1
            in if R VIRTIO_MMIO_QUEUE_READY \<noteq> 0 then Inl (Panic ''virtio disk should not be ready'')
               else if R VIRTIO_MMIO_QUEUE_NUM_MAX = 0 then Inl (Panic ''virtio disk has no queue 0'')
               else if R VIRTIO_MMIO_QUEUE_NUM_MAX < of_nat NUM then Inl (Panic ''virtio disk max queue too short'')
               else rbind (queue_pages s) (\<lambda>((p0, p1, p2), s1).
                 let d3 = wreg VIRTIO_MMIO_QUEUE_NUM (of_nat NUM) (zero_queue d2);
                     d4 = wreg VIRTIO_MMIO_QUEUE_DESC_HIGH (ucast (drop_bit 32 p0)) (wreg VIRTIO_MMIO_QUEUE_DESC_LOW (ucast p0) d3);
                     d5 = wreg VIRTIO_MMIO_DRIVER_DESC_HIGH (ucast (drop_bit 32 p1)) (wreg VIRTIO_MMIO_DRIVER_DESC_LOW (ucast p1) d4);
                     d6 = wreg VIRTIO_MMIO_DEVICE_DESC_HIGH (ucast (drop_bit 32 p2)) (wreg VIRTIO_MMIO_DEVICE_DESC_LOW (ucast p2) d5);
                     d7 = wreg VIRTIO_MMIO_QUEUE_READY 1 d6;
                     d8 = d7\<lparr>vfree := replicate NUM True\<rparr>
                 in Inr (wreg VIRTIO_MMIO_STATUS (status OR 4) d8, s1)))"

end
