(* ===== verification/Trap.thy ===== *)
theory Trap
  imports Sysfile Virtio
begin

text \<open>Traps and start-up: the dispatch of system calls (\<open>syscall\<close> of \<open>kernel/syscall.c\<close>), \<open>kernel/trap.c\<close>,
  \<open>kernel/plic.c\<close>, \<open>kernel/start.c\<close> and \<open>kernel/main.c\<close>.  The control registers are fields of the state; what the devices
  and the timer give when read, and the link-time addresses, are in \<open>trap_env\<close>.\<close>

section \<open>System calls\<close>

text \<open>The table \<open>syscalls\<close>, by number; \<open>pad\<close> is stack padding, see \<open>stat_bytes\<close>.\<close>

definition syscalls :: "(sys \<Rightarrow> sys result) \<Rightarrow> nat \<Rightarrow> byte list \<Rightarrow> int \<Rightarrow> (sys \<Rightarrow> sysret) option" where
  "syscalls swtch k pad num =
    (if num = 1 then Some sys_fork
     else if num = 2 then Some (sys_exit swtch)
     else if num = 3 then Some (sys_wait swtch k)
     else if num = 4 then Some sys_pipe
     else if num = 5 then Some (sys_read swtch k)
     else if num = 6 then Some sys_kill
     else if num = 7 then Some sys_exec
     else if num = 8 then Some (sys_fstat pad)
     else if num = 9 then Some sys_chdir
     else if num = 10 then Some sys_dup
     else if num = 11 then Some sys_getpid
     else if num = 12 then Some sys_sbrk
     else if num = 13 then Some (sys_sleep swtch k)
     else if num = 14 then Some sys_uptime
     else if num = 15 then Some sys_open
     else if num = 16 then Some (sys_write swtch k)
     else if num = 17 then Some sys_mknod
     else if num = 18 then Some sys_unlink
     else if num = 19 then Some sys_link
     else if num = 20 then Some sys_mkdir
     else if num = 21 then Some sys_close
     else None)"

definition print :: "string \<Rightarrow> va_arg list \<Rightarrow> sys \<Rightarrow> sys result" where
  "print fmt ap s =
    rbind (printf (tx_idle s) (panicked s) (ascii fmt) ap (uart_st s, kcpu (kst s))) (\<lambda>(u, c). Inr (set_cpu c (s\<lparr>uart_st := u\<rparr>)))"

text \<open>Whether the call returned, and the state.\<close>

definition syscall :: "(sys \<Rightarrow> sys result) \<Rightarrow> nat \<Rightarrow> byte list \<Rightarrow> sys \<Rightarrow> (bool \<times> sys) result" where
  "syscall swtch k pad s =
    rbind (myproc s) (\<lambda>p.
    rbind (tf_get p (tf_a 7) s) (\<lambda>a7.
    let num = sint (ucast a7 :: uint)
    in case syscalls swtch k pad num of
         Some f \<Rightarrow>
           rbind (f s) (\<lambda>(r, s1).
           case r of None \<Rightarrow> Inr (False, s1)
           | Some v \<Rightarrow> rbind (tf_set p (tf_a 0) v s1) (\<lambda>s2. Inr (True, s2)))
       | None \<Rightarrow>
           rbind (print (''%d %s: unknown sys call %d'' @ [CHR 0x0A]) [VInt (p_pid (procs s p)),
             VStr (Some (takeWhile (\<lambda>c. c \<noteq> 0) (p_name (procs s p)))), VInt num] s) (\<lambda>s1.
           rbind (tf_set p (tf_a 0) (- 1) s1) (\<lambda>s2. Inr (True, s2)))))"

section \<open>Interrupts\<close>

definition UART0_IRQ :: nat where "UART0_IRQ = 10"
definition VIRTIO0_IRQ :: nat where "VIRTIO0_IRQ = 1"
definition PLIC_SENABLE :: "nat \<Rightarrow> addr" where "PLIC_SENABLE hart = PLIC + 0x2080 + of_nat hart * 0x100"
definition PLIC_SPRIORITY :: "nat \<Rightarrow> addr" where "PLIC_SPRIORITY hart = PLIC + 0x201000 + of_nat hart * 0x2000"
definition PLIC_SCLAIM :: "nat \<Rightarrow> addr" where "PLIC_SCLAIM hart = PLIC + 0x201004 + of_nat hart * 0x2000"
definition SSTATUS_SPP :: uint64 where "SSTATUS_SPP = 256"
definition SSTATUS_SPIE :: uint64 where "SSTATUS_SPIE = 32"
definition MAKE_SATP :: "addr \<Rightarrow> uint64" where "MAKE_SATP pagetable = push_bit 60 8 OR drop_bit 12 pagetable"

record trap_env =
  r_time :: uint64
  claimed :: "uint"
  uart_input :: "byte list"
  disk_status :: uint
  disk_regs :: "nat \<Rightarrow> uint"
  kernelvec :: uint64
  uservec :: uint64
  userret :: uint64
  usertrap_pc :: uint64
  etext :: addr

record trapst =
  tsys :: sys
  tdisk :: vdisk
  sstatus :: uint64
  sepc :: uint64
  stval :: uint64
  stvec :: uint64
  satp :: uint64
  stimecmp :: uint64
  plic_writes :: "(addr \<times> uint) list"
  kernel_pagetable :: addr
  started :: bool

definition on_sys :: "(sys \<Rightarrow> sys result) \<Rightarrow> trapst \<Rightarrow> trapst result" where
  "on_sys f t = rbind (f (tsys t)) (\<lambda>s. Inr (t\<lparr>tsys := s\<rparr>))"

definition hart :: "trapst \<Rightarrow> nat" where
  "hart t = cpuid (kcpu (kst (tsys t)))"

definition plic_write :: "addr \<Rightarrow> uint \<Rightarrow> trapst \<Rightarrow> trapst" where
  "plic_write a v t = t\<lparr>plic_writes := plic_writes t @ [(a, v)]\<rparr>"

definition plicinit :: "trapst \<Rightarrow> trapst" where
  "plicinit t = plic_write (PLIC + of_nat VIRTIO0_IRQ * 4) 1 (plic_write (PLIC + of_nat UART0_IRQ * 4) 1 t)"

definition plicinithart :: "trapst \<Rightarrow> trapst" where
  "plicinithart t =
    plic_write (PLIC_SPRIORITY (hart t)) 0 (plic_write (PLIC_SENABLE (hart t)) (push_bit UART0_IRQ 1 OR push_bit VIRTIO0_IRQ 1) t)"

definition plic_claim :: "trap_env \<Rightarrow> int" where
  "plic_claim env = sint (claimed env)"

definition plic_complete :: "int \<Rightarrow> trapst \<Rightarrow> trapst" where
  "plic_complete irq t = plic_write (PLIC_SCLAIM (hart t)) (of_int irq) t"

definition trapinit :: "trapst \<Rightarrow> trapst" where
  "trapinit t = t\<lparr>tsys := (tsys t)\<lparr>tickslock := initlock ''time''\<rparr>\<rparr>"

definition trapinithart :: "trap_env \<Rightarrow> trapst \<Rightarrow> trapst" where
  "trapinithart env t = t\<lparr>stvec := kernelvec env\<rparr>"

definition clockintr :: "trap_env \<Rightarrow> trapst \<Rightarrow> trapst result" where
  "clockintr env t =
    rbind (if hart t = 0 then
             on_sys (\<lambda>s.
               rbind (acquire_ticks s) (\<lambda>s1.
               rbind (wakeup (Some TicksChan) (s1\<lparr>ticks := ticks s1 + 1\<rparr>)) release_ticks)) t
           else Inr t) (\<lambda>t1.
    Inr (t1\<lparr>stimecmp := r_time env + 1000000\<rparr>))"

text \<open>The interrupt of the serial line: the console interrupt for each input character, then the output; with the
  wakeups of both (\<open>&cons.r\<close> is \<open>OtherChan 0\<close>, \<open>&uart_tx_r\<close> is \<open>OtherChan 1\<close>).\<close>

definition uart_intr :: "trap_env \<Rightarrow> sys \<Rightarrow> sys result" where
  "uart_intr env s =
    rbind (uartintr_in (consoleintr (tx_idle s) (panicked s) (procdump s)) (uart_input env) (cons_st s, uart_st s, kcpu (kst s)))
      (\<lambda>(cs, u, c).
      let (n, u1) = uartstart (tx_idle s) u;
          s1 = set_cpu c (s\<lparr>cons_st := cs, uart_st := u1\<rparr>)
      in rbind (rfold (\<lambda>_. wakeup (Some (OtherChan 0))) [0..<cons_wakeups cs - cons_wakeups (cons_st s)] s1)
           (rfold (\<lambda>_. wakeup (Some (OtherChan 1))) [0..<n]))"

text \<open>The interrupt of the disk; the channels of the driver are \<open>&disk.free[0]\<close> and the buffers.\<close>

fun disk_channel :: "disk_chan \<Rightarrow> chan" where
  "disk_channel FreeChan = OtherChan 2"
| "disk_channel (BufChan b) = OtherChan (3 + b)"

definition disk_intr :: "trap_env \<Rightarrow> trapst \<Rightarrow> trapst result" where
  "disk_intr env t =
    rbind (virtio_disk_intr (disk_status env) (tdisk t)) (\<lambda>d.
    on_sys (rfold (\<lambda>ch. wakeup (Some (disk_channel ch))) (drop (length (wakes (tdisk t))) (wakes d))) (t\<lparr>tdisk := d\<rparr>))"

definition devintr :: "trap_env \<Rightarrow> trapst \<Rightarrow> (int \<times> trapst) result" where
  "devintr env t =
    (if scause (tsys t) = 0x8000000000000009 then
       let irq = plic_claim env
       in rbind (if irq = int UART0_IRQ then on_sys (uart_intr env) t
                 else if irq = int VIRTIO0_IRQ then disk_intr env t
                 else if irq \<noteq> 0 then on_sys (print (''unexpected interrupt irq=%d'' @ [CHR 0x0A]) [VInt irq]) t
                 else Inr t) (\<lambda>t1.
          Inr (1, if irq \<noteq> 0 then plic_complete irq t1 else t1))
     else if scause (tsys t) = 0x8000000000000005 then rbind (clockintr env t) (\<lambda>t1. Inr (2, t1))
     else Inr (0, t))"

section \<open>User and kernel traps\<close>

text \<open>\<open>usertrapret\<close> up to the jump to \<open>userret\<close>: the state and the \<open>satp\<close> it passes.\<close>

definition usertrapret :: "trap_env \<Rightarrow> trapst \<Rightarrow> (uint64 \<times> trapst) result" where
  "usertrapret env t =
    rbind (myproc (tsys t)) (\<lambda>p.
    let t1 = t\<lparr>tsys := set_cpu ((kcpu (kst (tsys t)))\<lparr>intr := False\<rparr>) (tsys t), stvec := TRAMPOLINE + (uservec env - trampoline (tsys t))\<rparr>
    in rbind (on_sys (tf_set p 0 (satp t1)) t1) (\<lambda>t2.
       rbind (on_sys (tf_set p 8 (p_kstack (procs (tsys t2) p) + PGSIZE)) t2) (\<lambda>t3.
       rbind (on_sys (tf_set p 16 (usertrap_pc env)) t3) (\<lambda>t4.
       rbind (on_sys (tf_set p 32 (of_nat (hart t4))) t4) (\<lambda>t5.
       let x = (sstatus t5 AND NOT SSTATUS_SPP) OR SSTATUS_SPIE
       in rbind (tf_get p tf_epc (tsys t5)) (\<lambda>epc.
          Inr (MAKE_SATP (p_pagetable (procs (tsys t5) p)), t5\<lparr>sstatus := x, sepc := epc\<rparr>)))))))"

definition exit_if_killed :: "(sys \<Rightarrow> sys result) \<Rightarrow> nat \<Rightarrow> sys \<Rightarrow> sys result" where
  "exit_if_killed swtch p s = rbind (killed p s) (\<lambda>(k, s1). if k then exit swtch (-1) s1 else Inr s1)"

text \<open>The part of \<open>usertrap\<close> that handles the cause: which device, and whether a system call has returned.\<close>

definition fault_message :: "nat \<Rightarrow> sys \<Rightarrow> sys result" where
  "fault_message p s =
    print (''usertrap(): unexpected scause 0x%lx pid=%d'' @ [CHR 0x0A]) [VLong (scause s), VInt (p_pid (procs s p))] s"

definition usertrap_cause :: "trap_env \<Rightarrow> (sys \<Rightarrow> sys result) \<Rightarrow> nat \<Rightarrow> byte list \<Rightarrow> nat \<Rightarrow> trapst \<Rightarrow> (int \<times> bool \<times> trapst) result" where
  "usertrap_cause env swtch k pad p t =
    (if scause (tsys t) = 8 then
       rbind (on_sys (exit_if_killed swtch p) t) (\<lambda>t1.
       rbind (tf_get p tf_epc (tsys t1)) (\<lambda>epc.
       rbind (on_sys (tf_set p tf_epc (epc + 4)) t1) (\<lambda>t2.
       rbind (syscall swtch k pad (intr_on (tsys t2))) (\<lambda>(fin, s). Inr (0, fin, t2\<lparr>tsys := s\<rparr>)))))
     else rbind (devintr env t) (\<lambda>(which_dev, t1).
       if which_dev \<noteq> 0 then Inr (which_dev, True, t1)
       else if scause (tsys t1) = 15 then
         rbind (in_memr (cow_fault_handler (scause (tsys t1)) (p_pagetable (procs (tsys t1) p)) (stval t1)) (tsys t1)) (\<lambda>(r, s).
         if r = -1 then rbind (fault_message p s) (\<lambda>_. Inl (Panic ''cow1'')) else Inr (0, True, t1\<lparr>tsys := s\<rparr>))
       else rbind (fault_message p (tsys t1)) (\<lambda>_. Inl (Panic ''cow2''))))"

definition usertrap :: "trap_env \<Rightarrow> (sys \<Rightarrow> sys result) \<Rightarrow> nat \<Rightarrow> byte list \<Rightarrow> trapst \<Rightarrow> (uint64 option \<times> trapst) result" where
  "usertrap env swtch k pad t =
    (if sstatus t AND SSTATUS_SPP \<noteq> 0 then Inl (Panic ''usertrap: not from user mode'')
     else rbind (myproc (tsys t)) (\<lambda>p.
       rbind (on_sys (tf_set p tf_epc (sepc t)) (t\<lparr>stvec := kernelvec env\<rparr>)) (\<lambda>t1.
       rbind (usertrap_cause env swtch k pad p t1) (\<lambda>(which_dev, fin, t2).
       if \<not> fin then Inr (None, t2)
       else rbind (on_sys (exit_if_killed swtch p) t2) (\<lambda>t3.
         rbind (if which_dev = 2 then on_sys (yield swtch) t3 else Inr t3) (\<lambda>t4.
         rbind (usertrapret env t4) (\<lambda>(st, t5). Inr (Some st, t5))))))))"

definition kerneltrap :: "trap_env \<Rightarrow> (sys \<Rightarrow> sys result) \<Rightarrow> trapst \<Rightarrow> trapst result" where
  "kerneltrap env swtch t =
    (if sstatus t AND SSTATUS_SPP = 0 then Inl (Panic ''kerneltrap: not from supervisor mode'')
     else if intr (kcpu (kst (tsys t))) then Inl (Panic ''kerneltrap: interrupts enabled'')
     else rbind (devintr env t) (\<lambda>(which_dev, t1).
       if which_dev = 0 then
         rbind (print (''scause=0x%lx sepc=0x%lx stval=0x%lx'' @ [CHR 0x0A]) [VLong (scause (tsys t)), VLong (sepc t1), VLong (stval t1)] (tsys t1))
           (\<lambda>_. Inl (Panic ''kerneltrap''))
       else rbind (if which_dev = 2 \<and> cur (tsys t1) \<noteq> None then on_sys (yield swtch) t1 else Inr t1) (\<lambda>t2.
         Inr (t2\<lparr>sepc := sepc t, sstatus := sstatus t\<rparr>))))"

section \<open>Start-up\<close>

definition kvminit :: "trap_env \<Rightarrow> trapst \<Rightarrow> trapst result" where
  "kvminit env t =
    rbind (in_memr (kvmmake (etext env) (trampoline (tsys t))) (tsys t)) (\<lambda>(pt, s). Inr (t\<lparr>tsys := s, kernel_pagetable := pt\<rparr>))"

definition kvminithart :: "trapst \<Rightarrow> trapst" where
  "kvminithart t = t\<lparr>satp := MAKE_SATP (kernel_pagetable t)\<rparr>"

definition consoleinit :: "trapst \<Rightarrow> trapst" where
  "consoleinit t = t\<lparr>tsys := (tsys t)\<lparr>uart_st := uartinit (uart_st (tsys t))\<rparr>\<rparr>"

definition init_fs :: "sys \<Rightarrow> sys" where
  "init_fs s =
    (let fs = fsys s; l = fs_log fs
     in s\<lparr>fsys := fs\<lparr>fs_log := l\<lparr>bc := binit (bc l)\<rparr>, itable := iinit (itable fs)\<rparr>\<rparr>)"

definition init_disk :: "trap_env \<Rightarrow> trapst \<Rightarrow> trapst result" where
  "init_disk env t =
    rbind (virtio_disk_init (disk_regs env) (tdisk t) (kst (tsys t))) (\<lambda>(d, ks). Inr (t\<lparr>tdisk := d, tsys := (tsys t)\<lparr>kst := ks\<rparr>\<rparr>))"

text \<open>\<open>main\<close> up to the call of \<open>scheduler\<close>; other harts spin until \<open>started\<close>.\<close>

definition main :: "trap_env \<Rightarrow> trapst \<Rightarrow> trapst result" where
  "main env t =
    (if hart t = 0 then
       rbind (on_sys (print [CHR 0x0A] []) (consoleinit t)) (\<lambda>t1.
       rbind (on_sys (print (''xv6 kernel is booting'' @ [CHR 0x0A]) []) t1) (\<lambda>t2.
       rbind (on_sys (print [CHR 0x0A] []) t2) (\<lambda>t3.
       rbind (on_sys (in_mem kinit) t3) (\<lambda>t4.
       rbind (kvminit env t4) (\<lambda>t5.
       let t6 = kvminithart t5;
           t7 = trapinithart env (trapinit (t6\<lparr>tsys := procinit (tsys t6)\<rparr>));
           t8 = plicinithart (plicinit t7);
           t9 = t8\<lparr>tsys := init_fs (tsys t8)\<rparr>
       in rbind (init_disk env t9) (\<lambda>t10.
          rbind (on_sys userinit t10) (\<lambda>t11. Inr (t11\<lparr>started := True\<rparr>))))))))
     else if \<not> started t then Inl Spin
     else rbind (on_sys (print (''hart %d starting'' @ [CHR 0x0A]) [VInt (int (hart t))]) t) (\<lambda>t1.
       Inr (plicinithart (trapinithart env (kvminithart t1)))))"

text \<open>\<open>start\<close> and \<open>timerinit\<close>, on the machine-mode registers.\<close>

record mregs =
  mstatus :: uint64
  mepc :: uint64
  m_satp :: uint64
  medeleg :: uint64
  mideleg :: uint64
  sie :: uint64
  pmpaddr0 :: uint64
  pmpcfg0 :: uint64
  mie :: uint64
  menvcfg :: uint64
  mcounteren :: uint64
  m_stimecmp :: uint64
  tp :: uint64

definition timerinit :: "uint64 \<Rightarrow> mregs \<Rightarrow> mregs" where
  "timerinit time m = m\<lparr>mie := mie m OR 32, menvcfg := menvcfg m OR push_bit 63 1, mcounteren := mcounteren m OR 2, m_stimecmp := time + 1000000\<rparr>"

text \<open>\<open>start\<close> up to \<open>mret\<close>, which continues at \<open>mepc\<close> in the mode of the two \<open>MPP\<close> bits of \<open>mstatus\<close>.\<close>

definition start :: "uint64 \<Rightarrow> uint64 \<Rightarrow> uint64 \<Rightarrow> mregs \<Rightarrow> mregs" where
  "start main_pc mhartid time m =
    (let m1 = m\<lparr>mstatus := (mstatus m AND NOT (push_bit 11 3)) OR push_bit 11 1, mepc := main_pc, m_satp := 0, medeleg := 0xffff,
           mideleg := 0xffff, sie := sie m OR push_bit 9 1 OR push_bit 5 1 OR push_bit 1 1, pmpaddr0 := 0x3fffffffffffff, pmpcfg0 := 0xf\<rparr>
     in (timerinit time m1)\<lparr>tp := of_int (sint (ucast mhartid :: uint))\<rparr>)"

end
