(* ===== verification/Pathname.thy ===== *)
theory Pathname
  imports Dir
begin

section \<open>Path components\<close>

text \<open>The names \<open>namex\<close> looks up one after the other, as \<open>skipelem\<close> leaves them in the array \<open>name\<close>; and the
  reference: split at every slash, drop the empty parts, cut each to \<open>DIRSIZ\<close> bytes.\<close>

function path_names :: "byte list \<Rightarrow> byte list \<Rightarrow> byte list list" where
  "path_names pth name = (case skipelem pth name of None \<Rightarrow> [] | Some (pth1, name1) \<Rightarrow> cname name1 # path_names pth1 name1)"
  by pat_completeness auto
termination
  by (relation "measure (\<lambda>(pth, _). length pth)") (auto dest: skipelem_shorter)

declare path_names.simps [simp del]

fun split_slash :: "byte list \<Rightarrow> byte list list" where
  "split_slash [] = [[]]"
| "split_slash (c # cs) =
    (if c = 47 then [] # split_slash cs else (case split_slash cs of [] \<Rightarrow> [[c]] | w # ws \<Rightarrow> (c # w) # ws))"

definition components :: "byte list \<Rightarrow> byte list list" where
  "components pth = filter (\<lambda>w. w \<noteq> []) (split_slash pth)"

lemma split_slash_take: "split_slash cs \<noteq> [] \<and> hd (split_slash cs) = takeWhile (\<lambda>c. c \<noteq> 47) cs"
  by (induction cs) (auto split: list.splits)

lemma split_slash_rest:
  "tl (split_slash cs) = (case dropWhile (\<lambda>c. c \<noteq> 47) cs of [] \<Rightarrow> [] | _ # r \<Rightarrow> split_slash r)"
proof (induction cs)
  case (Cons a cs)
  obtain w ws where w: "split_slash cs = w # ws" using split_slash_take [of cs] by (cases "split_slash cs") auto
  show ?case using Cons.IH w by (cases "a = 47") simp_all
qed simp

lemma components_skip: "components (dropWhile (\<lambda>c. c = 47) cs) = components cs"
  by (induction cs) (auto simp: components_def)

lemma components_Cons:
  assumes "cs \<noteq> []" "hd cs \<noteq> 47"
  shows "components cs = takeWhile (\<lambda>c. c \<noteq> 47) cs # components (dropWhile (\<lambda>c. c \<noteq> 47) cs)"
proof -
  have "filter (\<lambda>w. w \<noteq> []) (tl (split_slash cs)) = components (dropWhile (\<lambda>c. c \<noteq> 47) cs)"
  proof (cases "dropWhile (\<lambda>c. c \<noteq> 47) cs")
    case Nil
    show ?thesis unfolding split_slash_rest components_def Nil by simp
  next
    case (Cons x r)
    then have "x = 47" using hd_dropWhile [of "\<lambda>c. c \<noteq> 47" cs] by simp
    then show ?thesis using Cons by (simp add: split_slash_rest components_def)
  qed
  moreover have "takeWhile (\<lambda>c. c \<noteq> 47) cs \<noteq> []" using assms by (cases cs) auto
  ultimately show ?thesis
    using split_slash_take [of cs] by (cases "split_slash cs") (simp_all add: components_def)
qed

lemma skipelem_cases:
  assumes "length name = DIRSIZ" "0 \<notin> set pth"
  shows "case skipelem pth name of None \<Rightarrow> components pth = []
    | Some (pth1, name1) \<Rightarrow> length name1 = DIRSIZ \<and> 0 \<notin> set pth1 \<and>
        components pth = (takeWhile (\<lambda>c. c \<noteq> 47) (dropWhile (\<lambda>c. c = 47) pth)) # components pth1 \<and>
        cname name1 = take DIRSIZ (takeWhile (\<lambda>c. c \<noteq> 47) (dropWhile (\<lambda>c. c = 47) pth))"
proof (cases "dropWhile (\<lambda>c. c = 47) pth = []")
  case True
  then have "skipelem pth name = None" by (simp add: skipelem_def)
  moreover have "components pth = []" using components_skip [of pth] True by (simp add: components_def)
  ultimately show ?thesis by simp
next
  case False
  define p where "p = dropWhile (\<lambda>c. c = 47) pth"
  define s where "s = takeWhile (\<lambda>c. c \<noteq> 47) p"
  define q where "q = dropWhile (\<lambda>c. c = 47) (dropWhile (\<lambda>c. c \<noteq> 47) p)"
  define n where "n = (if length s \<ge> DIRSIZ then take DIRSIZ s @ drop DIRSIZ name else s @ [0] @ drop (length s + 1) name)"
  have sk: "skipelem pth name = Some (q, n)"
    using False by (simp add: skipelem_def Let_def p_def s_def q_def n_def)
  have sub: "set p \<subseteq> set pth" "set q \<subseteq> set p" "set s \<subseteq> set p"
    by (auto simp: p_def q_def s_def dest: set_takeWhileD set_dropWhileD)
  have z: "\<forall>c \<in> set s. c \<noteq> 0" "0 \<notin> set q" using sub assms(2) by auto
  have "hd p \<noteq> 47" using hd_dropWhile False unfolding p_def by blast
  then have "components pth = s # components q"
    using components_Cons [of p] False components_skip [of pth] components_skip [of "dropWhile (\<lambda>c. c \<noteq> 47) p"]
    by (simp add: p_def s_def q_def)
  moreover have "length n = DIRSIZ" using assms(1) by (auto simp: n_def)
  moreover have "cname n = take DIRSIZ s"
  proof -
    have t: "takeWhile (\<lambda>c. c \<noteq> 0) (take DIRSIZ s) = take DIRSIZ s"
      using z(1) by (auto simp: takeWhile_eq_all_conv dest: in_set_takeD)
    have "takeWhile (\<lambda>c. c \<noteq> 0) (s @ 0 # r) = s" for r using z(1) by (simp add: takeWhile_append2)
    then show ?thesis using t by (auto simp: cname_def n_def assms(1))
  qed
  ultimately show ?thesis using sk z(2) by (simp add: s_def p_def)
qed

text \<open>C30: Walking a path with \<open>skipelem\<close> visits exactly its components: the successive contents of \<open>name\<close> are the
  non-empty parts between slashes, in order, each cut to \<open>DIRSIZ\<close> bytes, whatever was in \<open>name\<close> before.\<close>

theorem skipelem_components:
  assumes "length name = DIRSIZ" "0 \<notin> set pth"
  shows "path_names pth name = map (take DIRSIZ) (components pth)"
  using assms
proof (induction pth name rule: path_names.induct)
  case (1 pth name)
  show ?case
  proof (cases "skipelem pth name")
    case None
    then show ?thesis using skipelem_cases [OF 1(2,3)] by (simp add: path_names.simps)
  next
    case (Some r)
    obtain p n where r: "r = (p, n)" by (cases r)
    show ?thesis
      using skipelem_cases [OF 1(2,3)] 1(1) [OF Some r [symmetric]] Some r by (subst path_names.simps) simp
  qed
qed

theorem skipelem_components_witness:
  "path_names [47, 97, 47, 47, 98, 99, 47] (replicate 14 7) = [[97], [98, 99]]"
  using skipelem_components [of "replicate 14 7" "[47, 97, 47, 47, 98, 99, 47]"]
  by (simp add: DIRSIZ_def components_def)

end
