(* ===== verification/Disk.thy ===== *)
theory Disk
  imports Virtio
begin

text \<open>The disk driver as a system of steps: requests are submitted, the device completes them in any order, the
  interrupt handler acknowledges completions, and the waiting process finishes its request.\<close>

section \<open>Descriptors and requests\<close>

text \<open>A request in flight: its buffer and the three descriptors of its chain.\<close>

type_synonym disk_req = "nat \<times> nat \<times> nat \<times> nat"

fun req_buf :: "disk_req \<Rightarrow> nat" where "req_buf (b, i0, i1, i2) = b"
fun req_head :: "disk_req \<Rightarrow> nat" where "req_head (b, i0, i1, i2) = i0"
fun req_descs :: "disk_req \<Rightarrow> nat list" where "req_descs (b, i0, i1, i2) = [i0, i1, i2]"

definition owned :: "disk_req list \<Rightarrow> nat list" where
  "owned rs = concat (map req_descs rs)"

definition sizes :: "vdisk \<Rightarrow> bool" where
  "sizes d \<longleftrightarrow> length (vdesc d) = NUM \<and> length (vfree d) = NUM \<and> length (vinfo d) = NUM \<and> length (used_id d) = NUM"

fun chained :: "vdisk \<Rightarrow> disk_req \<Rightarrow> bool" where
  "chained d (b, i0, i1, i2) \<longleftrightarrow> i0 < NUM \<and> i1 < NUM \<and> i2 < NUM \<and>
    d_flags (vdesc d ! i0) AND VRING_DESC_F_NEXT \<noteq> 0 \<and> unat (d_next (vdesc d ! i0)) = i1 \<and>
    d_flags (vdesc d ! i1) AND VRING_DESC_F_NEXT \<noteq> 0 \<and> unat (d_next (vdesc d ! i1)) = i2 \<and>
    d_flags (vdesc d ! i2) AND VRING_DESC_F_NEXT = 0 \<and> info_b (vinfo d ! i0) = Some b"

text \<open>Completions the interrupt handler has not seen yet, as heads of chains.\<close>

definition pending :: "vdisk \<Rightarrow> nat list" where
  "pending d = map unat (ring_span (used_id d) (used_idx d) (used_end d))"

definition vd_inv :: "vdisk \<Rightarrow> disk_req list \<Rightarrow> nat set \<Rightarrow> bool" where
  "vd_inv d rs D \<longleftrightarrow> sizes d \<and> distinct (owned rs) \<and> distinct (map req_buf rs) \<and>
    (\<forall>i < NUM. vfree d ! i \<longleftrightarrow> i \<notin> set (owned rs)) \<and> (\<forall>r \<in> set rs. chained d r) \<and> distinct (pending d) \<and>
    (\<forall>i \<in> set (pending d). info_status (vinfo d ! i) = 0 \<and> (\<exists>r \<in> set rs. req_head r = i \<and> buf_disk d (req_buf r) \<and> req_buf r \<in> D)) \<and>
    (\<forall>r \<in> set rs. \<not> buf_disk d (req_buf r) \<longrightarrow> req_buf r \<in> D)"

text \<open>The device completes the request with head \<open>i0\<close>: it writes the status and adds to the used ring.\<close>

definition device_done :: "nat \<Rightarrow> vdisk \<Rightarrow> vdisk" where
  "device_done i0 d = d\<lparr>vinfo := (vinfo d)[i0 := (vinfo d ! i0)\<lparr>info_status := 0\<rparr>],
    used_id := ring_set (used_id d) (used_end d) (of_nat i0), used_end := used_end d + 1\<rparr>"

text \<open>Reachable states, with the requests in flight and the buffers whose transfer the device has completed.\<close>

inductive vd_reach :: "vdisk \<Rightarrow> disk_req list \<Rightarrow> nat set \<Rightarrow> bool" where
  init: "sizes d \<Longrightarrow> vfree d = replicate NUM True \<Longrightarrow> used_idx d = used_end d \<Longrightarrow> vd_reach d [] {}"
| submit: "vd_reach d rs D \<Longrightarrow> b \<notin> req_buf ` set rs \<Longrightarrow> virtio_disk_submit b blockno is_write d = Inr (i0, d') \<Longrightarrow>
    i1 = unat (d_next (vdesc d' ! i0)) \<Longrightarrow> i2 = unat (d_next (vdesc d' ! i1)) \<Longrightarrow> vd_reach d' (rs @ [(b, i0, i1, i2)]) (D - {b})"
| device: "vd_reach d rs D \<Longrightarrow> r \<in> set rs \<Longrightarrow> req_buf r \<notin> D \<Longrightarrow> vd_reach (device_done (req_head r) d) rs (insert (req_buf r) D)"
| interrupt: "vd_reach d rs D \<Longrightarrow> virtio_disk_intr status d = Inr d' \<Longrightarrow> vd_reach d' rs D"
| finish: "vd_reach d rs D \<Longrightarrow> r \<in> set rs \<Longrightarrow> virtio_disk_finish (req_buf r) (req_head r) d = Inr d' \<Longrightarrow> vd_reach d' (remove1 r rs) D"

section \<open>Allocating descriptors\<close>

definition free_set :: "vdisk \<Rightarrow> nat set" where
  "free_set d = {i. i < NUM \<and> vfree d ! i}"

lemma finite_free_set [simp]: "finite (free_set d)"
  by (simp add: free_set_def)

lemma alloc_desc_loop_eq:
  "alloc_desc_loop is d = (case find (\<lambda>i. vfree d ! i) is of None \<Rightarrow> (None, d) | Some i \<Rightarrow> (Some i, d\<lparr>vfree := (vfree d)[i := False]\<rparr>))"
  by (induction "is") auto

lemma alloc_desc_cases:
  assumes "sizes d"
  obtains "free_set d = {}" "alloc_desc d = (None, d)"
  | i where "i \<in> free_set d" "alloc_desc d = (Some i, d\<lparr>vfree := (vfree d)[i := False]\<rparr>)" "free_set (d\<lparr>vfree := (vfree d)[i := False]\<rparr>) = free_set d - {i}"
proof (cases "find (\<lambda>i. vfree d ! i) [0..<NUM]")
  case None
  then have "free_set d = {}" by (auto simp: find_None_iff free_set_def)
  then show ?thesis using None that(1) by (simp add: alloc_desc_def alloc_desc_loop_eq)
next
  case (Some i)
  then have i: "i \<in> free_set d" by (auto simp: find_Some_iff free_set_def)
  moreover have "free_set (d\<lparr>vfree := (vfree d)[i := False]\<rparr>) = free_set d - {i}"
    using assms i by (auto simp: free_set_def sizes_def nth_list_update split: if_splits)
  ultimately show ?thesis using Some that(2) by (simp add: alloc_desc_def alloc_desc_loop_eq)
qed

lemma free_desc_ok:
  assumes "i < NUM" "\<not> vfree d ! i"
  shows "free_desc i d = Inr (d\<lparr>vdesc := (vdesc d)[i := no_desc], vfree := (vfree d)[i := True], wakes := wakes d @ [FreeChan]\<rparr>)"
  using assms by (simp add: free_desc_def)

lemma free_descs_ok:
  assumes "sizes d" "distinct idx" "\<forall>i \<in> set idx. i < NUM \<and> i \<notin> free_set d"
  shows "\<exists>d'. rfold free_desc idx d = Inr d'"
  using assms
proof (induction idx arbitrary: d)
  case (Cons i idx)
  let ?d = "d\<lparr>vdesc := (vdesc d)[i := no_desc], vfree := (vfree d)[i := True], wakes := wakes d @ [FreeChan]\<rparr>"
  have i: "i < NUM" "\<not> vfree d ! i" using Cons.prems by (auto simp: free_set_def)
  have "free_set ?d = insert i (free_set d)"
    using i Cons.prems(1) by (auto simp: free_set_def sizes_def nth_list_update split: if_splits)
  then have "\<exists>d'. rfold free_desc idx ?d = Inr d'" using Cons.prems by (intro Cons.IH) (auto simp: sizes_def)
  then show ?case using free_desc_ok [OF i] by simp
qed simp

lemma alloc_n_ok:
  assumes "sizes d" "distinct idx" "\<forall>i \<in> set idx. i < NUM \<and> i \<notin> free_set d"
  shows "if n \<le> card (free_set d)
    then \<exists>js v. alloc_n n idx d = Inr (Some (idx @ js), d\<lparr>vfree := v\<rparr>) \<and> length js = n \<and> distinct js \<and> set js \<subseteq> free_set d \<and>
      length v = NUM \<and> free_set (d\<lparr>vfree := v\<rparr>) = free_set d - set js
    else \<exists>d'. alloc_n n idx d = Inr (None, d')"
  using assms
proof (induction n arbitrary: idx d)
  case 0
  have "d = d\<lparr>vfree := vfree d\<rparr>" by simp
  then show ?case using 0 by (auto simp: sizes_def intro!: exI [of _ "vfree d"])
next
  case (Suc n)
  show ?case
  proof (rule alloc_desc_cases [OF Suc.prems(1)])
    assume "free_set d = {}" "alloc_desc d = (None, d)"
    then show ?thesis using free_descs_ok [OF Suc.prems] by auto
  next
    fix i let ?d = "d\<lparr>vfree := (vfree d)[i := False]\<rparr>"
    assume i: "i \<in> free_set d" "alloc_desc d = (Some i, ?d)" "free_set ?d = free_set d - {i}"
    have a: "alloc_n (Suc n) idx d = alloc_n n (idx @ [i]) ?d" using i(2) by simp
    have "distinct (idx @ [i])" "\<forall>j \<in> set (idx @ [i]). j < NUM \<and> j \<notin> free_set ?d" "sizes ?d"
      using Suc.prems i by (auto simp: sizes_def free_set_def)
    note IH = Suc.IH [OF this(3,1,2)]
    have c: "Suc n \<le> card (free_set d) \<longleftrightarrow> n \<le> card (free_set ?d)"
    proof -
      have "0 < card (free_set d)" using i(1) by (auto simp: card_gt_0_iff)
      then show ?thesis unfolding i(3) using i(1) by (simp add: card_Diff_singleton) arith
    qed
    show ?thesis
    proof (cases "n \<le> card (free_set ?d)")
      case True
      then obtain js v where js: "alloc_n n (idx @ [i]) ?d = Inr (Some ((idx @ [i]) @ js), ?d\<lparr>vfree := v\<rparr>)" "length js = n" "distinct js"
        "set js \<subseteq> free_set ?d" "length v = NUM" "free_set (?d\<lparr>vfree := v\<rparr>) = free_set ?d - set js"
        using IH by auto
      have "alloc_n (Suc n) idx d = Inr (Some (idx @ i # js), d\<lparr>vfree := v\<rparr>) \<and> length (i # js) = Suc n \<and> distinct (i # js) \<and>
        set (i # js) \<subseteq> free_set d \<and> length v = NUM \<and> free_set (d\<lparr>vfree := v\<rparr>) = free_set d - set (i # js)"
        using a js i by auto
      then show ?thesis using True c by (simp only: if_True) blast
    next
      case False
      then show ?thesis using IH a c by simp
    qed
  qed
qed

section \<open>Submitting\<close>

lemma chained_frame:
  assumes "chained d r" "\<And>i. i \<in> set (req_descs r) \<Longrightarrow> vdesc d' ! i = vdesc d ! i"
    and "info_b (vinfo d' ! req_head r) = info_b (vinfo d ! req_head r)"
  shows "chained d' r"
  using assms by (cases r) simp

lemma head_in_descs [simp]: "req_head r \<in> set (req_descs r)"
  by (cases r) simp

lemma descs_owned: "r \<in> set rs \<Longrightarrow> i \<in> set (req_descs r) \<Longrightarrow> i \<in> set (owned rs)"
  by (auto simp: owned_def)

lemma owned_append [simp]: "owned (rs @ ss) = owned rs @ owned ss"
  by (simp add: owned_def)

lemma owned_Cons [simp]: "owned (r # rs) = req_descs r @ owned rs"
  by (simp add: owned_def)

lemma owned_Nil [simp]: "owned [] = []"
  by (simp add: owned_def)

lemma length_owned: "length (owned rs) = 3 * length rs"
  by (induction rs) (auto simp: owned_def)

lemma vd_invD:
  assumes "vd_inv d rs D"
  shows "sizes d" "distinct (owned rs)" "distinct (map req_buf rs)" "i < NUM \<Longrightarrow> vfree d ! i \<longleftrightarrow> i \<notin> set (owned rs)"
    "r \<in> set rs \<Longrightarrow> chained d r" "distinct (pending d)" "i \<in> set (pending d) \<Longrightarrow> info_status (vinfo d ! i) = 0"
    "r \<in> set rs \<Longrightarrow> \<not> buf_disk d (req_buf r) \<Longrightarrow> req_buf r \<in> D"
  using assms by (auto simp: vd_inv_def)

lemma vd_invI:
  assumes "sizes d" "distinct (owned rs)" "distinct (map req_buf rs)" "\<And>i. i < NUM \<Longrightarrow> vfree d ! i \<longleftrightarrow> i \<notin> set (owned rs)"
    "\<And>r. r \<in> set rs \<Longrightarrow> chained d r" "distinct (pending d)"
    "\<And>i. i \<in> set (pending d) \<Longrightarrow>
      info_status (vinfo d ! i) = 0 \<and> (\<exists>r \<in> set rs. req_head r = i \<and> buf_disk d (req_buf r) \<and> req_buf r \<in> D)"
    "\<And>r. r \<in> set rs \<Longrightarrow> \<not> buf_disk d (req_buf r) \<Longrightarrow> req_buf r \<in> D"
  shows "vd_inv d rs D"
  using assms unfolding vd_inv_def by blast

lemma vd_inv_pending:
  assumes "vd_inv d rs D" "i \<in> set (pending d)"
  obtains r where "r \<in> set rs" "req_head r = i" "buf_disk d (req_buf r)" "req_buf r \<in> D"
  using assms by (auto simp: vd_inv_def)

lemma owned_bound: "vd_inv d rs D \<Longrightarrow> set (owned rs) \<subseteq> {..<NUM}"
proof
  fix i assume h: "vd_inv d rs D" "i \<in> set (owned rs)"
  then obtain r where r: "r \<in> set rs" "i \<in> set (req_descs r)" by (auto simp: owned_def)
  have "chained d r" by (rule vd_invD(5) [OF h(1) r(1)])
  then show "i \<in> {..<NUM}" using r(2) by (cases r rule: req_descs.cases) auto
qed

lemma free_set_owned: "vd_inv d rs D \<Longrightarrow> free_set d = {..<NUM} - set (owned rs)"
  using vd_invD(4) by (auto simp: free_set_def)

lemma card_free_set: "vd_inv d rs D \<Longrightarrow> card (free_set d) = 8 - 3 * length rs"
  using owned_bound [of d rs D] vd_invD(2) [of d rs D]
  by (simp add: free_set_owned card_Diff_subset distinct_card length_owned NUM_def)

lemma submit_inv:
  assumes inv: "vd_inv d rs D" and b: "b \<notin> req_buf ` set rs" and v: "length v = NUM" "free_set (d\<lparr>vfree := v\<rparr>) = free_set d - {i0, i1, i2}"
    and i: "distinct [i0, i1, i2]" "{i0, i1, i2} \<subseteq> free_set d"
  shows "vd_inv (notify i0 (format_req b blockno is_write i0 i1 i2 (d\<lparr>vfree := v\<rparr>))) (rs @ [(b, i0, i1, i2)]) (D - {b})"
proof -
  define e where "e = notify i0 (format_req b blockno is_write i0 i1 i2 (d\<lparr>vfree := v\<rparr>))"
  note e_simps = e_def notify_def wreg_def format_req_def Let_def
  have len: "length (vdesc d) = NUM" "length (vinfo d) = NUM" "length (used_id d) = NUM" using vd_invD(1) [OF inv] by (auto simp: sizes_def)
  have lt: "i0 < NUM" "i1 < NUM" "i2 < NUM" and fresh: "{i0, i1, i2} \<inter> set (owned rs) = {}"
    using i(2) free_set_owned [OF inv] by auto
  have fields: "vdesc e ! j = vdesc d ! j" "vinfo e ! j = vinfo d ! j" if "j \<notin> {i0, i1, i2}" for j
    using that by (simp_all add: e_simps)
  have same: "used_id e = used_id d" "used_idx e = used_idx d" "used_end e = used_end d" "vfree e = v" "buf_disk e = (buf_disk d)(b := True)"
    by (simp_all add: e_simps)
  have pend: "pending e = pending d" by (simp add: pending_def same)
  have old: "chained e r" if r: "r \<in> set rs" for r
  proof (rule chained_frame [OF vd_invD(5) [OF inv r]])
    show "vdesc e ! j = vdesc d ! j" if "j \<in> set (req_descs r)" for j
      using descs_owned [OF r that] fresh by (intro fields) auto
    have "req_head r \<notin> {i0, i1, i2}" using descs_owned [OF r head_in_descs] fresh by auto
    then show "info_b (vinfo e ! req_head r) = info_b (vinfo d ! req_head r)" by (simp add: fields)
  qed
  have n: "unat (of_nat j :: uint16) = j" if "j < NUM" for j using that by (simp add: unat_of_nat NUM_def)
  have new: "chained e (b, i0, i1, i2)"
    using lt len i(1) n by (simp add: e_simps VRING_DESC_F_NEXT_def VRING_DESC_F_WRITE_def nth_list_update)
  have fr: "vfree e ! j \<longleftrightarrow> j \<notin> set (owned (rs @ [(b, i0, i1, i2)]))" if "j < NUM" for j
  proof -
    have "j \<in> free_set (d\<lparr>vfree := v\<rparr>) \<longleftrightarrow> j \<in> {..<NUM} - set (owned rs) - {i0, i1, i2}"
      unfolding v(2) free_set_owned [OF inv] ..
    then show ?thesis using that by (simp add: free_set_def same) blast
  qed
  have p: "info_status (vinfo e ! j) = 0 \<and> (\<exists>r \<in> set (rs @ [(b, i0, i1, i2)]). req_head r = j \<and> buf_disk e (req_buf r) \<and> req_buf r \<in> D - {b})"
    if j: "j \<in> set (pending d)" for j
  proof -
    obtain r where r: "r \<in> set rs" "req_head r = j" "buf_disk d (req_buf r)" "req_buf r \<in> D" by (rule vd_inv_pending [OF inv j])
    have "j \<notin> {i0, i1, i2}" using descs_owned [OF r(1) head_in_descs] fresh r(2) by auto
    moreover have "req_buf r \<noteq> b" using b r(1) by auto
    ultimately show ?thesis using r vd_invD(7) [OF inv j] fields(2) [of j] by (auto simp: same)
  qed
  have dist: "distinct (owned (rs @ [(b, i0, i1, i2)]))" "distinct (map req_buf (rs @ [(b, i0, i1, i2)]))"
    using vd_invD(2,3) [OF inv] fresh i(1) b by auto
  have sz: "sizes e" using len v(1) by (simp add: sizes_def same) (simp add: e_simps)
  have "req_buf r \<in> D - {b}" if "r \<in> set (rs @ [(b, i0, i1, i2)])" "\<not> buf_disk e (req_buf r)" for r
    using that vd_invD(8) [OF inv, of r] by (auto simp: same split: if_splits)
  moreover have "chained e r" if "r \<in> set (rs @ [(b, i0, i1, i2)])" for r using that old [of r] new by auto
  ultimately have "vd_inv e (rs @ [(b, i0, i1, i2)]) (D - {b})"
    using sz dist fr p vd_invD(6) [OF inv] by (intro vd_invI) (simp_all only: pend)
  then show ?thesis by (simp only: e_def)
qed

text \<open>A request is submitted at once when fewer than two are in flight, and has to wait otherwise.\<close>

lemma submit_ok:
  assumes inv: "vd_inv d rs D" and b: "b \<notin> req_buf ` set rs"
  shows "if length rs < 2
    then \<exists>i0 i1 i2 d'. virtio_disk_submit b blockno is_write d = Inr (i0, d') \<and> vd_inv d' (rs @ [(b, i0, i1, i2)]) (D - {b}) \<and>
      pending d' = pending d \<and> buf_disk d' = (buf_disk d)(b := True)
    else virtio_disk_submit b blockno is_write d = Inl Sleep"
proof -
  have c: "3 \<le> card (free_set d) \<longleftrightarrow> length rs < 2" using card_free_set [OF inv] by auto
  note a = alloc_n_ok [OF vd_invD(1) [OF inv], of "[]" 3]
  show ?thesis
  proof (cases "length rs < 2")
    case True
    then obtain js v where js: "alloc_n 3 [] d = Inr (Some js, d\<lparr>vfree := v\<rparr>)" "length js = 3" "distinct js" "set js \<subseteq> free_set d"
      "length v = NUM" "free_set (d\<lparr>vfree := v\<rparr>) = free_set d - set js"
      using a c by auto
    obtain i0 i1 i2 where i: "js = [i0, i1, i2]" using js(2) by (auto simp: length_Suc_conv eval_nat_numeral)
    have "vd_inv (notify i0 (format_req b blockno is_write i0 i1 i2 (d\<lparr>vfree := v\<rparr>))) (rs @ [(b, i0, i1, i2)]) (D - {b})"
      using js(3-6) unfolding i by (intro submit_inv [OF inv b]) simp_all
    moreover have "virtio_disk_submit b blockno is_write d = Inr (i0, notify i0 (format_req b blockno is_write i0 i1 i2 (d\<lparr>vfree := v\<rparr>)))"
      using js(1) by (simp add: virtio_disk_submit_def alloc3_desc_def i)
    moreover have "buf_disk (notify i0 (format_req b blockno is_write i0 i1 i2 (d\<lparr>vfree := v\<rparr>))) = (buf_disk d)(b := True)"
      "pending (notify i0 (format_req b blockno is_write i0 i1 i2 (d\<lparr>vfree := v\<rparr>))) = pending d"
      by (simp_all add: notify_def wreg_def format_req_def Let_def pending_def)
    ultimately show ?thesis using True by auto
  next
    case False
    then obtain d' where "alloc_n 3 [] d = Inr (None, d')" using a c by auto
    then show ?thesis using False by (simp add: virtio_disk_submit_def alloc3_desc_def)
  qed
qed

section \<open>Completion\<close>

lemma heads_distinct:
  assumes "distinct (owned rs)" "r \<in> set rs" "r' \<in> set rs" "i \<in> set (req_descs r)" "i \<in> set (req_descs r')"
  shows "r = r'"
  using assms
proof (induction rs)
  case (Cons x rs)
  then show ?case using descs_owned [of r rs i] descs_owned [of r' rs i] by (auto simp del: req_descs.simps)
qed simp

lemma bufs_distinct: "distinct (map req_buf rs) \<Longrightarrow> r \<in> set rs \<Longrightarrow> r' \<in> set rs \<Longrightarrow> req_buf r = req_buf r' \<Longrightarrow> r = r'"
  by (metis distinct_map inj_on_def)

lemma pending_Cons:
  assumes "sizes d" "used_idx d \<noteq> used_end d"
  shows "pending d = unat (used_id d ! (unat (used_idx d) mod NUM)) # pending (d\<lparr>used_idx := used_idx d + 1\<rparr>)"
  using ring_pop [OF assms(2), of "used_id d"] assms(1) by (simp add: pending_def ring_at_def sizes_def)

text \<open>One round of the interrupt handler.\<close>

lemma ack_inv:
  assumes inv: "vd_inv d rs D" and p: "pending d = req_head r # ps" and r: "r \<in> set rs"
  defines "e \<equiv> d\<lparr>buf_disk := (buf_disk d)(req_buf r := False), wakes := wakes d @ [BufChan (req_buf r)], used_idx := used_idx d + 1\<rparr>"
  assumes pe: "pending e = ps"
  shows "vd_inv e rs D"
proof (rule vd_invI)
  have same: "vdesc e = vdesc d" "vinfo e = vinfo d" "vfree e = vfree d" by (simp_all add: e_def)
  show "sizes e" using vd_invD(1) [OF inv] by (simp add: sizes_def e_def)
  show "distinct (owned rs)" "distinct (map req_buf rs)" using vd_invD(2,3) [OF inv] by auto
  show "vfree e ! i \<longleftrightarrow> i \<notin> set (owned rs)" if "i < NUM" for i using vd_invD(4) [OF inv that] by (simp add: same)
  show "chained e x" if "x \<in> set rs" for x using vd_invD(5) [OF inv that] by (cases x) (simp add: same)
  show "distinct (pending e)" using vd_invD(6) [OF inv] p pe by simp
  show "info_status (vinfo e ! i) = 0 \<and> (\<exists>x \<in> set rs. req_head x = i \<and> buf_disk e (req_buf x) \<and> req_buf x \<in> D)" if "i \<in> set (pending e)" for i
  proof -
    have i: "i \<in> set (pending d)" "i \<noteq> req_head r" using that p pe vd_invD(6) [OF inv] by auto
    obtain x where x: "x \<in> set rs" "req_head x = i" "buf_disk d (req_buf x)" "req_buf x \<in> D" by (rule vd_inv_pending [OF inv i(1)])
    have "req_buf x \<noteq> req_buf r" using bufs_distinct [OF vd_invD(3) [OF inv] x(1) r] x(2) i(2) by auto
    then show ?thesis using x vd_invD(7) [OF inv i(1)] by (auto simp: e_def)
  qed
  obtain x where x: "x \<in> set rs" "req_head x = req_head r" "req_buf x \<in> D" by (rule vd_inv_pending [OF inv, of "req_head r"]) (auto simp: p)
  have "x = r" using heads_distinct [OF vd_invD(2) [OF inv] x(1) r head_in_descs] x(2) by (metis head_in_descs)
  then show "req_buf y \<in> D" if "y \<in> set rs" "\<not> buf_disk e (req_buf y)" for y
    using that x(3) vd_invD(8) [OF inv, of y] by (auto simp: e_def split: if_splits)
qed

lemma disk_intr_loop_ok:
  assumes "vd_inv d rs D"
  shows "\<exists>d'. disk_intr_loop d = Inr d' \<and> vd_inv d' rs D \<and> pending d' = [] \<and>
    (\<forall>r \<in> set rs. buf_disk d' (req_buf r) \<longleftrightarrow> buf_disk d (req_buf r) \<and> req_head r \<notin> set (pending d))"
  using assms
proof (induction d rule: disk_intr_loop.induct)
  case (1 d)
  show ?case
  proof (cases "used_idx d = used_end d")
    case True
    then have "pending d = []" by (simp add: pending_def)
    then show ?thesis using True 1(2) by (auto simp: disk_intr_loop.simps [of d])
  next
    case False
    define i where "i = unat (used_id d ! (unat (used_idx d) mod NUM))"
    define ps where "ps = pending (d\<lparr>used_idx := used_idx d + 1\<rparr>)"
    have p: "pending d = i # ps" using pending_Cons [OF vd_invD(1) [OF 1(2)] False] by (simp add: i_def ps_def)
    obtain r where r: "r \<in> set rs" "req_head r = i" by (rule vd_inv_pending [OF 1(2), of i]) (auto simp: p)
    have ch: "chained d r" by (rule vd_invD(5) [OF 1(2) r(1)])
    then have b: "info_b (vinfo d ! i) = Some (req_buf r)" and lt: "i < NUM" using r(2) by (cases r; simp)+
    have st: "info_status (vinfo d ! i) = 0" by (rule vd_invD(7) [OF 1(2)]) (simp add: p)
    define e where "e = d\<lparr>buf_disk := (buf_disk d)(req_buf r := False), wakes := wakes d @ [BufChan (req_buf r)], used_idx := used_idx d + 1\<rparr>"
    have pe: "pending e = ps" by (simp add: e_def ps_def pending_def)
    have inv: "vd_inv e rs D"
      unfolding e_def using p pe by (intro ack_inv [OF 1(2) _ r(1), of ps]) (simp_all add: r(2) e_def)
    have go: "disk_intr_loop d = disk_intr_loop e"
      using False lt st b by (subst disk_intr_loop.simps) (simp add: Let_def i_def [symmetric] e_def)
    have "\<exists>d'. disk_intr_loop e = Inr d' \<and> vd_inv d' rs D \<and> pending d' = [] \<and>
        (\<forall>r \<in> set rs. buf_disk d' (req_buf r) \<longleftrightarrow> buf_disk e (req_buf r) \<and> req_head r \<notin> set (pending e))"
      unfolding e_def using lt st b inv by (intro 1(1) [OF False i_def]) (simp_all add: e_def)
    then obtain d' where d': "disk_intr_loop e = Inr d'" "vd_inv d' rs D" "pending d' = []"
      "\<forall>x \<in> set rs. buf_disk d' (req_buf x) \<longleftrightarrow> buf_disk e (req_buf x) \<and> req_head x \<notin> set ps" by (auto simp: pe)
    have "buf_disk d' (req_buf x) \<longleftrightarrow> buf_disk d (req_buf x) \<and> req_head x \<notin> set (pending d)" if x: "x \<in> set rs" for x
    proof (cases "x = r")
      case True
      then show ?thesis using d'(4) x r(2) by (simp add: e_def p)
    next
      case False
      have "req_head x \<noteq> i"
        using False heads_distinct [OF vd_invD(2) [OF 1(2)] x r(1) head_in_descs] r(2) by (metis head_in_descs)
      moreover have "req_buf x \<noteq> req_buf r" using False bufs_distinct [OF vd_invD(3) [OF 1(2)] x r(1)] by auto
      ultimately show ?thesis using d'(4) x by (simp add: e_def p)
    qed
    then show ?thesis using go d'(1-3) by auto
  qed
qed

section \<open>Finishing\<close>

definition freed_desc :: "nat \<Rightarrow> vdisk \<Rightarrow> vdisk" where
  "freed_desc i d = d\<lparr>vdesc := (vdesc d)[i := no_desc], vfree := (vfree d)[i := True], wakes := wakes d @ [FreeChan]\<rparr>"

lemma free_chain_step:
  assumes "sizes d" "i < NUM" "\<not> vfree d ! i"
  shows "free_chain i d = (if d_flags (vdesc d ! i) AND VRING_DESC_F_NEXT \<noteq> 0 then free_chain (unat (d_next (vdesc d ! i))) (freed_desc i d)
    else Inr (freed_desc i d))"
  using assms free_desc_ok [OF assms(2,3)] by (subst free_chain.simps) (simp add: Let_def sizes_def freed_desc_def)

lemma freed_desc_simps [simp]:
  "sizes (freed_desc i d) = sizes d" "vinfo (freed_desc i d) = vinfo d" "buf_disk (freed_desc i d) = buf_disk d"
  "pending (freed_desc i d) = pending d" "j \<noteq> i \<Longrightarrow> vdesc (freed_desc i d) ! j = vdesc d ! j"
  "j \<noteq> i \<Longrightarrow> vfree (freed_desc i d) ! j = vfree d ! j" "sizes d \<Longrightarrow> i < NUM \<Longrightarrow> vfree (freed_desc i d) ! i"
  by (auto simp: freed_desc_def sizes_def pending_def)

lemma finish_chain:
  assumes "sizes d" "chained d (b, i0, i1, i2)" "distinct [i0, i1, i2]" "\<not> vfree d ! i0" "\<not> vfree d ! i1" "\<not> vfree d ! i2"
  shows "free_chain i0 d = Inr (freed_desc i2 (freed_desc i1 (freed_desc i0 d)))"
  using assms by (simp add: free_chain_step)

lemma remove_req:
  assumes "distinct (map req_buf rs)" "r \<in> set rs"
  obtains xs ys where "rs = xs @ r # ys" "remove1 r rs = xs @ ys"
proof -
  obtain xs ys where s: "rs = xs @ r # ys" "r \<notin> set xs" using split_list_first [OF assms(2)] by blast
  then show ?thesis using that [of xs ys] by (simp add: remove1_append)
qed

lemma finish_inv:
  assumes inv: "vd_inv d rs D" and r: "(b, i0, i1, i2) \<in> set rs" and fin: "\<not> buf_disk d b"
  defines "d0 \<equiv> d\<lparr>vinfo := (vinfo d)[i0 := (vinfo d ! i0)\<lparr>info_b := None\<rparr>]\<rparr>"
  shows "vd_inv (freed_desc i2 (freed_desc i1 (freed_desc i0 d0))) (remove1 (b, i0, i1, i2) rs) D"
proof (rule remove_req [OF vd_invD(3) [OF inv] r])
  let ?r = "(b, i0, i1, i2)"
  define e where "e = freed_desc i2 (freed_desc i1 (freed_desc i0 d0))"
  fix xs ys assume rs: "rs = xs @ ?r # ys" and rem: "remove1 ?r rs = xs @ ys"
  have sz: "sizes d0" using vd_invD(1) [OF inv] by (simp add: sizes_def d0_def)
  have lt: "i0 < NUM" "i1 < NUM" "i2 < NUM" using vd_invD(5) [OF inv r] by auto
  have dist: "distinct (owned (xs @ ys))" "{i0, i1, i2} \<inter> set (owned (xs @ ys)) = {}" "distinct [i0, i1, i2]"
    using vd_invD(2) [OF inv] unfolding rs by auto
  have pend: "pending e = pending d" by (simp add: e_def) (simp add: d0_def pending_def)
  have buf: "buf_disk e = buf_disk d" by (simp add: e_def d0_def)
  have fields: "vdesc e ! j = vdesc d ! j" "vfree e ! j = vfree d ! j" "vinfo e ! j = vinfo d ! j" if "j \<notin> {i0, i1, i2}" for j
    using that by (simp_all add: e_def) (simp_all add: d0_def)
  have free: "vfree e ! j" if "j \<in> {i0, i1, i2}" for j
    using that sz lt dist(3) by (auto simp: e_def)
  have "vd_inv e (xs @ ys) D"
  proof (rule vd_invI)
    show "sizes e" using sz by (simp add: e_def)
    show "distinct (owned (xs @ ys))" by (rule dist(1))
    show "distinct (map req_buf (xs @ ys))" using vd_invD(3) [OF inv] unfolding rs by simp
    show "vfree e ! j \<longleftrightarrow> j \<notin> set (owned (xs @ ys))" if "j < NUM" for j
      using vd_invD(4) [OF inv that] fields(2) [of j] free [of j] dist(2) unfolding rs by (cases "j \<in> {i0, i1, i2}") auto
    show "chained e x" if "x \<in> set (xs @ ys)" for x
    proof (rule chained_frame)
      show "chained d x" by (rule vd_invD(5) [OF inv]) (use that rs in auto)
      show "vdesc e ! j = vdesc d ! j" if "j \<in> set (req_descs x)" for j
        using descs_owned [OF \<open>x \<in> set (xs @ ys)\<close> that] dist(2) by (intro fields) auto
      have "req_head x \<notin> {i0, i1, i2}" using descs_owned [OF that head_in_descs] dist(2) by auto
      then show "info_b (vinfo e ! req_head x) = info_b (vinfo d ! req_head x)" by (simp add: fields)
    qed
    show "distinct (pending e)" using vd_invD(6) [OF inv] by (simp add: pend)
    show "info_status (vinfo e ! j) = 0 \<and> (\<exists>x \<in> set (xs @ ys). req_head x = j \<and> buf_disk e (req_buf x) \<and> req_buf x \<in> D)" if "j \<in> set (pending e)" for j
    proof -
      have j: "j \<in> set (pending d)" using that by (simp add: pend)
      obtain x where x: "x \<in> set rs" "req_head x = j" "buf_disk d (req_buf x)" "req_buf x \<in> D" by (rule vd_inv_pending [OF inv j])
      have "x \<noteq> ?r" using x(3) fin by auto
      then have m: "x \<in> set (xs @ ys)" using x(1) rs by auto
      have "j \<notin> {i0, i1, i2}" using descs_owned [OF m head_in_descs] dist(2) x(2) by auto
      then show ?thesis using m x vd_invD(7) [OF inv j] by (auto simp: fields buf)
    qed
    show "req_buf x \<in> D" if "x \<in> set (xs @ ys)" "\<not> buf_disk e (req_buf x)" for x
      using vd_invD(8) [OF inv, of x] that rs by (simp add: buf)
  qed
  then show ?thesis unfolding e_def rem .
qed

lemma finish_ok:
  assumes inv: "vd_inv d rs D" and r: "r \<in> set rs"
  shows "if buf_disk d (req_buf r) then virtio_disk_finish (req_buf r) (req_head r) d = Inl Sleep
    else \<exists>d'. virtio_disk_finish (req_buf r) (req_head r) d = Inr d' \<and> vd_inv d' (remove1 r rs) D \<and>
      pending d' = pending d \<and> buf_disk d' = buf_disk d \<and> (\<forall>i \<in> set (req_descs r). vfree d' ! i)"
proof -
  obtain b i0 i1 i2 where e: "r = (b, i0, i1, i2)" by (rule prod_cases4)
  let ?d = "d\<lparr>vinfo := (vinfo d)[i0 := (vinfo d ! i0)\<lparr>info_b := None\<rparr>]\<rparr>"
  have ch: "chained d (b, i0, i1, i2)" using vd_invD(5) [OF inv r] e by simp
  have own: "{i0, i1, i2} \<subseteq> set (owned rs)" using descs_owned [OF r] e by auto
  have nf: "\<not> vfree ?d ! i0" "\<not> vfree ?d ! i1" "\<not> vfree ?d ! i2" using vd_invD(4) [OF inv] own ch by auto
  have "distinct (req_descs r)" using vd_invD(2) [OF inv] r by (auto simp: owned_def distinct_concat_iff)
  then have di: "distinct [i0, i1, i2]" by (simp add: e)
  have sz: "sizes ?d" using vd_invD(1) [OF inv] by (simp add: sizes_def)
  have "free_chain i0 ?d = Inr (freed_desc i2 (freed_desc i1 (freed_desc i0 ?d)))"
    using ch di nf sz by (simp add: free_chain_step)
  moreover have "\<forall>i \<in> {i0, i1, i2}. vfree (freed_desc i2 (freed_desc i1 (freed_desc i0 ?d))) ! i" using sz ch di by auto
  moreover have "pending ?d = pending d" by (simp add: pending_def)
  ultimately show ?thesis using finish_inv [OF inv, of b i0 i1 i2] r by (auto simp: e virtio_disk_finish_def)
qed

section \<open>The device\<close>

lemma device_pending:
  assumes inv: "vd_inv d rs D" and r: "r \<in> set rs"
  shows "pending (device_done (req_head r) d) = pending d @ [req_head r]"
proof -
  have lt: "req_head r < NUM" using vd_invD(5) [OF inv r] by (cases r) auto
  have sz: "length (used_id d) = NUM" using vd_invD(1) [OF inv] by (auto simp: sizes_def)
  have "set (pending d) \<subseteq> req_head ` set rs" using vd_inv_pending [OF inv] by (metis image_eqI subsetI)
  then have "length (pending d) \<le> length rs"
    using card_mono [of "req_head ` set rs" "set (pending d)"] card_image_le [of "set rs" req_head] card_length [of rs]
    by (simp add: distinct_card [OF vd_invD(6) [OF inv]])
  moreover have "3 * length rs \<le> 8"
    using owned_bound [OF inv] vd_invD(2) [OF inv] card_mono [of "{..<NUM}" "set (owned rs)"] by (simp add: distinct_card length_owned NUM_def)
  ultimately have room: "unat (used_end d - used_idx d) < length (used_id d)" using sz by (simp add: pending_def NUM_def)
  have ring: "ring_size TYPE(16) (used_id d)" "length (used_id d) < 2 ^ LENGTH(16)" using sz by (auto simp: ring_size_def NUM_def)
  have "unat (of_nat (req_head r) :: uint) = req_head r" using lt by (simp add: unat_of_nat NUM_def)
  then show ?thesis
    using ring_push [OF ring room, of "of_nat (req_head r)"] by (simp add: device_done_def pending_def)
qed

lemma device_inv:
  assumes inv: "vd_inv d rs D" and r: "r \<in> set rs" and b: "req_buf r \<notin> D"
  shows "vd_inv (device_done (req_head r) d) rs (insert (req_buf r) D)"
proof -
  define e where "e = device_done (req_head r) d"
  have same: "vdesc e = vdesc d" "vfree e = vfree d" "buf_disk e = buf_disk d" by (simp_all add: e_def device_done_def)
  have lt: "req_head r < NUM" using vd_invD(5) [OF inv r] by (cases r) auto
  have sz: "length (vinfo d) = NUM" using vd_invD(1) [OF inv] by (auto simp: sizes_def)
  have pend: "pending e = pending d @ [req_head r]" unfolding e_def by (rule device_pending [OF inv r])
  have st: "info_status (vinfo e ! j) = (if j = req_head r then 0 else info_status (vinfo d ! j))" "info_b (vinfo e ! j) = info_b (vinfo d ! j)" for j
    using lt sz by (auto simp: e_def device_done_def nth_list_update)
  have busy: "buf_disk d (req_buf r)" using vd_invD(8) [OF inv r] b by blast
  have new: "req_head r \<notin> set (pending d)"
  proof
    assume "req_head r \<in> set (pending d)"
    then obtain x where x: "x \<in> set rs" "req_head x = req_head r" "req_buf x \<in> D" by (rule vd_inv_pending [OF inv])
    then have "x = r" using heads_distinct [OF vd_invD(2) [OF inv] x(1) r head_in_descs] by (metis head_in_descs)
    then show False using x(3) b by simp
  qed
  have "vd_inv e rs (insert (req_buf r) D)"
  proof (rule vd_invI)
    show "sizes e" using vd_invD(1) [OF inv] by (simp add: sizes_def e_def device_done_def)
    show "distinct (owned rs)" "distinct (map req_buf rs)" using vd_invD(2,3) [OF inv] by auto
    show "vfree e ! j \<longleftrightarrow> j \<notin> set (owned rs)" if "j < NUM" for j using vd_invD(4) [OF inv that] by (simp add: same)
    show "chained e x" if "x \<in> set rs" for x using vd_invD(5) [OF inv that] by (cases x) (simp add: same st)
    show "distinct (pending e)" using vd_invD(6) [OF inv] new by (simp add: pend)
    show "info_status (vinfo e ! j) = 0 \<and> (\<exists>x \<in> set rs. req_head x = j \<and> buf_disk e (req_buf x) \<and> req_buf x \<in> insert (req_buf r) D)" if j: "j \<in> set (pending e)" for j
    proof (cases "j = req_head r")
      case True
      then show ?thesis using r busy by (auto simp: st same simp del: split_paired_Ex)
    next
      case False
      then have "j \<in> set (pending d)" using j by (simp add: pend)
      then obtain x where "x \<in> set rs" "req_head x = j" "buf_disk d (req_buf x)" "req_buf x \<in> D" by (rule vd_inv_pending [OF inv])
      then show ?thesis using vd_invD(7) [OF inv \<open>j \<in> set (pending d)\<close>] by (auto simp: st same)
    qed
    show "req_buf x \<in> insert (req_buf r) D" if "x \<in> set rs" "\<not> buf_disk e (req_buf x)" for x
      using vd_invD(8) [OF inv, of x] that by (simp add: same)
  qed
  then show ?thesis by (simp only: e_def)
qed

section \<open>Properties\<close>

lemma vd_inv_wreg [simp]: "vd_inv (wreg a v d) rs D = vd_inv d rs D"
proof -
  have "chained (wreg a v d) r = chained d r" for r by (cases r) (simp add: wreg_def)
  then show ?thesis by (simp add: vd_inv_def sizes_def pending_def) (simp add: wreg_def)
qed

lemma wreg_simps [simp]: "pending (wreg a v d) = pending d" "buf_disk (wreg a v d) = buf_disk d"
  by (simp_all add: pending_def wreg_def)

text \<open>In a reachable state a completed request is either pending or acknowledged.\<close>

definition told :: "vdisk \<Rightarrow> disk_req list \<Rightarrow> nat set \<Rightarrow> bool" where
  "told d rs D \<longleftrightarrow> (\<forall>r \<in> set rs. req_buf r \<in> D \<longrightarrow> buf_disk d (req_buf r) \<longrightarrow> req_head r \<in> set (pending d))"

lemma vd_reach_inv: "vd_reach d rs D \<Longrightarrow> vd_inv d rs D \<and> told d rs D"
proof (induction rule: vd_reach.induct)
  case (init d)
  then have "pending d = []" by (simp add: pending_def)
  then show ?case using init by (auto simp: vd_inv_def owned_def told_def)
next
  case (submit d rs D b blockno is_write i0 d' i1 i2)
  have inv: "vd_inv d rs D" and t: "told d rs D" using submit.IH by auto
  have "length rs < 2" using submit_ok [OF inv submit.hyps(2), of blockno is_write] submit.hyps(3) by (auto split: if_splits)
  then obtain j1 j2 where j: "vd_inv d' (rs @ [(b, i0, j1, j2)]) (D - {b})" "pending d' = pending d" "buf_disk d' = (buf_disk d)(b := True)"
    using submit_ok [OF inv submit.hyps(2), of blockno is_write] submit.hyps(3) by auto
  have "chained d' (b, i0, j1, j2)" by (rule vd_invD(5) [OF j(1)]) simp
  then have "i1 = j1" "i2 = j2" using submit.hyps(4,5) by auto
  then show ?case using j t by (auto simp: told_def)
next
  case (device d rs D r)
  have inv: "vd_inv d rs D" and t: "told d rs D" using device.IH by auto
  let ?e = "device_done (req_head r) d"
  have inv': "vd_inv ?e rs (insert (req_buf r) D)" by (rule device_inv [OF inv device.hyps(2,3)])
  have "pending ?e = pending d @ [req_head r]" by (rule device_pending [OF inv device.hyps(2)])
  moreover have "buf_disk ?e = buf_disk d" by (simp add: device_done_def)
  moreover have "x = r" if "x \<in> set rs" "req_buf x = req_buf r" for x using bufs_distinct [OF vd_invD(3) [OF inv] that(1) device.hyps(2) that(2)] .
  ultimately have "told ?e rs (insert (req_buf r) D)" using t unfolding told_def by fastforce
  then show ?case using inv' by simp
next
  case (interrupt d rs D status d')
  have inv: "vd_inv (wreg VIRTIO_MMIO_INTERRUPT_ACK (status AND 3) d) rs D" and t: "told d rs D" using interrupt.IH by auto
  show ?case using disk_intr_loop_ok [OF inv] interrupt.hyps(2) t by (auto simp: virtio_disk_intr_def told_def)
next
  case (finish d rs D r d')
  have inv: "vd_inv d rs D" and t: "told d rs D" using finish.IH by auto
  have "vd_inv d' (remove1 r rs) D" "pending d' = pending d" "buf_disk d' = buf_disk d"
    using finish_ok [OF inv finish.hyps(2)] finish.hyps(3) by (auto split: if_splits)
  then show ?case using t by (auto simp: told_def dest: notin_set_remove1)
qed

text \<open>C31: In every interleaving of submitting requests, device completions in any order, interrupts and finishing
  requests, the driver never panics on a descriptor: at most two requests are in flight, on disjoint chains; a
  new one is submitted at once if fewer than two are in flight and otherwise sleeps; and a waiting
  \<open>virtio_disk_rw\<close> goes on only after the device has completed its request, and then frees its three descriptors.\<close>

theorem disk_requests_safe:
  assumes "vd_reach d rs D"
  shows "length rs \<le> 2 \<and> distinct (owned rs) \<and>
    (\<forall>b. b \<notin> req_buf ` set rs \<longrightarrow>
      (if length rs < 2 then \<exists>i0 d'. virtio_disk_submit b blockno is_write d = Inr (i0, d')
       else virtio_disk_submit b blockno is_write d = Inl Sleep)) \<and>
    (\<forall>r \<in> set rs. if buf_disk d (req_buf r) then virtio_disk_finish (req_buf r) (req_head r) d = Inl Sleep
       else req_buf r \<in> D \<and> (\<exists>d'. virtio_disk_finish (req_buf r) (req_head r) d = Inr d' \<and> (\<forall>i \<in> set (req_descs r). vfree d' ! i)))"
proof (intro conjI allI impI ballI)
  have inv: "vd_inv d rs D" using vd_reach_inv [OF assms] by simp
  have "3 * length rs \<le> 8"
    using owned_bound [OF inv] vd_invD(2) [OF inv] card_mono [of "{..<NUM}" "set (owned rs)"] by (simp add: distinct_card length_owned NUM_def)
  then show "length rs \<le> 2" by simp
  show "distinct (owned rs)" by (rule vd_invD(2) [OF inv])
  fix b assume "b \<notin> req_buf ` set rs"
  then show "if length rs < 2 then \<exists>i0 d'. virtio_disk_submit b blockno is_write d = Inr (i0, d')
       else virtio_disk_submit b blockno is_write d = Inl Sleep"
    using submit_ok [OF inv, of b blockno is_write] by (cases "length rs < 2") auto
next
  fix r assume r: "r \<in> set rs"
  have inv: "vd_inv d rs D" using vd_reach_inv [OF assms] by simp
  show "if buf_disk d (req_buf r) then virtio_disk_finish (req_buf r) (req_head r) d = Inl Sleep
       else req_buf r \<in> D \<and> (\<exists>d'. virtio_disk_finish (req_buf r) (req_head r) d = Inr d' \<and> (\<forall>i \<in> set (req_descs r). vfree d' ! i))"
  proof (cases "buf_disk d (req_buf r)")
    case True
    then show ?thesis using finish_ok [OF inv r] by (simp only: if_True)
  next
    case False
    then obtain d' where "virtio_disk_finish (req_buf r) (req_head r) d = Inr d'" "\<forall>i \<in> set (req_descs r). vfree d' ! i"
      using finish_ok [OF inv r] unfolding if_not_P [OF False] by blast
    then show ?thesis unfolding if_not_P [OF False] using vd_invD(8) [OF inv r False] by blast
  qed
qed

definition demo_vdisk :: vdisk where
  "demo_vdisk = \<lparr>vdesc = replicate NUM no_desc, avail_idx = 0, avail_ring = replicate NUM 0, used_id = replicate NUM 0, used_end = 0,
    vfree = replicate NUM True, used_idx = 0, vinfo = replicate NUM \<lparr>info_b = None, info_status = 0\<rparr>, vops = [], buf_disk = (\<lambda>_. False),
    wakes = [], regs = []\<rparr>"

lemma demo_vdisk_reach: "vd_reach demo_vdisk [] {}"
  by (rule vd_reach.init) (simp_all add: demo_vdisk_def sizes_def)

theorem disk_requests_safe_witness:
  "\<exists>i0 d'. virtio_disk_submit 7 3 True demo_vdisk = Inr (i0, d')"
proof -
  note safe = disk_requests_safe [OF demo_vdisk_reach, of 3 True]
  show ?thesis using safe [THEN conjunct2, THEN conjunct2, THEN conjunct1, THEN spec [where x = 7]] by simp
qed

text \<open>C32: The interrupt handler returns: its loop ends with every entry of the used ring handled, whatever has
  happened before.  Afterwards every request the device has completed can be finished, and a request
  that is still with the device goes on sleeping.\<close>

theorem disk_interrupt_drains:
  assumes "vd_reach d rs D"
  shows "\<exists>d'. virtio_disk_intr status d = Inr d' \<and> used_idx d' = used_end d' \<and>
    (\<forall>r \<in> set rs. if req_buf r \<in> D then \<exists>d''. virtio_disk_finish (req_buf r) (req_head r) d' = Inr d''
       else virtio_disk_finish (req_buf r) (req_head r) d' = Inl Sleep)"
proof -
  let ?d = "wreg VIRTIO_MMIO_INTERRUPT_ACK (status AND 3) d"
  have inv: "vd_inv ?d rs D" and t: "told d rs D" using vd_reach_inv [OF assms] by auto
  obtain d' where d': "disk_intr_loop ?d = Inr d'" "vd_inv d' rs D" "pending d' = []"
    "\<forall>r \<in> set rs. buf_disk d' (req_buf r) \<longleftrightarrow> buf_disk d (req_buf r) \<and> req_head r \<notin> set (pending d)"
    using disk_intr_loop_ok [OF inv] by auto
  have "unat (used_end d' - used_idx d') = 0" using arg_cong [OF d'(3), of length] by (simp add: pending_def)
  then have "used_idx d' = used_end d'" by (simp add: unat_eq_zero)
  moreover have "if req_buf r \<in> D then \<exists>d''. virtio_disk_finish (req_buf r) (req_head r) d' = Inr d''
       else virtio_disk_finish (req_buf r) (req_head r) d' = Inl Sleep" if r: "r \<in> set rs" for r
  proof (cases "req_buf r \<in> D")
    case True
    then have "\<not> buf_disk d' (req_buf r)" using d'(4) r t unfolding told_def by blast
    from finish_ok [OF d'(2) r, unfolded if_not_P [OF this]] True show ?thesis by (simp only: if_True) blast
  next
    case False
    then have "buf_disk d' (req_buf r)" using vd_invD(8) [OF d'(2) r] by blast
    from finish_ok [OF d'(2) r, unfolded if_P [OF this]] False show ?thesis by (simp only: if_False)
  qed
  ultimately show ?thesis using d'(1) unfolding virtio_disk_intr_def by blast
qed

theorem disk_interrupt_drains_witness:
  "\<exists>d'. virtio_disk_intr 1 demo_vdisk = Inr d' \<and> used_idx d' = used_end d'"
  using disk_interrupt_drains [OF demo_vdisk_reach, of 1] by auto

end
