(* ===== verification/Proctab.thy ===== *)
theory Proctab
  imports Proc
begin

text \<open>What the operations on the process table do: locking an entry, \<open>wakeup\<close>, \<open>kill\<close>, and the hand-over of the
  CPU in \<open>sleep\<close>, \<open>yield\<close> and \<open>scheduler\<close>.\<close>

section \<open>Entries and locks\<close>

abbreviation cpu_of :: "sys \<Rightarrow> cpu" where
  "cpu_of s \<equiv> kcpu (kst s)"

lemma sys_simps [simp]:
  "procs (upd_proc i f s) = (procs s)(i := f (procs s i))" "kst (upd_proc i f s) = kst s" "cur (upd_proc i f s) = cur s"
  "wait_lock (upd_proc i f s) = wait_lock s" "initproc (upd_proc i f s) = initproc s" "nextpid (upd_proc i f s) = nextpid s"
  "procs (set_cpu c s) = procs s" "kcpu (kst (set_cpu c s)) = c" "cur (set_cpu c s) = cur s" "wait_lock (set_cpu c s) = wait_lock s"
  "initproc (set_cpu c s) = initproc s" "nextpid (set_cpu c s) = nextpid s"
  by (simp_all add: upd_proc_def set_cpu_def)

lemma set_cpu_set_cpu [simp]: "set_cpu c (set_cpu c' s) = set_cpu c s"
  by (simp add: set_cpu_def)

lemma upd_proc_set_cpu: "upd_proc i f (set_cpu c s) = set_cpu c (upd_proc i f s)"
  by (simp add: set_cpu_def upd_proc_def)

lemma upd_proc_upd_proc [simp]: "upd_proc i f (upd_proc i g s) = upd_proc i (\<lambda>p. f (g p)) s"
  by (simp add: upd_proc_def)

lemma upd_proc_id: "f (procs s i) = procs s i \<Longrightarrow> upd_proc i f s = s"
  by (simp add: upd_proc_def fun_upd_idem)

definition settled :: "sys \<Rightarrow> sys" where
  "settled s = set_cpu (settle (cpu_of s)) s"

lemma settled_simps [simp]:
  "procs (settled s) = procs s" "cur (settled s) = cur s" "cpu_of (settled s) = settle (cpu_of s)" "settled (settled s) = settled s"
  "initproc (settled s) = initproc s" "nextpid (settled s) = nextpid s"
  by (simp_all add: settled_def)

definition taken :: "sys \<Rightarrow> spinlock \<Rightarrow> spinlock" where
  "taken s lk = lk\<lparr>locked := 1, lk_cpu := Some (cpuid (cpu_of s))\<rparr>"

lemma acquire_p_free:
  assumes "lock_free (p_lock (procs s i))"
  shows "acquire_p i s = Inr (set_cpu (push_off (cpu_of s)) (upd_proc i (\<lambda>p. p\<lparr>p_lock := taken s (p_lock p)\<rparr>) s))"
proof -
  have "upd_proc i (p_lock_update (\<lambda>_. taken s (p_lock (procs s i)))) s = upd_proc i (\<lambda>p. p\<lparr>p_lock := taken s (p_lock p)\<rparr>) s"
    by (simp add: upd_proc_def)
  then show ?thesis by (simp add: acquire_p_def acquire_free [OF assms] upd_proc_set_cpu taken_def)
qed

text \<open>An update of an entry between \<open>acquire\<close> and \<open>release\<close> of its lock.\<close>

lemma critical_section:
  assumes "lock_free (p_lock (procs s i))" "cpu_ok (cpu_of s)"
    and f: "\<And>p g. f (p_lock_update g p) = p_lock_update g (f p)" "\<And>p. p_lock (f p) = p_lock p"
  shows "rbind (acquire_p i s) (\<lambda>s1. release_p i (upd_proc i f s1)) = Inr (settled (upd_proc i f s))"
proof -
  let ?s = "upd_proc i f (set_cpu (push_off (cpu_of s)) (upd_proc i (\<lambda>p. p\<lparr>p_lock := taken s (p_lock p)\<rparr>) s))"
  have lk: "p_lock (procs ?s i) = taken s (p_lock (procs s i))" by (simp add: f)
  have c: "cpu_of ?s = push_off (cpu_of s)" by simp
  have r: "release (taken s (p_lock (procs s i))) (push_off (cpu_of s)) = Inr (p_lock (procs s i), settle (cpu_of s))"
    using release_taken [OF assms(1,2)] by (simp add: taken_def)
  have "upd_proc i (p_lock_update (\<lambda>_. p_lock (procs s i))) (set_cpu (settle (cpu_of s)) ?s) = settled (upd_proc i f s)"
  proof -
    have same: "(f (procs s i))\<lparr>p_lock := p_lock (procs s i)\<rparr> = f (procs s i)" by (subst f(2) [symmetric]) simp
    show ?thesis by (simp add: settled_def upd_proc_def set_cpu_def f(1) same)
  qed
  moreover have "release_p i ?s = Inr (upd_proc i (p_lock_update (\<lambda>_. p_lock (procs s i))) (set_cpu (settle (cpu_of s)) ?s))"
    unfolding release_p_def lk c r by simp
  ultimately show ?thesis by (simp add: acquire_p_free [OF assms(1)])
qed

section \<open>wakeup\<close>

definition wake :: "chan option \<Rightarrow> proc \<Rightarrow> proc" where
  "wake ch p = (if p_state p = SLEEPING \<and> p_chan p = ch then p\<lparr>p_state := RUNNABLE\<rparr> else p)"

lemma wake_simps [simp]:
  "p_lock (wake ch p) = p_lock p" "wake ch (wake ch p) = wake ch p" "wake ch (p_lock_update g p) = p_lock_update g (wake ch p)"
  by (simp_all add: wake_def)

definition others_free :: "sys \<Rightarrow> bool" where
  "others_free s \<longleftrightarrow> (\<forall>i < NPROC. cur s \<noteq> Some i \<longrightarrow> lock_free (p_lock (procs s i)))"

lemma wakeup_one:
  assumes "lock_free (p_lock (procs s i))" "cpu_ok (cpu_of s)"
  shows "rbind (acquire_p i s) (\<lambda>s1. release_p i (if p_state (procs s1 i) = SLEEPING \<and> p_chan (procs s1 i) = ch
    then upd_proc i (p_state_update (\<lambda>_. RUNNABLE)) s1 else s1)) = Inr (settled (upd_proc i (wake ch) s))"
proof -
  have "(if p_state (procs s1 i) = SLEEPING \<and> p_chan (procs s1 i) = ch then upd_proc i (p_state_update (\<lambda>_. RUNNABLE)) s1 else s1) =
    upd_proc i (wake ch) s1" for s1
    by (cases "p_state (procs s1 i) = SLEEPING \<and> p_chan (procs s1 i) = ch") (auto simp: wake_def upd_proc_def fun_upd_idem)
  then show ?thesis using critical_section [OF assms, of "wake ch"] by simp
qed

abbreviation woken :: "chan option \<Rightarrow> nat set \<Rightarrow> sys \<Rightarrow> sys" where
  "woken ch I s \<equiv> s\<lparr>procs := (\<lambda>i. if i \<in> I \<and> cur s \<noteq> Some i then wake ch (procs s i) else procs s i)\<rparr>"

lemma wakeup_list:
  assumes "\<forall>i \<in> set is. cur s \<noteq> Some i \<longrightarrow> lock_free (p_lock (procs s i))" "cpu_ok (cpu_of s)"
  shows "rfold (\<lambda>i s. if cur s \<noteq> Some i then
      rbind (acquire_p i s) (\<lambda>s1. release_p i (if p_state (procs s1 i) = SLEEPING \<and> p_chan (procs s1 i) = ch
        then upd_proc i (p_state_update (\<lambda>_. RUNNABLE)) s1 else s1))
    else Inr s) is s = Inr ((if \<exists>i \<in> set is. cur s \<noteq> Some i then settled else id) (woken ch (set is) s))"
  using assms
proof (induction "is" arbitrary: s)
  case (Cons i "is")
  show ?case
  proof (cases "cur s = Some i")
    case True
    have "(\<lambda>j. if j \<in> set (i # is) \<and> cur s \<noteq> Some j then wake ch (procs s j) else procs s j) =
        (\<lambda>j. if j \<in> set is \<and> cur s \<noteq> Some j then wake ch (procs s j) else procs s j)" using True by auto
    then show ?thesis using Cons.IH [of s] Cons.prems True by simp
  next
    case False
    let ?s = "settled (upd_proc i (wake ch) s)"
    have lf: "lock_free (p_lock (procs s i))" "cpu_ok (cpu_of s)" using Cons.prems False by auto
    have p: "procs ?s = (procs s)(i := wake ch (procs s i))" "cur ?s = cur s" by simp_all
    have F: "(\<lambda>j. if j \<in> set is \<and> cur s \<noteq> Some j then wake ch (((procs s)(i := wake ch (procs s i))) j) else ((procs s)(i := wake ch (procs s i))) j) =
        (\<lambda>j. if j \<in> set (i # is) \<and> cur s \<noteq> Some j then wake ch (procs s j) else procs s j)" using False by auto
    have e: "woken ch (set is) ?s = settled (woken ch (set (i # is)) s)"
      unfolding p F by (simp add: upd_proc_def settled_def set_cpu_def)
    have "\<forall>j \<in> set is. cur ?s \<noteq> Some j \<longrightarrow> lock_free (p_lock (procs ?s j))" "cpu_ok (cpu_of ?s)" using Cons.prems by auto
    from Cons.IH [OF this] show ?thesis
      using wakeup_one [OF lf, of ch] False e by (cases "\<exists>j \<in> set is. cur s \<noteq> Some j") simp_all
  qed
qed simp

lemma wakeup_eq:
  assumes "others_free s" "cpu_ok (cpu_of s)"
  shows "wakeup ch s = Inr (settled (woken ch {..<NPROC} s))"
proof -
  have h: "\<forall>i \<in> set [0..<NPROC]. cur s \<noteq> Some i \<longrightarrow> lock_free (p_lock (procs s i))" using assms(1) by (simp add: others_free_def)
  have "\<exists>i \<in> set [0..<NPROC]. cur s \<noteq> Some i"
    by (rule bexI [of _ "if cur s = Some 0 then 1 else 0"]) (auto simp: NPROC_def)
  then show ?thesis unfolding wakeup_def using wakeup_list [OF h assms(2), of ch] by (simp add: lessThan_atLeast0)
qed

text \<open>A kernel with one running process and one asleep in \<open>wait\<close>, all locks free.\<close>

definition demo_proc :: proc where
  "demo_proc = \<lparr>p_lock = initlock ''proc'', p_state = UNUSED, p_chan = None, p_killed = False, p_xstate = 0, p_pid = 0, p_parent = None, p_kstack = 0,
    p_sz = 0, p_pagetable = 0, p_trapframe = 0, p_context = \<lparr>ctx_ra = 0, ctx_sp = 0, ctx_s = []\<rparr>, p_ofile = replicate NOFILE None, p_cwd = None,
    p_name = replicate 16 0\<rparr>"

definition demo_cpu :: cpu where
  "demo_cpu = \<lparr>cpuid = 0, noff = 0, intena = False, intr = True\<rparr>"

definition demo_sys :: sys where
  "demo_sys = \<lparr>kst = demo_boot\<lparr>kcpu := demo_cpu\<rparr>, fsys = \<lparr>fs_log = demo_log, fs_sb = demo_sb, itable = (\<lambda>_. demo_file)\<rparr>,
    ftable = (\<lambda>_. \<lparr>f_type = FD_NONE, f_ref = 0, f_readable = False, f_writable = False, f_pipe = 0, f_ip = 0, f_off = 0, f_major = 0\<rparr>),
    pipes = (\<lambda>_. pipe_init (replicate PIPESIZE 0)), cons_st = demo_cons, uart_st = demo_uart,
    procs = (\<lambda>_. demo_proc)(0 := demo_proc\<lparr>p_state := SLEEPING, p_pid := 1, p_chan := Some (ProcChan 0)\<rparr>,
      1 := demo_proc\<lparr>p_state := RUNNING, p_pid := 2, p_parent := Some 0\<rparr>),
    wait_lock = initlock ''wait_lock'', pid_lock = initlock ''nextpid'', initproc = Some 0, nextpid = 3, cur = Some 1, ticks = 0,
    tickslock = initlock ''time'', first_ret = False, panicked = False, scause = 8, tx_idle = (\<lambda>_. True), kill_seen = (\<lambda>_. False), forkret_pc = 0, trampoline = 0x80007000\<rparr>"

lemma demo_free: "lock_free (p_lock (procs demo_sys i))" "cpu_ok (cpu_of demo_sys)"
  by (simp_all add: demo_sys_def demo_proc_def lock_free_def initlock_def cpu_ok_def demo_cpu_def)

text \<open>C33: \<open>wakeup(chan)\<close> returns, makes exactly the other processes that sleep on \<open>chan\<close> runnable, and changes nothing
  else: no other entry, no other field, every lock as before and the nesting depth and interrupt state of the
  CPU restored.\<close>

theorem wakeup_exact:
  assumes "others_free s" "cpu_ok (cpu_of s)"
  shows "\<exists>t. wakeup ch s = Inr t \<and>
    (\<forall>i. procs t i = (if i < NPROC \<and> cur s \<noteq> Some i \<and> p_state (procs s i) = SLEEPING \<and> p_chan (procs s i) = ch
      then (procs s i)\<lparr>p_state := RUNNABLE\<rparr> else procs s i)) \<and>
    t\<lparr>procs := procs s, kst := kst s\<rparr> = s \<and> kst t = (kst s)\<lparr>kcpu := settle (cpu_of s)\<rparr>"
  using wakeup_eq [OF assms, of ch] by (auto simp: settled_def set_cpu_def wake_def)

theorem wakeup_exact_witness:
  "\<exists>t. wakeup (Some (ProcChan 0)) demo_sys = Inr t \<and> p_state (procs t 0) = RUNNABLE \<and> p_state (procs t 1) = RUNNING"
proof -
  have "others_free demo_sys" by (simp add: others_free_def demo_free)
  from wakeup_exact [OF this demo_free(2), of "Some (ProcChan 0)"] obtain t where t: "wakeup (Some (ProcChan 0)) demo_sys = Inr t"
    "\<forall>i. procs t i = (if i < NPROC \<and> cur demo_sys \<noteq> Some i \<and> p_state (procs demo_sys i) = SLEEPING \<and> p_chan (procs demo_sys i) = Some (ProcChan 0)
      then (procs demo_sys i)\<lparr>p_state := RUNNABLE\<rparr> else procs demo_sys i)" by blast
  then show ?thesis by (simp add: demo_sys_def NPROC_def)
qed

section \<open>kill\<close>

definition marked :: "proc \<Rightarrow> proc" where
  "marked p = p\<lparr>p_killed := True, p_state := (if p_state p = SLEEPING then RUNNABLE else p_state p)\<rparr>"

lemma lock_pass:
  assumes "lock_free (p_lock (procs s i))" "cpu_ok (cpu_of s)"
  shows "rbind (acquire_p i s) (release_p i) = Inr (settled s)"
  using critical_section [OF assms, of "\<lambda>p. p"] by (simp add: upd_proc_id)

lemma acquire_p_entry: "acquire_p i s = Inr s1 \<Longrightarrow> procs s1 i = (procs s i)\<lparr>p_lock := p_lock (procs s1 i)\<rparr>"
  by (auto simp: acquire_p_def result_iff)

lemma kill_loop_eq:
  assumes "\<forall>i \<in> set is. lock_free (p_lock (procs s i))" "cpu_ok (cpu_of s)"
  shows "kill_loop pid is s = Inr (case find (\<lambda>i. p_pid (procs s i) = pid) is of
      None \<Rightarrow> (-1, (if is = [] then id else settled) s)
    | Some i \<Rightarrow> (0, settled (upd_proc i marked s)))"
  using assms
proof (induction "is" arbitrary: s)
  case (Cons i "is")
  have lf: "lock_free (p_lock (procs s i))" "cpu_ok (cpu_of s)" using Cons.prems by auto
  note aq = acquire_p_free [OF lf(1)]
  show ?case
  proof (cases "p_pid (procs s i) = pid")
    case True
    have "rbind (acquire_p i s) (\<lambda>s1. release_p i (upd_proc i marked s1)) = Inr (settled (upd_proc i marked s))"
      by (rule critical_section [OF lf]) (simp_all add: marked_def)
    then show ?thesis using True by (simp add: aq marked_def [abs_def] Let_def)
  next
    case False
    have "rbind (acquire_p i s) (release_p i) = Inr (settled s)" by (rule lock_pass [OF lf])
    then have "kill_loop pid (i # is) s = kill_loop pid is (settled s)" using False by (simp add: aq)
    also have "\<dots> = Inr (case find (\<lambda>i. p_pid (procs s i) = pid) is of
      None \<Rightarrow> (-1, settled s) | Some i \<Rightarrow> (0, settled (upd_proc i marked s)))"
      using Cons.IH [of "settled s"] Cons.prems by (auto simp: settled_def upd_proc_set_cpu split: option.splits)
    finally show ?thesis using False by simp
  qed
qed simp

text \<open>C34: \<open>kill(pid)\<close> marks the first process with that pid as killed, makes it runnable if it sleeps, and returns 0; when
  no process has the pid it returns -1.  Nothing else changes.\<close>

theorem kill_exact:
  assumes "\<forall>i < NPROC. lock_free (p_lock (procs s i))" "cpu_ok (cpu_of s)"
  shows "if \<forall>i < NPROC. p_pid (procs s i) \<noteq> pid then kill pid s = Inr (-1, settled s)
    else \<exists>i < NPROC. p_pid (procs s i) = pid \<and> (\<forall>j < i. p_pid (procs s j) \<noteq> pid) \<and>
      kill pid s = Inr (0, settled (upd_proc i (\<lambda>p. p\<lparr>p_killed := True, p_state := (if p_state p = SLEEPING then RUNNABLE else p_state p)\<rparr>) s))"
proof -
  have h: "\<forall>i \<in> set [0..<NPROC]. lock_free (p_lock (procs s i))" using assms(1) by simp
  have ne: "[0..<NPROC] \<noteq> []" by (simp add: NPROC_def)
  note k = kill_loop_eq [OF h assms(2), of pid, folded kill_def]
  show ?thesis
  proof (cases "find (\<lambda>i. p_pid (procs s i) = pid) [0..<NPROC]")
    case None
    then have "\<forall>i < NPROC. p_pid (procs s i) \<noteq> pid" by (auto simp: find_None_iff)
    then show ?thesis using k None ne by simp
  next
    case (Some i)
    then have i: "i < NPROC" "p_pid (procs s i) = pid" "\<forall>j < i. p_pid (procs s j) \<noteq> pid" by (auto simp: find_Some_iff)
    then show ?thesis using k Some by (auto simp: marked_def [abs_def])
  qed
qed

theorem kill_exact_witness:
  "\<exists>t. kill 1 demo_sys = Inr (0, t) \<and> kill 9 demo_sys = Inr (-1, settled demo_sys)"
proof -
  have f: "\<forall>i < NPROC. lock_free (p_lock (procs demo_sys i))" by (simp add: demo_free)
  have p: "p_pid (procs demo_sys 0) = 1" "0 < NPROC" "\<forall>i < NPROC. p_pid (procs demo_sys i) \<noteq> 9"
    by (auto simp: demo_sys_def demo_proc_def NPROC_def)
  show ?thesis using kill_exact [OF f demo_free(2), of 1] kill_exact [OF f demo_free(2), of 9] p by (auto split: if_splits)
qed

section \<open>sleep\<close>

text \<open>The state in which a sleeping process switches to the scheduler, and the one in which it is resumed.\<close>

definition off_cpu :: "nat \<Rightarrow> chan \<Rightarrow> sys \<Rightarrow> bool" where
  "off_cpu i ch t \<longleftrightarrow> p_state (procs t i) = SLEEPING \<and> p_chan (procs t i) = Some ch \<and> holding (p_lock (procs t i)) (cpu_of t) \<and>
    noff (cpu_of t) = 1 \<and> \<not> intr (cpu_of t) \<and> lock_free (wait_lock t)"

definition on_cpu :: "nat \<Rightarrow> sys \<Rightarrow> bool" where
  "on_cpu i u \<longleftrightarrow> holding (p_lock (procs u i)) (cpu_of u) \<and> noff (cpu_of u) = 1 \<and> \<not> intr (cpu_of u) \<and> lock_free (wait_lock u)"

lemma holding_taken: "holding (taken s lk) (push_off (cpu_of s))"
  by (simp add: holding_def taken_def push_off_def Let_def)

lemma release_held:
  assumes "holding lk c" "1 \<le> noff c" "\<not> intr c"
  shows "release lk c = Inr (lk\<lparr>lk_cpu := None, locked := 0\<rparr>,
    if noff c = 1 \<and> intena c then c\<lparr>noff := 0, intr := True\<rparr> else c\<lparr>noff := noff c - 1\<rparr>)"
  using assms by (auto simp: release_def pop_off_def Let_def)

lemma sleep_switch:
  assumes "cur s = Some i" "lock_free (p_lock (procs s i))" "holding (wait_lock s) (cpu_of s)" "noff (cpu_of s) = 1" "\<not> intr (cpu_of s)"
  obtains t where "off_cpu i ch t" "\<forall>j. j \<noteq> i \<longrightarrow> procs t j = procs s j"
    "\<And>swtch. sleep swtch ch release_wait acquire_wait s = rbind (swtch t) (\<lambda>u.
      rbind (release_p i (upd_proc i (p_chan_update (\<lambda>_. None)) (set_cpu ((cpu_of u)\<lparr>intena := intena (cpu_of t)\<rparr>) u))) acquire_wait)"
proof -
  define s1 where "s1 = set_cpu (push_off (cpu_of s)) (upd_proc i (\<lambda>p. p\<lparr>p_lock := taken s (p_lock p)\<rparr>) s)"
  have c1: "cpu_of s1 = push_off (cpu_of s)" "noff (cpu_of s1) = 2" "\<not> intr (cpu_of s1)" "wait_lock s1 = wait_lock s" "cur s1 = Some i"
    using assms by (simp_all add: s1_def push_off_def Let_def)
  have h1: "holding (wait_lock s1) (cpu_of s1)" using assms(3) c1(4) by (simp add: c1(1) holding_def push_off_def Let_def)
  define s2 where "s2 = set_cpu ((cpu_of s1)\<lparr>noff := 1\<rparr>) (s1\<lparr>wait_lock := (wait_lock s1)\<lparr>lk_cpu := None, locked := 0\<rparr>\<rparr>)"
  have r: "release_wait s1 = Inr s2" using release_held [OF h1] c1 by (simp add: release_wait_def s2_def)
  define t where "t = upd_proc i (\<lambda>p. p\<lparr>p_chan := Some ch, p_state := SLEEPING\<rparr>) s2"
  have p: "procs s1 = (procs s)(i := (procs s i)\<lparr>p_lock := taken s (p_lock (procs s i))\<rparr>)" by (simp add: s1_def)
  have pt: "procs t = (procs s)(i := (procs s i)\<lparr>p_lock := taken s (p_lock (procs s i)), p_chan := Some ch, p_state := SLEEPING\<rparr>)"
    by (simp add: t_def s2_def p)
  have ct: "cpu_of t = (push_off (cpu_of s))\<lparr>noff := 1\<rparr>" "cur t = Some i" using c1(1,5) by (simp_all add: t_def s2_def set_cpu_def)
  have ho: "holding (p_lock (procs t i)) (cpu_of t)" using holding_taken [of s "p_lock (procs s i)"] by (simp add: pt ct holding_def)
  have off: "off_cpu i ch t"
    using ho c1(3) by (simp add: off_cpu_def pt ct c1(1) [symmetric]) (simp add: t_def s2_def lock_free_def)
  have sc: "sched swtch t = rbind (swtch t) (\<lambda>u. Inr (set_cpu ((cpu_of u)\<lparr>intena := intena (cpu_of t)\<rparr>) u))" for swtch
    using off by (simp add: sched_def myproc_def ct(2) off_cpu_def Let_def)
  have "sleep swtch ch release_wait acquire_wait s = rbind (swtch t) (\<lambda>u.
      rbind (release_p i (upd_proc i (p_chan_update (\<lambda>_. None)) (set_cpu ((cpu_of u)\<lparr>intena := intena (cpu_of t)\<rparr>) u))) acquire_wait)" for swtch
    using assms(1) by (simp add: sleep_def myproc_def acquire_p_free [OF assms(2)] s1_def [symmetric] r t_def [symmetric] sc rbind_assoc)
  then show ?thesis using off pt by (intro that [of t]) auto
qed

lemma resume:
  assumes "on_cpu i u"
  shows "\<exists>v. rbind (release_p i (upd_proc i (p_chan_update (\<lambda>_. None)) (set_cpu ((cpu_of u)\<lparr>intena := b\<rparr>) u))) acquire_wait = Inr v \<and>
    p_chan (procs v i) = None \<and> lock_free (p_lock (procs v i)) \<and> holding (wait_lock v) (cpu_of v) \<and> noff (cpu_of v) = 1 \<and>
    p_state (procs v i) = p_state (procs u i) \<and> (\<forall>j. j \<noteq> i \<longrightarrow> procs v j = procs u j)"
proof -
  let ?u = "upd_proc i (p_chan_update (\<lambda>_. None)) (set_cpu ((cpu_of u)\<lparr>intena := b\<rparr>) u)"
  have c: "cpu_of ?u = (cpu_of u)\<lparr>intena := b\<rparr>" by simp
  have h: "holding (p_lock (procs ?u i)) (cpu_of ?u)" "1 \<le> noff (cpu_of ?u)" "\<not> intr (cpu_of ?u)"
    using assms by (auto simp: on_cpu_def holding_def)
  define c2 where "c2 = (if b then (cpu_of ?u)\<lparr>noff := 0, intr := True\<rparr> else (cpu_of ?u)\<lparr>noff := 0\<rparr>)"
  define w where "w = upd_proc i (\<lambda>p. p\<lparr>p_lock := (p_lock (procs u i))\<lparr>lk_cpu := None, locked := 0\<rparr>\<rparr>) (set_cpu c2 ?u)"
  have rel: "release_p i ?u = Inr w"
    using release_held [OF h] assms by (auto simp: release_p_def w_def c2_def on_cpu_def)
  have wl: "wait_lock w = wait_lock u" "cpu_of w = c2" "noff c2 = 0" by (auto simp: w_def c2_def upd_proc_def set_cpu_def)
  have lf: "lock_free (wait_lock w)" using assms wl(1) by (simp add: on_cpu_def)
  have aq: "acquire_wait w = Inr (set_cpu (push_off c2) (w\<lparr>wait_lock := taken w (wait_lock w)\<rparr>))"
    using acquire_free [OF lf, of c2] wl by (simp add: acquire_wait_def taken_def)
  have "p_chan (procs w i) = None" "lock_free (p_lock (procs w i))" "p_state (procs w i) = p_state (procs u i)" "\<forall>j. j \<noteq> i \<longrightarrow> procs w j = procs u j"
    by (simp_all add: w_def lock_free_def)
  moreover have "holding (taken w (wait_lock w)) (push_off c2)" using holding_taken [of w "wait_lock w"] wl(2) by simp
  moreover have "noff (push_off c2) = 1" using wl(3) by (simp add: push_off_def Let_def)
  ultimately show ?thesis using rel aq by (simp add: set_cpu_def)
qed

text \<open>C35: \<open>sleep\<close> gives up the lock and the CPU without a gap.  A process that calls \<open>sleep(chan, &wait_lock)\<close> with only
  \<open>wait_lock\<close> held passes all checks of \<open>sched\<close> and calls \<open>swtch\<close> in one particular state: it is marked as sleeping on \<open>chan\<close> and
  holds its own lock and no other, so no \<open>wakeup\<close> can miss it, \<open>wait_lock\<close> is free, and no other entry has changed.  What
  \<open>swtch\<close> does there decides the rest of the call: if it does not come back, neither does \<open>sleep\<close>; once it comes back
  with the process's own lock held, \<open>sleep\<close> returns with \<open>wait_lock\<close> held again, its own lock free, no channel, and all else in
  the table as \<open>swtch\<close> left it.\<close>

theorem sleep_hands_over:
  assumes "cur s = Some i" "lock_free (p_lock (procs s i))" "holding (wait_lock s) (cpu_of s)" "noff (cpu_of s) = 1" "\<not> intr (cpu_of s)"
  shows "\<exists>t. off_cpu i ch t \<and> (\<forall>j. j \<noteq> i \<longrightarrow> procs t j = procs s j) \<and>
    (\<forall>swtch e. swtch t = Inl e \<longrightarrow> sleep swtch ch release_wait acquire_wait s = Inl e) \<and>
    (\<forall>swtch u. swtch t = Inr u \<longrightarrow> on_cpu i u \<longrightarrow>
      (\<exists>v. sleep swtch ch release_wait acquire_wait s = Inr v \<and> p_chan (procs v i) = None \<and> lock_free (p_lock (procs v i)) \<and>
        holding (wait_lock v) (cpu_of v) \<and> noff (cpu_of v) = 1 \<and> p_state (procs v i) = p_state (procs u i) \<and>
        (\<forall>j. j \<noteq> i \<longrightarrow> procs v j = procs u j)))"
proof (rule sleep_switch [OF assms, of ch])
  fix t assume t: "off_cpu i ch t" "\<forall>j. j \<noteq> i \<longrightarrow> procs t j = procs s j"
    "\<And>swtch. sleep swtch ch release_wait acquire_wait s = rbind (swtch t) (\<lambda>u.
      rbind (release_p i (upd_proc i (p_chan_update (\<lambda>_. None)) (set_cpu ((cpu_of u)\<lparr>intena := intena (cpu_of t)\<rparr>) u))) acquire_wait)"
  show ?thesis using t(1,2) resume [where b = "intena (cpu_of t)"] by (intro exI [of _ t]) (simp add: t(3))
qed

theorem sleep_hands_over_witness:
  "\<exists>v. sleep (\<lambda>t. Inr (upd_proc 1 (p_state_update (\<lambda>_. RUNNING)) t)) (ProcChan 1) release_wait acquire_wait
    (demo_sys\<lparr>wait_lock := \<lparr>locked = 1, lk_name = ''wait_lock'', lk_cpu = Some 0\<rparr>, kst := demo_boot\<lparr>kcpu := demo_cpu\<lparr>noff := 1, intr := False\<rparr>\<rparr>\<rparr>) = Inr v \<and>
    p_chan (procs v 1) = None \<and> p_state (procs v 1) = RUNNING"
proof -
  let ?s = "demo_sys\<lparr>wait_lock := \<lparr>locked = 1, lk_name = ''wait_lock'', lk_cpu = Some 0\<rparr>, kst := demo_boot\<lparr>kcpu := demo_cpu\<lparr>noff := 1, intr := False\<rparr>\<rparr>\<rparr>"
  let ?w = "\<lambda>t. Inr (upd_proc 1 (p_state_update (\<lambda>_. RUNNING)) t) :: sys result"
  have h: "cur ?s = Some 1" "lock_free (p_lock (procs ?s 1))" "holding (wait_lock ?s) (cpu_of ?s)" "noff (cpu_of ?s) = 1" "\<not> intr (cpu_of ?s)"
    using demo_free(1) [of 1] by (simp_all add: demo_cpu_def holding_def) (simp add: demo_sys_def)
  obtain t where t: "off_cpu 1 (ProcChan 1) t"
    "\<forall>swtch u. swtch t = Inr u \<longrightarrow> on_cpu 1 u \<longrightarrow>
      (\<exists>v. sleep swtch (ProcChan 1) release_wait acquire_wait ?s = Inr v \<and> p_chan (procs v 1) = None \<and> lock_free (p_lock (procs v 1)) \<and>
        holding (wait_lock v) (cpu_of v) \<and> noff (cpu_of v) = 1 \<and> p_state (procs v 1) = p_state (procs u 1) \<and>
        (\<forall>j. j \<noteq> 1 \<longrightarrow> procs v j = procs u j))"
    using sleep_hands_over [OF h, of "ProcChan 1"] by (elim exE conjE) (rule that)
  have "on_cpu 1 (upd_proc 1 (p_state_update (\<lambda>_. RUNNING)) t)" using t(1) by (simp add: off_cpu_def on_cpu_def)
  then show ?thesis using spec [OF spec [OF t(2), of ?w], of "upd_proc 1 (p_state_update (\<lambda>_. RUNNING)) t"] by auto
qed

end
