(* ===== verification/Wakeup.thy ===== *)
theory Wakeup
  imports Proc
begin

text \<open>\<open>sleep\<close> and \<open>wakeup\<close> (\<open>kernel/proc.c\<close>) under interleaving.  Processes share a condition protected by a lock \<open>lk\<close>: a
  waiting process holds \<open>lk\<close>, and while the condition is false calls \<open>sleep(chan, lk)\<close>; a process that makes it
  true holds \<open>lk\<close> and calls \<open>wakeup(chan)\<close>.  Each step is one access under a lock; \<open>lk\<close> and the locks \<open>p->lock\<close> are
  given by their holders.  A process may also take \<open>lk\<close> to look at the condition only, and \<open>kill\<close> may wake a process that sleeps.\<close>

section \<open>Steps\<close>

text \<open>Where a process is: testing the condition; in \<open>sleep\<close> before \<open>acquire(&p->lock)\<close>, before \<open>release(lk)\<close>, before
  setting \<open>p->chan\<close> and \<open>p->state\<close>, in \<open>sched\<close> before the scheduler releases \<open>p->lock\<close>, off the CPU, back with \<open>p->lock\<close>
  held, before \<open>acquire(lk)\<close>; setting the condition; in the loop of \<open>wakeup\<close> at entry \<open>k\<close>, without and with its lock; looking.\<close>

datatype wpc = Idle | Check | LockP | UnlockLk | Mark | InSched | Asleep | Resumed | Relock | Establish | Scan nat | Visit nat | Look

record wstate =
  lk_holder :: "nat option"
  p_holder :: "nat \<Rightarrow> nat option"
  w_state :: "nat \<Rightarrow> procstate"
  w_chan :: "nat \<Rightarrow> bool"
  w_cond :: bool
  w_pc :: "nat \<Rightarrow> wpc"

inductive wstep :: "wstate \<Rightarrow> wstate \<Rightarrow> bool" where
  wait_enter: "w_pc s i = Idle \<Longrightarrow> lk_holder s = None \<Longrightarrow> wstep s (s\<lparr>lk_holder := Some i, w_pc := (w_pc s)(i := Check)\<rparr>)"
| check_true: "w_pc s i = Check \<Longrightarrow> w_cond s \<Longrightarrow> wstep s (s\<lparr>w_cond := b, lk_holder := None, w_pc := (w_pc s)(i := Idle)\<rparr>)"
| check_false: "w_pc s i = Check \<Longrightarrow> \<not> w_cond s \<Longrightarrow> wstep s (s\<lparr>w_pc := (w_pc s)(i := LockP)\<rparr>)"
| lock_p: "w_pc s i = LockP \<Longrightarrow> p_holder s i = None \<Longrightarrow> wstep s (s\<lparr>p_holder := (p_holder s)(i := Some i), w_pc := (w_pc s)(i := UnlockLk)\<rparr>)"
| unlock_lk: "w_pc s i = UnlockLk \<Longrightarrow> wstep s (s\<lparr>lk_holder := None, w_pc := (w_pc s)(i := Mark)\<rparr>)"
| mark: "w_pc s i = Mark \<Longrightarrow>
    wstep s (s\<lparr>w_chan := (w_chan s)(i := True), w_state := (w_state s)(i := SLEEPING), w_pc := (w_pc s)(i := InSched)\<rparr>)"
| switch: "w_pc s i = InSched \<Longrightarrow> wstep s (s\<lparr>p_holder := (p_holder s)(i := None), w_pc := (w_pc s)(i := Asleep)\<rparr>)"
| resume: "w_pc s i = Asleep \<Longrightarrow> w_state s i = RUNNABLE \<Longrightarrow> p_holder s i = None \<Longrightarrow>
    wstep s (s\<lparr>p_holder := (p_holder s)(i := Some i), w_state := (w_state s)(i := RUNNING), w_pc := (w_pc s)(i := Resumed)\<rparr>)"
| tidy: "w_pc s i = Resumed \<Longrightarrow>
    wstep s (s\<lparr>w_chan := (w_chan s)(i := False), p_holder := (p_holder s)(i := None), w_pc := (w_pc s)(i := Relock)\<rparr>)"
| relock: "w_pc s i = Relock \<Longrightarrow> lk_holder s = None \<Longrightarrow> wstep s (s\<lparr>lk_holder := Some i, w_pc := (w_pc s)(i := Check)\<rparr>)"
| wake_enter: "w_pc s i = Idle \<Longrightarrow> lk_holder s = None \<Longrightarrow> wstep s (s\<lparr>lk_holder := Some i, w_pc := (w_pc s)(i := Establish)\<rparr>)"
| establish: "w_pc s i = Establish \<Longrightarrow> wstep s (s\<lparr>w_cond := True, w_pc := (w_pc s)(i := Scan 0)\<rparr>)"
| scan_self: "w_pc s i = Scan i \<Longrightarrow> i < NPROC \<Longrightarrow> wstep s (s\<lparr>w_pc := (w_pc s)(i := Scan (i + 1))\<rparr>)"
| scan_lock: "w_pc s i = Scan k \<Longrightarrow> k < NPROC \<Longrightarrow> k \<noteq> i \<Longrightarrow> p_holder s k = None \<Longrightarrow>
    wstep s (s\<lparr>p_holder := (p_holder s)(k := Some i), w_pc := (w_pc s)(i := Visit k)\<rparr>)"
| visit: "w_pc s i = Visit k \<Longrightarrow>
    wstep s (s\<lparr>w_state := (w_state s)(k := (if w_state s k = SLEEPING \<and> w_chan s k then RUNNABLE else w_state s k)),
      p_holder := (p_holder s)(k := None), w_pc := (w_pc s)(i := Scan (k + 1))\<rparr>)"
| look_enter: "w_pc s i = Idle \<Longrightarrow> lk_holder s = None \<Longrightarrow> wstep s (s\<lparr>lk_holder := Some i, w_pc := (w_pc s)(i := Look)\<rparr>)"
| look_end: "w_pc s i = Look \<Longrightarrow> wstep s (s\<lparr>lk_holder := None, w_pc := (w_pc s)(i := Idle)\<rparr>)"
| kill_wake: "w_state s k = SLEEPING \<Longrightarrow> p_holder s k = None \<Longrightarrow> wstep s (s\<lparr>w_state := (w_state s)(k := RUNNABLE)\<rparr>)"
| scan_end: "w_pc s i = Scan k \<Longrightarrow> NPROC \<le> k \<Longrightarrow> wstep s (s\<lparr>lk_holder := None, w_pc := (w_pc s)(i := Idle)\<rparr>)"

inductive wreach :: "wstate \<Rightarrow> bool" where
  start: "lk_holder s = None \<Longrightarrow> p_holder s = (\<lambda>_. None) \<Longrightarrow> w_state s = (\<lambda>_. RUNNING) \<Longrightarrow> w_pc s = (\<lambda>_. Idle) \<Longrightarrow> wreach s"
| step: "wreach s \<Longrightarrow> wstep s t \<Longrightarrow> wreach t"

section \<open>Invariant\<close>

fun has_lk :: "wpc \<Rightarrow> bool" where
  "has_lk Check = True"
| "has_lk LockP = True"
| "has_lk UnlockLk = True"
| "has_lk Establish = True"
| "has_lk (Scan k) = True"
| "has_lk (Visit k) = True"
| "has_lk Look = True"
| "has_lk _ = False"

fun has_p :: "wpc \<Rightarrow> bool" where
  "has_p UnlockLk = True"
| "has_p Mark = True"
| "has_p InSched = True"
| "has_p Resumed = True"
| "has_p _ = False"

text \<open>The entries a waker has still to visit.\<close>

fun ahead :: "wpc \<Rightarrow> nat \<Rightarrow> bool" where
  "ahead (Scan k) j \<longleftrightarrow> k \<le> j"
| "ahead (Visit k) j \<longleftrightarrow> k \<le> j"
| "ahead _ j \<longleftrightarrow> False"

definition asleep :: "wstate \<Rightarrow> nat \<Rightarrow> bool" where
  "asleep s j \<longleftrightarrow> w_pc s j = Mark \<or> w_pc s j = InSched \<or> w_pc s j = Asleep \<and> w_state s j = SLEEPING"

definition lk_inv :: "wstate \<Rightarrow> bool" where
  "lk_inv s \<longleftrightarrow> (\<forall>i. lk_holder s = Some i \<longleftrightarrow> has_lk (w_pc s i))"

definition p_inv :: "wstate \<Rightarrow> bool" where
  "p_inv s \<longleftrightarrow> (\<forall>i. has_p (w_pc s i) \<longrightarrow> p_holder s i = Some i) \<and> (\<forall>i k. w_pc s i = Visit k \<longrightarrow> p_holder s k = Some i \<and> k \<noteq> i)"

definition st_inv :: "wstate \<Rightarrow> bool" where
  "st_inv s \<longleftrightarrow> (\<forall>i. w_state s i = SLEEPING \<longrightarrow> w_pc s i = InSched \<or> w_pc s i = Asleep) \<and>
    (\<forall>i. w_pc s i = InSched \<or> w_pc s i = Asleep \<longrightarrow> w_chan s i)"

definition cond_inv :: "wstate \<Rightarrow> bool" where
  "cond_inv s \<longleftrightarrow> (\<forall>i. w_pc s i = LockP \<or> w_pc s i = UnlockLk \<longrightarrow> \<not> w_cond s)"

definition wake_inv :: "wstate \<Rightarrow> bool" where
  "wake_inv s \<longleftrightarrow> (\<forall>j < NPROC. w_cond s \<longrightarrow> asleep s j \<longrightarrow> (\<exists>i. ahead (w_pc s i) j))"

lemma lk_unique: "lk_inv s \<Longrightarrow> has_lk (w_pc s i) \<Longrightarrow> has_lk (w_pc s j) \<Longrightarrow> i = j"
  unfolding lk_inv_def by (metis option.inject)

lemma lk_drop:
  assumes "lk_inv s" "has_lk (w_pc s i)" "\<not> has_lk pc"
  shows "lk_inv (s\<lparr>lk_holder := None, w_pc := (w_pc s)(i := pc)\<rparr>)"
proof -
  have "\<not> has_lk (w_pc s j)" if "j \<noteq> i" for j using lk_unique [OF assms(1,2), of j] that by blast
  then show ?thesis using assms(3) by (simp add: lk_inv_def)
qed

lemma lk_step: "wstep s t \<Longrightarrow> lk_inv s \<Longrightarrow> lk_inv t"
proof (induction rule: wstep.induct)
  case (check_true s i b)
  then have "lk_inv (s\<lparr>lk_holder := None, w_pc := (w_pc s)(i := wpc.Idle)\<rparr>)" by (intro lk_drop) auto
  then show ?case by (simp add: lk_inv_def)
next
  case (unlock_lk s i)
  then show ?case by (intro lk_drop) auto
next
  case (scan_end s i k)
  then show ?case by (intro lk_drop) auto
next
  case (look_end s i)
  then show ?case by (intro lk_drop) auto
qed (unfold lk_inv_def, auto split: if_splits)

lemma p_unique: "p_inv s \<Longrightarrow> has_p (w_pc s i) \<Longrightarrow> w_pc s j \<noteq> Visit i"
  unfolding p_inv_def by (metis option.inject)

lemma visit_unique: "p_inv s \<Longrightarrow> w_pc s i = Visit k \<Longrightarrow> w_pc s j = Visit k \<Longrightarrow> i = j"
  unfolding p_inv_def by (metis option.inject)

lemma p_step: "wstep s t \<Longrightarrow> p_inv s \<Longrightarrow> p_inv t"
proof (induction rule: wstep.induct)
  case (switch s i)
  then have "\<forall>j. w_pc s j \<noteq> Visit i" using p_unique [of s i] by simp
  then show ?case using switch unfolding p_inv_def by auto
next
  case (tidy s i)
  then have "\<forall>j. w_pc s j \<noteq> Visit i" using p_unique [of s i] by simp
  then show ?case using tidy unfolding p_inv_def by auto
next
  case (visit s i k)
  then have "\<forall>j. j \<noteq> i \<longrightarrow> w_pc s j \<noteq> Visit k" "\<not> has_p (w_pc s k)" using visit_unique [of s i k] p_unique [of s k i] by blast+
  then show ?case using visit unfolding p_inv_def by auto
qed (unfold p_inv_def, auto split: if_splits)

lemma st_step: "wstep s t \<Longrightarrow> st_inv s \<Longrightarrow> st_inv t"
proof (induction rule: wstep.induct)
qed (unfold st_inv_def, auto split: if_splits)

lemma cond_step: "wstep s t \<Longrightarrow> lk_inv s \<Longrightarrow> cond_inv s \<Longrightarrow> cond_inv t"
proof (induction rule: wstep.induct)
  case (check_true s i b)
  then have "\<not> has_lk (w_pc s j)" if "j \<noteq> i" for j using lk_unique [of s i j] that by auto
  then show ?case unfolding cond_inv_def by auto (metis has_lk.simps(2,3))+
next
  case (establish s i)
  then have "\<not> has_lk (w_pc s j)" if "j \<noteq> i" for j using lk_unique [of s i j] that by auto
  then show ?case unfolding cond_inv_def by auto (metis has_lk.simps(2,3))+
next
  case (check_false s i)
  then show ?case unfolding cond_inv_def by auto
qed (unfold cond_inv_def, auto split: if_splits)

lemma ahead_lk: "ahead pc j \<Longrightarrow> has_lk pc"
  by (cases pc) auto

text \<open>A step of a process that is not in \<open>wakeup\<close>, and one of a process that is.\<close>

lemma wake_keep:
  assumes "wake_inv s" "\<And>j. \<not> ahead (w_pc s i) j" "w_pc t = (w_pc s)(i := pc)" "w_cond t \<Longrightarrow> w_cond s" "\<And>j. asleep t j \<Longrightarrow> asleep s j"
  shows "wake_inv t"
  unfolding wake_inv_def
proof (intro allI impI)
  fix j assume "j < NPROC" "w_cond t" "asleep t j"
  then obtain k where "ahead (w_pc s k) j" using assms(1,4,5) unfolding wake_inv_def by blast
  then show "\<exists>i. ahead (w_pc t i) j" using assms(2,3) by (intro exI [of _ k]) (metis fun_upd_other)
qed

lemma wake_only:
  assumes "lk_inv s" "wake_inv s" "has_lk (w_pc s i)"
    and "\<And>j. j < NPROC \<Longrightarrow> w_cond t \<Longrightarrow> asleep t j \<Longrightarrow> w_cond s \<and> asleep s j"
    and "\<And>j. j < NPROC \<Longrightarrow> asleep t j \<Longrightarrow> ahead (w_pc s i) j \<Longrightarrow> ahead (w_pc t i) j"
  shows "wake_inv t"
  unfolding wake_inv_def
proof (intro allI impI)
  fix j assume j: "j < NPROC" "w_cond t" "asleep t j"
  then obtain k where k: "ahead (w_pc s k) j" using assms(2,4) unfolding wake_inv_def by blast
  then have "k = i" using lk_unique [OF assms(1) ahead_lk assms(3)] by blast
  then show "\<exists>i. ahead (w_pc t i) j" using assms(5) j k by blast
qed

lemma wake_step:
  assumes "wstep s t" "lk_inv s" "p_inv s" "st_inv s" "cond_inv s" "wake_inv s"
  shows "wake_inv t"
  using assms
proof (induction rule: wstep.induct)
  case (check_true s i b)
  show ?case by (rule wake_only [where i = i, OF check_true(3,7)]) (use check_true in \<open>auto simp: asleep_def split: if_splits\<close>)
next
  case (unlock_lk s i)
  then have "\<not> w_cond s" unfolding cond_inv_def by blast
  then show ?case by (simp add: wake_inv_def)
next
  case (establish s i)
  show ?case by (simp add: wake_inv_def) (metis ahead.simps(1) le0 fun_upd_same)
next
  case (scan_self s i)
  show ?case by (rule wake_only [where i = i, OF scan_self(3,7)]) (use scan_self in \<open>auto simp: asleep_def split: if_splits\<close>)
next
  case (scan_lock s i k)
  show ?case by (rule wake_only [where i = i, OF scan_lock(5,9)]) (use scan_lock in \<open>auto simp: asleep_def split: if_splits\<close>)
next
  case (visit s i k)
  have k: "\<not> has_p (w_pc s k)" using p_unique [OF visit(3), of k i] visit(1) by blast
  have c: "w_pc s k = Asleep \<Longrightarrow> w_chan s k" using visit(4) unfolding st_inv_def by blast
  have ki: "k \<noteq> i" using visit(1,3) unfolding p_inv_def by blast
  show ?case
  proof (rule wake_only [where i = i, OF visit(2,6)])
    let ?t = "s\<lparr>w_state := (w_state s)(k := (if w_state s k = SLEEPING \<and> w_chan s k then RUNNABLE else w_state s k)),
      p_holder := (p_holder s)(k := None), w_pc := (w_pc s)(i := Scan (k + 1))\<rparr>"
    have nk: "\<not> asleep ?t k" using k c ki by (auto simp: asleep_def)
    show "has_lk (w_pc s i)" using visit(1) by simp
    fix j assume "asleep ?t j"
    then have j: "j \<noteq> k" "asleep s j" using nk by (auto simp: asleep_def split: if_splits)
    show "w_cond s \<and> asleep s j" if "w_cond ?t" using that j by simp
    show "ahead (w_pc ?t i) j" if "ahead (w_pc s i) j" using that j visit(1) by simp
  qed
next
  case (scan_end s i k)
  show ?case by (rule wake_only [where i = i, OF scan_end(3,7)]) (use scan_end in \<open>auto simp: asleep_def split: if_splits\<close>)
next
  case (look_enter s i)
  show ?case by (rule wake_keep [where i = i, OF look_enter(7)]) (use look_enter in \<open>auto simp: asleep_def split: if_splits\<close>)
next
  case (look_end s i)
  show ?case by (rule wake_only [where i = i, OF look_end(2,6)]) (use look_end in \<open>auto simp: asleep_def split: if_splits\<close>)
next
  case (kill_wake s k)
  then show ?case unfolding wake_inv_def asleep_def by (auto split: if_splits)
next
  case (wait_enter s i)
  show ?case by (rule wake_keep [where i = i, OF wait_enter(7)]) (use wait_enter in \<open>auto simp: asleep_def split: if_splits\<close>)
next
  case (check_false s i)
  show ?case by (rule wake_keep [where i = i, OF check_false(7)]) (use check_false in \<open>auto simp: asleep_def split: if_splits\<close>)
next
  case (lock_p s i)
  show ?case by (rule wake_keep [where i = i, OF lock_p(7)]) (use lock_p in \<open>auto simp: asleep_def split: if_splits\<close>)
next
  case (mark s i)
  show ?case by (rule wake_keep [where i = i, OF mark(6)]) (use mark in \<open>auto simp: asleep_def split: if_splits\<close>)
next
  case (switch s i)
  show ?case by (rule wake_keep [where i = i, OF switch(6)]) (use switch in \<open>auto simp: asleep_def split: if_splits\<close>)
next
  case (resume s i)
  show ?case by (rule wake_keep [where i = i, OF resume(8)]) (use resume in \<open>auto simp: asleep_def split: if_splits\<close>)
next
  case (tidy s i)
  show ?case by (rule wake_keep [where i = i, OF tidy(6)]) (use tidy in \<open>auto simp: asleep_def split: if_splits\<close>)
next
  case (relock s i)
  show ?case by (rule wake_keep [where i = i, OF relock(7)]) (use relock in \<open>auto simp: asleep_def split: if_splits\<close>)
next
  case (wake_enter s i)
  show ?case by (rule wake_keep [where i = i, OF wake_enter(7)]) (use wake_enter in \<open>auto simp: asleep_def split: if_splits\<close>)
qed

lemma wreach_inv: "wreach s \<Longrightarrow> lk_inv s \<and> p_inv s \<and> st_inv s \<and> cond_inv s \<and> wake_inv s"
proof (induction rule: wreach.induct)
  case (start s)
  then show ?case by (simp add: lk_inv_def p_inv_def st_inv_def cond_inv_def wake_inv_def asleep_def)
next
  case (step s t)
  then show ?case using lk_step p_step st_step cond_step wake_step by blast
qed

lemma sleeper_ahead:
  assumes "wreach s" "w_cond s" "j < NPROC" "w_pc s j = Mark \<or> w_pc s j = InSched \<or> w_state s j = SLEEPING"
  shows "\<exists>i. lk_holder s = Some i \<and> ahead (w_pc s i) j"
proof -
  have inv: "lk_inv s" "st_inv s" "wake_inv s" using wreach_inv [OF assms(1)] by auto
  have "asleep s j" using assms(4) inv(2) by (auto simp: asleep_def st_inv_def)
  then obtain i where i: "ahead (w_pc s i) j" using inv(3) assms(2,3) unfolding wake_inv_def by blast
  then have "lk_holder s = Some i" using inv(1) ahead_lk unfolding lk_inv_def by blast
  then show ?thesis using i by blast
qed

text \<open>C36: No wakeup is lost.  In every interleaving, when nobody holds \<open>lk\<close> and the condition is true, no process is asleep on
  the channel nor on the way there; and while a waker that has made the condition true still holds \<open>lk\<close>, every
  process that is asleep or on the way has its entry still ahead of the waker's loop.\<close>

theorem no_lost_wakeup:
  assumes "wreach s" "w_cond s" "j < NPROC" "w_pc s j = Mark \<or> w_pc s j = InSched \<or> w_state s j = SLEEPING"
  shows "\<exists>i. lk_holder s = Some i \<and> ahead (w_pc s i) j"
  by (rule sleeper_ahead [OF assms])

text \<open>Process 0 goes to sleep, then process 1 makes the condition true.\<close>

definition demo_wait :: wstate where
  "demo_wait = \<lparr>lk_holder = None, p_holder = (\<lambda>_. None), w_state = (\<lambda>_. RUNNING), w_chan = (\<lambda>_. False), w_cond = False, w_pc = (\<lambda>_. wpc.Idle)\<rparr>"

lemma demo_wait_reach:
  "wreach \<lparr>lk_holder = Some 1, p_holder = (\<lambda>_. None), w_state = (\<lambda>_. RUNNING)(0 := SLEEPING), w_chan = (\<lambda>_. False)(0 := True),
    w_cond = True, w_pc = (\<lambda>_. wpc.Idle)(0 := Asleep, 1 := Scan 0)\<rparr>"
proof -
  note go = wreach.step
  have "wreach demo_wait" by (rule wreach.start) (simp_all add: demo_wait_def)
  from go [OF this wstep.wait_enter [of _ 0]] have "wreach (demo_wait\<lparr>lk_holder := Some 0, w_pc := (\<lambda>_. wpc.Idle)(0 := Check)\<rparr>)"
    by (simp add: demo_wait_def)
  from go [OF this wstep.check_false [of _ 0]] have "wreach (demo_wait\<lparr>lk_holder := Some 0, w_pc := (\<lambda>_. wpc.Idle)(0 := LockP)\<rparr>)"
    by (simp add: demo_wait_def)
  from go [OF this wstep.lock_p [of _ 0]] have "wreach (demo_wait\<lparr>lk_holder := Some 0, p_holder := (\<lambda>_. None)(0 := Some 0), w_pc := (\<lambda>_. wpc.Idle)(0 := UnlockLk)\<rparr>)"
    by (simp add: demo_wait_def)
  from go [OF this wstep.unlock_lk [of _ 0]] have "wreach (demo_wait\<lparr>p_holder := (\<lambda>_. None)(0 := Some 0), w_pc := (\<lambda>_. wpc.Idle)(0 := Mark)\<rparr>)"
    by (simp add: demo_wait_def)
  from go [OF this wstep.mark [of _ 0]] have "wreach (demo_wait\<lparr>p_holder := (\<lambda>_. None)(0 := Some 0), w_state := (\<lambda>_. RUNNING)(0 := SLEEPING),
      w_chan := (\<lambda>_. False)(0 := True), w_pc := (\<lambda>_. wpc.Idle)(0 := InSched)\<rparr>)"
    by (simp add: demo_wait_def)
  from go [OF this wstep.switch [of _ 0]] have "wreach (demo_wait\<lparr>w_state := (\<lambda>_. RUNNING)(0 := SLEEPING),
      w_chan := (\<lambda>_. False)(0 := True), w_pc := (\<lambda>_. wpc.Idle)(0 := Asleep)\<rparr>)"
    by (simp add: demo_wait_def fun_upd_idem)
  from go [OF this wstep.wake_enter [of _ 1]] have "wreach (demo_wait\<lparr>lk_holder := Some 1, w_state := (\<lambda>_. RUNNING)(0 := SLEEPING),
      w_chan := (\<lambda>_. False)(0 := True), w_pc := (\<lambda>_. wpc.Idle)(0 := Asleep, 1 := Establish)\<rparr>)"
    by (simp add: demo_wait_def)
  from go [OF this wstep.establish [of _ 1]] show ?thesis by (simp add: demo_wait_def)
qed

theorem no_lost_wakeup_witness:
  "\<exists>s i. wreach s \<and> w_cond s \<and> w_state s 0 = SLEEPING \<and> lk_holder s = Some i \<and> ahead (w_pc s i) 0"
proof -
  let ?s = "\<lparr>lk_holder = Some 1, p_holder = (\<lambda>_. None), w_state = (\<lambda>_. RUNNING)(0 := SLEEPING), w_chan = (\<lambda>_. False)(0 := True),
    w_cond = True, w_pc = (\<lambda>_. wpc.Idle)(0 := Asleep, 1 := Scan 0)\<rparr>"
  have "w_cond ?s" "w_state ?s 0 = SLEEPING" by simp_all
  moreover from this have "\<exists>i. lk_holder ?s = Some i \<and> ahead (w_pc ?s i) 0"
    by (intro no_lost_wakeup [OF demo_wait_reach]) (simp_all add: NPROC_def)
  ultimately show ?thesis using demo_wait_reach by blast
qed

end
