(* ===== verification/Sleeplock.thy ===== *)
theory Sleeplock
  imports Wakeup
begin

text \<open>Sleep locks (\<open>kernel/sleeplock.c\<close>) under interleaving, statement by statement: the inner spin lock \<open>lk->lk\<close> given by its
  holder, the fields \<open>locked\<close> and \<open>pid\<close>, the loop around \<open>sleep\<close> with the steps of \<open>sleep\<close>, and \<open>wakeup\<close> in \<open>releasesleep\<close>.  A process calls
  \<open>releasesleep\<close> only for a lock it holds, as all callers in the kernel do, and \<open>kill\<close> may wake a process that sleeps.  The
  lock is an instance of the protocol of theory \<open>Wakeup\<close>, with \<open>locked == 0\<close> as the condition; the simulation gives that
  no wakeup is lost.  The other half is that the critical sections under \<open>lk->lk\<close> have the effect of the functions \<open>acquiresleep\<close> and
  \<open>releasesleep\<close> with which the buffer cache and the inodes work.\<close>

section \<open>Steps\<close>

text \<open>Where a process is.  Outside the lock; in \<open>acquiresleep\<close> with \<open>lk->lk\<close> held before the test of \<open>lk->locked\<close>, before the two
  assignments and before \<open>release(&lk->lk)\<close>; in \<open>sleep(lk, &lk->lk)\<close> as in theory \<open>Wakeup\<close>; inside the lock; in \<open>releasesleep\<close> with \<open>lk->lk\<close>
  held before the two assignments and in the loop of \<open>wakeup(lk)\<close>; in \<open>holdingsleep\<close> with \<open>lk->lk\<close> held, called from inside or not.\<close>

datatype slpc = Outside | Test | SetLocked | SetPid | RelInner | SlLockP | SlUnlock | SlMark | SlSched | SlAsleep | SlResumed | SlRelock |
  Inside | ClrLocked | ClrPid | SlScan nat | SlVisit nat | Query bool

record slstate =
  inner :: "nat option"
  slk :: sleeplock
  sp_holder :: "nat \<Rightarrow> nat option"
  sp_state :: "nat \<Rightarrow> procstate"
  sp_chan :: "nat \<Rightarrow> bool"
  sl_pc :: "nat \<Rightarrow> slpc"

inductive slstep :: "(nat \<Rightarrow> int) \<Rightarrow> slstate \<Rightarrow> slstate \<Rightarrow> bool" for pid where
  acq_inner: "sl_pc s i = Outside \<Longrightarrow> inner s = None \<Longrightarrow> slstep pid s (s\<lparr>inner := Some i, sl_pc := (sl_pc s)(i := Test)\<rparr>)"
| acq_busy: "sl_pc s i = Test \<Longrightarrow> sl_locked (slk s) \<Longrightarrow> slstep pid s (s\<lparr>sl_pc := (sl_pc s)(i := SlLockP)\<rparr>)"
| acq_free: "sl_pc s i = Test \<Longrightarrow> \<not> sl_locked (slk s) \<Longrightarrow> slstep pid s (s\<lparr>sl_pc := (sl_pc s)(i := SetLocked)\<rparr>)"
| acq_locked: "sl_pc s i = SetLocked \<Longrightarrow>
    slstep pid s (s\<lparr>slk := (slk s)\<lparr>sl_locked := True\<rparr>, sl_pc := (sl_pc s)(i := SetPid)\<rparr>)"
| acq_pid: "sl_pc s i = SetPid \<Longrightarrow>
    slstep pid s (s\<lparr>slk := (slk s)\<lparr>sl_pid := pid i\<rparr>, sl_pc := (sl_pc s)(i := RelInner)\<rparr>)"
| acq_done: "sl_pc s i = RelInner \<Longrightarrow> slstep pid s (s\<lparr>inner := None, sl_pc := (sl_pc s)(i := Inside)\<rparr>)"
| sleep_lock: "sl_pc s i = SlLockP \<Longrightarrow> sp_holder s i = None \<Longrightarrow>
    slstep pid s (s\<lparr>sp_holder := (sp_holder s)(i := Some i), sl_pc := (sl_pc s)(i := SlUnlock)\<rparr>)"
| sleep_unlock: "sl_pc s i = SlUnlock \<Longrightarrow> slstep pid s (s\<lparr>inner := None, sl_pc := (sl_pc s)(i := SlMark)\<rparr>)"
| sleep_mark: "sl_pc s i = SlMark \<Longrightarrow>
    slstep pid s (s\<lparr>sp_chan := (sp_chan s)(i := True), sp_state := (sp_state s)(i := SLEEPING), sl_pc := (sl_pc s)(i := SlSched)\<rparr>)"
| sleep_switch: "sl_pc s i = SlSched \<Longrightarrow>
    slstep pid s (s\<lparr>sp_holder := (sp_holder s)(i := None), sl_pc := (sl_pc s)(i := SlAsleep)\<rparr>)"
| sleep_resume: "sl_pc s i = SlAsleep \<Longrightarrow> sp_state s i = RUNNABLE \<Longrightarrow> sp_holder s i = None \<Longrightarrow>
    slstep pid s (s\<lparr>sp_holder := (sp_holder s)(i := Some i), sp_state := (sp_state s)(i := RUNNING), sl_pc := (sl_pc s)(i := SlResumed)\<rparr>)"
| sleep_tidy: "sl_pc s i = SlResumed \<Longrightarrow>
    slstep pid s (s\<lparr>sp_chan := (sp_chan s)(i := False), sp_holder := (sp_holder s)(i := None), sl_pc := (sl_pc s)(i := SlRelock)\<rparr>)"
| sleep_relock: "sl_pc s i = SlRelock \<Longrightarrow> inner s = None \<Longrightarrow> slstep pid s (s\<lparr>inner := Some i, sl_pc := (sl_pc s)(i := Test)\<rparr>)"
| rel_inner: "sl_pc s i = Inside \<Longrightarrow> inner s = None \<Longrightarrow> slstep pid s (s\<lparr>inner := Some i, sl_pc := (sl_pc s)(i := ClrLocked)\<rparr>)"
| rel_locked: "sl_pc s i = ClrLocked \<Longrightarrow>
    slstep pid s (s\<lparr>slk := (slk s)\<lparr>sl_locked := False\<rparr>, sl_pc := (sl_pc s)(i := ClrPid)\<rparr>)"
| rel_pid: "sl_pc s i = ClrPid \<Longrightarrow>
    slstep pid s (s\<lparr>slk := (slk s)\<lparr>sl_pid := 0\<rparr>, sl_pc := (sl_pc s)(i := SlScan 0)\<rparr>)"
| wake_self: "sl_pc s i = SlScan i \<Longrightarrow> i < NPROC \<Longrightarrow> slstep pid s (s\<lparr>sl_pc := (sl_pc s)(i := SlScan (i + 1))\<rparr>)"
| wake_lock: "sl_pc s i = SlScan k \<Longrightarrow> k < NPROC \<Longrightarrow> k \<noteq> i \<Longrightarrow> sp_holder s k = None \<Longrightarrow>
    slstep pid s (s\<lparr>sp_holder := (sp_holder s)(k := Some i), sl_pc := (sl_pc s)(i := SlVisit k)\<rparr>)"
| wake_visit: "sl_pc s i = SlVisit k \<Longrightarrow>
    slstep pid s (s\<lparr>sp_state := (sp_state s)(k := (if sp_state s k = SLEEPING \<and> sp_chan s k then RUNNABLE else sp_state s k)),
      sp_holder := (sp_holder s)(k := None), sl_pc := (sl_pc s)(i := SlScan (k + 1))\<rparr>)"
| rel_done: "sl_pc s i = SlScan k \<Longrightarrow> NPROC \<le> k \<Longrightarrow> slstep pid s (s\<lparr>inner := None, sl_pc := (sl_pc s)(i := Outside)\<rparr>)"
| query_in: "sl_pc s i = Inside \<Longrightarrow> inner s = None \<Longrightarrow> slstep pid s (s\<lparr>inner := Some i, sl_pc := (sl_pc s)(i := Query True)\<rparr>)"
| query_out: "sl_pc s i = Outside \<Longrightarrow> inner s = None \<Longrightarrow> slstep pid s (s\<lparr>inner := Some i, sl_pc := (sl_pc s)(i := Query False)\<rparr>)"
| back_in: "sl_pc s i = Query True \<Longrightarrow> slstep pid s (s\<lparr>inner := None, sl_pc := (sl_pc s)(i := Inside)\<rparr>)"
| back_out: "sl_pc s i = Query False \<Longrightarrow> slstep pid s (s\<lparr>inner := None, sl_pc := (sl_pc s)(i := Outside)\<rparr>)"
| sleeper_killed: "sp_state s k = SLEEPING \<Longrightarrow> sp_holder s k = None \<Longrightarrow> slstep pid s (s\<lparr>sp_state := (sp_state s)(k := RUNNABLE)\<rparr>)"

inductive slreach :: "(nat \<Rightarrow> int) \<Rightarrow> slstate \<Rightarrow> bool" for pid where
  sl_start: "slk s = initsleeplock name \<Longrightarrow> inner s = None \<Longrightarrow> sp_holder s = (\<lambda>_. None) \<Longrightarrow> sp_state s = (\<lambda>_. RUNNING) \<Longrightarrow>
    sl_pc s = (\<lambda>_. Outside) \<Longrightarrow> slreach pid s"
| sl_step: "slreach pid s \<Longrightarrow> slstep pid s t \<Longrightarrow> slreach pid t"

section \<open>Who holds what\<close>

fun has_inner :: "slpc \<Rightarrow> bool" where
  "has_inner Outside = False"
| "has_inner SlMark = False"
| "has_inner SlSched = False"
| "has_inner SlAsleep = False"
| "has_inner SlResumed = False"
| "has_inner SlRelock = False"
| "has_inner Inside = False"
| "has_inner _ = True"

text \<open>The places at which \<open>lk->locked\<close> is 1 because of the process, and at which \<open>lk->pid\<close> is its own.\<close>

fun has_locked :: "slpc \<Rightarrow> bool" where
  "has_locked SetPid = True"
| "has_locked RelInner = True"
| "has_locked Inside = True"
| "has_locked ClrLocked = True"
| "has_locked (Query b) = b"
| "has_locked _ = False"

fun has_pid :: "slpc \<Rightarrow> bool" where
  "has_pid RelInner = True"
| "has_pid Inside = True"
| "has_pid ClrLocked = True"
| "has_pid ClrPid = True"
| "has_pid (Query b) = b"
| "has_pid _ = False"

definition inner_inv :: "slstate \<Rightarrow> bool" where
  "inner_inv s \<longleftrightarrow> (\<forall>i. inner s = Some i \<longleftrightarrow> has_inner (sl_pc s i))"

definition locked_inv :: "slstate \<Rightarrow> bool" where
  "locked_inv s \<longleftrightarrow> (sl_locked (slk s) \<longleftrightarrow> (\<exists>i. has_locked (sl_pc s i))) \<and>
    (\<forall>i j. has_locked (sl_pc s i) \<longrightarrow> has_locked (sl_pc s j) \<longrightarrow> i = j) \<and>
    (\<forall>i. sl_pc s i = SetLocked \<or> sl_pc s i = ClrPid \<longrightarrow> \<not> sl_locked (slk s))"

definition pid_inv :: "(nat \<Rightarrow> int) \<Rightarrow> slstate \<Rightarrow> bool" where
  "pid_inv pid s \<longleftrightarrow> (\<forall>i. has_pid (sl_pc s i) \<longrightarrow> sl_pid (slk s) = pid i) \<and>
    ((\<forall>i. \<not> has_pid (sl_pc s i)) \<longrightarrow> sl_pid (slk s) = 0)"

lemma inner_unique: "inner_inv s \<Longrightarrow> has_inner (sl_pc s i) \<Longrightarrow> has_inner (sl_pc s j) \<Longrightarrow> i = j"
  unfolding inner_inv_def by (metis option.inject)

text \<open>A step of process \<open>i\<close> takes \<open>lk->lk\<close> when it is free, gives it back, or leaves it alone.\<close>

lemma inner_move:
  assumes "inner_inv s" "inner u = (if has_inner pc then Some i else if has_inner (sl_pc s i) then None else inner s)"
    "has_inner pc \<Longrightarrow> inner s = None \<or> has_inner (sl_pc s i)"
  shows "inner_inv (u\<lparr>sl_pc := (sl_pc s)(i := pc)\<rparr>)"
proof -
  have o: "\<not> has_inner (sl_pc s j)" if "j \<noteq> i" "has_inner (sl_pc s i) \<or> inner s = None" for j
    using that inner_unique [OF assms(1), of i j] assms(1) unfolding inner_inv_def by (metis option.discI)
  have "inner u = Some j \<longleftrightarrow> has_inner (if j = i then pc else sl_pc s j)" for j
  proof (cases "j = i")
    case True
    then show ?thesis using assms unfolding inner_inv_def by (auto split: if_splits)
  next
    case False
    then show ?thesis using assms o [OF False] unfolding inner_inv_def by (auto split: if_splits)
  qed
  then show ?thesis by (simp add: inner_inv_def)
qed

lemma inner_step: "slstep pid s t \<Longrightarrow> inner_inv s \<Longrightarrow> inner_inv t"
proof (induction rule: slstep.induct)
  case (sleeper_killed s k)
  then show ?case by (simp add: inner_inv_def)
qed ((rule inner_move, assumption); simp add: inner_inv_def)+

lemma locked_cong: "slk t = slk s \<Longrightarrow> sl_pc t = sl_pc s \<Longrightarrow> locked_inv t = locked_inv s"
  by (simp only: locked_inv_def)

lemma locked_keep:
  assumes "locked_inv s" "sl_locked (slk u) = sl_locked (slk s)" "has_locked pc = has_locked (sl_pc s i)"
    "pc = SetLocked \<or> pc = ClrPid \<Longrightarrow> \<not> sl_locked (slk s)"
  shows "locked_inv (u\<lparr>sl_pc := (sl_pc s)(i := pc)\<rparr>)"
proof -
  have "has_locked (((sl_pc s)(i := pc)) j) = has_locked (sl_pc s j)" for j using assms(3) by simp
  then show ?thesis using assms(1,2,4) by (auto simp: locked_inv_def)
qed

lemma locked_step: "slstep pid s t \<Longrightarrow> inner_inv s \<Longrightarrow> locked_inv s \<Longrightarrow> locked_inv t"
proof (induction rule: slstep.induct)
  case (acq_locked s i)
  have "\<not> has_locked (sl_pc s j)" for j using acq_locked(1,3) by (auto simp: locked_inv_def)
  moreover have "sl_pc s j \<noteq> SetLocked \<and> sl_pc s j \<noteq> ClrPid" if "j \<noteq> i" for j
    using inner_unique [OF acq_locked(2), of i j] acq_locked(1) that by auto
  ultimately show ?case by (auto simp: locked_inv_def)
next
  case (rel_locked s i)
  then have "\<not> has_locked (sl_pc s j)" if "j \<noteq> i" for j using that unfolding locked_inv_def by (metis has_locked.simps(4))
  then show ?case by (auto simp: locked_inv_def)
next
  case (sleeper_killed s k)
  then show ?case by (subst locked_cong [of _ s]) simp_all
qed ((rule locked_keep, assumption); auto simp: locked_inv_def)+

lemma pid_keep:
  assumes "pid_inv pid s" "sl_pid (slk u) = sl_pid (slk s)" "has_pid pc = has_pid (sl_pc s i)"
  shows "pid_inv pid (u\<lparr>sl_pc := (sl_pc s)(i := pc)\<rparr>)"
proof -
  have "has_pid (((sl_pc s)(i := pc)) j) = has_pid (sl_pc s j)" for j using assms(3) by simp
  then show ?thesis using assms(1,2) by (auto simp: pid_inv_def)
qed

lemma has_pid_locked: "has_pid pc \<Longrightarrow> has_locked pc \<or> pc = ClrPid"
  by (cases pc) auto

lemma pid_step: "slstep pid s t \<Longrightarrow> inner_inv s \<Longrightarrow> locked_inv s \<Longrightarrow> pid_inv pid s \<Longrightarrow> pid_inv pid t"
proof (induction rule: slstep.induct)
  case (acq_pid s i)
  have "\<not> has_pid (sl_pc s j)" if "j \<noteq> i" for j
  proof -
    have "\<not> has_locked (sl_pc s j)" using acq_pid(1,3) that unfolding locked_inv_def by (metis has_locked.simps(1))
    moreover have "sl_pc s j \<noteq> ClrPid" using inner_unique [OF acq_pid(2), of i j] acq_pid(1) that by auto
    ultimately show ?thesis using has_pid_locked by blast
  qed
  then show ?case by (auto simp: pid_inv_def)
next
  case (rel_pid s i)
  have "\<not> has_pid (sl_pc s j)" if "j \<noteq> i" for j
  proof -
    have "\<not> has_locked (sl_pc s j)" using rel_pid(1,3) unfolding locked_inv_def by blast
    moreover have "sl_pc s j \<noteq> ClrPid" using inner_unique [OF rel_pid(2), of i j] rel_pid(1) that by auto
    ultimately show ?thesis using has_pid_locked by blast
  qed
  then show ?case by (auto simp: pid_inv_def)
next
  case (sleeper_killed s k)
  then show ?case by (simp add: pid_inv_def)
qed ((rule pid_keep, assumption); simp)+

lemma slreach_inv: "slreach pid s \<Longrightarrow> inner_inv s \<and> locked_inv s \<and> pid_inv pid s"
proof (induction rule: slreach.induct)
  case (sl_start s name)
  then show ?case by (simp add: inner_inv_def locked_inv_def pid_inv_def initsleeplock_def)
next
  case (sl_step s t)
  then show ?case using inner_step locked_step pid_step by blast
qed

section \<open>An instance of the sleep and wakeup protocol\<close>

fun wpc_of :: "slpc \<Rightarrow> wpc" where
  "wpc_of Outside = wpc.Idle"
| "wpc_of Test = Check"
| "wpc_of SetLocked = Check"
| "wpc_of SetPid = Check"
| "wpc_of RelInner = Check"
| "wpc_of SlLockP = LockP"
| "wpc_of SlUnlock = UnlockLk"
| "wpc_of SlMark = Mark"
| "wpc_of SlSched = InSched"
| "wpc_of SlAsleep = Asleep"
| "wpc_of SlResumed = Resumed"
| "wpc_of SlRelock = Relock"
| "wpc_of Inside = wpc.Idle"
| "wpc_of ClrLocked = Establish"
| "wpc_of ClrPid = Scan 0"
| "wpc_of (SlScan k) = Scan k"
| "wpc_of (SlVisit k) = Visit k"
| "wpc_of (Query b) = Look"

text \<open>The condition is that the lock is free; it counts as true until a process that takes the lock leaves its critical section.\<close>

definition taking :: "slpc \<Rightarrow> bool" where
  "taking pc \<longleftrightarrow> pc = SetPid \<or> pc = RelInner"

definition proto :: "slstate \<Rightarrow> wstate" where
  "proto s = \<lparr>lk_holder = inner s, p_holder = sp_holder s, w_state = sp_state s, w_chan = sp_chan s,
    w_cond = (\<not> sl_locked (slk s) \<or> (\<exists>i. taking (sl_pc s i))), w_pc = (\<lambda>i. wpc_of (sl_pc s i))\<rparr>"

lemma taking_simps [simp]:
  "taking SetPid" "taking RelInner" "\<not> taking Outside" "\<not> taking Test" "\<not> taking SetLocked" "\<not> taking SlLockP" "\<not> taking SlUnlock"
  "\<not> taking SlMark" "\<not> taking SlSched" "\<not> taking SlAsleep" "\<not> taking SlResumed" "\<not> taking SlRelock" "\<not> taking Inside"
  "\<not> taking ClrLocked" "\<not> taking ClrPid" "\<not> taking (SlScan k)" "\<not> taking (SlVisit k)" "\<not> taking (Query b)"
  by (simp_all add: taking_def)

lemma proto_pc: "(\<lambda>j. wpc_of (if j = i then pc else sl_pc s j)) = (\<lambda>j. wpc_of (sl_pc s j))(i := wpc_of pc)"
  by auto

lemma not_taking: "inner_inv s \<Longrightarrow> has_inner (sl_pc s i) \<Longrightarrow> j \<noteq> i \<Longrightarrow> \<not> taking (sl_pc s j)"
  using inner_unique [of s i j] by (auto simp: taking_def)

lemma taking_keep:
  assumes "taking pc = taking (sl_pc s i)"
  shows "(\<exists>j. taking (if j = i then pc else sl_pc s j)) = (\<exists>j. taking (sl_pc s j))"
proof -
  have "taking (if j = i then pc else sl_pc s j) = taking (sl_pc s j)" for j using assms by simp
  then show ?thesis by simp
qed

lemmas proto_simps = proto_def proto_pc taking_keep

text \<open>Each step of the lock is one of the protocol, or changes nothing that the protocol sees.\<close>

lemma proto_sim: "slstep pid s t \<Longrightarrow> inner_inv s \<Longrightarrow> locked_inv s \<Longrightarrow> proto t = proto s \<or> wstep (proto s) (proto t)"
proof (induction rule: slstep.induct)
  case (acq_busy s i)
  have "\<not> taking (sl_pc s j)" for j using not_taking [OF acq_busy(3), of i j] acq_busy(1) by (cases "j = i") auto
  then have "\<not> w_cond (proto s)" using acq_busy(2) by (simp add: proto_def)
  then show ?case using wstep.check_false [of "proto s" i] acq_busy(1) by (simp add: proto_simps)
next
  case (acq_free s i)
  then show ?case by (simp add: proto_simps fun_upd_idem)
next
  case (acq_locked s i)
  then have "\<not> sl_locked (slk s)" unfolding locked_inv_def by blast
  moreover have "\<exists>j. taking (if j = i then SetPid else sl_pc s j)" by (intro exI [of _ i]) (simp add: taking_def)
  ultimately show ?case using acq_locked(1) by (simp add: proto_def proto_pc fun_upd_idem)
next
  case (acq_pid s i)
  then show ?case by (simp add: proto_simps fun_upd_idem)
next
  case (acq_done s i)
  then have l: "sl_locked (slk s)" unfolding locked_inv_def by (metis has_locked.simps(2))
  have "\<not> taking (if j = i then Inside else sl_pc s j)" for j using not_taking [OF acq_done(2), of i j] acq_done(1) by (cases "j = i") (auto simp: taking_def)
  moreover have "\<exists>j. taking (sl_pc s j)" using acq_done(1) by (intro exI [of _ i]) (simp add: taking_def)
  ultimately show ?case using wstep.check_true [of "proto s" i False] acq_done(1) l by (simp add: proto_def proto_pc)
next
  case (rel_locked s i)
  then show ?case using wstep.establish [of "proto s" i] by (simp add: proto_def proto_pc)
next
  case (rel_pid s i)
  then show ?case by (simp add: proto_simps fun_upd_idem)
next
  case (acq_inner s i)
  then show ?case using wstep.wait_enter [of "proto s" i] by (simp add: proto_simps)
next
  case (sleep_lock s i)
  then show ?case using wstep.lock_p [of "proto s" i] by (simp add: proto_simps)
next
  case (sleep_unlock s i)
  then show ?case using wstep.unlock_lk [of "proto s" i] by (simp add: proto_simps)
next
  case (sleep_mark s i)
  then show ?case using wstep.mark [of "proto s" i] by (simp add: proto_simps)
next
  case (sleep_switch s i)
  then show ?case using wstep.switch [of "proto s" i] by (simp add: proto_simps)
next
  case (sleep_resume s i)
  then show ?case using wstep.resume [of "proto s" i] by (simp add: proto_simps)
next
  case (sleep_tidy s i)
  then show ?case using wstep.tidy [of "proto s" i] by (simp add: proto_simps)
next
  case (sleep_relock s i)
  then show ?case using wstep.relock [of "proto s" i] by (simp add: proto_simps)
next
  case (rel_inner s i)
  then show ?case using wstep.wake_enter [of "proto s" i] by (simp add: proto_simps)
next
  case (wake_self s i)
  then show ?case using wstep.scan_self [of "proto s" i] by (simp add: proto_simps)
next
  case (wake_lock s i k)
  then show ?case using wstep.scan_lock [of "proto s" i k] by (simp add: proto_simps)
next
  case (wake_visit s i k)
  then show ?case using wstep.visit [of "proto s" i k] by (simp add: proto_simps cong: if_cong split del: if_split)
next
  case (rel_done s i k)
  then show ?case using wstep.scan_end [of "proto s" i k] by (simp add: proto_simps)
next
  case (query_in s i)
  then show ?case using wstep.look_enter [of "proto s" i] by (simp add: proto_simps)
next
  case (query_out s i)
  then show ?case using wstep.look_enter [of "proto s" i] by (simp add: proto_simps)
next
  case (back_in s i)
  then show ?case using wstep.look_end [of "proto s" i] by (simp add: proto_simps)
next
  case (back_out s i)
  then show ?case using wstep.look_end [of "proto s" i] by (simp add: proto_simps)
next
  case (sleeper_killed s k)
  then show ?case using wstep.kill_wake [of "proto s" k] by (simp add: proto_simps)
qed

lemma slreach_wreach: "slreach pid s \<Longrightarrow> wreach (proto s)"
proof (induction rule: slreach.induct)
  case (sl_start s name)
  then show ?case by (intro wreach.start) (simp_all add: proto_def)
next
  case (sl_step s t)
  then show ?case using proto_sim [of pid s t] slreach_inv [of pid s] wreach.step by metis
qed

section \<open>The lock seen from outside its critical sections\<close>

definition seen_lock :: "slstate \<Rightarrow> sleeplock" where
  "seen_lock s = (if sl_locked (slk s) \<and> sl_pid (slk s) \<noteq> 0 then slk s else releasesleep (slk s))"

lemma slstep_atomic:
  assumes "slstep pid s t" "inner_inv s" "locked_inv s" "pid_inv pid s" "\<And>i. 0 < pid i"
  shows "seen_lock t = seen_lock s \<or> (\<exists>i. sl_pc s i = SetPid \<and> acquiresleep (pid i) (seen_lock s) = Inr (seen_lock t)) \<or>
    (\<exists>i. sl_pc s i = ClrLocked \<and> holdingsleep (pid i) (seen_lock s) \<and> seen_lock t = releasesleep (seen_lock s))"
  using assms
proof (induction rule: slstep.induct)
  case (acq_locked s i)
  have n: "\<not> sl_locked (slk s)" using acq_locked(1,3) unfolding locked_inv_def by blast
  have "\<not> has_pid (sl_pc s j)" for j
  proof -
    have "\<not> has_locked (sl_pc s j)" using n acq_locked(3) unfolding locked_inv_def by blast
    moreover have "sl_pc s j \<noteq> ClrPid" using inner_unique [OF acq_locked(2), of i j] acq_locked(1) by auto
    ultimately show ?thesis using has_pid_locked by blast
  qed
  then have "sl_pid (slk s) = 0" using acq_locked(4) by (simp add: pid_inv_def)
  then show ?case using n by (simp add: seen_lock_def releasesleep_def)
next
  case (acq_pid s i)
  have l: "sl_locked (slk s)" using acq_pid(1,3) unfolding locked_inv_def by (metis has_locked.simps(1))
  have "\<not> has_pid (sl_pc s j)" for j
  proof -
    have "j = i" if "has_locked (sl_pc s j)" using acq_pid(1,3) that unfolding locked_inv_def by (metis has_locked.simps(1))
    moreover have "sl_pc s j \<noteq> ClrPid" using inner_unique [OF acq_pid(2), of i j] acq_pid(1) by auto
    ultimately show ?thesis using has_pid_locked [of "sl_pc s j"] acq_pid(1) by auto
  qed
  then have "sl_pid (slk s) = 0" using acq_pid(4) by (simp add: pid_inv_def)
  then have "acquiresleep (pid i) (seen_lock s) = Inr ((slk s)\<lparr>sl_pid := pid i\<rparr>)"
    using l by (simp add: seen_lock_def acquiresleep_def releasesleep_def)
  then show ?case using acq_pid(1) acq_pid(5) [of i] l by (auto simp: seen_lock_def)
next
  case (rel_locked s i)
  have "sl_locked (slk s)" using rel_locked(1,3) unfolding locked_inv_def by (metis has_locked.simps(4))
  moreover have "sl_pid (slk s) = pid i" using rel_locked(1,4) unfolding pid_inv_def by (metis has_pid.simps(3))
  ultimately have "holdingsleep (pid i) (seen_lock s)" "seen_lock (s\<lparr>slk := (slk s)\<lparr>sl_locked := False\<rparr>, sl_pc := (sl_pc s)(i := ClrPid)\<rparr>) = releasesleep (seen_lock s)"
    using rel_locked(5) [of i] by (auto simp: seen_lock_def holdingsleep_def releasesleep_def)
  then show ?case using rel_locked(1) by blast
next
  case (rel_pid s i)
  have "\<not> sl_locked (slk s)" using rel_pid(1,3) unfolding locked_inv_def by blast
  then show ?case by (simp add: seen_lock_def releasesleep_def)
qed (simp_all add: seen_lock_def)

lemma holdingsleep_query:
  assumes "inner_inv s" "locked_inv s" "pid_inv pid s" "inj pid" "sl_pc s i = Query b"
  shows "holdingsleep (pid i) (slk s) \<longleftrightarrow> b"
proof (cases b)
  case True
  then have "has_locked (sl_pc s i)" "has_pid (sl_pc s i)" using assms(5) by simp_all
  then show ?thesis using True assms(2,3) unfolding locked_inv_def pid_inv_def holdingsleep_def by blast
next
  case False
  have "sl_pid (slk s) \<noteq> pid i" if l: "sl_locked (slk s)"
  proof -
    obtain k where k: "has_locked (sl_pc s k)" using l assms(2) unfolding locked_inv_def by blast
    have ki: "k \<noteq> i" using k assms(5) False by auto
    then have "sl_pc s k \<noteq> SetPid" using inner_unique [OF assms(1), of i k] assms(5) by auto
    then have "has_pid (sl_pc s k)" using k by (cases "sl_pc s k") auto
    then have "sl_pid (slk s) = pid k" using assms(3) unfolding pid_inv_def by blast
    then show ?thesis using assms(4) ki by (simp add: inj_eq)
  qed
  then show ?thesis using False by (auto simp: holdingsleep_def)
qed

section \<open>The property\<close>

text \<open>C23: A sleep lock works, in every interleaving of the statements of \<open>acquiresleep\<close>, \<open>releasesleep\<close> and \<open>holdingsleep\<close>.  At most one
  process is inside; \<open>holdingsleep\<close>, when it reads the fields, is true exactly for a caller that is inside; when \<open>locked\<close> is 0, a
  process that sleeps on the lock or is on its way to sleep is still ahead of the loop of the \<open>wakeup\<close> of a
  process in \<open>releasesleep\<close>, so no wakeup is lost; and the lock as seen from outside the critical
  sections changes only as \<open>acquiresleep\<close> or \<open>releasesleep\<close> of theory \<open>Bio\<close> change it in one step.\<close>

theorem sleeplock_exclusive:
  assumes "slreach pid s" "\<forall>i. 0 < pid i" "inj pid"
  shows "(\<forall>i j. sl_pc s i \<in> {Inside, Query True} \<longrightarrow> sl_pc s j \<in> {Inside, Query True} \<longrightarrow> i = j) \<and>
    (\<forall>i b. sl_pc s i = Query b \<longrightarrow> (holdingsleep (pid i) (slk s) \<longleftrightarrow> b)) \<and>
    (\<forall>j < NPROC. \<not> sl_locked (slk s) \<longrightarrow> sl_pc s j = SlMark \<or> sl_pc s j = SlSched \<or> sp_state s j = SLEEPING \<longrightarrow>
      (\<exists>i. inner s = Some i \<and> (sl_pc s i = ClrPid \<or> (\<exists>k \<le> j. sl_pc s i = SlScan k \<or> sl_pc s i = SlVisit k)))) \<and>
    (\<forall>t. slstep pid s t \<longrightarrow> seen_lock t = seen_lock s \<or>
      (\<exists>i. sl_pc s i = SetPid \<and> acquiresleep (pid i) (seen_lock s) = Inr (seen_lock t)) \<or>
      (\<exists>i. sl_pc s i = ClrLocked \<and> holdingsleep (pid i) (seen_lock s) \<and> seen_lock t = releasesleep (seen_lock s)))"
proof -
  have inv: "inner_inv s" "locked_inv s" "pid_inv pid s" using slreach_inv [OF assms(1)] by auto
  have "i = j" if "sl_pc s i \<in> {Inside, Query True}" "sl_pc s j \<in> {Inside, Query True}" for i j
  proof -
    have "has_locked (sl_pc s i)" "has_locked (sl_pc s j)" using that by auto
    then show ?thesis using inv(2) unfolding locked_inv_def by blast
  qed
  moreover have "\<exists>i. inner s = Some i \<and> (sl_pc s i = ClrPid \<or> (\<exists>k \<le> j. sl_pc s i = SlScan k \<or> sl_pc s i = SlVisit k))"
    if "j < NPROC" "\<not> sl_locked (slk s)" "sl_pc s j = SlMark \<or> sl_pc s j = SlSched \<or> sp_state s j = SLEEPING" for j
  proof -
    have "\<exists>i. lk_holder (proto s) = Some i \<and> ahead (w_pc (proto s) i) j"
      by (rule sleeper_ahead [OF slreach_wreach [OF assms(1)]]) (use that in \<open>auto simp: proto_def\<close>)
    then obtain i where i: "inner s = Some i" "ahead (wpc_of (sl_pc s i)) j" by (auto simp: proto_def)
    then show ?thesis by (cases "sl_pc s i") auto
  qed
  moreover have "holdingsleep (pid i) (slk s) \<longleftrightarrow> b" if "sl_pc s i = Query b" for i b
    by (rule holdingsleep_query [OF inv assms(3) that])
  moreover have "seen_lock t = seen_lock s \<or> (\<exists>i. sl_pc s i = SetPid \<and> acquiresleep (pid i) (seen_lock s) = Inr (seen_lock t)) \<or>
      (\<exists>i. sl_pc s i = ClrLocked \<and> holdingsleep (pid i) (seen_lock s) \<and> seen_lock t = releasesleep (seen_lock s))" if "slstep pid s t" for t
    by (rule slstep_atomic [OF that inv]) (use assms(2) in blast)
  ultimately show ?thesis by blast
qed

definition demo_sleeplock :: slstate where
  "demo_sleeplock = \<lparr>inner = None, slk = initsleeplock ''buffer'', sp_holder = (\<lambda>_. None), sp_state = (\<lambda>_. RUNNING), sp_chan = (\<lambda>_. False), sl_pc = (\<lambda>_. Outside)\<rparr>"

theorem sleeplock_exclusive_witness:
  "\<exists>s. slreach (\<lambda>i. int i + 1) s \<and> sl_pc s 4 = Query True \<and> holdingsleep 5 (slk s)"
proof -
  let ?p = "\<lambda>i. int i + 1"
  note go = slreach.sl_step [where pid = ?p]
  have "slreach ?p demo_sleeplock" by (rule sl_start) (simp_all add: demo_sleeplock_def)
  from go [OF this acq_inner [of _ 4]] have "slreach ?p (demo_sleeplock\<lparr>inner := Some 4, sl_pc := (\<lambda>_. Outside)(4 := Test)\<rparr>)"
    by (simp add: demo_sleeplock_def)
  from go [OF this acq_free [of _ 4]] have "slreach ?p (demo_sleeplock\<lparr>inner := Some 4, sl_pc := (\<lambda>_. Outside)(4 := SetLocked)\<rparr>)"
    by (simp add: demo_sleeplock_def initsleeplock_def)
  from go [OF this acq_locked [of _ 4]]
  have "slreach ?p (demo_sleeplock\<lparr>inner := Some 4, slk := (initsleeplock ''buffer'')\<lparr>sl_locked := True\<rparr>, sl_pc := (\<lambda>_. Outside)(4 := SetPid)\<rparr>)"
    by (simp add: demo_sleeplock_def)
  from go [OF this acq_pid [of _ 4]]
  have "slreach ?p (demo_sleeplock\<lparr>inner := Some 4, slk := (initsleeplock ''buffer'')\<lparr>sl_locked := True, sl_pid := 5\<rparr>, sl_pc := (\<lambda>_. Outside)(4 := RelInner)\<rparr>)"
    by (simp add: demo_sleeplock_def)
  from go [OF this acq_done [of _ 4]]
  have "slreach ?p (demo_sleeplock\<lparr>slk := (initsleeplock ''buffer'')\<lparr>sl_locked := True, sl_pid := 5\<rparr>, sl_pc := (\<lambda>_. Outside)(4 := Inside)\<rparr>)"
    by (simp add: demo_sleeplock_def)
  from go [OF this query_in [of _ 4]] obtain s where s: "slreach ?p s" "sl_pc s 4 = Query True"
    by (auto simp: demo_sleeplock_def)
  have "inj ?p" "\<forall>i. 0 < ?p i" by (simp_all add: inj_def)
  then have "holdingsleep (?p 4) (slk s) \<longleftrightarrow> True" using sleeplock_exclusive [OF s(1)] s(2) by blast
  then show ?thesis using s by (intro exI [of _ s]) simp
qed

end
