(* ===== verification/Descriptors.thy ===== *)
theory Descriptors
  imports Sysfile Proctab
begin

text \<open>File descriptors and reference counts: the count of an open file is the number of descriptors that refer to
  it, over \<open>sys_dup\<close>, \<open>sys_close\<close>, the descriptor table copied by \<open>fork\<close> and closed by \<open>exit\<close>.\<close>

section \<open>Counting\<close>

definition slots :: "sys \<Rightarrow> nat \<Rightarrow> (nat \<times> nat) set" where
  "slots s f = {(i, fd). i < NPROC \<and> fd < NOFILE \<and> p_ofile (procs s i) ! fd = Some f}"

definition file_inv :: "sys \<Rightarrow> bool" where
  "file_inv s \<longleftrightarrow> (\<forall>i < NPROC. length (p_ofile (procs s i)) = NOFILE) \<and> (\<forall>f. f_ref (ftable s f) = int (card (slots s f)))"

lemma finite_slots [simp]: "finite (slots s f)"
  by (rule finite_subset [of _ "{..<NPROC} \<times> {..<NOFILE}"]) (auto simp: slots_def)

lemma rfold_keep:
  assumes "rfold f xs s = Inr t" "P s" "\<And>x u v. P u \<Longrightarrow> f x u = Inr v \<Longrightarrow> P v"
  shows "P t"
  using assms(1,2)
proof (induction xs arbitrary: s)
  case (Cons x xs)
  then show ?case using assms(3) by (auto simp: result_iff)
qed simp

text \<open>What the counts depend on.\<close>

definition same_files :: "sys \<Rightarrow> sys \<Rightarrow> bool" where
  "same_files s t \<longleftrightarrow> (\<forall>i. p_ofile (procs t i) = p_ofile (procs s i)) \<and> ftable t = ftable s \<and> cur t = cur s"

lemma same_files_refl [simp]: "same_files s s"
  by (simp add: same_files_def)

lemma same_files_trans: "same_files s t \<Longrightarrow> same_files t u \<Longrightarrow> same_files s u"
  by (simp add: same_files_def)

lemma same_slots: "same_files s t \<Longrightarrow> slots t = slots s"
  by (simp add: same_files_def slots_def fun_eq_iff)

lemma file_inv_same: "same_files s t \<Longrightarrow> file_inv s \<Longrightarrow> file_inv t"
  using same_slots [of s t] by (simp add: same_files_def file_inv_def)

lemma same_files_upd [simp]: "(\<And>p. p_ofile (f p) = p_ofile p) \<Longrightarrow> same_files s (upd_proc i f s)"
  by (simp add: same_files_def upd_proc_def)

lemma same_files_ops:
  "acquire_p i s = Inr t \<Longrightarrow> same_files s t" "release_p i s = Inr t \<Longrightarrow> same_files s t"
  "in_mem g s = Inr t \<Longrightarrow> same_files s t" "in_fs h s = Inr t \<Longrightarrow> same_files s t" "in_log l s = Inr t \<Longrightarrow> same_files s t"
  by (auto simp: acquire_p_def release_p_def in_mem_def in_fs_def in_log_def result_iff same_files_def upd_proc_def set_cpu_def)

lemma same_files_wakeup: "wakeup ch s = Inr t \<Longrightarrow> same_files s t"
  unfolding wakeup_def
proof (erule rfold_keep [where P = "same_files s"])
  fix i u v assume u: "same_files s u"
    and e: "(if cur u \<noteq> Some i then rbind (acquire_p i u) (\<lambda>s1. release_p i (if p_state (procs s1 i) = SLEEPING \<and> p_chan (procs s1 i) = ch
      then upd_proc i (p_state_update (\<lambda>_. RUNNABLE)) s1 else s1)) else Inr u) = Inr v"
  show "same_files s v"
  proof (cases "cur u = Some i")
    case False
    then obtain w where w: "acquire_p i u = Inr w" "release_p i (if p_state (procs w i) = SLEEPING \<and> p_chan (procs w i) = ch
      then upd_proc i (p_state_update (\<lambda>_. RUNNABLE)) w else w) = Inr v" using e by auto
    have "same_files w (if p_state (procs w i) = SLEEPING \<and> p_chan (procs w i) = ch then upd_proc i (p_state_update (\<lambda>_. RUNNABLE)) w else w)" by simp
    then show ?thesis using same_files_ops(1) [OF w(1)] same_files_ops(2) [OF w(2)] u by (meson same_files_trans)
  qed (use u e in simp)
qed simp

lemma same_files_wake_pipe: "wake_pipe pi chs s = Inr t \<Longrightarrow> same_files s t"
  unfolding wake_pipe_def
  by (erule rfold_keep [where P = "same_files s"]) (auto dest: same_files_wakeup intro: same_files_trans)

section \<open>Closing and duplicating\<close>

lemma close_frame:
  assumes "fileclose f s = Inr t"
  shows "(\<forall>i. p_ofile (procs t i) = p_ofile (procs s i)) \<and> cur t = cur s \<and> f_ref (ftable t f) = f_ref (ftable s f) - 1 \<and>
    1 \<le> f_ref (ftable s f) \<and> (\<forall>g. g \<noteq> f \<longrightarrow> ftable t g = ftable s g)"
proof -
  have ref: "1 \<le> f_ref (ftable s f)" using assms by (auto simp: fileclose_def Let_def split: if_splits)
  show ?thesis
  proof (cases "f_ref (ftable s f) - 1 > 0")
    case True
    then show ?thesis using assms ref by (auto simp: fileclose_def Let_def upd_file_def)
  next
    case False
    then have one: "f_ref (ftable s f) = 1" using ref by simp
    let ?s = "upd_file f (\<lambda>x. x\<lparr>f_ref := 0, f_type := FD_NONE\<rparr>) s"
    have "same_files ?s t"
    proof (cases "f_type (ftable s f)")
      case FD_PIPE
      obtain ch fr x where p: "pipeclose (f_writable (ftable s f)) (pipes ?s (f_pipe (ftable s f))) = (ch, fr, x)" by (cases rule: prod_cases3)
      let ?u = "?s\<lparr>pipes := (pipes ?s)(f_pipe (ftable s f) := x)\<rparr>"
      have "close_pipe (f_pipe (ftable s f)) (f_writable (ftable s f)) ?s = Inr t"
        using assms FD_PIPE one by (simp add: fileclose_def Let_def)
      then obtain w where w: "wake_pipe (f_pipe (ftable s f)) [ch] ?u = Inr w" "(if fr then in_mem (kfree (f_pipe (ftable s f))) w else Inr w) = Inr t"
        using p by (auto simp: close_pipe_def)
      have "same_files w t" using w(2) same_files_ops(3) by (auto split: if_splits)
      moreover have "same_files ?s ?u" by (simp add: same_files_def)
      ultimately show ?thesis using same_files_wake_pipe [OF w(1)] by (meson same_files_trans)
    qed (use assms one in \<open>auto simp: fileclose_def Let_def result_iff dest!: same_files_ops intro: same_files_trans\<close>)
    then show ?thesis using one by (auto simp: same_files_def upd_file_def)
  qed
qed

lemma slots_set:
  assumes "i < NPROC" "fd < NOFILE" "length (p_ofile (procs s i)) = NOFILE"
  shows "slots (set_ofile i fd x s) f = (if x = Some f then insert (i, fd) (slots s f) else slots s f - {(i, fd)})"
  using assms by (auto simp: slots_def set_ofile_def upd_proc_def nth_list_update split: if_splits)

lemma length_set_ofile [simp]: "length (p_ofile (procs (set_ofile i fd x s) j)) = length (p_ofile (procs s j))"
  by (simp add: set_ofile_def upd_proc_def)

lemma set_ofile_simps [simp]: "ftable (set_ofile i fd x s) = ftable s" "cur (set_ofile i fd x s) = cur s"
  by (simp_all add: set_ofile_def upd_proc_def)

text \<open>Dropping a descriptor and closing its file, and taking a free descriptor and duplicating.\<close>

lemma drop_one:
  assumes inv: "file_inv s" and i: "i < NPROC" "fd < NOFILE" "p_ofile (procs s i) ! fd = Some f"
    and t: "\<forall>j. p_ofile (procs t j) = p_ofile (procs (set_ofile i fd None s) j)" "\<forall>g. f_ref (ftable t g) = f_ref (ftable s g) - (if g = f then 1 else 0)"
  shows "file_inv t"
proof -
  have len: "length (p_ofile (procs s i)) = NOFILE" using inv i(1) by (simp add: file_inv_def)
  have sl: "slots t g = slots s g - {(i, fd)}" for g using t(1) slots_set [OF i(1,2) len, of None g] by (simp add: slots_def)
  have "(i, fd) \<in> slots s g \<longleftrightarrow> g = f" for g using i by (auto simp: slots_def)
  then have "int (card (slots t g)) = int (card (slots s g)) - (if g = f then 1 else 0)" for g
    unfolding sl using card_gt_0_iff [of "slots s f"] by (auto simp: card_Diff_singleton_if)
  then show ?thesis using t inv by (auto simp: file_inv_def)
qed

lemma dup_open:
  assumes inv: "file_inv s" and i: "i < NPROC" "fd < NOFILE" "p_ofile (procs s i) ! fd = None"
    and t: "\<forall>j. p_ofile (procs t j) = p_ofile (procs (set_ofile i fd (Some f) s) j)" "ftable t = (ftable s)(f := (ftable s f)\<lparr>f_ref := f_ref (ftable s f) + 1\<rparr>)"
  shows "file_inv t"
proof -
  have len: "length (p_ofile (procs s i)) = NOFILE" using inv i(1) by (simp add: file_inv_def)
  have sl: "slots t g = (if g = f then insert (i, fd) (slots s g) else slots s g)" for g
    using t(1) slots_set [OF i(1,2) len, of "Some f" g] i(3) by (auto simp: slots_def)
  have "(i, fd) \<notin> slots s f" using i by (auto simp: slots_def)
  then have "int (card (slots t g)) = int (card (slots s g)) + (if g = f then 1 else 0)" for g unfolding sl by simp
  then show ?thesis using t inv by (auto simp: file_inv_def)
qed

lemma used_ref: "file_inv s \<Longrightarrow> i < NPROC \<Longrightarrow> fd < NOFILE \<Longrightarrow> p_ofile (procs s i) ! fd = Some f \<Longrightarrow> 1 \<le> f_ref (ftable s f)"
proof -
  assume h: "file_inv s" "i < NPROC" "fd < NOFILE" "p_ofile (procs s i) ! fd = Some f"
  then have "(i, fd) \<in> slots s f" by (simp add: slots_def)
  then have "0 < card (slots s f)" by (auto simp: card_gt_0_iff)
  then show ?thesis using h(1) by (simp add: file_inv_def)
qed

section \<open>The operations\<close>

lemma argfd_some:
  assumes "argfd n s = Inr (Some (fd, f))" "cur s = Some p"
  shows "fd < NOFILE" "p_ofile (procs s p) ! fd = Some f"
  using assms by (auto simp: argfd_def myproc_def result_iff split: if_splits)

lemma free_fd_some: "free_fd ofs fds = Some fd \<Longrightarrow> fd \<in> set fds \<and> ofs ! fd = None"
  by (induction fds) (auto split: if_splits)

lemma sys_dup_inv:
  assumes inv: "file_inv s" and p: "cur s = Some p" "p < NPROC" and t: "sys_dup s = Inr (r, t)"
  shows "file_inv t"
proof (cases "argfd 0 s")
  case (Inr a)
  show ?thesis
  proof (cases a)
    case None
    then show ?thesis using t Inr inv by (simp add: sys_dup_def ret_def)
  next
    case (Some b)
    obtain fd0 f where b: "b = (fd0, f)" by (cases b)
    show ?thesis
    proof (cases "free_fd (p_ofile (procs s p)) [0..<NOFILE]")
      case None
      then show ?thesis using t Inr inv Some b p by (simp add: sys_dup_def ret_def fdalloc_def myproc_def)
    next
      case (Some fd)
      have fd: "fd < NOFILE" "p_ofile (procs s p) ! fd = None" using free_fd_some [OF Some] by auto
      have "t = upd_file f (\<lambda>x. x\<lparr>f_ref := f_ref x + 1\<rparr>) (set_ofile p fd (Some f) s)"
        using t Inr \<open>a = Some b\<close> b p Some by (auto simp: sys_dup_def ret_def fdalloc_def myproc_def filedup_def split: if_splits)
      then show ?thesis by (intro dup_open [OF inv p(2) fd, of t f]) (simp_all add: upd_file_def)
    qed
  qed
qed (use t in \<open>simp add: sys_dup_def\<close>)

lemma sys_close_inv:
  assumes inv: "file_inv s" and p: "cur s = Some p" "p < NPROC" and t: "sys_close s = Inr (r, t)"
  shows "file_inv t"
proof (cases "argfd 0 s")
  case (Inr a)
  show ?thesis
  proof (cases a)
    case None
    then show ?thesis using t Inr inv by (simp add: sys_close_def ret_def)
  next
    case (Some b)
    obtain fd f where b: "b = (fd, f)" by (cases b)
    have fd: "fd < NOFILE" "p_ofile (procs s p) ! fd = Some f" using argfd_some [of 0 s fd f] Inr Some b p by auto
    have "fileclose f (set_ofile p fd None s) = Inr t" using t Inr Some b p by (auto simp: sys_close_def ret_def myproc_def result_iff)
    from close_frame [OF this] show ?thesis by (intro drop_one [OF inv p(2) fd]) auto
  qed
qed (use t in \<open>simp add: sys_close_def\<close>)

lemma close_files_inv:
  assumes inv: "file_inv s" and p: "p < NPROC" and t: "close_files p s = Inr t"
  shows "file_inv t \<and> (\<forall>fd < NOFILE. p_ofile (procs t p) ! fd = None)"
proof -
  let ?F = "\<lambda>fd s. case p_ofile (procs s p) ! fd of None \<Rightarrow> Inr s
    | Some f \<Rightarrow> rbind (fileclose f s) (\<lambda>s1. Inr (upd_proc p (\<lambda>x. x\<lparr>p_ofile := (p_ofile x)[fd := None]\<rparr>) s1))"
  have "file_inv t \<and> (\<forall>fd < n. p_ofile (procs t p) ! fd = None)" if "n \<le> NOFILE" "rfold ?F [0..<n] s = Inr t" for n t
    using that
  proof (induction n arbitrary: t)
    case 0
    then show ?case using inv by simp
  next
    case (Suc n)
    then obtain u where u: "rfold ?F [0..<n] s = Inr u" "?F n u = Inr t" by (auto simp: rfold_append result_iff)
    have IH: "file_inv u" "\<forall>fd < n. p_ofile (procs u p) ! fd = None" using Suc.IH [OF _ u(1)] Suc.prems(1) by auto
    show ?case
    proof (cases "p_ofile (procs u p) ! n")
      case None
      then show ?thesis using IH u(2) by (auto simp: less_Suc_eq)
    next
      case (Some f)
      obtain w where w: "fileclose f u = Inr w" "t = set_ofile p n None w" using u(2) Some by (auto simp: result_iff set_ofile_def)
      note fr = close_frame [OF w(1)]
      have n: "n < NOFILE" using Suc.prems(1) by simp
      have len: "length (p_ofile (procs u p)) = NOFILE" using IH(1) p by (simp add: file_inv_def)
      have "\<forall>j. p_ofile (procs t j) = p_ofile (procs (set_ofile p n None u) j)" using fr w(2) by (simp add: set_ofile_def upd_proc_def)
      moreover have "\<forall>g. f_ref (ftable t g) = f_ref (ftable u g) - (if g = f then 1 else 0)" using fr w(2) by simp
      ultimately have "file_inv t" by (rule drop_one [OF IH(1) p n Some])
      moreover have "p_ofile (procs t p) = (p_ofile (procs u p))[n := None]" using fr w(2) by (simp add: set_ofile_def upd_proc_def)
      ultimately show ?thesis using IH(2) n len by (auto simp: less_Suc_eq nth_list_update)
    qed
  qed
  then show ?thesis using t unfolding close_files_def by blast
qed

lemma dup_files_ok:
  assumes inv: "file_inv s" and p: "p < NPROC" "np < NPROC" "np \<noteq> p" and e: "\<forall>fd < NOFILE. p_ofile (procs s np) ! fd = None"
  shows "\<exists>t. dup_files p np s = Inr t \<and> file_inv t \<and> p_ofile (procs t np) = p_ofile (procs s p)"
proof -
  let ?F = "\<lambda>i s. case p_ofile (procs s p) ! i of None \<Rightarrow> Inr s
    | Some f \<Rightarrow> rbind (filedup f s) (\<lambda>(f, s1). Inr (upd_proc np (\<lambda>x. x\<lparr>p_ofile := (p_ofile x)[i := Some f]\<rparr>) s1))"
  have "\<exists>t. rfold ?F [0..<n] s = Inr t \<and> file_inv t \<and> p_ofile (procs t p) = p_ofile (procs s p) \<and>
      (\<forall>fd < NOFILE. p_ofile (procs t np) ! fd = (if fd < n then p_ofile (procs s p) ! fd else None))" if "n \<le> NOFILE" for n
    using that
  proof (induction n)
    case 0
    then show ?case using inv e by simp
  next
    case (Suc n)
    then obtain u where u: "rfold ?F [0..<n] s = Inr u" "file_inv u" "p_ofile (procs u p) = p_ofile (procs s p)"
      "\<forall>fd < NOFILE. p_ofile (procs u np) ! fd = (if fd < n then p_ofile (procs s p) ! fd else None)" by auto
    have n: "n < NOFILE" using Suc.prems by simp
    show ?case
    proof (cases "p_ofile (procs u p) ! n")
      case None
      then have "rfold ?F [0..<Suc n] s = Inr u" using u(1) by (simp add: rfold_append)
      then show ?thesis using u None by (auto simp: less_Suc_eq)
    next
      case (Some f)
      let ?t = "set_ofile np n (Some f) (upd_file f (\<lambda>x. x\<lparr>f_ref := f_ref x + 1\<rparr>) u)"
      have ref: "1 \<le> f_ref (ftable u f)" by (rule used_ref [OF u(2) p(1) n Some])
      have r: "rfold ?F [0..<Suc n] s = Inr ?t" using u(1) Some ref by (simp add: rfold_append filedup_def set_ofile_def)
      have "p_ofile (procs u np) ! n = None" using u(4) n by simp
      then have "file_inv ?t"
        by (intro dup_open [OF u(2) p(2) n, of ?t f]) (simp_all add: set_ofile_def upd_proc_def upd_file_def)
      moreover have "p_ofile (procs ?t p) = p_ofile (procs s p)" using u(3) p(3) by (simp add: set_ofile_def upd_proc_def upd_file_def)
      moreover have "length (p_ofile (procs u np)) = NOFILE" using u(2) p(2) by (simp add: file_inv_def)
      then have "\<forall>fd < NOFILE. p_ofile (procs ?t np) ! fd = (if fd < Suc n then p_ofile (procs s p) ! fd else None)"
        using u(3,4) Some n by (auto simp: set_ofile_def upd_proc_def upd_file_def nth_list_update less_Suc_eq)
      ultimately show ?thesis using r by blast
    qed
  qed
  from this [of NOFILE] obtain t where t: "dup_files p np s = Inr t" "file_inv t" "p_ofile (procs t p) = p_ofile (procs s p)"
    "\<forall>fd < NOFILE. p_ofile (procs t np) ! fd = p_ofile (procs s p) ! fd" unfolding dup_files_def by auto
  have "p_ofile (procs t np) = p_ofile (procs s p)"
    using t(2-4) p by (intro nth_equalityI) (auto simp: file_inv_def)
  then show ?thesis using t by blast
qed

text \<open>C37: The reference count of every open file is the number of descriptors that refer to it, in all processes
  together.  \<open>sys_dup\<close> and \<open>sys_close\<close> keep this; closing all files in \<open>exit\<close> keeps it and leaves no descriptor; and copying
  the table in \<open>fork\<close> never panics, keeps it, and gives the child the parent's descriptors.\<close>

theorem descriptor_counts:
  assumes "file_inv s" "cur s = Some p" "p < NPROC"
  shows "(\<forall>r t. sys_dup s = Inr (r, t) \<longrightarrow> file_inv t) \<and> (\<forall>r t. sys_close s = Inr (r, t) \<longrightarrow> file_inv t) \<and>
    (\<forall>t. close_files p s = Inr t \<longrightarrow> file_inv t \<and> (\<forall>fd < NOFILE. p_ofile (procs t p) ! fd = None)) \<and>
    (\<forall>np < NPROC. np \<noteq> p \<longrightarrow> (\<forall>fd < NOFILE. p_ofile (procs s np) ! fd = None) \<longrightarrow>
      (\<exists>t. dup_files p np s = Inr t \<and> file_inv t \<and> p_ofile (procs t np) = p_ofile (procs s p)))"
  using sys_dup_inv [OF assms] sys_close_inv [OF assms] close_files_inv [OF assms(1,3)] dup_files_ok [OF assms(1,3)] by blast

definition demo_files :: sys where
  "demo_files = (set_ofile 1 0 (Some 5) demo_sys)\<lparr>ftable := (ftable demo_sys)(5 := (ftable demo_sys 5)\<lparr>f_ref := 1\<rparr>)\<rparr>"

lemma demo_files_inv: "file_inv demo_files"
proof -
  have o: "p_ofile (procs demo_files i) = (if i = 1 then (replicate NOFILE None)[0 := Some 5] else replicate NOFILE None)" for i
    by (simp add: demo_files_def set_ofile_def upd_proc_def demo_sys_def demo_proc_def)
  have "slots demo_files f = (if f = 5 then {(1, 0)} else {})" for f
    by (auto simp: slots_def o NOFILE_def NPROC_def nth_list_update split: if_splits)
  then show ?thesis by (simp add: file_inv_def o) (simp add: demo_files_def demo_sys_def)
qed

theorem descriptor_counts_witness:
  "\<exists>t. dup_files 1 2 demo_files = Inr t \<and> file_inv t \<and> p_ofile (procs t 2) ! 0 = Some 5"
proof -
  have c: "cur demo_files = Some 1" by (simp add: demo_files_def demo_sys_def)
  have e: "\<forall>fd < NOFILE. p_ofile (procs demo_files 2) ! fd = None" and o: "p_ofile (procs demo_files 1) ! 0 = Some 5"
    by (simp_all add: demo_files_def set_ofile_def upd_proc_def demo_sys_def demo_proc_def NOFILE_def)
  have all: "\<forall>np < NPROC. np \<noteq> 1 \<longrightarrow> (\<forall>fd < NOFILE. p_ofile (procs demo_files np) ! fd = None) \<longrightarrow>
      (\<exists>t. dup_files 1 np demo_files = Inr t \<and> file_inv t \<and> p_ofile (procs t np) = p_ofile (procs demo_files 1))"
    by (rule descriptor_counts [OF demo_files_inv c, THEN conjunct2, THEN conjunct2, THEN conjunct2]) (simp add: NPROC_def)
  have "(2 :: nat) < NPROC" "(2 :: nat) \<noteq> 1" by (simp_all add: NPROC_def)
  from mp [OF mp [OF mp [OF spec [OF all] this(1)] this(2)] e] o show ?thesis by auto
qed

end
