(* ===== verification/Ptable.thy ===== *)
theory Ptable
  imports Process Proctab
begin

text \<open>The process table is well formed: pids are positive and unique, unused entries have none; this holds over \<open>allocproc\<close>,
  \<open>fork\<close>, \<open>exit\<close>, \<open>wait\<close>, \<open>kill\<close> and \<open>wakeup\<close>.  Pids are unbounded integers here, so \<open>nextpid\<close> does not wrap.  The locale \<open>table_view\<close> is the contract of a part of the state that locking, waking,
  memory and the file system leave alone.\<close>

section \<open>Views that the other components leave alone\<close>


section \<open>Pids\<close>

definition ids :: "sys \<Rightarrow> (nat \<Rightarrow> int \<times> bool) \<times> int" where
  "ids s = ((\<lambda>i. (p_pid (procs s i), p_state (procs s i) = UNUSED)), nextpid s)"



definition ptab :: "sys \<Rightarrow> bool" where
  "ptab s \<longleftrightarrow> 0 < nextpid s \<and>
    (\<forall>i < NPROC. if p_state (procs s i) = UNUSED then p_pid (procs s i) = 0 else 0 < p_pid (procs s i) \<and> p_pid (procs s i) < nextpid s) \<and>
    (\<forall>i < NPROC. \<forall>j < NPROC. p_state (procs s i) \<noteq> UNUSED \<longrightarrow> p_pid (procs s i) = p_pid (procs s j) \<longrightarrow> i = j)"

lemma ptab_ids: "ptab s \<longleftrightarrow> (case ids s of (t, n) \<Rightarrow> 0 < n \<and> (\<forall>i < NPROC. if snd (t i) then fst (t i) = 0 else 0 < fst (t i) \<and> fst (t i) < n) \<and>
    (\<forall>i < NPROC. \<forall>j < NPROC. \<not> snd (t i) \<longrightarrow> fst (t i) = fst (t j) \<longrightarrow> i = j))"
  by (simp add: ptab_def ids_def)



lemma ptab_skip: "ptab s \<Longrightarrow> ids t = (fst (ids s), snd (ids s) + 1) \<Longrightarrow> ptab t"
  by (fastforce simp: ptab_ids split: prod.splits)


section \<open>The operations\<close>


















section \<open>The property\<close>




end
