(* ===== verification/Spec2Isabelle.thy ===== *)
theory Spec2Isabelle
  imports Memory Pipe Printf Trap Pathname Disk Proctab Wakeup Sleeplock Descriptors Ptable
begin

text \<open>
  The kernel of this repository is xv6 for RISC-V with copy-on-write \<open>fork\<close>.  The theories translate the C files under
  \<open>kernel/\<close> function by function and prove the properties C1 to C40.  This header says which theory holds what, how
  the definitions correspond to the code, what is proved, and what is left out.

  \<^bold>\<open>Conventions.\<close>  A C function is a HOL function of the same name that takes the state it changes and
  returns it; a C function that cannot go on returns \<open>Inl\<close> of a \<open>fault\<close> (theory \<open>Prelude\<close>): \<open>Panic\<close> with
  the message, \<open>WildAccess\<close> for an access outside the memory or array (a null pointer included), \<open>Spin\<close> for waiting on a
  spin lock or a device that does not answer, \<open>Sleep\<close> where the code would sleep.  Unsigned integers are words of their
  width; C \<open>int\<close> is \<open>int\<close>, without overflow: the nesting depth of interrupts, the reference counts of pages, files and inodes, and pids
  do not wrap.  Loops are recursive functions, named after the function with \<open>_loop\<close> or after what they do.
  A struct is a record, an enum a datatype, an array a list or a function on indices.

  \<^bold>\<open>Concurrency.\<close>  Interleavings are modelled where the code's correctness rests on their order: \<open>acquire\<close> and
  \<open>release\<close> (theory \<open>Spinlock\<close>), \<open>sleep\<close>, \<open>wakeup\<close> and \<open>kill\<close> (\<open>Wakeup\<close>), the sleep locks (\<open>Sleeplock\<close>), the disk
  driver with the device and the interrupt (\<open>Disk\<close>), pipes as sequences of pieces of reads and writes between two sleeps (\<open>Pipe\<close>), the transmit buffer
  with its interrupt (\<open>Uart\<close>), and crashes between two writes of a disk block (\<open>Log\<close>).
  Elsewhere an operation is what runs while the lock that protects the data is held.  The locks \<open>kmem.lock\<close>, \<open>p->lock\<close>, \<open>wait_lock\<close>,
  \<open>pid_lock\<close> and \<open>tickslock\<close> are fields, with every \<open>acquire\<close> and \<open>release\<close> of the code; \<open>bcache.lock\<close>, \<open>log.lock\<close>, \<open>itable.lock\<close>,
  \<open>ftable.lock\<close>, \<open>pi->lock\<close>, \<open>cons.lock\<close>, \<open>uart_tx_lock\<close>, \<open>pr.lock\<close> and \<open>disk.vdisk_lock\<close> are not.  What other processes do
  while a process is switched out is the parameter \<open>swtch\<close> of the operations that call \<open>sched\<close>; what \<open>killed(pr)\<close> reads in the
  rounds of \<open>pipewrite\<close> is the field \<open>kill_seen\<close>.

  \<^bold>\<open>Theories.\<close>
  \<^item> \<open>Prelude\<close>: results, folds over fallible steps, words.  \<open>Ring\<close>: wrapping indices, and the locale \<open>bounded_fifo\<close> with what pipes and
    the transmit buffer share.  \<open>Kstring\<close>: \<open>string.c\<close>.  \<open>Riscv\<close>: \<open>riscv.h\<close>, \<open>memlayout.h\<close>.
  \<^item> \<open>Spinlock\<close>: \<open>spinlock.c\<close> (C1, C2).
  \<^item> \<open>Kalloc\<close>: \<open>kalloc.c\<close> with its free list inside the modelled memory; locale \<open>page_allocator\<close>, interpreted for the allocator with and
    without the lock (C3 to C5).
  \<^item> \<open>Vm\<close>: \<open>vm.c\<close> and \<open>update\<close> of \<open>kalloc.c\<close>; page tables are pages of the memory, walked entry by entry.  \<open>Tables\<close>, \<open>Cow\<close>, \<open>Uvm\<close>,
    \<open>Fault\<close>, \<open>Copy\<close>, \<open>Space\<close>: the invariant \<open>vm_inv\<close> (page tables are trees that share no page, every count is the number of
    mappings, a writable page is mapped once) and that each operation keeps it.  \<open>Memory\<close>: C6 to C13.  \<open>Usercopy\<close>:
    \<open>either_copyin\<close>, \<open>either_copyout\<close>.
  \<^item> \<open>Pipe\<close>: \<open>pipe.c\<close> (C14, C15).  \<open>Uart\<close>: \<open>uart.c\<close> (C16).  \<open>Console\<close>: \<open>console.c\<close> (C17, C18).  \<open>Printf\<close>: \<open>printf.c\<close> (C19, C20).
  \<^item> \<open>Bio\<close>: \<open>bio.c\<close> on its doubly linked list (C21, C22).  \<open>Cache\<close>: the locale \<open>buffered_disk\<close>, the contract of the cache as the
    layers above use it, interpreted on the cache.  \<open>Wakeup\<close> (C36), \<open>Sleeplock\<close> (C23): the sleep lock simulates the protocol
    of \<open>Wakeup\<close>, and its steps amount to the functions \<open>acquiresleep\<close> and \<open>releasesleep\<close> that \<open>Bio\<close> uses.
  \<^item> \<open>Block\<close>, \<open>Log\<close>: words in blocks, and \<open>log.c\<close>; locale \<open>logged_disk\<close>, the contract of a transaction (C24).
  \<^item> \<open>Balloc\<close>, \<open>Inode\<close>, \<open>Content\<close>, \<open>Fileio\<close>, \<open>Filedata\<close>, \<open>Filesys\<close>: \<open>fs.c\<close> up to \<open>readi\<close> and \<open>writei\<close> (C25 to C29, C39).
    \<open>Dir\<close>, \<open>Pathname\<close>: directories and paths (C30).
  \<^item> \<open>Virtio\<close>, \<open>Disk\<close>: \<open>virtio_disk.c\<close> (C31, C32).
  \<^item> \<open>Proc\<close>, \<open>Process\<close>: \<open>proc.c\<close>, on the record \<open>sys\<close> of the whole system.  \<open>Proctab\<close>: \<open>wakeup\<close>, \<open>kill\<close>, \<open>sleep\<close> (C33 to C35).  \<open>Ptable\<close>: the
    process table (C38), with the locale \<open>table_view\<close> of the parts of the state that locking, memory and files leave alone.
  \<^item> \<open>File\<close>, \<open>Syscall\<close>, \<open>Exec\<close>, \<open>Sysfile\<close>: \<open>file.c\<close>, \<open>syscall.c\<close>, \<open>sysproc.c\<close>, \<open>exec.c\<close>, \<open>sysfile.c\<close>.  \<open>Descriptors\<close>: the counts of
    open files (C37).
  \<^item> \<open>Trap\<close>: \<open>trap.c\<close>, \<open>plic.c\<close>, \<open>start.c\<close>, \<open>main.c\<close>; this theory: faults of user programs (C40).

  \<^bold>\<open>What is shown.\<close>  Mutual exclusion and handing over of the CPU (C1, C2, C23, C35, C36); the page allocator and copy-on-write:
  processes share pages and never see each other's writes (C3 to C10), growing loses no page (C11); queues in order and who is
  woken (C14 to C18); the disk as the kernel sees it, through the cache, the log, crashes and the driver (C21, C22, C24, C31, C32);
  files hold what was written (C25 to C29); invariants of the process table and of the file table (C33, C34, C37, C38).  C12, C13,
  C15, C20, C39 and C40 pin down paths on which the code does not do what it should: an
  unchecked allocation, a null dereference, a missed wakeup, a buffer overrun, bytes that are seen but not logged, and panics on faults of user programs.

  \<^bold>\<open>Bounds.\<close>  Walks along the list of buffers get \<open>NBUF + 1\<close> steps, enough for a list of all buffers (\<open>bcache_ok\<close>).  \<open>freewalk\<close>
  gets the three levels of a page table.  Calls that may sleep again and again (\<open>wait\<close>, \<open>sys_sleep\<close>, reading and writing) get the number of
  rounds \<open>k\<close>; no property rests on it.  All other loops are total, and C32 shows that \<open>virtio_disk_intr\<close> ends.  The
  properties of the file system are for one bitmap block, as \<open>mkfs/mkfs.c\<close> lays out the disk (\<open>FSSIZE\<close> is 2000), and for a transaction with
  room in log and cache, which C28 shows that a chunk of \<open>filewrite\<close> has.

  \<^bold>\<open>Hypotheses on devices.\<close>  \<open>responsive\<close>: the serial port becomes idle in the end.  The disk device completes submitted requests in any order, but
  none while the interrupt handler runs, and it does not read the available ring; a submission that finds no three free descriptors is
  an \<open>Inl Sleep\<close> and starts again from the state before it.  Writing a block is atomic.

  \<^bold>\<open>Not modelled.\<close>  The assembly files (\<open>entry.S\<close>, \<open>kernelvec.S\<close>, \<open>swtch.S\<close>, \<open>trampoline.S\<close>) and what user code does between two traps, the TLB
  (\<open>sfence_vma\<close>) and memory fences, the programs under \<open>user/\<close>, \<open>mkfs/mkfs.c\<close>, which runs on the host, and the scripts for building and grading.
  \<open>fileinit\<close> only initialises \<open>ftable.lock\<close>.  \<open>Exec\<close>, \<open>Sysfile\<close> beyond the descriptor calls, and the start-up code are modelled without properties of their own.
\<close>

section \<open>Exceptions of user programs\<close>

lemma walk_fault: "walk pt va False s = Inl e \<Longrightarrow> e = Panic ''walk'' \<or> e = WildAccess"
proof -
  have "walk_loop l pt va False s = Inl e \<Longrightarrow> e = WildAccess" for l
    by (induction l arbitrary: pt) (auto simp: Let_def ld64_def split: if_splits)
  then show "walk pt va False s = Inl e \<Longrightarrow> e = Panic ''walk'' \<or> e = WildAccess" by (auto simp: walk_def split: if_splits)
qed

lemma walk_state: "walk pt va False s = Inr (pte, s') \<Longrightarrow> s' = s"
proof -
  have "walk_loop l pt va False s = Inr (pte, s') \<Longrightarrow> s' = s" for l
    by (induction l arbitrary: pt) (auto simp: Let_def ld64_def split: if_splits)
  then show "walk pt va False s = Inr (pte, s') \<Longrightarrow> s' = s" by (auto simp: walk_def split: if_splits)
qed

text \<open>The page that \<open>cow_fault_handler\<close> accepts.\<close>

definition cow_page :: "addr \<Rightarrow> uint64 \<Rightarrow> kstate \<Rightarrow> bool" where
  "cow_page table va s \<longleftrightarrow> va < MAXVA \<and>
    (case walk table (PGROUNDDOWN va) False s of Inl _ \<Rightarrow> False | Inr (pte, s1) \<Rightarrow>
     case ld64 pte s1 of Inl _ \<Rightarrow> False | Inr e \<Rightarrow> e AND PTE_COW \<noteq> 0 \<and> e AND PTE_V \<noteq> 0 \<and> e AND PTE_U \<noteq> 0)"

lemma not_cow_page:
  assumes "\<not> cow_page table va s"
  shows "cow_fault_handler c table va s \<in> {Inr (-1, s), Inl (Panic ''walk''), Inl WildAccess}"
proof (cases "walk table (PGROUNDDOWN va) False s")
  case (Inl e)
  then show ?thesis using walk_fault [OF Inl] by (auto simp: cow_fault_handler_def)
next
  case (Inr r)
  then obtain pte where w: "walk table (PGROUNDDOWN va) False s = Inr (pte, s)" using walk_state by (cases r) auto
  show ?thesis using assms by (auto simp: cow_fault_handler_def cow_page_def w ld64_def)
qed

text \<open>C40: A fault of a user program stops the kernel instead of the program.  On every cause that is not a system call or a device interrupt,
  \<open>usertrap\<close> returns at most for a store to a copy-on-write page.  On a store to any other page (unmapped, read-only,
  out of range) and on every other exception it ends in the panic \<open>cow1\<close> or \<open>cow2\<close>, in the panic of \<open>walk\<close>, in an
  access through the null pointer, or in the error that printing its message runs into; the process is not killed.\<close>

theorem usertrap_stops_kernel:
  assumes "sstatus t AND SSTATUS_SPP = 0" "cur (tsys t) = Some p"
    and "on_sys (tf_set p tf_epc (sepc t)) (t\<lparr>stvec := kernelvec env\<rparr>) = Inr t1"
    and "scause (tsys t) \<notin> {8, 0x8000000000000005, 0x8000000000000009}"
    and "scause (tsys t) = 15 \<Longrightarrow> \<not> cow_page (p_pagetable (procs (tsys t) p)) (stval t) (kst (tsys t1))"
  shows "\<exists>e. usertrap env swtch k pad t = Inl e \<and>
    (e \<in> {Panic ''cow1'', Panic ''cow2'', Panic ''walk'', WildAccess} \<or> fault_message p (tsys t1) = Inl e)"
proof -
  have t1: "scause (tsys t1) = scause (tsys t)" "procs (tsys t1) = procs (tsys t)" "stval t1 = stval t"
    using assms(3) by (auto simp: on_sys_def tf_set_def in_mem_def result_iff)
  have d: "devintr env t1 = Inr (0, t1)" using assms(4) t1(1) by (simp add: devintr_def)
  let ?c = "cow_fault_handler (scause (tsys t1)) (p_pagetable (procs (tsys t1) p)) (stval t1) (kst (tsys t1))"
  let ?ok = "\<lambda>m. \<exists>e. m = Inl e \<and> (e \<in> {Panic ''cow1'', Panic ''cow2'', Panic ''walk'', WildAccess} \<or> fault_message p (tsys t1) = Inl e)"
  have msg: "?ok (rbind (fault_message p (tsys t1)) (\<lambda>_. Inl (Panic x)))" if "x \<in> {''cow1'', ''cow2''}" for x
    using that by (cases "fault_message p (tsys t1)") auto
  have "usertrap_cause env swtch k pad p t1 =
    (if scause (tsys t) = 15 then rbind ?c (\<lambda>(r, ks). if r = -1 then rbind (fault_message p ((tsys t1)\<lparr>kst := ks\<rparr>)) (\<lambda>_. Inl (Panic ''cow1''))
       else Inr (0, True, t1\<lparr>tsys := (tsys t1)\<lparr>kst := ks\<rparr>\<rparr>))
     else rbind (fault_message p (tsys t1)) (\<lambda>_. Inl (Panic ''cow2'')))"
    using assms(4) t1(1) d by (cases ?c) (auto simp: usertrap_cause_def in_memr_def)
  then have "?ok (usertrap_cause env swtch k pad p t1)"
    using msg [of "''cow1''"] msg [of "''cow2''"] not_cow_page [OF assms(5), of "scause (tsys t1)"] t1
    by (cases "scause (tsys t) = 15") (simp_all, elim disjE, simp_all)
  then show ?thesis using assms(1-3) by (auto simp: usertrap_def myproc_def)
qed

definition demo_fault :: trapst where
  "demo_fault = \<lparr>tsys = demo_sys\<lparr>procs := (procs demo_sys)(1 := (procs demo_sys 1)\<lparr>p_trapframe := 0x87FFE000\<rparr>), scause := 13\<rparr>, tdisk = demo_vdisk,
    sstatus = 0, sepc = 0, stval = 0, stvec = 0, satp = 0, stimecmp = 0, plic_writes = [], kernel_pagetable = 0, started = True\<rparr>"

definition demo_env :: trap_env where
  "demo_env = \<lparr>r_time = 0, claimed = 0, uart_input = [], disk_status = 0, disk_regs = (\<lambda>_. 0), kernelvec = 0, uservec = 0, userret = 0,
    usertrap_pc = 0, etext = 0\<rparr>"

theorem usertrap_stops_kernel_witness:
  "\<exists>e. usertrap demo_env Inr 0 [] demo_fault = Inl e"
proof -
  obtain t1 where t1: "on_sys (tf_set 1 tf_epc (sepc demo_fault)) (demo_fault\<lparr>stvec := kernelvec demo_env\<rparr>) = Inr t1"
    by (simp add: on_sys_def tf_set_def in_mem_def st64_def ram_range_def demo_fault_def demo_sys_def tf_epc_def layout_defs)
  show ?thesis
    using usertrap_stops_kernel [OF _ _ t1, of Inr 0 "[]"] by (auto simp: demo_fault_def demo_sys_def)
qed

end
